(* ===== verification/Prelude.thy ===== *)
theory Prelude
  imports Main "HOL-Library.Sublist" "HOL-Library.AList" "HOL-Library.Multiset"
begin

text \<open>
  What every component of the model shares: the parts of Go's \<^verbatim>\<open>strings\<close>,
  \<^verbatim>\<open>strconv\<close> and \<^verbatim>\<open>fmt\<close> packages the program uses (a Go string is a byte
  string, here a \<^typ>\<open>string\<close>), decimal printing, Go's map iteration order as an
  arbitrary permutation chosen by a seed, and the lemmas on prefixes and separators
  that the naming schemes rest on. Two limits: \<open>to_lower\<close> and \<open>trim_space\<close> are the
  ASCII part of their Go functions (the strings they meet are protocol names and IP
  addresses).
\<close>

section \<open>Strings\<close>

named_theorems gostr \<open>unfolding of the string functions\<close>

text \<open>\<^verbatim>\<open>strings.HasPrefix\<close>, \<^verbatim>\<open>HasSuffix\<close>, \<^verbatim>\<open>TrimPrefix\<close>, \<^verbatim>\<open>TrimSuffix\<close>, \<^verbatim>\<open>Contains\<close>.\<close>

definition has_prefix :: "string \<Rightarrow> string \<Rightarrow> bool" where
  "has_prefix s p = prefix p s"

definition has_suffix :: "string \<Rightarrow> string \<Rightarrow> bool" where
  "has_suffix s p = (length p \<le> length s \<and> drop (length s - length p) s = p)"

definition trim_prefix :: "string \<Rightarrow> string \<Rightarrow> string" where
  "trim_prefix s p = (if has_prefix s p then drop (length p) s else s)"

definition trim_suffix :: "string \<Rightarrow> string \<Rightarrow> string" where
  "trim_suffix s p = (if has_suffix s p then take (length s - length p) s else s)"

fun str_contains :: "string \<Rightarrow> string \<Rightarrow> bool" where
  "str_contains [] p = (p = [])"
| "str_contains (x # xs) p = (prefix p (x # xs) \<or> str_contains xs p)"

lemma has_prefix_append [simp]: "has_prefix (p @ s) p"
  by (simp add: has_prefix_def)

lemma trim_prefix_append [simp]: "trim_prefix (p @ s) p = s"
  by (simp add: trim_prefix_def has_prefix_def)

lemma has_prefixE:
  assumes "has_prefix s p"
  obtains r where "s = p @ r"
  using assms by (auto simp: has_prefix_def prefix_def)

lemma has_suffix_iff: "has_suffix s p \<longleftrightarrow> (\<exists>r. s = r @ p)"
proof
  assume "has_suffix s p"
  then have "s = take (length s - length p) s @ p"
    by (metis append_take_drop_id has_suffix_def)
  then show "\<exists>r. s = r @ p" ..
qed (auto simp: has_suffix_def)

lemma has_suffix_append [simp]: "has_suffix (s @ p) p"
  by (auto simp: has_suffix_iff)

lemma trim_suffix_append [simp]: "trim_suffix (s @ p) p = s"
  by (simp add: trim_suffix_def)

lemma str_contains_char: "str_contains s [c] \<longleftrightarrow> c \<in> set s"
  by (induction s) auto

text \<open>\<^verbatim>\<open>strings.IndexByte\<close>, \<^verbatim>\<open>SplitN\<close> and \<^verbatim>\<open>Split\<close> at a one-byte separator.\<close>

fun cut :: "char \<Rightarrow> string \<Rightarrow> (string \<times> string) option" where
  "cut c [] = None"
| "cut c (x # xs) = (if x = c then Some ([], xs) else map_option (\<lambda>(a, b). (x # a, b)) (cut c xs))"

definition index_byte :: "string \<Rightarrow> char \<Rightarrow> int" where
  "index_byte s c = (case cut c s of None \<Rightarrow> -1 | Some (a, _) \<Rightarrow> int (length a))"

fun split_n :: "char \<Rightarrow> nat \<Rightarrow> string \<Rightarrow> string list" where
  "split_n c 0 s = []"
| "split_n c (Suc 0) s = [s]"
| "split_n c (Suc (Suc n)) s = (case cut c s of None \<Rightarrow> [s] | Some (a, b) \<Rightarrow> a # split_n c (Suc n) b)"

fun split_all :: "char \<Rightarrow> string \<Rightarrow> string list" where
  "split_all c [] = [[]]"
| "split_all c (x # xs) =
     (if x = c then [] # split_all c xs
      else (case split_all c xs of [] \<Rightarrow> [[x]] | y # ys \<Rightarrow> (x # y) # ys))"

lemma cut_None [simp]: "cut c s = None \<longleftrightarrow> c \<notin> set s"
  by (induction s) auto

lemma cut_append [simp]: "c \<notin> set a \<Longrightarrow> cut c (a @ c # b) = Some (a, b)"
  by (induction a) auto

lemma cut_SomeD: "cut c s = Some (a, b) \<Longrightarrow> s = a @ c # b \<and> c \<notin> set a"
  by (induction s arbitrary: a) (auto split: if_splits)

lemma cut_Some: "cut c s = Some (a, b) \<longleftrightarrow> s = a @ c # b \<and> c \<notin> set a"
  by (metis cut_SomeD cut_append)

lemma index_byte_append [simp]: "c \<notin> set a \<Longrightarrow> index_byte (a @ c # b) c = int (length a)"
  by (simp add: index_byte_def)

lemma index_byte_Some:
  assumes "index_byte s c = int n"
  shows "\<exists>b. s = take n s @ c # b \<and> c \<notin> set (take n s) \<and> length (take n s) = n"
  using assms by (auto simp: index_byte_def cut_Some split: option.splits)

lemma split_n_append [simp]:
  "c \<notin> set a \<Longrightarrow> split_n c (Suc (Suc n)) (a @ c # b) = a # split_n c (Suc n) b"
  by simp

text \<open>\<^verbatim>\<open>strings.ToLower\<close>, \<^verbatim>\<open>strings.TrimSpace\<close>, and \<^verbatim>\<open>ReplaceAll\<close> of one byte.\<close>

definition lower_char :: "char \<Rightarrow> char" where
  "lower_char c = (let n = (of_char c :: nat) in if 65 \<le> n \<and> n \<le> 90 then char_of (n + 32) else c)"

definition to_lower :: "string \<Rightarrow> string" where
  "to_lower = map lower_char"

definition is_space :: "char \<Rightarrow> bool" where
  "is_space c = (let n = (of_char c :: nat) in (9 \<le> n \<and> n \<le> 13) \<or> n = 32)"

definition trim_space :: "string \<Rightarrow> string" where
  "trim_space s = rev (dropWhile is_space (rev (dropWhile is_space s)))"

definition replace_char :: "char \<Rightarrow> char \<Rightarrow> string \<Rightarrow> string" where
  "replace_char a b = map (\<lambda>c. if c = a then b else c)"

section \<open>Decimal numbers\<close>

text \<open>\<^verbatim>\<open>%d\<close> of \<^verbatim>\<open>fmt\<close>, on integers.\<close>

definition digit :: "nat \<Rightarrow> char" where
  "digit d = char_of (48 + d)"

definition is_digit :: "char \<Rightarrow> bool" where
  "is_digit c = (let n = (of_char c :: nat) in 48 \<le> n \<and> n \<le> 57)"

definition digit_val :: "char \<Rightarrow> nat" where
  "digit_val c = of_char c - 48"

fun digits :: "nat \<Rightarrow> string" where
  "digits n = (if n < 10 then [digit n] else digits (n div 10) @ [digit (n mod 10)])"

declare digits.simps [simp del]

definition itoa :: "int \<Rightarrow> string" where
  "itoa i = (if i < 0 then CHR ''-'' # digits (nat (- i)) else digits (nat i))"

definition undigits :: "string \<Rightarrow> nat" where
  "undigits s = foldl (\<lambda>a c. 10 * a + digit_val c) 0 s"

lemma digit_val_digit [simp]: "d < 10 \<Longrightarrow> digit_val (digit d) = d"
  by (simp add: digit_val_def digit_def)

lemma is_digit_digit [simp]: "d < 10 \<Longrightarrow> is_digit (digit d)"
  by (simp add: is_digit_def digit_def Let_def)

lemma digits_nonempty [simp]: "digits n \<noteq> []"
  by (subst digits.simps) simp

lemma digits_are_digits: "list_all is_digit (digits n)"
proof (induction n rule: digits.induct)
  case (1 n)
  then show ?case by (cases "n < 10") (simp_all add: digits.simps [of n])
qed

lemma undigits_digits [simp]: "undigits (digits n) = n"
proof (induction n rule: digits.induct)
  case (1 n)
  show ?case
  proof (cases "n < 10")
    case True
    then show ?thesis by (simp add: digits.simps [of n] undigits_def)
  next
    case False
    with 1 show ?thesis by (simp add: digits.simps [of n] undigits_def)
  qed
qed

lemma digits_inj [simp]: "digits m = digits n \<longleftrightarrow> m = n"
  by (metis undigits_digits)

lemma not_is_digit [simp]:
  "\<not> is_digit (CHR ''-'')" "\<not> is_digit (CHR '':'')" "\<not> is_digit (CHR ''/'')" "\<not> is_digit (CHR ''.'')"
  by (simp_all add: is_digit_def Let_def)

lemma notin_digits: "\<not> is_digit c \<Longrightarrow> c \<notin> set (digits n)"
  using digits_are_digits [of n] by (auto simp: list_all_iff)

lemma notin_itoa: "\<not> is_digit c \<Longrightarrow> c \<noteq> CHR ''-'' \<Longrightarrow> c \<notin> set (itoa i)"
  by (simp add: itoa_def notin_digits)

lemma itoa_inj [simp]: "itoa i = itoa j \<longleftrightarrow> i = j"
proof
  have head: "digits n \<noteq> CHR ''-'' # s" "CHR ''-'' # s \<noteq> digits n" for n s
    using notin_digits [of "CHR ''-''" n] by (metis list.set_intros(1) not_is_digit(1))+
  assume "itoa i = itoa j"
  then show "i = j"
    by (auto simp: itoa_def head split: if_splits)
qed simp

section \<open>Quoted strings\<close>

text \<open>
  \<^verbatim>\<open>%q\<close> of \<^verbatim>\<open>fmt\<close>, on ASCII: quotes and backslashes are escaped, the
  control characters written as Go writes them.
\<close>

definition hex_digit :: "nat \<Rightarrow> char" where
  "hex_digit n = (if n < 10 then digit n else char_of (87 + n))"

definition quote_char :: "char \<Rightarrow> string" where
  "quote_char c =
     (let n = (of_char c :: nat) in
      if n = 34 \<or> n = 92 then [CHR 0x5C, c]
      else if 7 \<le> n \<and> n \<le> 13 then [CHR 0x5C, ''abtnvfr'' ! (n - 7)]
      else if n < 32 \<or> n = 127 then [CHR 0x5C, CHR ''x'', hex_digit (n div 16), hex_digit (n mod 16)]
      else [c])"

definition quoted :: "string \<Rightarrow> string" where
  "quoted s = CHR 0x22 # concat (map quote_char s) @ [CHR 0x22]"

text \<open>\<^verbatim>\<open>strconv.Atoi\<close>: an optional sign and at least one digit, in the range of 64 bits.\<close>

definition atoi :: "string \<Rightarrow> int option" where
  "atoi s =
     (let (neg, ds) = (case s of
          [] \<Rightarrow> (False, [])
        | c # r \<Rightarrow> if c = CHR ''-'' then (True, r) else if c = CHR ''+'' then (False, r) else (False, s));
        v = (if neg then - int (undigits ds) else int (undigits ds))
      in if ds \<noteq> [] \<and> list_all is_digit ds \<and> - (2 ^ 63) \<le> v \<and> v < 2 ^ 63 then Some v else None)"

lemma atoi_itoa: "0 \<le> p \<Longrightarrow> p < 2 ^ 63 \<Longrightarrow> atoi (itoa p) = Some p"
proof -
  assume p: "0 \<le> p" "p < 2 ^ 63"
  obtain c r where d: "digits (nat p) = c # r" by (cases "digits (nat p)") auto
  have "c \<noteq> CHR ''-''" "c \<noteq> CHR ''+''"
    using digits_are_digits [of "nat p"] d by (auto simp: is_digit_def Let_def)
  moreover have "undigits (c # r) = nat p" using undigits_digits [of "nat p"] d by simp
  moreover have "list_all is_digit (c # r)" using digits_are_digits [of "nat p"] d by simp
  ultimately show ?thesis using p by (simp add: atoi_def itoa_def d Let_def)
qed

text \<open>\<^verbatim>\<open>strings.Join\<close>.\<close>

fun join :: "string \<Rightarrow> string list \<Rightarrow> string" where
  "join sep [] = []"
| "join sep [x] = x"
| "join sep (x # y # xs) = x @ sep @ join sep (y # xs)"

section \<open>Separators in prefixes\<close>

text \<open>
  Two concatenations that end their first part with a separator the first parts do not
  contain are equal only part by part; the same when one is a prefix of the other.
\<close>

lemma sep_append_eq:
  fixes a b x y :: string
  assumes "c \<notin> set a" "c \<notin> set b" "a @ c # x = b @ c # y"
  shows "a = b \<and> x = y"
proof -
  have "Some (a, x) = cut c (a @ c # x)" by (rule cut_append [OF assms(1), symmetric])
  also have "\<dots> = cut c (b @ c # y)" by (simp only: assms(3))
  also have "\<dots> = Some (b, y)" by (rule cut_append [OF assms(2)])
  finally show ?thesis by simp
qed

lemma sep_prefix:
  fixes a b x y :: string
  assumes "c \<notin> set a" "c \<notin> set b" "prefix (a @ c # x) (b @ c # y)"
  shows "a = b \<and> prefix x y"
proof -
  from assms(3) obtain z where "b @ c # y = a @ c # (x @ z)"
    by (auto simp: prefix_def)
  from sep_append_eq [OF assms(2,1) this] have "b = a \<and> y = x @ z" .
  then show ?thesis by (simp add: prefix_def)
qed

section \<open>Go maps\<close>

text \<open>
  A Go map is an association list with distinct keys, updated with \<^const>\<open>AList.update\<close>
  and read with \<^const>\<open>map_of\<close>. \<^verbatim>\<open>for k, v := range m\<close> visits its entries in an
  unspecified order: the environment supplies a seed, and \<open>pick_order\<close> turns a seed into
  a permutation of the entries; every permutation has a seed.
\<close>

fun pick_order :: "nat list \<Rightarrow> 'a list \<Rightarrow> 'a list" where
  "pick_order ns [] = []"
| "pick_order [] (x # xs) = x # xs"
| "pick_order (n # ns) (x # xs) =
     (let l = x # xs; i = n mod length l in l ! i # pick_order ns (take i l @ drop (Suc i) l))"

lemma pick_order_Nil1 [simp]: "pick_order [] xs = xs"
  by (cases xs) simp_all

lemma mset_take_nth_drop:
  "i < length l \<Longrightarrow> mset l = add_mset (l ! i) (mset (take i l @ drop (Suc i) l))"
  by (drule id_take_nth_drop, drule arg_cong [where f = mset]) simp

lemma mset_pick_order [simp]: "mset (pick_order ns xs) = mset xs"
proof (induction ns xs rule: pick_order.induct)
  case (3 n ns x xs)
  define l where "l = x # xs"
  define i where "i = n mod length l"
  have "i < length l" by (simp add: i_def l_def)
  have "pick_order (n # ns) (x # xs) = l ! i # pick_order ns (take i l @ drop (Suc i) l)"
    by (simp only: pick_order.simps Let_def l_def i_def)
  then have "mset (pick_order (n # ns) (x # xs)) = add_mset (l ! i) (mset (take i l @ drop (Suc i) l))"
    using 3 [OF l_def i_def] by simp
  also have "\<dots> = mset l" using \<open>i < length l\<close> by (rule mset_take_nth_drop [symmetric])
  finally show ?case by (simp add: l_def)
qed simp_all

lemma set_pick_order [simp]: "set (pick_order ns xs) = set xs"
  by (metis mset_pick_order set_mset_mset)

lemma length_pick_order [simp]: "length (pick_order ns xs) = length xs"
  by (metis mset_pick_order size_mset)

lemma distinct_pick_order [simp]: "distinct (pick_order ns xs) = distinct xs"
  by (metis mset_pick_order mset_eq_imp_distinct_iff)

lemma pick_order_complete:
  assumes "mset ys = mset xs"
  shows "\<exists>ns. pick_order ns xs = ys"
  using assms
proof (induction ys arbitrary: xs)
  case Nil
  then show ?case by simp
next
  case (Cons y ys)
  then have "y \<in> set xs" by (metis list.set_intros(1) set_mset_mset)
  then obtain i where i: "i < length xs" "xs ! i = y" by (metis in_set_conv_nth)
  with Cons.prems mset_take_nth_drop [OF i(1)] have "mset ys = mset (take i xs @ drop (Suc i) xs)"
    by simp
  then obtain ns where "pick_order ns (take i xs @ drop (Suc i) xs) = ys"
    using Cons.IH by metis
  with i have "pick_order (i # ns) xs = y # ys"
    by (cases xs) (auto simp: Let_def)
  then show ?case ..
qed

lemma map_of_update [simp]: "map_of (AList.update k v al) = (map_of al)(k \<mapsto> v)"
  by (simp add: update_conv')

text \<open>
  A map filled by a loop that stores \<open>vf x\<close> under \<open>kf x\<close> for every \<open>x\<close> that passes \<open>P\<close>;
  a later entry replaces an earlier one with its key.
\<close>

definition map_build :: "('x \<Rightarrow> bool) \<Rightarrow> ('x \<Rightarrow> 'k) \<Rightarrow> ('x \<Rightarrow> 'v) \<Rightarrow> 'x list \<Rightarrow> ('k \<times> 'v) list" where
  "map_build P kf vf xs = fold (\<lambda>x m. if P x then AList.update (kf x) (vf x) m else m) xs []"

lemma distinct_fold_update:
  "distinct (map fst m) \<Longrightarrow>
     distinct (map fst (fold (\<lambda>x m. if P x then AList.update (kf x) (vf x) m else m) xs m))"
  by (induction xs arbitrary: m) (auto simp: distinct_update)

lemma distinct_map_build [simp]: "distinct (map fst (map_build P kf vf xs))"
  by (simp add: map_build_def distinct_fold_update)

lemma fold_update_Some:
  "map_of (fold (\<lambda>x m. if P x then AList.update (kf x) (vf x) m else m) xs m) k = Some v \<Longrightarrow>
     map_of m k = Some v \<or> (\<exists>x. x \<in> set xs \<and> P x \<and> kf x = k \<and> vf x = v)"
proof (induction xs arbitrary: m)
  case (Cons x xs)
  from Cons.prems
  have "map_of (if P x then AList.update (kf x) (vf x) m else m) k = Some v \<or>
      (\<exists>y. y \<in> set xs \<and> P y \<and> kf y = k \<and> vf y = v)"
    by (intro Cons.IH) simp
  then show ?case by (auto split: if_split_asm)
qed simp

lemma fold_update_dom:
  "dom (map_of (fold (\<lambda>x m. if P x then AList.update (kf x) (vf x) m else m) xs m)) =
     dom (map_of m) \<union> kf ` {x \<in> set xs. P x}"
proof (induction xs arbitrary: m)
  case (Cons x xs)
  have "dom (map_of (fold (\<lambda>x m. if P x then AList.update (kf x) (vf x) m else m) (x # xs) m)) =
      dom (map_of (if P x then AList.update (kf x) (vf x) m else m)) \<union> kf ` {y \<in> set xs. P y}"
    by (simp only: fold_simps comp_def Cons.IH)
  also have "\<dots> = dom (map_of m) \<union> kf ` {y \<in> set (x # xs). P y}"
    by auto
  finally show ?case .
qed simp

lemma map_build_Some:
  "map_of (map_build P kf vf xs) k = Some v \<Longrightarrow> \<exists>x. x \<in> set xs \<and> P x \<and> kf x = k \<and> vf x = v"
  unfolding map_build_def by (drule fold_update_Some) simp

lemma map_build_dom: "dom (map_of (map_build P kf vf xs)) = kf ` {x \<in> set xs. P x}"
  by (simp only: map_build_def fold_update_dom) simp

lemma map_build_mem:
  "(k, v) \<in> set (map_build P kf vf xs) \<Longrightarrow> \<exists>x. x \<in> set xs \<and> P x \<and> kf x = k \<and> vf x = v"
  by (rule map_build_Some) (simp add: map_of_is_SomeI)

text \<open>When keys are unique, every entry is kept.\<close>

lemma map_build_unique:
  assumes "x \<in> set xs" "P x"
    and "\<And>y. y \<in> set xs \<Longrightarrow> P y \<Longrightarrow> kf y = kf x \<Longrightarrow> vf y = vf x"
  shows "map_of (map_build P kf vf xs) (kf x) = Some (vf x)"
proof -
  have "kf x \<in> dom (map_of (map_build P kf vf xs))"
    using assms(1,2) by (subst map_build_dom) auto
  then obtain v where v: "map_of (map_build P kf vf xs) (kf x) = Some v" by auto
  with map_build_Some [OF v] assms(3) show ?thesis by auto
qed

lemma fold_nested:
  "fold (\<lambda>x. fold (f x) (ys x)) xs = fold (\<lambda>(x, y). f x y) (concat (map (\<lambda>x. map (Pair x) (ys x)) xs))"
proof (induction xs)
  case (Cons x xs)
  have "fold (\<lambda>(x, y). f x y) (map (Pair x) l) = fold (f x) l" for l
    by (induction l) auto
  with Cons show ?case by (simp add: fun_eq_iff)
qed simp

text \<open>A lookup in a \<^verbatim>\<open>map[string]string\<close> with the zero value for a missing key.\<close>

definition str_at :: "(string \<rightharpoonup> string) \<Rightarrow> string \<Rightarrow> string" where
  "str_at m k = (case m k of None \<Rightarrow> '''' | Some v \<Rightarrow> v)"


end
