(* ===== verification/Effects.thy ===== *)
theory Effects
  imports Prelude
begin

text \<open>
  How effectful Go code is modelled. A function that calls the outside world (OpenStack,
  an API server, a connection) takes an environment of typed functions, one per remote
  call, and runs on a state: the world those functions act on, of any type, and the trace
  of the calls made so far, each with its arguments and its outcome. A Go pair
  \<^verbatim>\<open>(x, err)\<close> is a sum, the error on the left. Nothing is assumed of the environment, so a
  property of the trace holds against every behaviour of the outside world; properties
  that need a law of the outside world name it as a hypothesis.
\<close>

section \<open>Errors\<close>

text \<open>
  An error of a remote call carries what the program reads of it: whether the API
  machinery reports it as NotFound, and its message. \<^verbatim>\<open>errors.New\<close> is \<open>Msg\<close>,
  \<^verbatim>\<open>errors.Wrap\<close> is \<open>Wrap\<close>.
\<close>

datatype api_err = ApiErr (ae_not_found: bool) (ae_text: string)

datatype err = Api api_err | Msg string | Wrap string err

fun err_text :: "err \<Rightarrow> string" where
  "err_text (Api a) = ae_text a"
| "err_text (Msg m) = m"
| "err_text (Wrap m e) = m @ '': '' @ err_text e"

fun unwrap_all :: "err \<Rightarrow> err" where
  "unwrap_all (Wrap m e) = unwrap_all e"
| "unwrap_all e = e"

text \<open>\<^verbatim>\<open>apierrors.IsNotFound\<close> on an error that came straight from a client call.\<close>

fun api_not_found :: "err \<Rightarrow> bool" where
  "api_not_found (Api a) = ae_not_found a"
| "api_not_found e = False"

section \<open>Programs over a traced world\<close>

record ('w, 'e) st =
  world :: 'w
  trace :: "'e list"

type_synonym ('w, 'e, 'a) io = "('w, 'e) st \<Rightarrow> (err + 'a) \<times> ('w, 'e) st"

definition ret :: "'a \<Rightarrow> ('w, 'e, 'a) io" where
  "ret x s = (Inr x, s)"

definition throw :: "err \<Rightarrow> ('w, 'e, 'a) io" where
  "throw e s = (Inl e, s)"

text \<open>\<open>attempt\<close> hands the outcome, error or value, to the continuation.\<close>

definition attempt :: "('w, 'e, 'a) io \<Rightarrow> (err + 'a \<Rightarrow> ('w, 'e, 'b) io) \<Rightarrow> ('w, 'e, 'b) io" where
  "attempt m f s = (case m s of (r, s') \<Rightarrow> f r s')"

text \<open>
  \<open>bind m f\<close> is \<^verbatim>\<open>x, err := m(); if err != nil { return err }\<close>, and \<open>check msg m f\<close>
  the same with \<^verbatim>\<open>return errors.Wrap(err, msg)\<close>.
\<close>

definition bind :: "('w, 'e, 'a) io \<Rightarrow> ('a \<Rightarrow> ('w, 'e, 'b) io) \<Rightarrow> ('w, 'e, 'b) io" where
  "bind m f = attempt m (\<lambda>r. case r of Inl e \<Rightarrow> throw e | Inr x \<Rightarrow> f x)"

definition check :: "string \<Rightarrow> ('w, 'e, 'a) io \<Rightarrow> ('a \<Rightarrow> ('w, 'e, 'b) io) \<Rightarrow> ('w, 'e, 'b) io" where
  "check msg m f = attempt m (\<lambda>r. case r of Inl e \<Rightarrow> throw (Wrap msg e) | Inr x \<Rightarrow> f x)"

text \<open>One remote call: it changes the world and is recorded with its outcome.\<close>

definition call :: "('w \<Rightarrow> 'r \<times> 'w) \<Rightarrow> ('r \<Rightarrow> 'e) \<Rightarrow> ('w, 'e, 'r) io" where
  "call f ev s = (case f (world s) of (r, w) \<Rightarrow> (Inr r, \<lparr>world = w, trace = trace s @ [ev r]\<rparr>))"

text \<open>Outcomes of remote calls as Go errors.\<close>

definition lift_sum :: "api_err + 'a \<Rightarrow> ('w, 'e, 'a) io" where
  "lift_sum r = (case r of Inl a \<Rightarrow> throw (Api a) | Inr x \<Rightarrow> ret x)"

definition lift_opt :: "api_err option \<Rightarrow> ('w, 'e, unit) io" where
  "lift_opt r = (case r of Some a \<Rightarrow> throw (Api a) | None \<Rightarrow> ret ())"

definition call_val :: "('w \<Rightarrow> (api_err + 'a) \<times> 'w) \<Rightarrow> (api_err + 'a \<Rightarrow> 'e) \<Rightarrow> ('w, 'e, 'a) io" where
  "call_val f ev = bind (call f ev) lift_sum"

definition call_unit :: "('w \<Rightarrow> api_err option \<times> 'w) \<Rightarrow> (api_err option \<Rightarrow> 'e) \<Rightarrow> ('w, 'e, unit) io" where
  "call_unit f ev = bind (call f ev) lift_opt"

text \<open>
  A draw of the environment that leaves no trace: the seed of a map iteration.
\<close>

definition draw :: "('w \<Rightarrow> 'r \<times> 'w) \<Rightarrow> ('w, 'e, 'r) io" where
  "draw f s = (case f (world s) of (r, w) \<Rightarrow> (Inr r, s\<lparr>world := w\<rparr>))"

text \<open>
  Loops: \<open>foreach\<close> returns at the first error, \<open>foreach_until\<close> also at the first
  iteration that produces a value (a \<^verbatim>\<open>return\<close> inside the loop).
\<close>

fun foreach :: "'x list \<Rightarrow> ('x \<Rightarrow> ('w, 'e, unit) io) \<Rightarrow> ('w, 'e, unit) io" where
  "foreach [] f = ret ()"
| "foreach (x # xs) f = bind (f x) (\<lambda>_. foreach xs f)"

fun foreach_until :: "'x list \<Rightarrow> ('x \<Rightarrow> ('w, 'e, 'a option) io) \<Rightarrow> ('w, 'e, 'a option) io" where
  "foreach_until [] f = ret None"
| "foreach_until (x # xs) f =
     bind (f x) (\<lambda>r. case r of Some y \<Rightarrow> ret (Some y) | None \<Rightarrow> foreach_until xs f)"

fun fold_io :: "'x list \<Rightarrow> ('x \<Rightarrow> 'a \<Rightarrow> ('w, 'e, 'a) io) \<Rightarrow> 'a \<Rightarrow> ('w, 'e, 'a) io" where
  "fold_io [] f a = ret a"
| "fold_io (x # xs) f a = bind (f x a) (\<lambda>a'. fold_io xs f a')"

section \<open>Paged listings\<close>

text \<open>
  A paged listing is what the service answers: its pages in order, a page being its items
  or the error of fetching or decoding it. \<^verbatim>\<open>Pager.EachPage\<close> hands the pages to a handler
  one by one and returns at the first error, or when the handler asks it to stop.
  \<open>pages_items\<close> is the loop whose handler keeps every item, \<open>pages_find\<close> the loop whose
  handler stops at the first item that fits, and \<open>each_page\<close> the loop whose handler has
  effects and carries an accumulator.
\<close>

type_synonym 'a pager = "(api_err + 'a list) list"

fun pages_items :: "'a pager \<Rightarrow> api_err + 'a list" where
  "pages_items [] = Inr []"
| "pages_items (Inl e # ps) = Inl e"
| "pages_items (Inr xs # ps) = (case pages_items ps of Inl e \<Rightarrow> Inl e | Inr ys \<Rightarrow> Inr (xs @ ys))"

fun pages_find :: "('a \<Rightarrow> bool) \<Rightarrow> 'a pager \<Rightarrow> api_err + 'a option" where
  "pages_find P [] = Inr None"
| "pages_find P (Inl e # ps) = Inl e"
| "pages_find P (Inr xs # ps) = (case find P xs of Some x \<Rightarrow> Inr (Some x) | None \<Rightarrow> pages_find P ps)"

fun each_page :: "'a pager \<Rightarrow> ('a list \<Rightarrow> 'b \<Rightarrow> ('w, 'e, 'b) io) \<Rightarrow> 'b \<Rightarrow> ('w, 'e, 'b) io" where
  "each_page [] f b = ret b"
| "each_page (Inl e # ps) f b = throw (Api e)"
| "each_page (Inr xs # ps) f b = bind (f xs b) (\<lambda>b'. each_page ps f b')"

text \<open>The items of a listing up to its first error.\<close>

fun pages_seen :: "'a pager \<Rightarrow> 'a list" where
  "pages_seen [] = []"
| "pages_seen (Inl e # ps) = []"
| "pages_seen (Inr xs # ps) = xs @ pages_seen ps"

text \<open>Listing calls followed by these loops.\<close>

definition call_items :: "('w \<Rightarrow> 'a pager \<times> 'w) \<Rightarrow> ('a pager \<Rightarrow> 'e) \<Rightarrow> ('w, 'e, 'a list) io" where
  "call_items f ev = bind (call f ev) (\<lambda>p. lift_sum (pages_items p))"

definition call_find ::
  "('a \<Rightarrow> bool) \<Rightarrow> ('w \<Rightarrow> 'a pager \<times> 'w) \<Rightarrow> ('a pager \<Rightarrow> 'e) \<Rightarrow> ('w, 'e, 'a option) io" where
  "call_find P f ev = bind (call f ev) (\<lambda>p. lift_sum (pages_find P p))"

lemma pages_items_seen: "pages_items p = Inr xs \<Longrightarrow> pages_seen p = xs"
  by (induction p arbitrary: xs rule: pages_items.induct) (auto split: sum.splits)

lemma pages_find_Some:
  "pages_find P p = Inr (Some x) \<Longrightarrow> P x \<and> x \<in> set (pages_seen p)"
  by (induction P p rule: pages_find.induct)
     (auto split: option.splits simp: find_Some_iff)

lemma pages_find_None:
  "pages_find P p = Inr None \<Longrightarrow> x \<in> set (pages_seen p) \<Longrightarrow> \<not> P x"
  by (induction P p rule: pages_find.induct)
     (auto split: option.splits simp: find_None_iff)

section \<open>Reasoning about runs\<close>

text \<open>
  \<open>wp m Q s\<close>: the run of \<open>m\<close> from \<open>s\<close> ends in an outcome and a state that satisfy \<open>Q\<close>.
  Its equations compute through a program, one combinator at a time.
\<close>

definition wp :: "('w, 'e, 'a) io \<Rightarrow> (err + 'a \<Rightarrow> ('w, 'e) st \<Rightarrow> bool) \<Rightarrow> ('w, 'e) st \<Rightarrow> bool" where
  "wp m Q s = (case m s of (r, s') \<Rightarrow> Q r s')"

named_theorems wp_simps \<open>equations of wp\<close>

lemma wp_ret [wp_simps]: "wp (ret x) Q s = Q (Inr x) s"
  by (simp add: wp_def ret_def)

lemma wp_throw [wp_simps]: "wp (throw e) Q s = Q (Inl e) s"
  by (simp add: wp_def throw_def)

lemma wp_attempt [wp_simps]: "wp (attempt m f) Q s = wp m (\<lambda>r. wp (f r) Q) s"
  by (simp add: wp_def attempt_def split: prod.splits)

lemma wp_bind [wp_simps]:
  "wp (bind m f) Q s = wp m (\<lambda>r s'. case r of Inl e \<Rightarrow> Q (Inl e) s' | Inr x \<Rightarrow> wp (f x) Q s') s"
  by (simp add: bind_def wp_def attempt_def throw_def split: prod.splits sum.splits)

lemma wp_check [wp_simps]:
  "wp (check msg m f) Q s =
     wp m (\<lambda>r s'. case r of Inl e \<Rightarrow> Q (Inl (Wrap msg e)) s' | Inr x \<Rightarrow> wp (f x) Q s') s"
  by (simp add: check_def wp_def attempt_def throw_def split: prod.splits sum.splits)

lemma wp_call [wp_simps]:
  "wp (call f ev) Q s =
     Q (Inr (fst (f (world s)))) \<lparr>world = snd (f (world s)), trace = trace s @ [ev (fst (f (world s)))]\<rparr>"
  by (simp add: wp_def call_def split: prod.splits)

lemma wp_draw [wp_simps]:
  "wp (draw f) Q s = Q (Inr (fst (f (world s)))) (s\<lparr>world := snd (f (world s))\<rparr>)"
  by (simp add: wp_def draw_def split: prod.splits)

lemma wp_call_val [wp_simps]:
  "wp (call_val f ev) Q s =
     (case f (world s) of (r, w) \<Rightarrow>
        Q (case r of Inl a \<Rightarrow> Inl (Api a) | Inr x \<Rightarrow> Inr x) \<lparr>world = w, trace = trace s @ [ev r]\<rparr>)"
  by (simp add: call_val_def lift_sum_def wp_simps split: sum.splits prod.splits)

lemma wp_call_unit [wp_simps]:
  "wp (call_unit f ev) Q s =
     (case f (world s) of (r, w) \<Rightarrow>
        Q (case r of Some a \<Rightarrow> Inl (Api a) | None \<Rightarrow> Inr ()) \<lparr>world = w, trace = trace s @ [ev r]\<rparr>)"
  by (simp add: call_unit_def lift_opt_def wp_simps split: option.splits prod.splits)

lemma wp_call_items [wp_simps]:
  "wp (call_items f ev) Q s =
     (case f (world s) of (p, w) \<Rightarrow>
        Q (case pages_items p of Inl a \<Rightarrow> Inl (Api a) | Inr x \<Rightarrow> Inr x)
          \<lparr>world = w, trace = trace s @ [ev p]\<rparr>)"
  by (simp add: call_items_def lift_sum_def wp_simps split: sum.splits prod.splits)

lemma wp_call_find [wp_simps]:
  "wp (call_find P f ev) Q s =
     (case f (world s) of (p, w) \<Rightarrow>
        Q (case pages_find P p of Inl a \<Rightarrow> Inl (Api a) | Inr x \<Rightarrow> Inr x)
          \<lparr>world = w, trace = trace s @ [ev p]\<rparr>)"
  by (simp add: call_find_def lift_sum_def wp_simps split: sum.splits prod.splits)

lemma wp_mono:
  assumes "wp m P s" and "\<And>r s'. P r s' \<Longrightarrow> Q r s'"
  shows "wp m Q s"
  using assms by (auto simp: wp_def split: prod.splits)

text \<open>A loop: an invariant over the elements done so far.\<close>

lemma wp_foreach:
  assumes "I [] s"
    and "\<And>xs1 x xs2 s. xs = xs1 @ x # xs2 \<Longrightarrow> I xs1 s \<Longrightarrow>
       wp (f x) (\<lambda>r s'. case r of Inl e \<Rightarrow> Q (Inl e) s' | Inr _ \<Rightarrow> I (xs1 @ [x]) s') s"
    and "\<And>s. I xs s \<Longrightarrow> Q (Inr ()) s"
  shows "wp (foreach xs f) Q s"
proof -
  have "I xs1 s \<Longrightarrow> xs = xs1 @ xs2 \<Longrightarrow> wp (foreach xs2 f) Q s" for xs1 xs2 s
  proof (induction xs2 arbitrary: xs1 s)
    case Nil
    then show ?case using assms(3) by (simp add: wp_ret)
  next
    case (Cons x xs2)
    from assms(2) [OF Cons.prems(2,1)] show ?case
      by (simp only: foreach.simps wp_bind, rule wp_mono)
         (use Cons in \<open>auto split: sum.splits\<close>)
  qed
  from this [OF assms(1)] show ?thesis by simp
qed

text \<open>
  \<open>every_run m Q\<close>: whatever the environment answers, a run of \<open>m\<close> extends the trace by
  events \<open>evs\<close> and ends in an outcome \<open>r\<close> with \<open>Q evs r\<close>.
\<close>

definition every_run :: "('w, 'e, 'a) io \<Rightarrow> ('e list \<Rightarrow> err + 'a \<Rightarrow> bool) \<Rightarrow> bool" where
  "every_run m Q = (\<forall>s. wp m (\<lambda>r s'. \<exists>evs. trace s' = trace s @ evs \<and> Q evs r) s)"

lemma every_runD:
  assumes "every_run m Q"
  shows "\<exists>evs. trace (snd (m s)) = trace s @ evs \<and> Q evs (fst (m s))"
  using assms by (auto simp: every_run_def wp_def split: prod.splits)

lemma every_run_mono:
  assumes "every_run m P" and "\<And>evs r. P evs r \<Longrightarrow> Q evs r"
  shows "every_run m Q"
  using assms unfolding every_run_def by (blast intro: wp_mono)

lemma every_run_conj:
  assumes "every_run m P" and "every_run m Q"
  shows "every_run m (\<lambda>evs r. P evs r \<and> Q evs r)"
  unfolding every_run_def wp_def
proof (intro allI)
  fix s
  obtain r s' where m: "m s = (r, s')" by fastforce
  with every_runD [OF assms(1), of s] every_runD [OF assms(2), of s] obtain evs evs' where
    "trace s' = trace s @ evs" "P evs r" "trace s' = trace s @ evs'" "Q evs' r"
    by auto
  then show "case m s of (r, s') \<Rightarrow> \<exists>evs. trace s' = trace s @ evs \<and> P evs r \<and> Q evs r"
    by (simp add: m)
qed

named_theorems runs \<open>rules for every_run, one per combinator\<close>

lemma every_run_ret [runs]: "Q [] (Inr x) \<Longrightarrow> every_run (ret x) Q"
  by (simp add: every_run_def wp_simps)

lemma every_run_throw [runs]: "Q [] (Inl e) \<Longrightarrow> every_run (throw e) Q"
  by (simp add: every_run_def wp_simps)

lemma every_run_call [runs]: "(\<And>r. Q [ev r] (Inr r)) \<Longrightarrow> every_run (call f ev) Q"
  by (simp add: every_run_def wp_simps)

lemma every_run_draw [runs]: "(\<And>r. Q [] (Inr r)) \<Longrightarrow> every_run (draw f) Q"
  by (simp add: every_run_def wp_simps)

lemma every_run_attempt [runs]:
  assumes "every_run m (\<lambda>evs r. every_run (f r) (\<lambda>evs'. Q (evs @ evs')))"
  shows "every_run (attempt m f) Q"
  unfolding every_run_def wp_attempt
proof
  fix s
  have "wp m (\<lambda>r s'. \<exists>evs. trace s' = trace s @ evs \<and> every_run (f r) (\<lambda>evs'. Q (evs @ evs'))) s"
    using assms by (simp add: every_run_def)
  then show "wp m (\<lambda>r. wp (f r) (\<lambda>r s'. \<exists>evs. trace s' = trace s @ evs \<and> Q evs r)) s"
    by (rule wp_mono) (auto simp: every_run_def wp_def split: prod.splits, force)
qed

lemma every_run_bind [runs]:
  assumes "every_run m (\<lambda>evs r. case r of Inl e \<Rightarrow> Q evs (Inl e)
                                 | Inr x \<Rightarrow> every_run (f x) (\<lambda>evs'. Q (evs @ evs')))"
  shows "every_run (bind m f) Q"
  unfolding bind_def
  by (rule every_run_attempt, rule every_run_mono [OF assms]) (auto intro: runs split: sum.splits)

lemma every_run_check [runs]:
  assumes "every_run m (\<lambda>evs r. case r of Inl e \<Rightarrow> Q evs (Inl (Wrap msg e))
                                 | Inr x \<Rightarrow> every_run (f x) (\<lambda>evs'. Q (evs @ evs')))"
  shows "every_run (check msg m f) Q"
  unfolding check_def
  by (rule every_run_attempt, rule every_run_mono [OF assms]) (auto intro: runs split: sum.splits)

lemma every_run_call_val [runs]:
  assumes "\<And>a. Q [ev (Inl a)] (Inl (Api a))" and "\<And>x. Q [ev (Inr x)] (Inr x)"
  shows "every_run (call_val f ev) Q"
  unfolding call_val_def lift_sum_def
  using assms by (auto intro!: runs split: sum.splits)

lemma every_run_call_unit [runs]:
  assumes "\<And>a. Q [ev (Some a)] (Inl (Api a))" and "Q [ev None] (Inr ())"
  shows "every_run (call_unit f ev) Q"
  unfolding call_unit_def lift_opt_def
  using assms by (auto intro!: runs split: option.splits)

lemma every_run_call_items [runs]:
  assumes "\<And>p a. pages_items p = Inl a \<Longrightarrow> Q [ev p] (Inl (Api a))"
    and "\<And>p xs. pages_items p = Inr xs \<Longrightarrow> Q [ev p] (Inr xs)"
  shows "every_run (call_items f ev) Q"
  unfolding call_items_def lift_sum_def
  using assms by (auto intro!: runs split: sum.splits)

lemma every_run_call_find [runs]:
  assumes "\<And>p a. pages_find P p = Inl a \<Longrightarrow> Q [ev p] (Inl (Api a))"
    and "\<And>p x. pages_find P p = Inr x \<Longrightarrow> Q [ev p] (Inr x)"
  shows "every_run (call_find P f ev) Q"
  unfolding call_find_def lift_sum_def
  using assms by (auto intro!: runs split: sum.splits)

text \<open>
  \<open>emits P m\<close>: every event of every run satisfies \<open>P\<close>. One rule per combinator, so that
  such a property of a function follows from those of the functions it calls.
\<close>

definition emits :: "('e \<Rightarrow> bool) \<Rightarrow> ('w, 'e, 'a) io \<Rightarrow> bool" where
  "emits P m = every_run m (\<lambda>evs r. list_all P evs)"

named_theorems emit_rules \<open>rules for emits, one per combinator\<close>

lemma emits_ret [emit_rules]: "emits P (ret x)"
  by (simp add: emits_def every_run_ret)

lemma emits_throw [emit_rules]: "emits P (throw e)"
  by (simp add: emits_def every_run_throw)

lemma emits_call [emit_rules]: "(\<And>r. P (ev r)) \<Longrightarrow> emits P (call f ev)"
  by (simp add: emits_def every_run_call)

lemma emits_draw [emit_rules]: "emits P (draw f)"
  by (simp add: emits_def every_run_draw)

lemma emits_call_val [emit_rules]: "(\<And>r. P (ev r)) \<Longrightarrow> emits P (call_val f ev)"
  by (simp add: emits_def every_run_call_val)

lemma emits_call_unit [emit_rules]: "(\<And>r. P (ev r)) \<Longrightarrow> emits P (call_unit f ev)"
  by (simp add: emits_def every_run_call_unit)

lemma emits_call_items [emit_rules]: "(\<And>r. P (ev r)) \<Longrightarrow> emits P (call_items f ev)"
  by (simp add: emits_def every_run_call_items)

lemma emits_call_find [emit_rules]: "(\<And>r. P (ev r)) \<Longrightarrow> emits P (call_find R f ev)"
  by (simp add: emits_def every_run_call_find)

lemma emits_attempt [emit_rules]:
  assumes "emits P m" and "\<And>r. emits P (f r)"
  shows "emits P (attempt m f)"
  unfolding emits_def
  by (rule every_run_attempt, rule every_run_mono [OF assms(1) [unfolded emits_def]],
      rule every_run_mono [OF assms(2) [unfolded emits_def]]) simp

lemma emits_bind [emit_rules]:
  assumes "emits P m" and "\<And>x. emits P (f x)"
  shows "emits P (bind m f)"
  unfolding bind_def using assms by (intro emits_attempt) (auto intro: emits_throw split: sum.splits)

lemma emits_check [emit_rules]:
  assumes "emits P m" and "\<And>x. emits P (f x)"
  shows "emits P (check msg m f)"
  unfolding check_def using assms by (intro emits_attempt) (auto intro: emits_throw split: sum.splits)

lemma emits_foreach [emit_rules]: "(\<And>x. x \<in> set xs \<Longrightarrow> emits P (f x)) \<Longrightarrow> emits P (foreach xs f)"
  by (induction xs) (auto intro!: emit_rules)

lemma emits_foreach_until [emit_rules]:
  "(\<And>x. x \<in> set xs \<Longrightarrow> emits P (f x)) \<Longrightarrow> emits P (foreach_until xs f)"
  by (induction xs) (auto intro!: emit_rules split: option.splits)

lemma emits_fold_io [emit_rules]:
  "(\<And>x a. x \<in> set xs \<Longrightarrow> emits P (f x a)) \<Longrightarrow> emits P (fold_io xs f a)"
  by (induction xs arbitrary: a) (auto intro!: emit_rules)

lemma emits_each_page [emit_rules]:
  "(\<And>xs b. emits P (f xs b)) \<Longrightarrow> emits P (each_page p f b)"
  by (induction p f b rule: each_page.induct) (auto intro!: emit_rules)

lemma emits_if [emit_rules]: "(b \<Longrightarrow> emits P m) \<Longrightarrow> (\<not> b \<Longrightarrow> emits P n) \<Longrightarrow> emits P (if b then m else n)"
  by simp

lemma emits_case_option [emit_rules]:
  "emits P m \<Longrightarrow> (\<And>x. emits P (f x)) \<Longrightarrow> emits P (case r of None \<Rightarrow> m | Some x \<Rightarrow> f x)"
  by (cases r) auto

lemma emits_case_sum [emit_rules]:
  "(\<And>e. emits P (g e)) \<Longrightarrow> (\<And>x. emits P (f x)) \<Longrightarrow> emits P (case r of Inl e \<Rightarrow> g e | Inr x \<Rightarrow> f x)"
  by (cases r) auto

lemma emits_case_prod [emit_rules]:
  "(\<And>x y. emits P (f x y)) \<Longrightarrow> emits P (case r of (x, y) \<Rightarrow> f x y)"
  by (cases r) auto

lemma emits_Let [emit_rules]: "(\<And>x. emits P (f x)) \<Longrightarrow> emits P (let x = a in f x)"
  by simp

lemma emits_mono: "emits P m \<Longrightarrow> (\<And>e. P e \<Longrightarrow> Q e) \<Longrightarrow> emits Q m"
  unfolding emits_def by (erule every_run_mono) (metis list_all_iff)

lemma emits_every_run: "emits P m \<Longrightarrow> every_run m Q \<Longrightarrow> every_run m (\<lambda>evs r. list_all P evs \<and> Q evs r)"
  by (simp add: emits_def every_run_conj)

lemma every_run_emits: "emits P m \<Longrightarrow> (\<And>evs r. list_all P evs \<Longrightarrow> Q evs r) \<Longrightarrow> every_run m Q"
  unfolding emits_def by (erule every_run_mono)

lemma every_run_if: "(b \<Longrightarrow> every_run m Q) \<Longrightarrow> (\<not> b \<Longrightarrow> every_run n Q) \<Longrightarrow> every_run (if b then m else n) Q"
  by simp

text \<open>A loop that ends without an error has done its step for every element.\<close>

lemma foreach_all:
  assumes "\<And>x. x \<in> set xs \<Longrightarrow> every_run (f x) (\<lambda>evs r. r = Inr () \<longrightarrow> g x \<in> set evs)"
  shows "every_run (foreach xs f) (\<lambda>evs r. r = Inr () \<longrightarrow> g ` set xs \<subseteq> set evs)"
  using assms
proof (induction xs)
  case (Cons x xs)
  then have "every_run (f x) (\<lambda>evs r. r = Inr () \<longrightarrow> g x \<in> set evs)"
    and rest: "every_run (foreach xs f) (\<lambda>evs r. r = Inr () \<longrightarrow> g ` set xs \<subseteq> set evs)" by simp_all
  from this(1) show ?case
    unfolding foreach.simps
    by (intro every_run_bind) (auto elim!: every_run_mono intro!: every_run_mono [OF rest] split: sum.splits)
qed (simp add: every_run_ret)

text \<open>
  \<open>just J pre evs\<close>: every event of \<open>evs\<close> is justified by what came before it, the events
  \<open>pre\<close> included.
\<close>

fun just :: "('e list \<Rightarrow> 'e \<Rightarrow> bool) \<Rightarrow> 'e list \<Rightarrow> 'e list \<Rightarrow> bool" where
  "just J pre [] = True"
| "just J pre (e # es) = (J pre e \<and> just J (pre @ [e]) es)"

lemma just_append [simp]: "just J pre (xs @ ys) \<longleftrightarrow> just J pre xs \<and> just J (pre @ xs) ys"
  by (induction xs arbitrary: pre) auto

lemma just_nth: "just J pre evs \<longleftrightarrow> (\<forall>i < length evs. J (pre @ take i evs) (evs ! i))"
  by (induction evs arbitrary: pre) (auto simp: less_Suc_eq_0_disj)

lemma justD: "just J [] evs \<Longrightarrow> evs = xs @ e # ys \<Longrightarrow> J xs e"
  by simp

lemma just_all: "list_all P evs \<Longrightarrow> (\<And>pre e. P e \<Longrightarrow> J pre e) \<Longrightarrow> just J pre evs"
  by (induction evs arbitrary: pre) auto

lemma just_imp: "just J pre evs \<Longrightarrow> (\<And>pre e. J pre e \<Longrightarrow> K pre e) \<Longrightarrow> just K pre evs"
  by (induction evs arbitrary: pre) auto

lemma just_imp_in:
  "just J pre evs \<Longrightarrow> (\<And>pre' e. set pre \<subseteq> set pre' \<Longrightarrow> J pre' e \<Longrightarrow> K pre' e) \<Longrightarrow> just K pre evs"
proof (induction evs arbitrary: pre)
  case (Cons e evs)
  have "just K (pre @ [e]) evs"
    by (rule Cons.IH) (use Cons.prems in auto)
  with Cons.prems show ?case by auto
qed simp

lemma just_emits: "emits P m \<Longrightarrow> (\<And>pre e. P e \<Longrightarrow> J pre e) \<Longrightarrow> every_run m (\<lambda>evs r. just J pre evs)"
  by (erule every_run_emits) (rule just_all)

text \<open>
  Whole programs, one rule per combinator: \<open>keeps J m\<close>, after any events, every event of
  \<open>m\<close> is justified.
\<close>

definition keeps :: "('e list \<Rightarrow> 'e \<Rightarrow> bool) \<Rightarrow> ('w, 'e, 'a) io \<Rightarrow> bool" where
  "keeps J m \<longleftrightarrow> (\<forall>pre. every_run m (\<lambda>evs r. just J pre evs))"

named_theorems keep_rules \<open>rules for keeps, one per combinator\<close>

lemma keeps_ret [keep_rules]: "keeps J (ret x)"
  by (simp add: keeps_def every_run_ret)

lemma keeps_throw [keep_rules]: "keeps J (throw e)"
  by (simp add: keeps_def every_run_throw)

lemma keepsD: "keeps J m \<Longrightarrow> every_run m (\<lambda>evs r. just J pre evs)"
  by (simp add: keeps_def)

lemma keeps_in:
  assumes "keeps J m" and "\<And>pre' e. set pre \<subseteq> set pre' \<Longrightarrow> J pre' e \<Longrightarrow> K pre' e"
  shows "every_run m (\<lambda>evs r. just K pre evs)"
  by (rule every_run_mono [OF keepsD [OF assms(1), of pre]]) (rule just_imp_in [OF _ assms(2)])

lemma keeps_attempt [keep_rules]:
  assumes "keeps J m" and "\<And>r. keeps J (f r)"
  shows "keeps J (attempt m f)"
  unfolding keeps_def
proof
  fix pre
  show "every_run (attempt m f) (\<lambda>evs r. just J pre evs)"
    by (rule every_run_attempt, rule every_run_mono [OF keepsD [OF assms(1), of pre]],
        rule every_run_mono [OF keepsD [OF assms(2)]]) simp
qed

lemma keeps_bind [keep_rules]:
  assumes "keeps J m" and "\<And>x. keeps J (f x)"
  shows "keeps J (bind m f)"
  unfolding bind_def using assms by (intro keeps_attempt) (auto intro: keeps_throw split: sum.splits)

lemma keeps_check [keep_rules]:
  assumes "keeps J m" and "\<And>x. keeps J (f x)"
  shows "keeps J (check msg m f)"
  unfolding check_def using assms by (intro keeps_attempt) (auto intro: keeps_throw split: sum.splits)

lemma keeps_foreach [keep_rules]: "(\<And>x. x \<in> set xs \<Longrightarrow> keeps J (f x)) \<Longrightarrow> keeps J (foreach xs f)"
  by (induction xs) (auto intro!: keep_rules)

lemma keeps_foreach_until [keep_rules]:
  "(\<And>x. x \<in> set xs \<Longrightarrow> keeps J (f x)) \<Longrightarrow> keeps J (foreach_until xs f)"
  by (induction xs) (auto intro!: keep_rules split: option.splits)

lemma keeps_fold_io [keep_rules]:
  "(\<And>x a. x \<in> set xs \<Longrightarrow> keeps J (f x a)) \<Longrightarrow> keeps J (fold_io xs f a)"
  by (induction xs arbitrary: a) (auto intro!: keep_rules)

lemma keeps_each_page [keep_rules]: "(\<And>xs b. keeps J (f xs b)) \<Longrightarrow> keeps J (each_page p f b)"
  by (induction p f b rule: each_page.induct) (auto intro!: keep_rules)

lemma keeps_emits: "emits P m \<Longrightarrow> (\<And>pre e. P e \<Longrightarrow> J pre e) \<Longrightarrow> keeps J m"
  unfolding keeps_def by (auto intro: just_emits)

lemma keeps_if [keep_rules]: "(b \<Longrightarrow> keeps J m) \<Longrightarrow> (\<not> b \<Longrightarrow> keeps J n) \<Longrightarrow> keeps J (if b then m else n)"
  by simp

lemma keeps_case_option [keep_rules]:
  "keeps J m \<Longrightarrow> (\<And>x. keeps J (f x)) \<Longrightarrow> keeps J (case r of None \<Rightarrow> m | Some x \<Rightarrow> f x)"
  by (cases r) auto

lemma keeps_case_sum [keep_rules]:
  "(\<And>e. keeps J (g e)) \<Longrightarrow> (\<And>x. keeps J (f x)) \<Longrightarrow> keeps J (case r of Inl e \<Rightarrow> g e | Inr x \<Rightarrow> f x)"
  by (cases r) auto

lemma keeps_case_prod [keep_rules]: "(\<And>x y. keeps J (f x y)) \<Longrightarrow> keeps J (case r of (x, y) \<Rightarrow> f x y)"
  by (cases r) auto

lemma keeps_runs: "(\<And>pre. every_run m (\<lambda>evs r. just J pre evs)) \<Longrightarrow> keeps J m"
  by (simp add: keeps_def)

text \<open>
  \<open>yields J pre m R\<close>: after the events \<open>pre\<close>, every event of \<open>m\<close> is justified, and a value
  it returns satisfies \<open>R\<close> with the events so far. Knowledge of the trace only grows.
\<close>

definition yields ::
  "('e list \<Rightarrow> 'e \<Rightarrow> bool) \<Rightarrow> 'e list \<Rightarrow> ('w, 'e, 'a) io \<Rightarrow> ('e list \<Rightarrow> 'a \<Rightarrow> bool) \<Rightarrow> bool" where
  "yields J pre m R \<longleftrightarrow>
     every_run m (\<lambda>evs r. just J pre evs \<and> (case r of Inl _ \<Rightarrow> True | Inr x \<Rightarrow> R (pre @ evs) x))"

named_theorems yield_rules \<open>rules for yields, one per combinator\<close>

lemma yieldsD: "yields J pre m R \<Longrightarrow> every_run m (\<lambda>evs r. just J pre evs)"
  unfolding yields_def by (erule every_run_mono) simp

lemma yields_mono: "yields J pre m R \<Longrightarrow> (\<And>p x. set pre \<subseteq> set p \<Longrightarrow> R p x \<Longrightarrow> S p x) \<Longrightarrow> yields J pre m S"
  unfolding yields_def by (erule every_run_mono) (auto split: sum.splits)

lemma yields_keeps: "keeps J m \<Longrightarrow> (\<And>p x. set pre \<subseteq> set p \<Longrightarrow> R p x) \<Longrightarrow> yields J pre m R"
  unfolding yields_def by (drule keepsD, erule every_run_mono) (auto split: sum.splits)

lemma yields_every_run:
  "every_run m Q \<Longrightarrow> (\<And>evs r. Q evs r \<Longrightarrow> just J pre evs) \<Longrightarrow>
     (\<And>evs x. Q evs (Inr x) \<Longrightarrow> R (pre @ evs) x) \<Longrightarrow> yields J pre m R"
  unfolding yields_def by (erule every_run_mono) (auto split: sum.splits)

lemma yields_emits:
  assumes "emits P m" and "\<And>p e. set pre \<subseteq> set p \<Longrightarrow> P e \<Longrightarrow> J p e"
  shows "yields J pre m (\<lambda>_ _. True)"
proof -
  have "just J p evs" if "set pre \<subseteq> set p" "list_all P evs" for p evs
    using that
  proof (induction evs arbitrary: p)
    case (Cons e evs)
    have "set pre \<subseteq> set (p @ [e])" using Cons.prems(1) by auto
    from Cons.IH [OF this] Cons.prems assms(2) [of p e] show ?case by simp
  qed simp
  then show ?thesis
    unfolding yields_def
    by (intro every_run_mono [OF assms(1) [unfolded emits_def]]) (auto split: sum.splits)
qed

lemma yields_ret [yield_rules]: "R pre x \<Longrightarrow> yields J pre (ret x) R"
  by (simp add: yields_def every_run_ret)

lemma yields_throw [yield_rules]: "yields J pre (throw e) R"
  by (simp add: yields_def every_run_throw)

lemma yields_attempt:
  assumes "every_run m (\<lambda>evs r. just J pre evs \<and> yields J (pre @ evs) (f r) R)"
  shows "yields J pre (attempt m f) R"
  unfolding yields_def
  by (rule every_run_attempt, rule every_run_mono [OF assms])
     (auto simp: yields_def elim!: every_run_mono split: sum.splits)

lemma yields_bind [yield_rules]:
  assumes "yields J pre m R" and "\<And>p x. set pre \<subseteq> set p \<Longrightarrow> R p x \<Longrightarrow> yields J p (f x) S"
  shows "yields J pre (bind m f) S"
  unfolding bind_def
  by (rule yields_attempt, rule every_run_mono [OF assms(1) [unfolded yields_def]])
     (auto intro: yields_throw assms(2) split: sum.splits)

lemma yields_check [yield_rules]:
  assumes "yields J pre m R" and "\<And>p x. set pre \<subseteq> set p \<Longrightarrow> R p x \<Longrightarrow> yields J p (f x) S"
  shows "yields J pre (check msg m f) S"
  unfolding check_def
  by (rule yields_attempt, rule every_run_mono [OF assms(1) [unfolded yields_def]])
     (auto intro: yields_throw assms(2) split: sum.splits)

lemma yields_if [yield_rules]:
  "(b \<Longrightarrow> yields J pre m R) \<Longrightarrow> (\<not> b \<Longrightarrow> yields J pre n R) \<Longrightarrow> yields J pre (if b then m else n) R"
  by simp

lemma yields_option [yield_rules]:
  "(r = None \<Longrightarrow> yields J pre m R) \<Longrightarrow> (\<And>x. r = Some x \<Longrightarrow> yields J pre (f x) R) \<Longrightarrow>
     yields J pre (case r of None \<Rightarrow> m | Some x \<Rightarrow> f x) R"
  by (cases r) auto

lemma yields_prod [yield_rules]:
  "(\<And>x y. r = (x, y) \<Longrightarrow> yields J pre (f x y) R) \<Longrightarrow> yields J pre (case r of (x, y) \<Rightarrow> f x y) R"
  by (cases r) auto

lemma yields_foreach:
  assumes "\<And>x p. x \<in> set xs \<Longrightarrow> set pre \<subseteq> set p \<Longrightarrow> yields J p (f x) (\<lambda>_ _. True)"
  shows "yields J pre (foreach xs f) (\<lambda>_ _. True)"
  using assms
proof (induction xs arbitrary: pre)
  case (Cons x xs)
  have "yields J p (foreach xs f) (\<lambda>_ _. True)" if "set pre \<subseteq> set p" for p
    by (rule Cons.IH, rule Cons.prems) (use that in auto)
  with Cons.prems [of x pre] show ?case by (auto intro: yields_bind)
qed (simp add: yields_ret)

lemma yields_fold_io:
  assumes "Inv pre a"
    and "\<And>x p a. x \<in> set xs \<Longrightarrow> set pre \<subseteq> set p \<Longrightarrow> Inv p a \<Longrightarrow> yields J p (f x a) Inv"
  shows "yields J pre (fold_io xs f a) Inv"
  using assms
proof (induction xs arbitrary: pre a)
  case (Cons x xs)
  have "yields J p (fold_io xs f b) Inv" if "set pre \<subseteq> set p" "Inv p b" for p b
    by (rule Cons.IH [OF that(2)], rule Cons.prems) (use that in auto)
  with Cons.prems show ?case by (auto intro!: yields_bind [where R = Inv])
qed (simp add: yields_ret)

lemma yields_each_page:
  assumes "Inv pre b"
    and "\<And>xs p b. set xs \<subseteq> set (pages_seen pg) \<Longrightarrow> set pre \<subseteq> set p \<Longrightarrow> Inv p b \<Longrightarrow> yields J p (f xs b) Inv"
  shows "yields J pre (each_page pg f b) Inv"
  using assms
proof (induction pg f b arbitrary: pre rule: each_page.induct)
  case (3 xs ps f b)
  have "yields J p (each_page ps f b') Inv" if "set pre \<subseteq> set p" "Inv p b'" for p b'
    by (rule "3.IH" [OF that(2)], rule "3.prems"(2)) (use that in auto)
  with "3.prems" show ?case by (auto intro!: yields_bind [where R = Inv])
qed (simp_all add: yields_ret yields_throw)

lemma yields_call: "(\<And>r. J pre (ev r)) \<Longrightarrow> (\<And>r. R (pre @ [ev r]) r) \<Longrightarrow> yields J pre (call f ev) R"
  by (simp add: yields_def every_run_call)

lemma yields_call_unit: "(\<And>r. J pre (ev r)) \<Longrightarrow> R (pre @ [ev None]) () \<Longrightarrow> yields J pre (call_unit f ev) R"
  by (simp add: yields_def every_run_call_unit)

lemma yields_call_val:
  "(\<And>r. J pre (ev r)) \<Longrightarrow> (\<And>x. R (pre @ [ev (Inr x)]) x) \<Longrightarrow> yields J pre (call_val f ev) R"
  by (simp add: yields_def every_run_call_val)

lemma yields_call_items:
  "(\<And>r. J pre (ev r)) \<Longrightarrow> (\<And>p. pages_items p = Inr (pages_seen p) \<Longrightarrow> R (pre @ [ev p]) (pages_seen p)) \<Longrightarrow>
     yields J pre (call_items f ev) R"
  unfolding yields_def by (rule every_run_call_items) (auto dest: pages_items_seen)

lemma yields_call_find:
  "(\<And>r. J pre (ev r)) \<Longrightarrow> (\<And>p. pages_find P p = Inr None \<Longrightarrow> R (pre @ [ev p]) None) \<Longrightarrow>
     (\<And>p x. pages_find P p = Inr (Some x) \<Longrightarrow> P x \<Longrightarrow> x \<in> set (pages_seen p) \<Longrightarrow> R (pre @ [ev p]) (Some x)) \<Longrightarrow>
     yields J pre (call_find P f ev) R"
  unfolding yields_def
proof (rule every_run_call_find)
  fix p x assume J: "\<And>r. J pre (ev r)" and N: "\<And>p. pages_find P p = Inr None \<Longrightarrow> R (pre @ [ev p]) None"
    and S: "\<And>p x. pages_find P p = Inr (Some x) \<Longrightarrow> P x \<Longrightarrow> x \<in> set (pages_seen p) \<Longrightarrow> R (pre @ [ev p]) (Some x)"
    and x: "pages_find P p = Inr x"
  show "just J pre [ev p] \<and> (case Inr x of Inl _ \<Rightarrow> True | Inr x \<Rightarrow> R (pre @ [ev p]) x)"
    using J x N [of p] S [of p] pages_find_Some [of P p] by (cases x) auto
qed simp

text \<open>
  \<open>maintains I m\<close>: whatever \<open>m\<close> answers, it keeps the invariant \<open>I\<close> of the world; the frame of
  a program is what it maintains of the parts it does not own.
\<close>

definition maintains :: "('w \<Rightarrow> bool) \<Rightarrow> ('w, 'e, 'a) io \<Rightarrow> bool" where
  "maintains I m \<longleftrightarrow> (\<forall>s. I (world s) \<longrightarrow> I (world (snd (m s))))"

named_theorems maintain_rules \<open>rules for maintains, one per combinator\<close>

lemma maintains_wp: "maintains I m \<longleftrightarrow> (\<forall>s. I (world s) \<longrightarrow> wp m (\<lambda>r s'. I (world s')) s)"
  by (simp add: maintains_def wp_def split_beta)

lemma wp_maintains: "maintains I m \<Longrightarrow> I (world s) \<Longrightarrow> wp m Q s \<Longrightarrow> wp m (\<lambda>r s'. Q r s' \<and> I (world s')) s"
  by (simp add: maintains_def wp_def split_beta)

lemma maintains_ret [maintain_rules]: "maintains I (ret x)"
  by (simp add: maintains_wp wp_ret)

lemma maintains_throw [maintain_rules]: "maintains I (throw e)"
  by (simp add: maintains_wp wp_throw)

lemma maintains_attempt [maintain_rules]:
  "maintains I m \<Longrightarrow> (\<And>r. maintains I (f r)) \<Longrightarrow> maintains I (attempt m f)"
  by (simp add: maintains_def attempt_def split_beta)

lemma maintains_bind [maintain_rules]:
  assumes "maintains I m" and "\<And>x. maintains I (f x)"
  shows "maintains I (bind m f)"
  unfolding bind_def using assms by (intro maintains_attempt) (auto intro: maintains_throw split: sum.splits)

lemma maintains_check [maintain_rules]:
  assumes "maintains I m" and "\<And>x. maintains I (f x)"
  shows "maintains I (check msg m f)"
  unfolding check_def using assms by (intro maintains_attempt) (auto intro: maintains_throw split: sum.splits)

lemma maintains_call [maintain_rules]: "(\<And>w. I w \<Longrightarrow> I (snd (f w))) \<Longrightarrow> maintains I (call f ev)"
  by (simp add: maintains_wp wp_call)

lemma maintains_draw [maintain_rules]: "(\<And>w. I w \<Longrightarrow> I (snd (f w))) \<Longrightarrow> maintains I (draw f)"
  by (simp add: maintains_wp wp_draw)

lemma maintains_lift [maintain_rules]: "maintains I (lift_sum r)" "maintains I (lift_opt o1)"
  by (auto simp: lift_sum_def lift_opt_def intro!: maintain_rules split: sum.split option.split)

lemma maintains_call_val [maintain_rules]: "(\<And>w. I w \<Longrightarrow> I (snd (f w))) \<Longrightarrow> maintains I (call_val f ev)"
  unfolding call_val_def by (intro maintain_rules)

lemma maintains_call_unit [maintain_rules]: "(\<And>w. I w \<Longrightarrow> I (snd (f w))) \<Longrightarrow> maintains I (call_unit f ev)"
  unfolding call_unit_def by (intro maintain_rules)

lemma maintains_call_items [maintain_rules]: "(\<And>w. I w \<Longrightarrow> I (snd (f w))) \<Longrightarrow> maintains I (call_items f ev)"
  unfolding call_items_def by (intro maintain_rules)

lemma maintains_call_find [maintain_rules]: "(\<And>w. I w \<Longrightarrow> I (snd (f w))) \<Longrightarrow> maintains I (call_find P f ev)"
  unfolding call_find_def by (intro maintain_rules)

lemma maintains_foreach [maintain_rules]: "(\<And>x. x \<in> set xs \<Longrightarrow> maintains I (f x)) \<Longrightarrow> maintains I (foreach xs f)"
  by (induction xs) (auto intro!: maintain_rules)

lemma maintains_foreach_until [maintain_rules]:
  "(\<And>x. x \<in> set xs \<Longrightarrow> maintains I (f x)) \<Longrightarrow> maintains I (foreach_until xs f)"
  by (induction xs) (auto intro!: maintain_rules split: option.splits)

lemma maintains_if [maintain_rules]:
  "(b \<Longrightarrow> maintains I m) \<Longrightarrow> (\<not> b \<Longrightarrow> maintains I n) \<Longrightarrow> maintains I (if b then m else n)"
  by simp

lemma maintains_case_option [maintain_rules]:
  "maintains I m \<Longrightarrow> (\<And>x. maintains I (f x)) \<Longrightarrow> maintains I (case r of None \<Rightarrow> m | Some x \<Rightarrow> f x)"
  by (cases r) auto

lemma maintains_case_sum [maintain_rules]:
  "(\<And>e. maintains I (g e)) \<Longrightarrow> (\<And>x. maintains I (f x)) \<Longrightarrow> maintains I (case r of Inl e \<Rightarrow> g e | Inr x \<Rightarrow> f x)"
  by (cases r) auto

lemma maintains_case_prod [maintain_rules]:
  "(\<And>x y. maintains I (f x y)) \<Longrightarrow> maintains I (case r of (x, y) \<Rightarrow> f x y)"
  by (cases r) auto

lemma maintains_Let [maintain_rules]: "(\<And>x. maintains I (f x)) \<Longrightarrow> maintains I (let x = a in f x)"
  by simp

text \<open>A loop keeps an invariant over the events of the iterations done so far.\<close>

lemma every_run_foreach:
  assumes "\<And>x. x \<in> set xs \<Longrightarrow> every_run (f x) (\<lambda>evs r. list_all P evs)"
  shows "every_run (foreach xs f) (\<lambda>evs r. list_all P evs)"
  using assms
proof (induction xs)
  case (Cons x xs)
  from Cons.prems have "every_run (f x) (\<lambda>evs r. list_all P evs)" by simp
  moreover have "every_run (foreach xs f) (\<lambda>evs r. list_all P evs)"
    using Cons by simp
  ultimately show ?case
    by (auto intro!: every_run_bind elim!: every_run_mono split: sum.splits)
qed (simp add: every_run_ret)

end
