(* ===== verification/Cloud.thy ===== *)
theory Cloud
  imports Effects
begin

text \<open>
  The objects the loadbalancer-controller exchanges with OpenStack (Octavia, Neutron, Nova,
  Keystone, through gophercloud) and with the Kubernetes API servers (through
  controller-runtime), reduced to the fields the program reads or writes, and the remote
  calls it makes. The services are not part of the repository: each call is a field of an
  environment record, of any behaviour, and an event of the trace. A listing carries its
  server-side filter. The unstructured accessors (\<^verbatim>\<open>NestedString\<close> and its kin, whose
  error the program discards) are the fields of \<open>kobj\<close>: what the accessor returns for a
  path, the zero value when the field is missing or of another type.
\<close>

section \<open>OpenStack objects\<close>

record credentials =
  cr_auth_url :: string
  cr_region :: string
  cr_id :: string
  cr_secret :: string

text \<open>\<open>Clients\<close>: \<open>cl_compute\<close> is \<^verbatim>\<open>Compute != nil\<close>.\<close>

record clients =
  cl_creds :: credentials
  cl_compute :: bool

record lb =
  lb_id :: string
  lb_name :: string
  lb_status :: string
  lb_oper :: string
  lb_vip :: string
  lb_vip_port :: string

record lb_opts =
  lo_name :: string
  lo_desc :: string
  lo_provider :: string
  lo_network :: string

record listener =
  ls_id :: string
  ls_name :: string

record listener_opts =
  lso_name :: string
  lso_lb :: string
  lso_proto :: string
  lso_port :: int

record pool =
  pl_id :: string
  pl_listeners :: "string list"

record pool_opts =
  po_name :: string
  po_method :: string
  po_proto :: string
  po_listener :: string
  po_desc :: string

record member =
  mb_addr :: string
  mb_port :: int
  mb_subnet :: string

record member_opts =
  mo_name :: string
  mo_addr :: string
  mo_port :: int
  mo_subnet :: string

record sgroup =
  sg_id :: string
  sg_name :: string

record rule =
  ru_id :: string
  ru_dir :: string
  ru_ether :: string
  ru_pmin :: int
  ru_pmax :: int
  ru_proto :: string
  ru_cidr :: string
  ru_group :: string
  ru_desc :: string

record rule_opts =
  ro_sg :: string
  ro_dir :: string
  ro_ether :: string
  ro_pmin :: int
  ro_pmax :: int
  ro_proto :: string
  ro_cidr :: string
  ro_group :: string
  ro_desc :: string

record fip =
  fp_id :: string
  fp_addr :: string
  fp_desc :: string

record fip_opts =
  fo_desc :: string
  fo_network :: string
  fo_subnet :: string
  fo_port :: string

record nport =
  pt_id :: string
  pt_sgs :: "string list"
  pt_ips :: "string list"

record network =
  nw_id :: string
  nw_external :: bool

record subnet =
  sn_id :: string
  sn_version :: int
  sn_cidr :: string

record server =
  sv_id :: string
  sv_name :: string

section \<open>Kubernetes objects\<close>

record svc_port =
  p_name :: string
  p_port :: int
  p_nodeport :: int
  p_proto :: string

record service =
  s_ns :: string
  s_name :: string
  s_type :: string
  s_finalizers :: "string list"
  s_deleting :: bool
  s_ports :: "svc_port list"
  s_ingress :: "string list"
  s_external_ips :: "string list"
  s_labels :: "string \<rightharpoonup> string"
  s_annots :: "string \<rightharpoonup> string"

record kobj =
  ko_ns :: string
  ko_str :: "string list \<Rightarrow> string"
  ko_bool :: "string list \<Rightarrow> bool"
  ko_strs :: "string list \<Rightarrow> string list"

record hrelease =
  hr_ns :: string
  hr_name :: string
  hr_labels :: "string \<rightharpoonup> string"
  hr_finalizers :: "string list"
  hr_deleting :: bool

record secret =
  sec_ns :: string
  sec_name :: string
  sec_data :: "string \<rightharpoonup> string"

section \<open>Events\<close>

datatype octavia_event =
    ListLBs "string option" "lb pager"
  | CreateLB lb_opts "api_err + lb"
  | DelLB string "api_err option"
  | ListListeners string "listener pager"
  | CreateListener listener_opts "api_err + listener"
  | DelListener string "api_err option"
  | ListPools string "pool pager"
  | CreatePool pool_opts "api_err + pool"
  | ListMembers string "member pager"
  | SetMembers string "member_opts list" "api_err option"

datatype neutron_event =
    ListSGs "string option" "sgroup pager"
  | CreateSG string string "api_err + sgroup"
  | DelSG string "api_err option"
  | ListRules string "rule pager"
  | CreateRule rule_opts "api_err + rule"
  | DelRule string "api_err option"
  | ListFIPs "string option" "fip pager"
  | CreateFIP fip_opts "api_err + fip"
  | DelFIP string "api_err option"
  | ListPorts string "string option" "string option" "nport pager"
  | UpdatePort string "string list" "api_err + nport"
  | ListNetworks "network pager"
  | ListSubnets string "subnet pager"

datatype nova_event =
    ListServers "server pager"
  | DelServer string "api_err option"

datatype keystone_event =
    Authenticate credentials "api_err option"
  | OctaviaClient string "api_err option"
  | NeutronClient string "api_err option"
  | NovaClient string "api_err option"

datatype mgmt_event =
    GetKSC string string "api_err + kobj"
  | GetSecret string string "api_err + secret"
  | GetOSC string string "api_err + kobj"
  | GetHR string string "api_err + hrelease"
  | ListHRs string "api_err + hrelease list"
  | PatchHR string string "string list" "api_err option"
  | ListSecrets string "api_err + secret list"
  | DelSecret string string "api_err option"

datatype tenant_event =
    GetSvc string string "api_err + service"
  | PatchFinalizers string string "string list" "api_err option"
  | PatchIngress string string "string list" "api_err option"

datatype event =
    Octavia clients octavia_event
  | Neutron clients neutron_event
  | Nova clients nova_event
  | Keystone keystone_event
  | Mgmt mgmt_event
  | Tenant string tenant_event

text \<open>The events that ask OpenStack to change something.\<close>

fun octavia_mutation :: "octavia_event \<Rightarrow> bool" where
  "octavia_mutation (CreateLB _ _) = True"
| "octavia_mutation (DelLB _ _) = True"
| "octavia_mutation (CreateListener _ _) = True"
| "octavia_mutation (DelListener _ _) = True"
| "octavia_mutation (CreatePool _ _) = True"
| "octavia_mutation (SetMembers _ _ _) = True"
| "octavia_mutation _ = False"

fun neutron_mutation :: "neutron_event \<Rightarrow> bool" where
  "neutron_mutation (CreateSG _ _ _) = True"
| "neutron_mutation (DelSG _ _) = True"
| "neutron_mutation (CreateRule _ _) = True"
| "neutron_mutation (DelRule _ _) = True"
| "neutron_mutation (CreateFIP _ _) = True"
| "neutron_mutation (DelFIP _ _) = True"
| "neutron_mutation (UpdatePort _ _ _) = True"
| "neutron_mutation _ = False"

fun nova_mutation :: "nova_event \<Rightarrow> bool" where
  "nova_mutation (DelServer _ _) = True"
| "nova_mutation _ = False"

fun cloud_mutation :: "event \<Rightarrow> bool" where
  "cloud_mutation (Octavia _ e) = octavia_mutation e"
| "cloud_mutation (Neutron _ e) = neutron_mutation e"
| "cloud_mutation (Nova _ e) = nova_mutation e"
| "cloud_mutation _ = False"

section \<open>The environment\<close>

record 'w octavia_api =
  o_list_lbs :: "clients \<Rightarrow> string option \<Rightarrow> 'w \<Rightarrow> lb pager \<times> 'w"
  o_create_lb :: "clients \<Rightarrow> lb_opts \<Rightarrow> 'w \<Rightarrow> (api_err + lb) \<times> 'w"
  o_del_lb :: "clients \<Rightarrow> string \<Rightarrow> 'w \<Rightarrow> api_err option \<times> 'w"
  o_list_listeners :: "clients \<Rightarrow> string \<Rightarrow> 'w \<Rightarrow> listener pager \<times> 'w"
  o_create_listener :: "clients \<Rightarrow> listener_opts \<Rightarrow> 'w \<Rightarrow> (api_err + listener) \<times> 'w"
  o_del_listener :: "clients \<Rightarrow> string \<Rightarrow> 'w \<Rightarrow> api_err option \<times> 'w"
  o_list_pools :: "clients \<Rightarrow> string \<Rightarrow> 'w \<Rightarrow> pool pager \<times> 'w"
  o_create_pool :: "clients \<Rightarrow> pool_opts \<Rightarrow> 'w \<Rightarrow> (api_err + pool) \<times> 'w"
  o_list_members :: "clients \<Rightarrow> string \<Rightarrow> 'w \<Rightarrow> member pager \<times> 'w"
  o_set_members :: "clients \<Rightarrow> string \<Rightarrow> member_opts list \<Rightarrow> 'w \<Rightarrow> api_err option \<times> 'w"

record 'w neutron_api =
  n_list_sgs :: "clients \<Rightarrow> string option \<Rightarrow> 'w \<Rightarrow> sgroup pager \<times> 'w"
  n_create_sg :: "clients \<Rightarrow> string \<Rightarrow> string \<Rightarrow> 'w \<Rightarrow> (api_err + sgroup) \<times> 'w"
  n_del_sg :: "clients \<Rightarrow> string \<Rightarrow> 'w \<Rightarrow> api_err option \<times> 'w"
  n_list_rules :: "clients \<Rightarrow> string \<Rightarrow> 'w \<Rightarrow> rule pager \<times> 'w"
  n_create_rule :: "clients \<Rightarrow> rule_opts \<Rightarrow> 'w \<Rightarrow> (api_err + rule) \<times> 'w"
  n_del_rule :: "clients \<Rightarrow> string \<Rightarrow> 'w \<Rightarrow> api_err option \<times> 'w"
  n_list_fips :: "clients \<Rightarrow> string option \<Rightarrow> 'w \<Rightarrow> fip pager \<times> 'w"
  n_create_fip :: "clients \<Rightarrow> fip_opts \<Rightarrow> 'w \<Rightarrow> (api_err + fip) \<times> 'w"
  n_del_fip :: "clients \<Rightarrow> string \<Rightarrow> 'w \<Rightarrow> api_err option \<times> 'w"
  n_list_ports :: "clients \<Rightarrow> string \<Rightarrow> string option \<Rightarrow> string option \<Rightarrow> 'w \<Rightarrow> nport pager \<times> 'w"
  n_update_port :: "clients \<Rightarrow> string \<Rightarrow> string list \<Rightarrow> 'w \<Rightarrow> (api_err + nport) \<times> 'w"
  n_list_networks :: "clients \<Rightarrow> 'w \<Rightarrow> network pager \<times> 'w"
  n_list_subnets :: "clients \<Rightarrow> string \<Rightarrow> 'w \<Rightarrow> subnet pager \<times> 'w"

record 'w nova_api =
  v_list_servers :: "clients \<Rightarrow> 'w \<Rightarrow> server pager \<times> 'w"
  v_del_server :: "clients \<Rightarrow> string \<Rightarrow> 'w \<Rightarrow> api_err option \<times> 'w"

record 'w keystone_api =
  k_authenticate :: "credentials \<Rightarrow> 'w \<Rightarrow> api_err option \<times> 'w"
  k_octavia :: "string \<Rightarrow> 'w \<Rightarrow> api_err option \<times> 'w"
  k_neutron :: "string \<Rightarrow> 'w \<Rightarrow> api_err option \<times> 'w"
  k_nova :: "string \<Rightarrow> 'w \<Rightarrow> api_err option \<times> 'w"

record 'w mgmt_api =
  m_get_ksc :: "string \<Rightarrow> string \<Rightarrow> 'w \<Rightarrow> (api_err + kobj) \<times> 'w"
  m_get_secret :: "string \<Rightarrow> string \<Rightarrow> 'w \<Rightarrow> (api_err + secret) \<times> 'w"
  m_get_osc :: "string \<Rightarrow> string \<Rightarrow> 'w \<Rightarrow> (api_err + kobj) \<times> 'w"
  m_get_hr :: "string \<Rightarrow> string \<Rightarrow> 'w \<Rightarrow> (api_err + hrelease) \<times> 'w"
  m_list_hrs :: "string \<Rightarrow> 'w \<Rightarrow> (api_err + hrelease list) \<times> 'w"
  m_patch_hr :: "string \<Rightarrow> string \<Rightarrow> string list \<Rightarrow> 'w \<Rightarrow> api_err option \<times> 'w"
  m_list_secrets :: "string \<Rightarrow> 'w \<Rightarrow> (api_err + secret list) \<times> 'w"
  m_del_secret :: "string \<Rightarrow> string \<Rightarrow> 'w \<Rightarrow> api_err option \<times> 'w"

record 'w tenant_api =
  t_get_svc :: "string \<Rightarrow> string \<Rightarrow> string \<Rightarrow> 'w \<Rightarrow> (api_err + service) \<times> 'w"
  t_patch_finalizers :: "string \<Rightarrow> string \<Rightarrow> string \<Rightarrow> string list \<Rightarrow> 'w \<Rightarrow> api_err option \<times> 'w"
  t_patch_ingress :: "string \<Rightarrow> string \<Rightarrow> string \<Rightarrow> string list \<Rightarrow> 'w \<Rightarrow> api_err option \<times> 'w"

record 'w env =
  octavia :: "'w octavia_api"
  neutron :: "'w neutron_api"
  nova :: "'w nova_api"
  keystone :: "'w keystone_api"
  mgmt :: "'w mgmt_api"
  tenants :: "'w tenant_api"
  map_seed :: "'w \<Rightarrow> nat list \<times> 'w"

type_synonym ('w, 'a) lbc = "('w, event, 'a) io"

end
