(* ===== verification/Naming.thy ===== *)
theory Naming
  imports Cloud
begin

text \<open>
  The naming schemes that tie OpenStack and Kubernetes objects to the cluster and the
  Service that own them: Octavia LB names and floating IP descriptions
  (\<^verbatim>\<open>loadbalancer.go\<close>, \<^verbatim>\<open>sweep.go\<close>), security group names and rule descriptions
  (\<^verbatim>\<open>securitygroup.go\<close>), worker names (\<^verbatim>\<open>sweep.go\<close>) and kubeconfig Secret names
  (\<^verbatim>\<open>multicluster/manager.go\<close>). The interface is a codec: what the writer of a name
  encodes, its readers decode.
\<close>

section \<open>LB names and floating IP descriptions\<close>

definition managed_name_prefix :: string where
  "managed_name_prefix = ''cozystack:''"

definition service_lb_name :: "string \<Rightarrow> string \<Rightarrow> string \<Rightarrow> string" where
  "service_lb_name tenant ns name = managed_name_prefix @ tenant @ ''/'' @ ns @ ''/'' @ name"

definition is_managed :: "lb \<Rightarrow> bool" where
  "is_managed b = has_prefix (lb_name b) managed_name_prefix"

definition parse_cluster_from_lb_name :: "string \<Rightarrow> string option" where
  "parse_cluster_from_lb_name name =
     (if \<not> has_prefix name managed_name_prefix then None
      else let rest = trim_prefix name managed_name_prefix; slash = index_byte rest (CHR ''/'')
           in if slash \<le> 0 then None else Some (take (nat slash) rest))"

definition parse_service_from_tag :: "string \<Rightarrow> (string \<times> string \<times> string) option" where
  "parse_service_from_tag tag =
     (if \<not> has_prefix tag managed_name_prefix then None
      else let rest = trim_prefix tag managed_name_prefix; parts = split_n (CHR ''/'') 3 rest
           in case parts of
                [c, ns, n] \<Rightarrow>
                  if c = '''' \<or> ns = '''' \<or> n = '''' then None
                  else if str_contains n '':'' then None
                  else Some (c, ns, n)
              | _ \<Rightarrow> None)"

section \<open>Security group names and rule descriptions\<close>

definition cluster_sg_name_prefix :: string where
  "cluster_sg_name_prefix = ''cozystack-lb-''"

definition cluster_sg_name :: "string \<Rightarrow> string" where
  "cluster_sg_name cluster = cluster_sg_name_prefix @ cluster"

record rule_key =
  rk_port :: int
  rk_proto :: string
  rk_cidr :: string

definition rule_key_string :: "rule_key \<Rightarrow> string" where
  "rule_key_string k = itoa (rk_port k) @ ''/'' @ rk_proto k @ '':'' @ rk_cidr k"

definition rule_description :: "string \<Rightarrow> service \<Rightarrow> rule_key \<Rightarrow> string" where
  "rule_description tenant svc k =
     ''cozystack:'' @ tenant @ ''/'' @ s_ns svc @ ''/'' @ s_name svc @ '':'' @ rule_key_string k"

definition rule_description_prefix :: "string \<Rightarrow> service \<Rightarrow> string" where
  "rule_description_prefix tenant svc =
     ''cozystack:'' @ tenant @ ''/'' @ s_ns svc @ ''/'' @ s_name svc @ '':''"

section \<open>Worker names and kubeconfig Secret names\<close>

definition ksc_server_name_prefix :: string where
  "ksc_server_name_prefix = ''kubernetes-switchcloud-''"

definition is_claimed_by_known :: "string \<Rightarrow> string list \<Rightarrow> bool" where
  "is_claimed_by_known server_name known =
     list_ex (\<lambda>cluster. cluster \<noteq> '''' \<and>
       has_prefix server_name (ksc_server_name_prefix @ cluster @ ''-'')) known"

definition kubeconfig_name_prefix :: string where
  "kubeconfig_name_prefix = ''kubernetes-switchcloud-''"

definition kubeconfig_suffix :: string where
  "kubeconfig_suffix = ''-admin-kubeconfig''"

definition tenant_from_secret_name :: "string \<Rightarrow> string" where
  "tenant_from_secret_name name =
     (if \<not> has_prefix name kubeconfig_name_prefix \<or> \<not> has_suffix name kubeconfig_suffix then ''''
      else trim_suffix (trim_prefix name kubeconfig_name_prefix) kubeconfig_suffix)"

definition is_kubeconfig_secret_name :: "string \<Rightarrow> bool" where
  "is_kubeconfig_secret_name name =
     (if \<not> has_prefix name kubeconfig_name_prefix \<or> \<not> has_suffix name kubeconfig_suffix then False
      else tenant_from_secret_name name \<noteq> '''')"

section \<open>The codec interface\<close>

text \<open>
  What a writer and the readers of a name agree on. An exact codec reads nothing else:
  every string it accepts is one the writer produces.
\<close>

locale name_codec =
  fixes enc :: "'a \<Rightarrow> string"
    and dec :: "string \<Rightarrow> 'a option"
    and ok :: "'a \<Rightarrow> bool"
  assumes dec_enc: "ok x \<Longrightarrow> dec (enc x) = Some x"
begin

lemma enc_eq: "ok x \<Longrightarrow> ok y \<Longrightarrow> enc x = enc y \<longleftrightarrow> x = y"
  by (metis dec_enc option.inject)

lemma enc_inj_on: "inj_on enc {x. ok x}"
  by (simp add: inj_on_def enc_eq)

end

locale exact_codec = name_codec +
  assumes enc_dec: "dec s = Some x \<Longrightarrow> enc x = s"
begin

lemma dec_Some_eq: "ok x \<Longrightarrow> dec s = Some x \<longleftrightarrow> s = enc x"
  by (metis dec_enc enc_dec)

lemma dec_inj: "dec s = Some x \<Longrightarrow> dec t = Some x \<Longrightarrow> s = t"
  by (metis enc_dec)

end

text \<open>
  A Kubernetes object name holds neither \<^verbatim>\<open>/\<close> nor \<^verbatim>\<open>:\<close> and is not empty; the readers
  need less.
\<close>

definition name_ok :: "string \<Rightarrow> bool" where
  "name_ok s \<longleftrightarrow> s \<noteq> '''' \<and> CHR ''/'' \<notin> set s \<and> CHR '':'' \<notin> set s"

definition tag_ok :: "string \<times> string \<times> string \<Rightarrow> bool" where
  "tag_ok x = (case x of (c, ns, n) \<Rightarrow>
     c \<noteq> '''' \<and> ns \<noteq> '''' \<and> n \<noteq> '''' \<and> CHR ''/'' \<notin> set c \<and> CHR ''/'' \<notin> set ns \<and> CHR '':'' \<notin> set n)"

definition lb_name_of :: "string \<times> string \<times> string \<Rightarrow> string" where
  "lb_name_of x = (case x of (c, ns, n) \<Rightarrow> service_lb_name c ns n)"

lemma tag_ok_names [intro]: "name_ok c \<Longrightarrow> name_ok ns \<Longrightarrow> name_ok n \<Longrightarrow> tag_ok (c, ns, n)"
  by (simp add: tag_ok_def name_ok_def)

lemma parse_service_enc: "tag_ok x \<Longrightarrow> parse_service_from_tag (lb_name_of x) = Some x"
  by (cases x)
     (simp add: parse_service_from_tag_def lb_name_of_def service_lb_name_def tag_ok_def
        str_contains_char numeral_3_eq_3)

lemma split_3E:
  assumes "split_n c 3 s = [x, y, z]"
  shows "s = x @ c # y @ c # z \<and> c \<notin> set x \<and> c \<notin> set y"
  using assms by (auto simp: numeral_3_eq_3 cut_Some split: option.splits)

lemma parse_service_SomeD:
  assumes "parse_service_from_tag s = Some (c, ns, n)"
  shows "s = service_lb_name c ns n \<and> tag_ok (c, ns, n)"
proof -
  from assms obtain r where r: "s = managed_name_prefix @ r"
    by (auto simp: parse_service_from_tag_def split: if_split_asm elim: has_prefixE)
  from assms have parts: "split_n (CHR ''/'') 3 r = [c, ns, n]"
    and ne: "c \<noteq> ''''" "ns \<noteq> ''''" "n \<noteq> ''''" "\<not> str_contains n '':''"
    unfolding r parse_service_from_tag_def Let_def trim_prefix_append
    by (simp_all split: list.split_asm if_split_asm)
  from split_3E [OF parts] r ne show ?thesis
    by (simp add: service_lb_name_def tag_ok_def str_contains_char)
qed

interpretation lb_tag: exact_codec lb_name_of parse_service_from_tag tag_ok
proof unfold_locales
  fix x assume "tag_ok x"
  then show "parse_service_from_tag (lb_name_of x) = Some x" by (rule parse_service_enc)
next
  fix s x assume "parse_service_from_tag s = Some x"
  then show "lb_name_of x = s"
    by (cases x) (auto dest: parse_service_SomeD simp: lb_name_of_def)
qed

text \<open>The two readers of an LB name agree.\<close>

lemma parse_cluster_service_lb_name:
  assumes "c \<noteq> ''''" "CHR ''/'' \<notin> set c"
  shows "parse_cluster_from_lb_name (service_lb_name c ns n) = Some c"
proof -
  have "index_byte (c @ CHR ''/'' # ns @ CHR ''/'' # n) (CHR ''/'') = int (length c)"
    using assms(2) by (rule index_byte_append)
  with assms(1) show ?thesis
    by (simp add: parse_cluster_from_lb_name_def service_lb_name_def Let_def)
qed

lemma parse_cluster_SomeD:
  assumes "parse_cluster_from_lb_name s = Some c"
  shows "\<exists>r. s = managed_name_prefix @ c @ ''/'' @ r \<and> c \<noteq> '''' \<and> CHR ''/'' \<notin> set c"
proof -
  from assms obtain r where r: "s = managed_name_prefix @ r"
    by (auto simp: parse_cluster_from_lb_name_def split: if_splits elim: has_prefixE)
  with assms have pos: "index_byte r (CHR ''/'') > 0"
    and c: "c = take (nat (index_byte r (CHR ''/''))) r"
    by (auto simp: parse_cluster_from_lb_name_def Let_def split: if_splits)
  define n where "n = nat (index_byte r (CHR ''/''))"
  with pos have "index_byte r (CHR ''/'') = int n" by simp
  from index_byte_Some [OF this] c n_def obtain b where
    b: "r = c @ CHR ''/'' # b" "CHR ''/'' \<notin> set c" "length c = n" by auto
  from pos n_def b(3) have "c \<noteq> ''''" by auto
  then show ?thesis unfolding r b(1) using b(2) by simp
qed

lemma parse_service_cluster:
  "parse_service_from_tag s = Some (c, ns, n) \<Longrightarrow> parse_cluster_from_lb_name s = Some c"
  by (drule parse_service_SomeD) (simp add: parse_cluster_service_lb_name tag_ok_def)

section \<open>Ownership of security group rules\<close>

text \<open>
  A rule description carries the prefix of its own Service, and of no other: the
  separators the names cannot hold keep the prefixes apart.
\<close>

lemma owner_prefix:
  assumes "CHR ''/'' \<notin> set t" "CHR ''/'' \<notin> set (s_ns svc)" "CHR '':'' \<notin> set (s_name svc)"
    and "CHR ''/'' \<notin> set t'" "CHR ''/'' \<notin> set (s_ns svc')" "CHR '':'' \<notin> set (s_name svc')"
  shows "has_prefix (rule_description_prefix t svc @ x) (rule_description_prefix t' svc') \<longleftrightarrow>
     t = t' \<and> s_ns svc = s_ns svc' \<and> s_name svc = s_name svc'"
proof
  assume "has_prefix (rule_description_prefix t svc @ x) (rule_description_prefix t' svc')"
  then have p: "prefix (t' @ CHR ''/'' # s_ns svc' @ CHR ''/'' # s_name svc' @ '':'')
      (t @ CHR ''/'' # s_ns svc @ CHR ''/'' # s_name svc @ '':'' @ x)"
    by (simp add: has_prefix_def rule_description_prefix_def)
  from sep_prefix [OF assms(4,1) p] have t: "t' = t"
    and p2: "prefix (s_ns svc' @ CHR ''/'' # s_name svc' @ '':'')
      (s_ns svc @ CHR ''/'' # s_name svc @ '':'' @ x)" by auto
  from sep_prefix [OF assms(5,2) p2] have ns: "s_ns svc' = s_ns svc"
    and p3: "prefix (s_name svc' @ CHR '':'' # []) (s_name svc @ CHR '':'' # x)" by auto
  from sep_prefix [OF assms(6,3) p3] have "s_name svc' = s_name svc" by simp
  with t ns show "t = t' \<and> s_ns svc = s_ns svc' \<and> s_name svc = s_name svc'" by simp
qed (simp add: has_prefix_def rule_description_prefix_def)

lemma rule_description_owner:
  assumes "CHR ''/'' \<notin> set t" "CHR ''/'' \<notin> set (s_ns svc)" "CHR '':'' \<notin> set (s_name svc)"
    and "CHR ''/'' \<notin> set t'" "CHR ''/'' \<notin> set (s_ns svc')" "CHR '':'' \<notin> set (s_name svc')"
    and "CHR ''/'' \<notin> set (s_name svc)" "CHR ''/'' \<notin> set (s_name svc')"
  shows "has_prefix (rule_description t svc k) (rule_description_prefix t' svc') \<longleftrightarrow>
     t = t' \<and> s_ns svc = s_ns svc' \<and> s_name svc = s_name svc'"
  using owner_prefix [OF assms(1-6), of "rule_key_string k"]
  by (simp add: rule_description_def rule_description_prefix_def)

section \<open>Secret names\<close>

definition tenant_of_secret :: "string \<Rightarrow> string option" where
  "tenant_of_secret name = (if is_kubeconfig_secret_name name then Some (tenant_from_secret_name name) else None)"

definition secret_name_of :: "string \<Rightarrow> string" where
  "secret_name_of tenant = kubeconfig_name_prefix @ tenant @ kubeconfig_suffix"

lemma has_suffix_append3: "has_suffix (p @ t @ q) q"
  using has_suffix_append [of "p @ t" q] by simp

lemma tenant_from_secret_name_of [simp]: "tenant_from_secret_name (secret_name_of t) = t"
  using has_suffix_append3 [of kubeconfig_name_prefix t kubeconfig_suffix]
  by (simp add: tenant_from_secret_name_def secret_name_of_def)

interpretation kubeconfig: name_codec secret_name_of tenant_of_secret "\<lambda>t. t \<noteq> ''''"
proof unfold_locales
  fix t :: string assume "t \<noteq> ''''"
  then have "is_kubeconfig_secret_name (secret_name_of t)"
    using has_suffix_append3 [of kubeconfig_name_prefix t kubeconfig_suffix]
    by (simp add: is_kubeconfig_secret_name_def) (simp add: secret_name_of_def)
  then show "tenant_of_secret (secret_name_of t) = Some t"
    by (simp add: tenant_of_secret_def)
qed

end
