(* ===== verification/Calls.thy ===== *)
theory Calls
  imports Cloud
begin

text \<open>
  The remote calls as programs: each is one field of the environment, recorded as one
  event. They are abbreviations, so that the rules for \<^const>\<open>call\<close> apply to them
  directly. A paged listing comes in the two forms its callers use: every item
  (\<open>\<dots>_items\<close>) or the first that fits (\<open>\<dots>_find\<close>); \<open>list_*_pages\<close> is the raw listing.
\<close>

section \<open>Octavia\<close>

abbreviation list_lbs_pages :: "'w env \<Rightarrow> clients \<Rightarrow> string option \<Rightarrow> ('w, lb pager) lbc" where
  "list_lbs_pages E c f \<equiv> call (o_list_lbs (octavia E) c f) (\<lambda>r. Octavia c (ListLBs f r))"

abbreviation list_lbs_items :: "'w env \<Rightarrow> clients \<Rightarrow> string option \<Rightarrow> ('w, lb list) lbc" where
  "list_lbs_items E c f \<equiv> call_items (o_list_lbs (octavia E) c f) (\<lambda>r. Octavia c (ListLBs f r))"

abbreviation list_lbs_find ::
  "(lb \<Rightarrow> bool) \<Rightarrow> 'w env \<Rightarrow> clients \<Rightarrow> string option \<Rightarrow> ('w, lb option) lbc" where
  "list_lbs_find P E c f \<equiv> call_find P (o_list_lbs (octavia E) c f) (\<lambda>r. Octavia c (ListLBs f r))"

abbreviation create_lb :: "'w env \<Rightarrow> clients \<Rightarrow> lb_opts \<Rightarrow> ('w, lb) lbc" where
  "create_lb E c opts \<equiv> call_val (o_create_lb (octavia E) c opts) (\<lambda>r. Octavia c (CreateLB opts r))"

abbreviation del_lb_cascade :: "'w env \<Rightarrow> clients \<Rightarrow> string \<Rightarrow> ('w, unit) lbc" where
  "del_lb_cascade E c i \<equiv> call_unit (o_del_lb (octavia E) c i) (\<lambda>r. Octavia c (DelLB i r))"

abbreviation list_listeners_items :: "'w env \<Rightarrow> clients \<Rightarrow> string \<Rightarrow> ('w, listener list) lbc" where
  "list_listeners_items E c i \<equiv>
     call_items (o_list_listeners (octavia E) c i) (\<lambda>r. Octavia c (ListListeners i r))"

abbreviation post_listener :: "'w env \<Rightarrow> clients \<Rightarrow> listener_opts \<Rightarrow> ('w, listener) lbc" where
  "post_listener E c opts \<equiv>
     call_val (o_create_listener (octavia E) c opts) (\<lambda>r. Octavia c (CreateListener opts r))"

abbreviation del_listener :: "'w env \<Rightarrow> clients \<Rightarrow> string \<Rightarrow> ('w, unit) lbc" where
  "del_listener E c i \<equiv>
     call_unit (o_del_listener (octavia E) c i) (\<lambda>r. Octavia c (DelListener i r))"

abbreviation list_pools_find ::
  "(pool \<Rightarrow> bool) \<Rightarrow> 'w env \<Rightarrow> clients \<Rightarrow> string \<Rightarrow> ('w, pool option) lbc" where
  "list_pools_find P E c i \<equiv> call_find P (o_list_pools (octavia E) c i) (\<lambda>r. Octavia c (ListPools i r))"

abbreviation create_pool :: "'w env \<Rightarrow> clients \<Rightarrow> pool_opts \<Rightarrow> ('w, pool) lbc" where
  "create_pool E c opts \<equiv>
     call_val (o_create_pool (octavia E) c opts) (\<lambda>r. Octavia c (CreatePool opts r))"

abbreviation list_members_items :: "'w env \<Rightarrow> clients \<Rightarrow> string \<Rightarrow> ('w, member list) lbc" where
  "list_members_items E c i \<equiv>
     call_items (o_list_members (octavia E) c i) (\<lambda>r. Octavia c (ListMembers i r))"

abbreviation set_members :: "'w env \<Rightarrow> clients \<Rightarrow> string \<Rightarrow> member_opts list \<Rightarrow> ('w, unit) lbc" where
  "set_members E c i ms \<equiv>
     call_unit (o_set_members (octavia E) c i ms) (\<lambda>r. Octavia c (SetMembers i ms r))"

section \<open>Neutron\<close>

abbreviation list_sgs_pages :: "'w env \<Rightarrow> clients \<Rightarrow> string option \<Rightarrow> ('w, sgroup pager) lbc" where
  "list_sgs_pages E c f \<equiv> call (n_list_sgs (neutron E) c f) (\<lambda>r. Neutron c (ListSGs f r))"

abbreviation list_sgs_find ::
  "(sgroup \<Rightarrow> bool) \<Rightarrow> 'w env \<Rightarrow> clients \<Rightarrow> string option \<Rightarrow> ('w, sgroup option) lbc" where
  "list_sgs_find P E c f \<equiv> call_find P (n_list_sgs (neutron E) c f) (\<lambda>r. Neutron c (ListSGs f r))"

abbreviation create_sg :: "'w env \<Rightarrow> clients \<Rightarrow> string \<Rightarrow> string \<Rightarrow> ('w, sgroup) lbc" where
  "create_sg E c n d \<equiv> call_val (n_create_sg (neutron E) c n d) (\<lambda>r. Neutron c (CreateSG n d r))"

abbreviation del_sg :: "'w env \<Rightarrow> clients \<Rightarrow> string \<Rightarrow> ('w, unit) lbc" where
  "del_sg E c i \<equiv> call_unit (n_del_sg (neutron E) c i) (\<lambda>r. Neutron c (DelSG i r))"

abbreviation list_rules_items :: "'w env \<Rightarrow> clients \<Rightarrow> string \<Rightarrow> ('w, rule list) lbc" where
  "list_rules_items E c i \<equiv> call_items (n_list_rules (neutron E) c i) (\<lambda>r. Neutron c (ListRules i r))"

abbreviation create_rule :: "'w env \<Rightarrow> clients \<Rightarrow> rule_opts \<Rightarrow> ('w, rule) lbc" where
  "create_rule E c opts \<equiv>
     call_val (n_create_rule (neutron E) c opts) (\<lambda>r. Neutron c (CreateRule opts r))"

abbreviation del_rule :: "'w env \<Rightarrow> clients \<Rightarrow> string \<Rightarrow> ('w, unit) lbc" where
  "del_rule E c i \<equiv> call_unit (n_del_rule (neutron E) c i) (\<lambda>r. Neutron c (DelRule i r))"

abbreviation list_fips_pages :: "'w env \<Rightarrow> clients \<Rightarrow> string option \<Rightarrow> ('w, fip pager) lbc" where
  "list_fips_pages E c f \<equiv> call (n_list_fips (neutron E) c f) (\<lambda>r. Neutron c (ListFIPs f r))"

abbreviation list_fips_find ::
  "(fip \<Rightarrow> bool) \<Rightarrow> 'w env \<Rightarrow> clients \<Rightarrow> string option \<Rightarrow> ('w, fip option) lbc" where
  "list_fips_find P E c f \<equiv> call_find P (n_list_fips (neutron E) c f) (\<lambda>r. Neutron c (ListFIPs f r))"

abbreviation create_fip :: "'w env \<Rightarrow> clients \<Rightarrow> fip_opts \<Rightarrow> ('w, fip) lbc" where
  "create_fip E c opts \<equiv> call_val (n_create_fip (neutron E) c opts) (\<lambda>r. Neutron c (CreateFIP opts r))"

abbreviation del_fip :: "'w env \<Rightarrow> clients \<Rightarrow> string \<Rightarrow> ('w, unit) lbc" where
  "del_fip E c i \<equiv> call_unit (n_del_fip (neutron E) c i) (\<lambda>r. Neutron c (DelFIP i r))"

abbreviation list_ports_find ::
  "(nport \<Rightarrow> bool) \<Rightarrow> 'w env \<Rightarrow> clients \<Rightarrow> string \<Rightarrow> string option \<Rightarrow> string option
     \<Rightarrow> ('w, nport option) lbc" where
  "list_ports_find P E c n ip own \<equiv>
     call_find P (n_list_ports (neutron E) c n ip own) (\<lambda>r. Neutron c (ListPorts n ip own r))"

abbreviation list_ports_items ::
  "'w env \<Rightarrow> clients \<Rightarrow> string \<Rightarrow> string option \<Rightarrow> string option \<Rightarrow> ('w, nport list) lbc" where
  "list_ports_items E c n ip own \<equiv>
     call_items (n_list_ports (neutron E) c n ip own) (\<lambda>r. Neutron c (ListPorts n ip own r))"

abbreviation update_port :: "'w env \<Rightarrow> clients \<Rightarrow> string \<Rightarrow> string list \<Rightarrow> ('w, nport) lbc" where
  "update_port E c i sgs \<equiv>
     call_val (n_update_port (neutron E) c i sgs) (\<lambda>r. Neutron c (UpdatePort i sgs r))"

abbreviation list_networks_find ::
  "(network \<Rightarrow> bool) \<Rightarrow> 'w env \<Rightarrow> clients \<Rightarrow> ('w, network option) lbc" where
  "list_networks_find P E c \<equiv> call_find P (n_list_networks (neutron E) c) (\<lambda>r. Neutron c (ListNetworks r))"

abbreviation list_subnets_find ::
  "(subnet \<Rightarrow> bool) \<Rightarrow> 'w env \<Rightarrow> clients \<Rightarrow> string \<Rightarrow> ('w, subnet option) lbc" where
  "list_subnets_find P E c n \<equiv>
     call_find P (n_list_subnets (neutron E) c n) (\<lambda>r. Neutron c (ListSubnets n r))"

section \<open>Nova and Keystone\<close>

abbreviation list_servers_items :: "'w env \<Rightarrow> clients \<Rightarrow> ('w, server list) lbc" where
  "list_servers_items E c \<equiv> call_items (v_list_servers (nova E) c) (\<lambda>r. Nova c (ListServers r))"

abbreviation del_server :: "'w env \<Rightarrow> clients \<Rightarrow> string \<Rightarrow> ('w, unit) lbc" where
  "del_server E c i \<equiv> call_unit (v_del_server (nova E) c i) (\<lambda>r. Nova c (DelServer i r))"

abbreviation authenticate :: "'w env \<Rightarrow> credentials \<Rightarrow> ('w, unit) lbc" where
  "authenticate E cr \<equiv> call_unit (k_authenticate (keystone E) cr) (\<lambda>r. Keystone (Authenticate cr r))"

abbreviation octavia_client :: "'w env \<Rightarrow> string \<Rightarrow> ('w, unit) lbc" where
  "octavia_client E rg \<equiv> call_unit (k_octavia (keystone E) rg) (\<lambda>r. Keystone (OctaviaClient rg r))"

abbreviation neutron_client :: "'w env \<Rightarrow> string \<Rightarrow> ('w, unit) lbc" where
  "neutron_client E rg \<equiv> call_unit (k_neutron (keystone E) rg) (\<lambda>r. Keystone (NeutronClient rg r))"

abbreviation nova_client :: "'w env \<Rightarrow> string \<Rightarrow> ('w, api_err option) lbc" where
  "nova_client E rg \<equiv> call (k_nova (keystone E) rg) (\<lambda>r. Keystone (NovaClient rg r))"

section \<open>Management cluster and tenant clusters\<close>

abbreviation get_ksc :: "'w env \<Rightarrow> string \<Rightarrow> string \<Rightarrow> ('w, kobj) lbc" where
  "get_ksc E n x \<equiv> call_val (m_get_ksc (mgmt E) n x) (\<lambda>r. Mgmt (GetKSC n x r))"

abbreviation get_secret :: "'w env \<Rightarrow> string \<Rightarrow> string \<Rightarrow> ('w, secret) lbc" where
  "get_secret E n x \<equiv> call_val (m_get_secret (mgmt E) n x) (\<lambda>r. Mgmt (GetSecret n x r))"

abbreviation get_osc :: "'w env \<Rightarrow> string \<Rightarrow> string \<Rightarrow> ('w, kobj) lbc" where
  "get_osc E n x \<equiv> call_val (m_get_osc (mgmt E) n x) (\<lambda>r. Mgmt (GetOSC n x r))"

abbreviation get_hr :: "'w env \<Rightarrow> string \<Rightarrow> string \<Rightarrow> ('w, hrelease) lbc" where
  "get_hr E n x \<equiv> call_val (m_get_hr (mgmt E) n x) (\<lambda>r. Mgmt (GetHR n x r))"

abbreviation list_ksc_hrs :: "'w env \<Rightarrow> string \<Rightarrow> ('w, hrelease list) lbc" where
  "list_ksc_hrs E n \<equiv> call_val (m_list_hrs (mgmt E) n) (\<lambda>r. Mgmt (ListHRs n r))"

abbreviation patch_hr :: "'w env \<Rightarrow> string \<Rightarrow> string \<Rightarrow> string list \<Rightarrow> ('w, unit) lbc" where
  "patch_hr E n x fs \<equiv> call_unit (m_patch_hr (mgmt E) n x fs) (\<lambda>r. Mgmt (PatchHR n x fs r))"

abbreviation list_secrets :: "'w env \<Rightarrow> string \<Rightarrow> ('w, secret list) lbc" where
  "list_secrets E n \<equiv> call_val (m_list_secrets (mgmt E) n) (\<lambda>r. Mgmt (ListSecrets n r))"

abbreviation del_secret :: "'w env \<Rightarrow> string \<Rightarrow> string \<Rightarrow> ('w, unit) lbc" where
  "del_secret E n x \<equiv> call_unit (m_del_secret (mgmt E) n x) (\<lambda>r. Mgmt (DelSecret n x r))"

abbreviation get_svc :: "'w env \<Rightarrow> string \<Rightarrow> string \<Rightarrow> string \<Rightarrow> ('w, service) lbc" where
  "get_svc E t n x \<equiv> call_val (t_get_svc (tenants E) t n x) (\<lambda>r. Tenant t (GetSvc n x r))"

abbreviation patch_finalizers ::
  "'w env \<Rightarrow> string \<Rightarrow> string \<Rightarrow> string \<Rightarrow> string list \<Rightarrow> ('w, unit) lbc" where
  "patch_finalizers E t n x fs \<equiv>
     call_unit (t_patch_finalizers (tenants E) t n x fs) (\<lambda>r. Tenant t (PatchFinalizers n x fs r))"

abbreviation patch_ingress ::
  "'w env \<Rightarrow> string \<Rightarrow> string \<Rightarrow> string \<Rightarrow> string list \<Rightarrow> ('w, unit) lbc" where
  "patch_ingress E t n x ips \<equiv>
     call_unit (t_patch_ingress (tenants E) t n x ips) (\<lambda>r. Tenant t (PatchIngress n x ips r))"

section \<open>Map iteration\<close>

text \<open>\<^verbatim>\<open>range\<close> over a Go map: its entries, in an order the environment chooses.\<close>

definition go_range :: "'w env \<Rightarrow> 'a list \<Rightarrow> ('w, 'a list) lbc" where
  "go_range E al = bind (draw (map_seed E)) (\<lambda>ns. ret (pick_order ns al))"

text \<open>A loop over a map whose body has effects.\<close>

definition for_range :: "'w env \<Rightarrow> 'a list \<Rightarrow> ('a \<Rightarrow> ('w, unit) lbc) \<Rightarrow> ('w, unit) lbc" where
  "for_range E al f = bind (go_range E al) (\<lambda>xs. foreach xs f)"

lemma every_run_go_range [runs]:
  "(\<And>ns. Q [] (Inr (pick_order ns al))) \<Longrightarrow> every_run (go_range E al) Q"
  by (auto simp: go_range_def intro!: runs)

lemma emits_go_range [emit_rules]: "emits P (go_range E al)"
  by (auto simp: go_range_def intro!: emit_rules)

lemma wp_go_range [wp_simps]:
  "wp (go_range E al) Q s =
     (case map_seed E (world s) of (ns, w) \<Rightarrow> Q (Inr (pick_order ns al)) (s\<lparr>world := w\<rparr>))"
  by (simp add: go_range_def wp_simps split: prod.splits)

lemma emits_for_range [emit_rules]:
  assumes "\<And>x. x \<in> set al \<Longrightarrow> emits P (f x)"
  shows "emits P (for_range E al f)"
  unfolding emits_def for_range_def
  by (rule every_run_bind, rule every_run_go_range)
     (use assms in \<open>auto simp: emits_def [symmetric] intro: emits_foreach\<close>)

lemma maintains_go_range [maintain_rules]: "(\<And>w. I w \<Longrightarrow> I (snd (map_seed E w))) \<Longrightarrow> maintains I (go_range E al)"
  unfolding go_range_def by (intro maintain_rules)

lemma maintains_for_range [maintain_rules]:
  assumes "\<And>w. I w \<Longrightarrow> I (snd (map_seed E w))" and "\<And>x. x \<in> set al \<Longrightarrow> maintains I (f x)"
  shows "maintains I (for_range E al f)"
proof -
  have "wp (foreach (pick_order ns al) f) (\<lambda>_ s'. I (world s')) s" if "I (world s)" for ns s
    using maintains_foreach [of "pick_order ns al" I f] assms(2) that by (simp add: maintains_wp)
  with assms(1) show ?thesis
    by (auto simp: maintains_wp for_range_def wp_simps split: prod.splits) (metis snd_conv st.select_convs(1) st.update_convs(1) st.surjective)
qed

lemma wp_for_range [wp_simps]:
  "wp (for_range E al f) Q s =
     (case map_seed E (world s) of (ns, w) \<Rightarrow> wp (foreach (pick_order ns al) f) Q (s\<lparr>world := w\<rparr>))"
  by (simp add: for_range_def wp_simps split: prod.splits)

end
