(* ===== verification/Network.thy ===== *)
theory Network
  imports Calls
begin

text \<open>
  \<^verbatim>\<open>internal/openstack/auth.go\<close>, \<^verbatim>\<open>floatingip.go\<close> and \<^verbatim>\<open>network.go\<close>: the service clients
  of a tenant project, the floating IP of a VIP port, and the networks the controller
  discovers. Empty strings stand for unset fields, as in the code.
\<close>

section \<open>Service clients\<close>

definition new_clients :: "'w env \<Rightarrow> credentials \<Rightarrow> ('w, clients) lbc" where
  "new_clients E creds =
     (if cr_auth_url creds = '''' then throw (Msg ''openstack: AuthURL is required'')
      else if cr_id creds = '''' \<or> cr_secret creds = '''' then
        throw (Msg ''openstack: application credential id+secret are required'')
      else if cr_region creds = '''' then
        throw (Msg ''openstack: RegionName is required (matches KubernetesSwitchcloud.spec.openstack.regionName)'')
      else
        check ''authenticating against OpenStack'' (authenticate E creds) (\<lambda>_.
        check ''building Octavia LBv2 client'' (octavia_client E (cr_region creds)) (\<lambda>_.
        check ''building Neutron v2 client'' (neutron_client E (cr_region creds)) (\<lambda>_.
        bind (nova_client E (cr_region creds)) (\<lambda>compute_err.
        ret \<lparr>cl_creds = creds, cl_compute = (compute_err = None)\<rparr>)))))"

text \<open>Clients are only ever built from complete credentials, and carry them.\<close>

definition creds_complete :: "credentials \<Rightarrow> bool" where
  "creds_complete creds \<longleftrightarrow>
     cr_auth_url creds \<noteq> '''' \<and> cr_id creds \<noteq> '''' \<and> cr_secret creds \<noteq> '''' \<and> cr_region creds \<noteq> ''''"

lemma new_clients_runs:
  "every_run (new_clients E creds) (\<lambda>evs r.
     list_all (\<lambda>e. case e of Keystone _ \<Rightarrow> True | _ \<Rightarrow> False) evs \<and>
     (\<not> creds_complete creds \<longrightarrow> evs = []) \<and>
     (case r of Inr c \<Rightarrow> creds_complete creds \<and> cl_creds c = creds | Inl _ \<Rightarrow> True))"
  unfolding new_clients_def
  by (auto intro!: runs simp: creds_complete_def)

lemma emits_new_clients [emit_rules]: "(\<And>e. P (Keystone e)) \<Longrightarrow> emits P (new_clients E creds)"
  by (auto simp: new_clients_def intro!: emit_rules)

section \<open>Floating IPs\<close>

definition find_fip_by_port :: "'w env \<Rightarrow> clients \<Rightarrow> string \<Rightarrow> ('w, fip option) lbc" where
  "find_fip_by_port E c port = list_fips_find (\<lambda>_. True) E c (Some port)"

definition ensure_floating_ip ::
  "'w env \<Rightarrow> clients \<Rightarrow> string \<Rightarrow> string \<Rightarrow> string \<Rightarrow> string \<Rightarrow> ('w, string) lbc" where
  "ensure_floating_ip E c vip_port net sub desc =
     (if vip_port = '''' then throw (Msg ''vipPortID is empty'')
      else if net = '''' then throw (Msg ''floatingNetworkID is empty'')
      else check ''looking up existing FIP for VIP port'' (find_fip_by_port E c vip_port) (\<lambda>existing.
        case existing of
          Some f \<Rightarrow> ret (fp_addr f)
        | None \<Rightarrow>
            check ''creating floating IP''
              (create_fip E c \<lparr>fo_desc = desc, fo_network = net, fo_subnet = sub, fo_port = vip_port\<rparr>)
              (\<lambda>f. ret (fp_addr f))))"

definition delete_floating_ip :: "'w env \<Rightarrow> clients \<Rightarrow> string \<Rightarrow> ('w, unit) lbc" where
  "delete_floating_ip E c vip_port =
     (if vip_port = '''' then ret ()
      else check ''looking up FIP for delete'' (find_fip_by_port E c vip_port) (\<lambda>existing.
        case existing of
          None \<Rightarrow> ret ()
        | Some f \<Rightarrow> check (''deleting floating IP '' @ fp_id f) (del_fip E c (fp_id f)) ret))"

text \<open>
  At most one floating IP is created, for the port and network asked for and only after a
  listing of that port that shows none; the address returned is that of the listed or of
  the created one.
\<close>

definition fip_pages_none :: "fip pager \<Rightarrow> bool" where
  "fip_pages_none p \<longleftrightarrow> pages_find (\<lambda>_. True) p = Inr None"

definition fip_run ::
  "clients \<Rightarrow> string \<Rightarrow> string \<Rightarrow> string \<Rightarrow> string \<Rightarrow> event list \<Rightarrow> err + string \<Rightarrow> bool" where
  "fip_run c port net sub desc evs r \<longleftrightarrow>
     (evs = [] \<and> (\<exists>e. r = Inl e)) \<or>
     (\<exists>p. evs = [Neutron c (ListFIPs (Some port) p)] \<and>
        (case r of Inr a \<Rightarrow> a \<in> fp_addr ` set (pages_seen p) | Inl _ \<Rightarrow> True)) \<or>
     (\<exists>p x. evs = [Neutron c (ListFIPs (Some port) p),
           Neutron c (CreateFIP \<lparr>fo_desc = desc, fo_network = net, fo_subnet = sub, fo_port = port\<rparr> x)] \<and>
        fip_pages_none p \<and> port \<noteq> '''' \<and> net \<noteq> '''' \<and>
        (case r of Inr a \<Rightarrow> (case x of Inr f \<Rightarrow> a = fp_addr f | Inl _ \<Rightarrow> False) | Inl _ \<Rightarrow> \<exists>e. x = Inl e))"

lemma ensure_floating_ip_runs:
  "every_run (ensure_floating_ip E c port net sub desc) (fip_run c port net sub desc)"
  unfolding ensure_floating_ip_def find_fip_by_port_def
  by (auto intro!: runs simp: fip_run_def fip_pages_none_def dest!: pages_find_Some split: option.splits)

lemma emits_ensure_fip [emit_rules]:
  "(\<And>e. P (Neutron c e)) \<Longrightarrow> emits P (ensure_floating_ip E c port net sub desc)"
  by (auto simp: ensure_floating_ip_def find_fip_by_port_def intro!: emit_rules)

text \<open>A delete touches only the floating IP the listing of the port shows.\<close>

definition fip_delete_run :: "clients \<Rightarrow> string \<Rightarrow> event list \<Rightarrow> err + unit \<Rightarrow> bool" where
  "fip_delete_run c port evs r \<longleftrightarrow>
     (evs = [] \<and> port = '''' \<and> r = Inr ()) \<or>
     (\<exists>p. evs = [Neutron c (ListFIPs (Some port) p)] \<and> (r = Inr () \<longleftrightarrow> fip_pages_none p)) \<or>
     (\<exists>p i x. evs = [Neutron c (ListFIPs (Some port) p), Neutron c (DelFIP i x)] \<and>
        i \<in> fp_id ` set (pages_seen p) \<and> (r = Inr () \<longleftrightarrow> x = None))"

lemma delete_floating_ip_runs:
  "every_run (delete_floating_ip E c port) (fip_delete_run c port)"
  unfolding delete_floating_ip_def find_fip_by_port_def
  by (auto intro!: runs simp: fip_delete_run_def fip_pages_none_def dest!: pages_find_Some split: option.splits)

lemma emits_delete_fip [emit_rules]:
  "(\<And>e. P (Neutron c e)) \<Longrightarrow> emits P (delete_floating_ip E c port)"
  by (auto simp: delete_floating_ip_def find_fip_by_port_def intro!: emit_rules)

section \<open>Networks\<close>

definition find_first_external_network :: "'w env \<Rightarrow> clients \<Rightarrow> ('w, string) lbc" where
  "find_first_external_network E c =
     bind (list_networks_find nw_external E c) (\<lambda>n. case n of None \<Rightarrow> ret '''' | Some n \<Rightarrow> ret (nw_id n))"

definition resolve_member_subnet :: "'w env \<Rightarrow> clients \<Rightarrow> string \<Rightarrow> ('w, string) lbc" where
  "resolve_member_subnet E c net =
     (if net = '''' then throw (Msg ''tenant network ID is empty'')
      else bind (list_subnets_find (\<lambda>s. sn_version s = 4 \<or> \<not> str_contains (sn_cidr s) '':'') E c net) (\<lambda>s.
        let found = (case s of None \<Rightarrow> '''' | Some s \<Rightarrow> sn_id s) in
        if found = '''' then throw (Msg (''no IPv4 subnet on network '' @ quoted net)) else ret found))"

lemma resolve_member_subnet_runs:
  "every_run (resolve_member_subnet E c net) (\<lambda>evs r.
     evs = [] \<and> net = '''' \<or>
     (\<exists>p. evs = [Neutron c (ListSubnets net p)] \<and>
        (case r of
           Inr i \<Rightarrow> i \<noteq> '''' \<and> (\<exists>s \<in> set (pages_seen p). sn_id s = i \<and>
             (sn_version s = 4 \<or> CHR '':'' \<notin> set (sn_cidr s)))
         | Inl _ \<Rightarrow> True)))"
  unfolding resolve_member_subnet_def
  by (auto intro!: runs simp: Let_def str_contains_char dest!: pages_find_Some split: option.splits if_splits; blast)

lemma emits_networks [emit_rules]:
  "(\<And>e. P (Neutron c e)) \<Longrightarrow> emits P (find_first_external_network E c)"
  "(\<And>e. P (Neutron c e)) \<Longrightarrow> emits P (resolve_member_subnet E c net)"
  by (auto simp: find_first_external_network_def resolve_member_subnet_def Let_def intro!: emit_rules)

end
