(* ===== verification/LoadBalancer.thy ===== *)
theory LoadBalancer
  imports Naming Network
begin

text \<open>
  \<^verbatim>\<open>internal/openstack/loadbalancer.go\<close>: the Octavia load balancer of a Service. The
  reconcile is single-step: a call performs at most one mutation and asks to be called
  again when it did.
\<close>

definition status_active :: string where "status_active = ''ACTIVE''"
definition status_error :: string where "status_error = ''ERROR''"
definition status_pending_delete :: string where "status_pending_delete = ''PENDING_DELETE''"

section \<open>The load balancer\<close>

definition find_lb_by_name :: "'w env \<Rightarrow> clients \<Rightarrow> string \<Rightarrow> ('w, lb option) lbc" where
  "find_lb_by_name E c name = list_lbs_find (\<lambda>b. lb_name b = name) E c (Some name)"

definition ensure_lb ::
  "'w env \<Rightarrow> clients \<Rightarrow> string \<Rightarrow> service \<Rightarrow> string \<Rightarrow> string \<Rightarrow> ('w, lb \<times> bool) lbc" where
  "ensure_lb E c tenant svc vip_network provider =
     (if vip_network = '''' then throw (Msg ''vipNetworkID is empty'')
      else let name = service_lb_name tenant (s_ns svc) (s_name svc) in
        check ''looking up existing LB'' (find_lb_by_name E c name) (\<lambda>existing.
          case existing of
            Some b \<Rightarrow>
              if lb_status b = status_active then ret (b, False)
              else if lb_status b = status_error then
                throw (Msg (''LB '' @ lb_id b @ '' is in provisioning_status=ERROR (operating_status='' @
                  lb_oper b @ '')''))
              else ret (b, True)
          | None \<Rightarrow>
              check ''creating Octavia LB''
                (create_lb E c
                  \<lparr>lo_name = name,
                   lo_desc = ''Managed by Cozystack loadbalancer-controller; tenant='' @ tenant @
                     '' ns='' @ s_ns svc @ '' svc='' @ s_name svc,
                   lo_provider = (if provider = '''' then ''ovn'' else provider),
                   lo_network = vip_network\<rparr>)
                (\<lambda>b. ret (b, True))))"

definition delete_lb :: "'w env \<Rightarrow> clients \<Rightarrow> string \<Rightarrow> service \<Rightarrow> ('w, bool) lbc" where
  "delete_lb E c tenant svc =
     (let name = service_lb_name tenant (s_ns svc) (s_name svc) in
      check ''looking up LB for delete'' (find_lb_by_name E c name) (\<lambda>existing.
        case existing of
          None \<Rightarrow> ret False
        | Some b \<Rightarrow>
            if \<not> is_managed b then
              throw (Msg (''refusing to delete LB '' @ lb_id b @ '': name does not carry the '' @
                managed_name_prefix @ '' prefix''))
            else check ''detaching FIP before LB delete'' (delete_floating_ip E c (lb_vip_port b)) (\<lambda>_.
              if lb_status b = status_pending_delete then ret True
              else check (''deleting LB '' @ lb_id b) (del_lb_cascade E c (lb_id b)) (\<lambda>_. ret True))))"

section \<open>Listeners, pools and members\<close>

definition supported_protocol :: "string \<Rightarrow> bool" where
  "supported_protocol p \<longleftrightarrow> p = ''TCP'' \<or> p = ''UDP'' \<or> p = ''SCTP''"

fun desired_ports :: "svc_port list \<Rightarrow> err + svc_port list" where
  "desired_ports [] = Inr []"
| "desired_ports (p # ps) =
     (if \<not> supported_protocol (p_proto p) then
        Inl (Msg (''port '' @ itoa (p_port p) @ '' has unsupported protocol '' @ quoted (p_proto p) @
          '' (OVN listener requires TCP/UDP/SCTP)''))
      else if p_nodeport p = 0 then
        Inl (Msg (''port '' @ itoa (p_port p) @ '' has no nodePort allocated; ensure '' @
          ''Service.spec.type=LoadBalancer triggered kube-apiserver to assign one''))
      else case desired_ports ps of Inl e \<Rightarrow> Inl e | Inr qs \<Rightarrow> Inr (p # qs))"

definition listener_name :: "svc_port \<Rightarrow> string" where
  "listener_name p = ''port-'' @ itoa (p_port p) @ ''-'' @ to_lower (p_proto p)"

definition create_listener :: "'w env \<Rightarrow> clients \<Rightarrow> string \<Rightarrow> string \<Rightarrow> svc_port \<Rightarrow> ('w, listener) lbc" where
  "create_listener E c lbid name p =
     post_listener E c \<lparr>lso_name = name, lso_lb = lbid, lso_proto = p_proto p, lso_port = p_port p\<rparr>"

definition find_pool_for_listener :: "'w env \<Rightarrow> clients \<Rightarrow> string \<Rightarrow> string \<Rightarrow> ('w, pool option) lbc" where
  "find_pool_for_listener E c lbid lid = list_pools_find (\<lambda>p. list_ex (\<lambda>l. l = lid) (pl_listeners p)) E c lbid"

definition ensure_pool :: "'w env \<Rightarrow> clients \<Rightarrow> string \<Rightarrow> string \<Rightarrow> svc_port \<Rightarrow> ('w, pool \<times> bool) lbc" where
  "ensure_pool E c lbid lid p =
     bind (find_pool_for_listener E c lbid lid) (\<lambda>existing.
       case existing of
         Some q \<Rightarrow> ret (q, False)
       | None \<Rightarrow>
           check ''creating pool''
             (create_pool E c
               \<lparr>po_name = ''pool-'' @ lid, po_method = ''SOURCE_IP_PORT'', po_proto = p_proto p,
                po_listener = lid, po_desc = ''Managed by Cozystack loadbalancer-controller''\<rparr>)
             (\<lambda>q. ret (q, True)))"

definition member_drift :: "member list \<Rightarrow> int \<Rightarrow> string list \<Rightarrow> string \<Rightarrow> bool" where
  "member_drift existing nodeport ips subnet =
     (let desired = fold (\<lambda>ip. AList.update ip ()) ips [];
          current = fold (\<lambda>m. AList.update (mb_addr m) m) existing []
      in if length current \<noteq> length desired then True
         else list_ex (\<lambda>(ip, _). case map_of current ip of
                None \<Rightarrow> True
              | Some cur \<Rightarrow> mb_port cur \<noteq> nodeport \<or> mb_subnet cur \<noteq> subnet) desired)"

definition member_update :: "int \<Rightarrow> string \<Rightarrow> string \<Rightarrow> member_opts" where
  "member_update nodeport subnet ip =
     \<lparr>mo_name = ''worker-'' @ replace_char (CHR ''.'') (CHR ''-'') ip, mo_addr = ip, mo_port = nodeport,
      mo_subnet = subnet\<rparr>"

definition sync_members ::
  "'w env \<Rightarrow> clients \<Rightarrow> string \<Rightarrow> int \<Rightarrow> string list \<Rightarrow> string \<Rightarrow> ('w, bool) lbc" where
  "sync_members E c pool_id nodeport ips subnet =
     check ''listing pool members'' (list_members_items E c pool_id) (\<lambda>existing.
       if \<not> member_drift existing nodeport ips subnet then ret False
       else check (''batch-updating pool '' @ pool_id @ '' members'')
              (set_members E c pool_id (map (member_update nodeport subnet) ips)) (\<lambda>_. ret True))"

definition sync_port ::
  "'w env \<Rightarrow> clients \<Rightarrow> lb \<Rightarrow> (string \<times> listener) list \<Rightarrow> string list \<Rightarrow> string \<Rightarrow> svc_port \<Rightarrow>
     ('w, bool option) lbc" where
  "sync_port E c b by_name ips subnet p =
     (case map_of by_name (listener_name p) of
        None \<Rightarrow>
          check (''creating listener '' @ listener_name p) (create_listener E c (lb_id b) (listener_name p) p)
            (\<lambda>_. ret (Some True))
      | Some l \<Rightarrow>
          check (''ensuring pool for listener '' @ listener_name p) (ensure_pool E c (lb_id b) (ls_id l) p)
            (\<lambda>(pool, created).
              if created then ret (Some True)
              else check (''syncing members for pool '' @ pl_id pool)
                     (sync_members E c (pl_id pool) (p_nodeport p) ips subnet)
                     (\<lambda>changed. ret (if changed then Some True else None))))"

definition drop_listener ::
  "'w env \<Rightarrow> clients \<Rightarrow> string list \<Rightarrow> string \<times> listener \<Rightarrow> ('w, bool option) lbc" where
  "drop_listener E c keep nl =
     (case nl of (name, l) \<Rightarrow>
        if name \<in> set keep then ret None
        else check (''deleting stale listener '' @ ls_id l) (del_listener E c (ls_id l)) (\<lambda>_. ret (Some True)))"

definition sync_listeners_and_members ::
  "'w env \<Rightarrow> clients \<Rightarrow> lb \<Rightarrow> service \<Rightarrow> string list \<Rightarrow> string \<Rightarrow> ('w, bool) lbc" where
  "sync_listeners_and_members E c b svc ips subnet =
     (if lb_status b \<noteq> status_active then ret True
      else case desired_ports (s_ports svc) of
        Inl e \<Rightarrow> throw e
      | Inr ports \<Rightarrow>
          check ''listing existing listeners'' (list_listeners_items E c (lb_id b)) (\<lambda>existing.
            let by_name = fold (\<lambda>l. AList.update (ls_name l) l) existing [];
                keep = map listener_name ports
            in bind (foreach_until ports (sync_port E c b by_name ips subnet)) (\<lambda>done1.
                 case done1 of
                   Some r \<Rightarrow> ret r
                 | None \<Rightarrow>
                     bind (go_range E by_name) (\<lambda>order.
                     bind (foreach_until order (drop_listener E c keep)) (\<lambda>done2.
                       case done2 of Some r \<Rightarrow> ret r | None \<Rightarrow> ret False)))))"

section \<open>Runs of the load balancer operations\<close>

text \<open>
  Every run of \<^const>\<open>ensure_lb\<close> is a rejected argument, or one listing by the Service's
  name, possibly followed by one create of that name. It creates only when the listing shows no
  such balancer, answers \<^term>\<open>False\<close> for pending only with a listed active one, and answers a
  listed one in error with an error. A created balancer is answered as pending, whatever status
  the create reports; the next run lists it.
\<close>

definition ensure_lb_run :: "clients \<Rightarrow> string \<Rightarrow> event list \<Rightarrow> err + lb \<times> bool \<Rightarrow> bool" where
  "ensure_lb_run c name evs r \<longleftrightarrow>
     evs = [] \<and> (\<exists>e. r = Inl e) \<or>
     (\<exists>p. evs = [Octavia c (ListLBs (Some name) p)] \<and>
        (case r of
           Inr (b, pending) \<Rightarrow> pages_find (\<lambda>b. lb_name b = name) p = Inr (Some b) \<and> b \<in> set (pages_seen p) \<and>
             lb_name b = name \<and> lb_status b \<noteq> ''ERROR'' \<and> pending = (lb_status b \<noteq> ''ACTIVE'')
         | Inl e \<Rightarrow> (case pages_find (\<lambda>b. lb_name b = name) p of
             Inl _ \<Rightarrow> True
           | Inr None \<Rightarrow> False
           | Inr (Some b) \<Rightarrow> lb_status b = ''ERROR''))) \<or>
     (\<exists>p opts x. evs = [Octavia c (ListLBs (Some name) p), Octavia c (CreateLB opts x)] \<and>
        pages_find (\<lambda>b. lb_name b = name) p = Inr None \<and> lo_name opts = name \<and> lo_network opts \<noteq> '''' \<and>
        lo_provider opts \<noteq> '''' \<and>
        (case r of Inr (b, pending) \<Rightarrow> x = Inr b \<and> pending | Inl e \<Rightarrow> \<exists>a. x = Inl a))"

lemma status_distinct [simp]:
  "status_active \<noteq> status_error" "status_error \<noteq> status_active"
  "status_active \<noteq> status_pending_delete" "status_pending_delete \<noteq> status_active"
  "status_error \<noteq> status_pending_delete" "status_pending_delete \<noteq> status_error"
  by (simp_all add: status_active_def status_error_def status_pending_delete_def)

lemma ensure_lb_runs:
  "every_run (ensure_lb E c tenant svc net prov)
     (ensure_lb_run c (service_lb_name tenant (s_ns svc) (s_name svc)))"
  unfolding ensure_lb_def find_lb_by_name_def Let_def
  by (auto intro!: runs simp: ensure_lb_run_def status_active_def status_error_def split: option.splits;
      drule pages_find_Some; simp)

text \<open>
  Every run of \<^const>\<open>delete_lb\<close> lists the Service's name; it reports the balancer gone only
  when the listing shows none; it removes the floating IP of the VIP port before it asks
  Octavia to delete, deletes only the listed balancer, and repeats no delete in progress.
\<close>

definition delete_lb_run :: "clients \<Rightarrow> string \<Rightarrow> event list \<Rightarrow> err + bool \<Rightarrow> bool" where
  "delete_lb_run c name evs r \<longleftrightarrow>
     (\<exists>p evs'. evs = Octavia c (ListLBs (Some name) p) # evs' \<and>
        (case pages_find (\<lambda>b. lb_name b = name) p of
           Inl a \<Rightarrow> evs' = [] \<and> (\<exists>e. r = Inl e)
         | Inr None \<Rightarrow> evs' = [] \<and> r = Inr False
         | Inr (Some b) \<Rightarrow> r \<noteq> Inr False \<and>
             (\<exists>evs1 r1. fip_delete_run c (lb_vip_port b) evs1 r1 \<and>
                (case r1 of
                   Inl _ \<Rightarrow> evs' = evs1 \<and> (\<exists>e. r = Inl e)
                 | Inr _ \<Rightarrow>
                     if lb_status b = status_pending_delete then evs' = evs1 \<and> r = Inr True
                     else (\<exists>x. evs' = evs1 @ [Octavia c (DelLB (lb_id b) x)] \<and> (r = Inr True \<longleftrightarrow> x = None))))))"

lemma delete_lb_runs:
  "every_run (delete_lb E c tenant svc)
     (delete_lb_run c (service_lb_name tenant (s_ns svc) (s_name svc)))"
proof -
  let ?name = "service_lb_name tenant (s_ns svc) (s_name svc)"
  have managed: "is_managed b" if "lb_name b = ?name" for b
    using that by (simp add: is_managed_def service_lb_name_def)
  have found: "every_run (check m1 (delete_floating_ip E c (lb_vip_port b)) (\<lambda>_.
      if lb_status b = status_pending_delete then ret True
      else check m2 (del_lb_cascade E c (lb_id b)) (\<lambda>_. ret True)))
      (\<lambda>evs. delete_lb_run c ?name (Octavia c (ListLBs (Some ?name) p) # evs))"
    if p: "pages_find (\<lambda>b. lb_name b = ?name) p = Inr (Some b)" for p b m1 m2
  proof -
    have "every_run (check m1 (delete_floating_ip E c (lb_vip_port b)) (\<lambda>_.
      if lb_status b = status_pending_delete then ret True
      else check m2 (del_lb_cascade E c (lb_id b)) (\<lambda>_. ret True)))
      (\<lambda>evs' r. r \<noteq> Inr False \<and> (\<exists>evs1 r1. fip_delete_run c (lb_vip_port b) evs1 r1 \<and>
                (case r1 of
                   Inl _ \<Rightarrow> evs' = evs1 \<and> (\<exists>e. r = Inl e)
                 | Inr _ \<Rightarrow>
                     if lb_status b = status_pending_delete then evs' = evs1 \<and> r = Inr True
                     else (\<exists>x. evs' = evs1 @ [Octavia c (DelLB (lb_id b) x)] \<and> (r = Inr True \<longleftrightarrow> x = None)))))"
      by (rule every_run_check, rule every_run_mono [OF delete_floating_ip_runs])
         (fastforce intro!: runs split: sum.splits)
    then show ?thesis
      by (rule every_run_mono) (simp add: delete_lb_run_def p)
  qed
  show ?thesis
    unfolding delete_lb_def find_lb_by_name_def Let_def
    by (rule every_run_check, rule every_run_call_find)
       (auto simp: delete_lb_run_def managed found dest: pages_find_Some intro!: every_run_ret split: option.split)
qed

lemma delete_lb_gone:
  assumes "delete_lb_run c n evs (Inr False)"
  shows "\<exists>p. Octavia c (ListLBs (Some n) p) \<in> set evs \<and> pages_find (\<lambda>b. lb_name b = n) p = Inr None"
proof -
  from assms [unfolded delete_lb_run_def]
  obtain p evs' where evs: "evs = Octavia c (ListLBs (Some n) p) # evs'" "Octavia c (ListLBs (Some n) p) \<in> set evs"
    and run: "case pages_find (\<lambda>b. lb_name b = n) p of
           Inl a \<Rightarrow> evs' = [] \<and> (\<exists>e. Inr False = (Inl e :: err + bool))
         | Inr None \<Rightarrow> evs' = [] \<and> Inr False = (Inr False :: err + bool)
         | Inr (Some b) \<Rightarrow> Inr False \<noteq> (Inr False :: err + bool) \<and>
             (\<exists>evs1 r1. fip_delete_run c (lb_vip_port b) evs1 r1 \<and>
                (case r1 of
                   Inl _ \<Rightarrow> evs' = evs1 \<and> (\<exists>e. Inr False = (Inl e :: err + bool))
                 | Inr _ \<Rightarrow>
                     if lb_status b = status_pending_delete then evs' = evs1 \<and> Inr False = (Inr True :: err + bool)
                     else (\<exists>x. evs' = evs1 @ [Octavia c (DelLB (lb_id b) x)] \<and>
                       ((Inr False :: err + bool) = Inr True \<longleftrightarrow> x = None))))"
    by (elim exE conjE) (metis list.set_intros(1))
  have "pages_find (\<lambda>b. lb_name b = n) p = Inr None"
  proof (cases "pages_find (\<lambda>b. lb_name b = n) p")
    case (Inr x)
    with run show ?thesis by (cases x) simp_all
  qed (use run in simp)
  with evs show ?thesis by blast
qed

lemma emits_lb [emit_rules]:
  assumes "\<And>e. P (Octavia c e)"
  shows "emits P (ensure_lb E c tenant svc net prov)"
    and "emits P (sync_listeners_and_members E c b svc ips subnet)"
  using assms
  by (auto simp: ensure_lb_def find_lb_by_name_def sync_listeners_and_members_def sync_port_def
      create_listener_def ensure_pool_def find_pool_for_listener_def sync_members_def drop_listener_def Let_def
      intro!: emit_rules split: sum.splits option.splits prod.splits)

lemma emits_delete_lb [emit_rules]:
  assumes "\<And>e. P (Octavia c e)" "\<And>e. P (Neutron c e)"
  shows "emits P (delete_lb E c tenant svc)"
  using assms by (auto simp: delete_lb_def find_lb_by_name_def Let_def intro!: emit_rules)

section \<open>One mutation per pass\<close>

text \<open>
  A pass is reads, then at most one mutation, its last call. It reports pending exactly
  when the balancer was not active, and then it did nothing, or when it made a mutation.
\<close>

definition reads_only :: "event list \<Rightarrow> bool" where
  "reads_only evs = list_all (\<lambda>e. \<not> cloud_mutation e) evs"

definition step_run :: "event list \<Rightarrow> err + bool option \<Rightarrow> bool" where
  "step_run evs r \<longleftrightarrow> reads_only (butlast evs) \<and>
     (case r of Inl _ \<Rightarrow> True
        | Inr None \<Rightarrow> reads_only evs
        | Inr (Some b) \<Rightarrow> b \<and> evs \<noteq> [] \<and> cloud_mutation (last evs))"

definition sync_run :: "lb \<Rightarrow> event list \<Rightarrow> err + bool \<Rightarrow> bool" where
  "sync_run b evs r \<longleftrightarrow> reads_only (butlast evs) \<and>
     (lb_status b \<noteq> status_active \<longrightarrow> evs = [] \<and> r = Inr True) \<and>
     (lb_status b = status_active \<longrightarrow>
        (case r of Inl _ \<Rightarrow> True | Inr pending \<Rightarrow> pending = (evs \<noteq> [] \<and> cloud_mutation (last evs))))"

lemma reads_only_simps [simp]:
  "reads_only []" "reads_only (e # evs) \<longleftrightarrow> \<not> cloud_mutation e \<and> reads_only evs"
  "reads_only (xs @ ys) \<longleftrightarrow> reads_only xs \<and> reads_only ys"
  by (simp_all add: reads_only_def)

lemma reads_only_butlast [simp]: "reads_only evs \<Longrightarrow> reads_only (butlast evs)"
  by (auto simp: reads_only_def list_all_iff dest: in_set_butlastD)

lemma reads_only_last: "reads_only evs \<Longrightarrow> evs \<noteq> [] \<Longrightarrow> \<not> cloud_mutation (last evs)"
  by (auto simp: reads_only_def list_all_iff)

lemma sync_port_step: "every_run (sync_port E c b by_name ips subnet p) step_run"
  unfolding sync_port_def create_listener_def ensure_pool_def find_pool_for_listener_def sync_members_def
  by (auto intro!: runs simp: step_run_def split: option.splits)

lemma drop_listener_step: "every_run (drop_listener E c keep nl) step_run"
  unfolding drop_listener_def
  by (auto intro!: runs simp: step_run_def split: prod.splits)

lemma step_run_append:
  assumes "step_run evs (Inr None)" "step_run evs' r"
  shows "step_run (evs @ evs') r"
  using assms by (auto simp: step_run_def butlast_append split: sum.splits option.splits)

lemma foreach_until_step:
  assumes "\<And>x. x \<in> set xs \<Longrightarrow> every_run (f x) step_run"
  shows "every_run (foreach_until xs f) step_run"
  using assms
proof (induction xs)
  case (Cons x xs)
  then have "every_run (f x) step_run" and rest: "every_run (foreach_until xs f) step_run" by simp_all
  from this(1) show ?case
    unfolding foreach_until.simps
  proof (rule every_run_bind [OF every_run_mono])
    fix evs r assume step: "step_run evs r"
    show "case r of Inl e \<Rightarrow> step_run evs (Inl e)
      | Inr y \<Rightarrow> every_run (case y of None \<Rightarrow> foreach_until xs f | Some z \<Rightarrow> ret (Some z))
          (\<lambda>evs'. step_run (evs @ evs'))"
      using step step_run_append
      by (auto split: sum.splits option.splits intro!: every_run_ret every_run_mono [OF rest])
  qed
qed (simp add: every_run_ret step_run_def)

definition step_result :: "err + bool option \<Rightarrow> err + bool" where
  "step_result r = (case r of Inl e \<Rightarrow> Inl e | Inr None \<Rightarrow> Inr False | Inr (Some x) \<Rightarrow> Inr x)"

definition steps_to :: "event list \<Rightarrow> err + bool \<Rightarrow> bool" where
  "steps_to evs r \<longleftrightarrow> (\<exists>r'. step_run evs r' \<and> r = step_result r')"

lemma steps_to_intros:
  "step_run evs (Inr (Some x)) \<Longrightarrow> steps_to evs (Inr x)"
  "step_run evs (Inr None) \<Longrightarrow> steps_to evs (Inr False)"
  "step_run evs (Inl e) \<Longrightarrow> steps_to evs (Inl e)"
  unfolding steps_to_def step_result_def by force+

lemma steps_to_append: "step_run evs (Inr None) \<Longrightarrow> steps_to evs' r \<Longrightarrow> steps_to (evs @ evs') r"
  unfolding steps_to_def by (blast intro: step_run_append)

lemma every_run_steps:
  assumes "every_run m step_run" and "every_run n steps_to"
  shows "every_run (bind m (\<lambda>r. case r of Some x \<Rightarrow> ret x | None \<Rightarrow> n)) steps_to"
  by (rule every_run_bind, rule every_run_mono [OF assms(1)])
     (auto intro!: every_run_ret every_run_mono [OF assms(2)] simp: steps_to_intros steps_to_append
        split: sum.splits option.splits)

lemma every_run_bind_range:
  assumes "\<And>ns. every_run (f (pick_order ns al)) Q"
  shows "every_run (bind (go_range E al) f) Q"
  by (rule every_run_bind, rule every_run_go_range) (simp add: assms)

lemma steps_to_sync:
  assumes "steps_to evs r" "lb_status b = status_active"
  shows "sync_run b (Octavia c (ListListeners i p) # evs) r"
  using assms reads_only_last [of evs]
  by (auto simp: steps_to_def step_result_def step_run_def sync_run_def split: sum.splits option.splits)

lemma sync_runs: "every_run (sync_listeners_and_members E c b svc ips subnet) (sync_run b)"
proof -
  have done0: "every_run (ret False) steps_to"
    by (rule every_run_ret, rule steps_to_intros) (simp add: step_run_def)
  have body: "every_run (bind (foreach_until ports (sync_port E c b by_name ips subnet)) (\<lambda>done1.
        case done1 of
          Some r \<Rightarrow> ret r
        | None \<Rightarrow>
            bind (go_range E by_name) (\<lambda>order.
            bind (foreach_until order (drop_listener E c keep)) (\<lambda>done2.
              case done2 of Some r \<Rightarrow> ret r | None \<Rightarrow> ret False)))) steps_to" for ports by_name keep
    by (intro every_run_steps every_run_bind_range foreach_until_step sync_port_step drop_listener_step done0)
  show ?thesis
  proof (cases "lb_status b = status_active")
    case True
    have ok: "every_run (throw e) (sync_run b)" for e
      using True by (simp add: every_run_throw sync_run_def)
    have err: "sync_run b [Octavia c (ListListeners i p)] (Inl e)" for i p e
      using True by (simp add: sync_run_def)
    show ?thesis
      unfolding sync_listeners_and_members_def Let_def
      apply (rule every_run_if, use True in simp)
      apply (cases "desired_ports (s_ports svc)"; simp add: ok)
      apply (rule every_run_check, rule every_run_call_items)
      apply (simp add: err)
      apply simp
      apply (rule every_run_mono [OF body])
      apply (erule steps_to_sync [OF _ True])
      done
  next
    case False
    then show ?thesis
      by (simp add: sync_listeners_and_members_def sync_run_def every_run_ret)
  qed
qed

end
