(* ===== verification/SecurityGroup.thy ===== *)
theory SecurityGroup
  imports Naming Calls
begin

text \<open>
  \<^verbatim>\<open>internal/openstack/securitygroup.go\<close>: the per-cluster security group with its
  baseline rules, and the NodePort ingress rules of each Service. Go maps keyed by
  \<^typ>\<open>rule_key\<close> are association lists; the loops over them run in the order of
  \<^const>\<open>go_range\<close>.
\<close>

section \<open>The cluster security group\<close>

definition find_sg_by_name :: "'w env \<Rightarrow> clients \<Rightarrow> string \<Rightarrow> ('w, sgroup option) lbc" where
  "find_sg_by_name E c name = list_sgs_find (\<lambda>g. sg_name g = name) E c (Some name)"

definition baseline_rule :: "string \<Rightarrow> string \<Rightarrow> rule_opts" where
  "baseline_rule sgid ether =
     \<lparr>ro_sg = sgid, ro_dir = ''ingress'', ro_ether = ether, ro_pmin = 0, ro_pmax = 0, ro_proto = '''',
      ro_cidr = '''', ro_group = sgid, ro_desc = ''cozystack-lb baseline: intra-SG '' @ ether\<rparr>"

definition ensure_baseline_rules :: "'w env \<Rightarrow> clients \<Rightarrow> string \<Rightarrow> ('w, unit) lbc" where
  "ensure_baseline_rules E c sgid =
     check ''listing baseline rules'' (list_rules_items E c sgid) (\<lambda>rs.
       let have_ether = map ru_ether (filter (\<lambda>r. ru_dir r = ''ingress'' \<and> ru_group r = sgid \<and> ru_proto r = '''') rs)
       in foreach [baseline_rule sgid ''IPv4'', baseline_rule sgid ''IPv6''] (\<lambda>opts.
            if ro_ether opts \<in> set have_ether then ret ()
            else check (''creating baseline '' @ ro_ether opts @ '' rule'') (create_rule E c opts) (\<lambda>_. ret ())))"

definition ensure_cluster_security_group :: "'w env \<Rightarrow> clients \<Rightarrow> string \<Rightarrow> ('w, string) lbc" where
  "ensure_cluster_security_group E c cluster =
     (let name = cluster_sg_name cluster in
      check ''looking up cluster SG'' (find_sg_by_name E c name) (\<lambda>existing.
        case existing of
          Some g \<Rightarrow>
            check ''ensuring baseline rules on existing SG'' (ensure_baseline_rules E c (sg_id g))
              (\<lambda>_. ret (sg_id g))
        | None \<Rightarrow>
            check ''creating cluster SG''
              (create_sg E c name (''Managed by Cozystack loadbalancer-controller; cluster='' @ cluster))
              (\<lambda>g. check ''ensuring baseline rules on new SG'' (ensure_baseline_rules E c (sg_id g))
                     (\<lambda>_. ret (sg_id g)))))"

definition lookup_cluster_security_group :: "'w env \<Rightarrow> clients \<Rightarrow> string \<Rightarrow> ('w, string) lbc" where
  "lookup_cluster_security_group E c cluster =
     check ''looking up cluster SG for cleanup'' (find_sg_by_name E c (cluster_sg_name cluster))
       (\<lambda>g. case g of None \<Rightarrow> ret '''' | Some g \<Rightarrow> ret (sg_id g))"

section \<open>NodePort rules\<close>

definition ether_type_for :: "string \<Rightarrow> string" where
  "ether_type_for cidr = (if str_contains cidr '':'' then ''IPv6'' else ''IPv4'')"

definition desired_rule :: "string \<Rightarrow> service \<Rightarrow> rule_key \<Rightarrow> rule_opts" where
  "desired_rule tenant svc k =
     \<lparr>ro_sg = '''', ro_dir = ''ingress'', ro_ether = ether_type_for (rk_cidr k), ro_pmin = rk_port k,
      ro_pmax = rk_port k, ro_proto = rk_proto k, ro_cidr = rk_cidr k, ro_group = '''',
      ro_desc = rule_description tenant svc k\<rparr>"

definition build_desired_rules :: "string \<Rightarrow> service \<Rightarrow> string list \<Rightarrow> (rule_key \<times> rule_opts) list" where
  "build_desired_rules tenant svc allowed_cidrs =
     fold (\<lambda>p out.
       if p_nodeport p = 0 then out
       else let proto = to_lower (p_proto p) in
         fold (\<lambda>cidr out.
           let k = \<lparr>rk_port = p_nodeport p, rk_proto = proto, rk_cidr = cidr\<rparr>
           in AList.update k (desired_rule tenant svc k) out) allowed_cidrs out)
       (s_ports svc) []"

definition owned_rules :: "string \<Rightarrow> service \<Rightarrow> rule list \<Rightarrow> (rule_key \<times> rule) list" where
  "owned_rules tenant svc rs =
     fold (\<lambda>r out.
       if \<not> has_prefix (ru_desc r) (rule_description_prefix tenant svc) then out
       else if ru_dir r \<noteq> ''ingress'' then out
       else if ru_pmin r = 0 \<or> ru_pmin r \<noteq> ru_pmax r then out
       else AList.update \<lparr>rk_port = ru_pmin r, rk_proto = ru_proto r, rk_cidr = ru_cidr r\<rparr> r out) rs []"

definition list_owned_rules ::
  "'w env \<Rightarrow> clients \<Rightarrow> string \<Rightarrow> string \<Rightarrow> service \<Rightarrow> ('w, (rule_key \<times> rule) list) lbc" where
  "list_owned_rules E c sgid tenant svc =
     bind (list_rules_items E c sgid) (\<lambda>rs. ret (owned_rules tenant svc rs))"

definition ensure_node_port_rules ::
  "'w env \<Rightarrow> clients \<Rightarrow> string \<Rightarrow> string \<Rightarrow> service \<Rightarrow> string list \<Rightarrow> ('w, unit) lbc" where
  "ensure_node_port_rules E c sgid tenant svc allowed_cidrs =
     (if sgid = '''' then throw (Msg ''workerSecurityGroupID is empty'')
      else if allowed_cidrs = [] then throw (Msg ''allowedCIDRs is empty'')
      else check ''listing existing SG rules for Service'' (list_owned_rules E c sgid tenant svc) (\<lambda>existing.
        let desired = build_desired_rules tenant svc allowed_cidrs in
        bind (for_range E existing (\<lambda>(k, r).
                if map_of desired k \<noteq> None then ret ()
                else check (''deleting stale SG rule '' @ ru_id r) (del_rule E c (ru_id r)) ret)) (\<lambda>_.
        for_range E desired (\<lambda>(k, opts).
          if map_of existing k \<noteq> None then ret ()
          else check (''creating SG rule '' @ rule_key_string k) (create_rule E c (opts\<lparr>ro_sg := sgid\<rparr>))
                 (\<lambda>_. ret ())))))"

definition delete_node_port_rules ::
  "'w env \<Rightarrow> clients \<Rightarrow> string \<Rightarrow> string \<Rightarrow> service \<Rightarrow> ('w, unit) lbc" where
  "delete_node_port_rules E c sgid tenant svc =
     (if sgid = '''' then ret ()
      else check ''listing SG rules for delete'' (list_owned_rules E c sgid tenant svc) (\<lambda>existing.
        for_range E existing (\<lambda>(k, r).
          check (''deleting SG rule '' @ ru_id r) (del_rule E c (ru_id r)) ret)))"

section \<open>The maps the loops build\<close>

text \<open>A rule of the Service that the program manages, and its key.\<close>

definition rule_owned :: "string \<Rightarrow> service \<Rightarrow> rule \<Rightarrow> bool" where
  "rule_owned tenant svc r \<longleftrightarrow>
     has_prefix (ru_desc r) (rule_description_prefix tenant svc) \<and> ru_dir r = ''ingress'' \<and>
     ru_pmin r \<noteq> 0 \<and> ru_pmin r = ru_pmax r"

definition rule_key_of :: "rule \<Rightarrow> rule_key" where
  "rule_key_of r = \<lparr>rk_port = ru_pmin r, rk_proto = ru_proto r, rk_cidr = ru_cidr r\<rparr>"

lemma owned_rules_build: "owned_rules tenant svc = map_build (rule_owned tenant svc) rule_key_of (\<lambda>r. r)"
proof -
  have "(\<lambda>r out. if \<not> has_prefix (ru_desc r) (rule_description_prefix tenant svc) then out
       else if ru_dir r \<noteq> ''ingress'' then out
       else if ru_pmin r = 0 \<or> ru_pmin r \<noteq> ru_pmax r then out
       else AList.update \<lparr>rk_port = ru_pmin r, rk_proto = ru_proto r, rk_cidr = ru_cidr r\<rparr> r out)
     = (\<lambda>r m. if rule_owned tenant svc r then AList.update (rule_key_of r) r m else m)"
    by (intro ext) (simp add: rule_owned_def rule_key_of_def)
  then show ?thesis
    by (simp add: owned_rules_def map_build_def fun_eq_iff)
qed

definition desired_keys :: "service \<Rightarrow> string list \<Rightarrow> rule_key list" where
  "desired_keys svc cidrs =
     concat (map (\<lambda>p. map (\<lambda>cidr. \<lparr>rk_port = p_nodeport p, rk_proto = to_lower (p_proto p), rk_cidr = cidr\<rparr>) cidrs)
       (filter (\<lambda>p. p_nodeport p \<noteq> 0) (s_ports svc)))"

lemma fold_skip: "fold (\<lambda>x a. if P x then a else f x a) xs a = fold f (filter (\<lambda>x. \<not> P x) xs) a"
  by (induction xs arbitrary: a) auto

lemma build_desired_rules_build:
  "build_desired_rules tenant svc cidrs =
     map_build (\<lambda>_. True) (\<lambda>k. k) (desired_rule tenant svc) (desired_keys svc cidrs)"
proof -
  let ?key = "\<lambda>p cidr. \<lparr>rk_port = p_nodeport p, rk_proto = to_lower (p_proto p), rk_cidr = cidr\<rparr>"
  have inner: "fold (\<lambda>cidr. AList.update (?key p cidr) (desired_rule tenant svc (?key p cidr))) cidrs =
      fold (\<lambda>k. AList.update k (desired_rule tenant svc k)) (map (?key p) cidrs)" for p
    by (simp add: fold_map comp_def)
  have outer: "fold (\<lambda>x. fold f (g x)) ys a = fold f (concat (map g ys)) a"
    for f :: "rule_key \<Rightarrow> 'z \<Rightarrow> 'z" and g :: "svc_port \<Rightarrow> rule_key list" and ys a
    by (induction ys arbitrary: a) auto
  show ?thesis
    unfolding build_desired_rules_def map_build_def desired_keys_def Let_def
    by (simp only: fold_skip if_True inner outer)
qed

lemma desired_keys_mem:
  "k \<in> set (desired_keys svc cidrs) \<longleftrightarrow>
     (\<exists>p \<in> set (s_ports svc). \<exists>cidr \<in> set cidrs. p_nodeport p \<noteq> 0 \<and>
        k = \<lparr>rk_port = p_nodeport p, rk_proto = to_lower (p_proto p), rk_cidr = cidr\<rparr>)"
  by (auto simp: desired_keys_def)

lemma desired_port_nonzero: "k \<in> set (desired_keys svc cidrs) \<Longrightarrow> rk_port k \<noteq> 0"
  by (auto simp: desired_keys_mem)

lemma build_desired_dom: "dom (map_of (build_desired_rules tenant svc cidrs)) = set (desired_keys svc cidrs)"
  by (simp only: build_desired_rules_build map_build_dom) auto

lemma build_desired_mem:
  assumes "(k, o1) \<in> set (build_desired_rules tenant svc cidrs)"
  shows "k \<in> set (desired_keys svc cidrs) \<and> o1 = desired_rule tenant svc k"
  using map_build_mem [OF assms [unfolded build_desired_rules_build]] by auto

lemma owned_rules_dom:
  "dom (map_of (owned_rules tenant svc rs)) = rule_key_of ` {r \<in> set rs. rule_owned tenant svc r}"
  by (simp only: owned_rules_build map_build_dom)

lemma owned_rules_mem:
  "(k, r) \<in> set (owned_rules tenant svc rs) \<Longrightarrow> r \<in> set rs \<and> rule_owned tenant svc r \<and> k = rule_key_of r"
  unfolding owned_rules_build by (drule map_build_mem) auto

section \<open>What a run may do to the group\<close>

text \<open>
  After the listing, every call of \<^const>\<open>ensure_node_port_rules\<close> either deletes a listed
  rule of this Service that is not desired, or creates a desired rule that is not listed.
\<close>

definition own_change ::
  "clients \<Rightarrow> string \<Rightarrow> string \<Rightarrow> service \<Rightarrow> string list \<Rightarrow> rule list \<Rightarrow> event \<Rightarrow> bool" where
  "own_change c sgid tenant svc cidrs listed e =
     (case e of
        Neutron c' (DelRule i _) \<Rightarrow> c' = c \<and>
          (\<exists>r. r \<in> set listed \<and> rule_owned tenant svc r \<and> ru_id r = i \<and>
               rule_key_of r \<notin> set (desired_keys svc cidrs))
      | Neutron c' (CreateRule opts _) \<Rightarrow> c' = c \<and>
          (\<exists>k. k \<in> set (desired_keys svc cidrs) \<and> opts = (desired_rule tenant svc k)\<lparr>ro_sg := sgid\<rparr> \<and>
               (\<nexists>r. r \<in> set listed \<and> rule_owned tenant svc r \<and> rule_key_of r = k))
      | _ \<Rightarrow> False)"

lemma owned_rules_None:
  "map_of (owned_rules tenant svc rs) k = None \<longleftrightarrow>
     (\<nexists>r. r \<in> set rs \<and> rule_owned tenant svc r \<and> rule_key_of r = k)"
proof -
  have "map_of (owned_rules tenant svc rs) k = None \<longleftrightarrow> k \<notin> dom (map_of (owned_rules tenant svc rs))"
    by (simp only: domIff) simp
  then show ?thesis by (auto simp: owned_rules_dom)
qed

lemma build_desired_None:
  "map_of (build_desired_rules tenant svc cidrs) k = None \<longleftrightarrow> k \<notin> set (desired_keys svc cidrs)"
  by (metis build_desired_dom domIff)

definition rule_changes ::
  "clients \<Rightarrow> string \<Rightarrow> string \<Rightarrow> service \<Rightarrow> string list \<Rightarrow> event list \<Rightarrow> bool" where
  "rule_changes c sgid tenant svc cidrs evs =
     (case evs of
        [] \<Rightarrow> True
      | Neutron c' (ListRules g p) # evs' \<Rightarrow>
          c' = c \<and> g = sgid \<and> list_all (own_change c sgid tenant svc cidrs (pages_seen p)) evs'
      | _ \<Rightarrow> False)"

lemma ensure_rules_loops:
  assumes "desired = build_desired_rules tenant svc cidrs" and "existing = owned_rules tenant svc rs"
  shows "emits (own_change c sgid tenant svc cidrs rs)
    (bind (for_range E existing (\<lambda>(k, r).
                if map_of desired k \<noteq> None then ret ()
                else check (''deleting stale SG rule '' @ ru_id r) (del_rule E c (ru_id r)) ret)) (\<lambda>_.
        for_range E desired (\<lambda>(k, opts).
          if map_of existing k \<noteq> None then ret ()
          else check (''creating SG rule '' @ rule_key_string k) (create_rule E c (opts\<lparr>ro_sg := sgid\<rparr>))
                 (\<lambda>_. ret ()))))"
proof (intro emits_bind emits_for_range; clarify)
  fix k r assume "(k, r) \<in> set existing"
  with owned_rules_mem [of k r tenant svc rs] assms
  have "r \<in> set rs \<and> rule_owned tenant svc r \<and> k = rule_key_of r" by simp
  then show "emits (own_change c sgid tenant svc cidrs rs) (if map_of desired k \<noteq> None then ret ()
        else check (''deleting stale SG rule '' @ ru_id r) (del_rule E c (ru_id r)) ret)"
    by (intro emit_rules) (auto simp: own_change_def assms build_desired_None)
next
  fix k opts assume "(k, opts) \<in> set desired"
  with build_desired_mem [of k opts] assms
  have "k \<in> set (desired_keys svc cidrs) \<and> opts = desired_rule tenant svc k" by simp
  then show "emits (own_change c sgid tenant svc cidrs rs) (if map_of existing k \<noteq> None then ret ()
        else check (''creating SG rule '' @ rule_key_string k) (create_rule E c (opts\<lparr>ro_sg := sgid\<rparr>))
               (\<lambda>_. ret ()))"
    by (intro emit_rules) (auto simp: own_change_def assms owned_rules_None)
qed

lemma ensure_rules_runs:
  "every_run (ensure_node_port_rules E c sgid tenant svc cidrs)
     (\<lambda>evs r. rule_changes c sgid tenant svc cidrs evs)"
proof -
  have listed: "every_run (list_owned_rules E c sgid tenant svc) (\<lambda>evs r. \<exists>p. evs = [Neutron c (ListRules sgid p)] \<and>
      (case r of Inl e \<Rightarrow> True | Inr ex \<Rightarrow> ex = owned_rules tenant svc (pages_seen p)))"
    by (auto simp: list_owned_rules_def pages_items_seen intro!: runs)
  show ?thesis
    unfolding ensure_node_port_rules_def Let_def
    apply (rule every_run_if, rule every_run_throw, simp add: rule_changes_def)
    apply (rule every_run_if, rule every_run_throw, simp add: rule_changes_def)
    apply (rule every_run_check, rule every_run_mono [OF listed])
    subgoal for evs r
      by (cases r) (auto simp: rule_changes_def simp del: not_None_eq
          intro!: every_run_emits [OF ensure_rules_loops [OF refl refl]])
    done
qed

text \<open>
  A delete lists the rules of the group, deletes only listed rules of the Service, and when
  it ends without an error has deleted a listed rule for every key the Service owned.
\<close>

definition rule_deletes :: "clients \<Rightarrow> string \<Rightarrow> string \<Rightarrow> service \<Rightarrow> event list \<Rightarrow> err + unit \<Rightarrow> bool" where
  "rule_deletes c sgid tenant svc evs r =
     (case evs of
        [] \<Rightarrow> sgid = '''' \<and> r = Inr ()
      | Neutron c' (ListRules g p) # evs' \<Rightarrow> c' = c \<and> g = sgid \<and>
          list_all (\<lambda>e. \<exists>x res. x \<in> set (pages_seen p) \<and> rule_owned tenant svc x \<and>
             e = Neutron c (DelRule (ru_id x) res)) evs' \<and>
          (case r of
             Inl _ \<Rightarrow> True
           | Inr _ \<Rightarrow> rule_key_of ` {x \<in> set (pages_seen p). rule_owned tenant svc x} =
               rule_key_of ` {x \<in> set (pages_seen p). rule_owned tenant svc x \<and>
                 Neutron c (DelRule (ru_id x) None) \<in> set evs'})
      | _ \<Rightarrow> False)"

lemma delete_rules_loop:
  assumes "existing = owned_rules tenant svc rs"
  shows "every_run (for_range E existing (\<lambda>(k, r). check (''deleting SG rule '' @ ru_id r) (del_rule E c (ru_id r)) ret))
    (\<lambda>evs r. list_all (\<lambda>e. \<exists>x res. x \<in> set rs \<and> rule_owned tenant svc x \<and> e = Neutron c (DelRule (ru_id x) res)) evs \<and>
      (case r of Inl _ \<Rightarrow> True
        | Inr _ \<Rightarrow> rule_key_of ` {x \<in> set rs. rule_owned tenant svc x} =
            rule_key_of ` {x \<in> set rs. rule_owned tenant svc x \<and> Neutron c (DelRule (ru_id x) None) \<in> set evs}))"
    (is "every_run ?loop (\<lambda>evs r. list_all ?P evs \<and> ?D evs r)")
proof (rule emits_every_run)
  have mem: "x \<in> set rs \<and> rule_owned tenant svc x" if "(k, x) \<in> set existing" for k x
    using owned_rules_mem [of k x tenant svc rs] that assms by simp
  then have own: "?P (Neutron c (DelRule (ru_id x) res))" if "(k, x) \<in> set existing" for k x res
    using that by blast
  show "emits ?P ?loop"
    by (intro emits_for_range, clarify, intro emits_check emits_call_unit emits_ret own)
  have step: "every_run (case kr of (k, r) \<Rightarrow> check (''deleting SG rule '' @ ru_id r) (del_rule E c (ru_id r)) ret)
     (\<lambda>evs r. r = Inr () \<longrightarrow> Neutron c (DelRule (ru_id (snd kr)) None) \<in> set evs)" for kr
    by (cases kr) (auto intro!: runs)
  have all: "every_run ?loop (\<lambda>evs r. r = Inr () \<longrightarrow>
      (\<lambda>kr. Neutron c (DelRule (ru_id (snd kr)) None)) ` set existing \<subseteq> set evs)"
    unfolding for_range_def
    apply (rule every_run_bind, rule every_run_go_range, simp only: sum.case append_Nil)
    apply (rule every_run_mono [OF foreach_all [where g = "\<lambda>kr. Neutron c (DelRule (ru_id (snd kr)) None)", OF step]])
    apply simp
    done
  show "every_run ?loop ?D"
  proof (rule every_run_mono [OF all])
    fix evs and r :: "err + unit"
    assume *: "r = Inr () \<longrightarrow> (\<lambda>kr. Neutron c (DelRule (ru_id (snd kr)) None)) ` set existing \<subseteq> set evs"
    have "rule_key_of y \<in> rule_key_of ` {x \<in> set rs. rule_owned tenant svc x \<and> Neutron c (DelRule (ru_id x) None) \<in> set evs}"
      if y: "y \<in> set rs" "rule_owned tenant svc y" "r = Inr ()" for y
    proof -
      from y have "rule_key_of y \<in> dom (map_of existing)" by (auto simp: assms owned_rules_dom)
      then obtain x where x: "(rule_key_of y, x) \<in> set existing" by (auto dest: map_of_SomeD)
      with owned_rules_mem [of "rule_key_of y" x tenant svc rs] assms
      have "x \<in> set rs" "rule_owned tenant svc x" "rule_key_of y = rule_key_of x" by auto
      moreover from x * y(3) have "Neutron c (DelRule (ru_id x) None) \<in> set evs" by force
      ultimately show ?thesis by auto
    qed
    then show "?D evs r" by (auto split: sum.splits)
  qed
qed

lemma delete_rules_runs:
  "every_run (delete_node_port_rules E c sgid tenant svc) (rule_deletes c sgid tenant svc)"
  unfolding delete_node_port_rules_def list_owned_rules_def
  apply (rule every_run_if, rule every_run_ret, simp add: rule_deletes_def)
  apply (rule every_run_check, rule every_run_bind, rule every_run_call_items)
   apply (simp add: rule_deletes_def)
  apply (simp only: sum.case, rule every_run_ret, simp only: sum.case append_Nil2)
  apply (rule every_run_mono [OF delete_rules_loop [OF refl]])
  subgoal for p xs evs r
    using pages_items_seen [of p xs] by (simp add: rule_deletes_def split: sum.splits)
  done

section \<open>What a run leaves in the group\<close>

text \<open>
  The documented behaviour of Neutron on the rules of one group: \<open>V\<close> reads the rules in the
  world. A listing that answers in full is the rules; a successful delete removes the rule
  of that id; a successful create adds one rule with the fields asked for and a new id.
  \<open>rules_reliable\<close>: the calls do not fail, except that Neutron answers 409 to a rule that
  matches the same packets as one the group has.
\<close>

definition rule_of_opts :: "rule_opts \<Rightarrow> rule \<Rightarrow> bool" where
  "rule_of_opts opts r \<longleftrightarrow>
     ru_dir r = ro_dir opts \<and> ru_ether r = ro_ether opts \<and> ru_pmin r = ro_pmin opts \<and>
     ru_pmax r = ro_pmax opts \<and> ru_proto r = ro_proto opts \<and> ru_cidr r = ro_cidr opts \<and>
     ru_group r = ro_group opts \<and> ru_desc r = ro_desc opts"

definition rule_match :: "rule_opts \<Rightarrow> rule \<Rightarrow> bool" where
  "rule_match opts r \<longleftrightarrow>
     ru_dir r = ro_dir opts \<and> ru_ether r = ro_ether opts \<and> ru_pmin r = ro_pmin opts \<and>
     ru_pmax r = ro_pmax opts \<and> ru_proto r = ro_proto opts \<and> ru_cidr r = ro_cidr opts \<and>
     ru_group r = ro_group opts"

definition neutron_rules :: "'w env \<Rightarrow> clients \<Rightarrow> string \<Rightarrow> ('w \<Rightarrow> rule list) \<Rightarrow> bool" where
  "neutron_rules E c sgid V \<longleftrightarrow>
     (\<forall>w xs. V (snd (n_list_rules (neutron E) c sgid w)) = V w \<and>
        (pages_items (fst (n_list_rules (neutron E) c sgid w)) = Inr xs \<longrightarrow> xs = V w)) \<and>
     (\<forall>i w. i \<in> ru_id ` set (V w) \<and> fst (n_del_rule (neutron E) c i w) = None \<longrightarrow>
        V (snd (n_del_rule (neutron E) c i w)) = filter (\<lambda>r. ru_id r \<noteq> i) (V w)) \<and>
     (\<forall>opts w r. ro_sg opts = sgid \<and> fst (n_create_rule (neutron E) c opts w) = Inr r \<longrightarrow>
        V (snd (n_create_rule (neutron E) c opts w)) = V w @ [r] \<and> rule_of_opts opts r \<and>
        ru_id r \<notin> ru_id ` set (V w)) \<and>
     (\<forall>w. V (snd (map_seed E w)) = V w)"

definition rules_reliable :: "'w env \<Rightarrow> clients \<Rightarrow> string \<Rightarrow> ('w \<Rightarrow> rule list) \<Rightarrow> bool" where
  "rules_reliable E c sgid V \<longleftrightarrow>
     (\<forall>w. \<exists>xs. pages_items (fst (n_list_rules (neutron E) c sgid w)) = Inr xs) \<and>
     (\<forall>i w. i \<in> ru_id ` set (V w) \<longrightarrow> fst (n_del_rule (neutron E) c i w) = None) \<and>
     (\<forall>opts w. ro_sg opts = sgid \<and> list_all (\<lambda>r. \<not> rule_match opts r) (V w) \<longrightarrow>
        (\<exists>r. fst (n_create_rule (neutron E) c opts w) = Inr r))"

text \<open>A create that is refused leaves the group as it was.\<close>

definition rules_atomic :: "'w env \<Rightarrow> clients \<Rightarrow> string \<Rightarrow> ('w \<Rightarrow> rule list) \<Rightarrow> bool" where
  "rules_atomic E c sgid V \<longleftrightarrow>
     (\<forall>opts w e. ro_sg opts = sgid \<and> fst (n_create_rule (neutron E) c opts w) = Inl e \<longrightarrow>
        V (snd (n_create_rule (neutron E) c opts w)) = V w)"

lemma distinct_map_pick_order [simp]: "distinct (map f (pick_order ns xs)) \<longleftrightarrow> distinct (map f xs)"
  by (metis mset_eq_imp_distinct_iff mset_map mset_pick_order)

lemma wp_delete_stale:
  fixes E :: "'w env"
  assumes law: "neutron_rules E c sgid V"
    and dis: "V (world s) = V0"
    and listed: "\<And>k r. (k, r) \<in> set ex \<Longrightarrow> r \<in> set V0" and dist: "distinct (map (\<lambda>(k, r). ru_id r) ex)"
    and done_post: "\<And>s'. V (world s') = filter (\<lambda>r. ru_id r \<notin> ru_id ` {r. \<exists>k. (k, r) \<in> set ex \<and> \<not> P k}) V0 \<Longrightarrow>
        Q (Inr ()) s'"
    and fail_post: "\<And>e s'. \<not> rules_reliable E c sgid V \<Longrightarrow> Q (Inl e) s'"
  shows "wp (for_range E ex (\<lambda>(k, r). if P k then ret () else check (msg r) (del_rule E c (ru_id r)) ret)) Q s"
proof -
  let ?gone = "\<lambda>l. {r. \<exists>k. (k, r) \<in> set l \<and> \<not> P k}"
  let ?I = "\<lambda>l (s' :: ('w, event) st). V (world s') = filter (\<lambda>r. ru_id r \<notin> ru_id ` ?gone l) V0"
  have step: "wp ((\<lambda>(k, r). if P k then ret () else check (msg r) (del_rule E c (ru_id r)) ret) x)
      (\<lambda>r s'. case r of Inl e \<Rightarrow> Q (Inl e) s' | Inr _ \<Rightarrow> ?I (l @ [x]) s') t"
    if "?I l t" "x \<in> set ex" "(\<lambda>(k, r). ru_id r) x \<notin> (\<lambda>(k, r). ru_id r) ` set l" for l x t
  proof -
    obtain k r where x: "x = (k, r)" by fastforce
    with that(3) have "ru_id r \<notin> ru_id ` ?gone l" by force
    with that(1,2) listed [of k r] x have present: "ru_id r \<in> ru_id ` set (V (world t))" by auto
    obtain a w where d: "n_del_rule (neutron E) c (ru_id r) (world t) = (a, w)" by fastforce
    have "a \<noteq> None \<Longrightarrow> \<not> rules_reliable E c sgid V"
      using d present unfolding rules_reliable_def by (metis fst_conv)
    moreover have "a = None \<Longrightarrow> V w = filter (\<lambda>y. ru_id y \<noteq> ru_id r) (V (world t))"
      using law d present unfolding neutron_rules_def by (metis fst_conv snd_conv)
    moreover have "?gone (l @ [x]) = (if P k then ?gone l else insert r (?gone l))"
      by (auto simp: x)
    ultimately show ?thesis
      using that fail_post by (auto simp: x wp_simps d split: option.splits intro!: filter_cong)
  qed
  obtain ns w where seed: "map_seed E (world s) = (ns, w)" by fastforce
  with law dis have w: "V w = V0" unfolding neutron_rules_def by (metis snd_conv)
  have uniq: "distinct (map (\<lambda>(k, r). ru_id r) (pick_order ns ex))" using dist by simp
  show ?thesis
  proof (simp add: wp_simps seed, rule wp_foreach [where I = ?I])
    fix xs1 x xs2 t assume p: "pick_order ns ex = xs1 @ x # xs2" "?I xs1 t"
    have "x \<in> set ex" using arg_cong [OF p(1), of set] by auto
    moreover have "(\<lambda>(k, r). ru_id r) x \<notin> (\<lambda>(k, r). ru_id r) ` set xs1" using uniq unfolding p(1) by auto
    ultimately show "wp ((\<lambda>(k, r). if P k then ret () else check (msg r) (del_rule E c (ru_id r)) ret) x)
      (\<lambda>r s'. case r of Inl e \<Rightarrow> Q (Inl e) s' | Inr _ \<Rightarrow> ?I (xs1 @ [x]) s') t" by (intro step p(2))
  qed (use done_post w in auto)
qed

text \<open>The second loop, after the entries \<open>l\<close>: one new rule for each key that has none.\<close>

definition created_upto ::
  "('k \<Rightarrow> rule_opts) \<Rightarrow> ('k \<Rightarrow> bool) \<Rightarrow> rule list \<Rightarrow> ('k \<times> rule_opts) list \<Rightarrow> rule list \<Rightarrow> bool" where
  "created_upto f P before l now \<longleftrightarrow> (\<exists>news. now = before @ news \<and>
     list_all2 (\<lambda>k r. rule_of_opts (f k) r) (filter (\<lambda>k. \<not> P k) (map fst l)) news \<and>
     (distinct (map ru_id before) \<longrightarrow> distinct (map ru_id now)))"

lemma wp_create_rule:
  fixes E :: "'w env"
  assumes law: "neutron_rules E c sgid V"
    and good: "\<And>r s'. V (world s') = V (world s) @ [r] \<Longrightarrow> rule_of_opts opts r \<Longrightarrow> ru_id r \<notin> ru_id ` set (V (world s)) \<Longrightarrow>
      Q (Inr r) s'"
    and bad: "\<And>e s'. \<not> rules_reliable E c sgid V \<or> list_ex (rule_match opts) (V (world s)) \<Longrightarrow>
      (rules_atomic E c sgid V \<Longrightarrow> V (world s') = V (world s)) \<Longrightarrow> Q (Inl e) s'"
  shows "wp (create_rule E c (opts\<lparr>ro_sg := sgid\<rparr>)) Q s"
proof -
  obtain a w where d: "n_create_rule (neutron E) c (opts\<lparr>ro_sg := sgid\<rparr>) (world s) = (a, w)" by fastforce
  have match: "rule_match (opts\<lparr>ro_sg := sgid\<rparr>) = rule_match opts" by (rule ext) (simp add: rule_match_def)
  have "\<not> rules_reliable E c sgid V \<or> list_ex (rule_match opts) (V (world s))" if "\<nexists>r. a = Inr r"
    using that d unfolding rules_reliable_def match [symmetric] list_ex_iff list_all_iff
    by (metis fst_conv rule_opts.select_convs(1) rule_opts.surjective rule_opts.update_convs(1))
  moreover have "V w = V (world s) @ [r] \<and> rule_of_opts opts r \<and> ru_id r \<notin> ru_id ` set (V (world s))" if "a = Inr r" for r
  proof -
    have "rule_of_opts (opts\<lparr>ro_sg := sgid\<rparr>) r \<and> V w = V (world s) @ [r] \<and> ru_id r \<notin> ru_id ` set (V (world s))"
      using law d that unfolding neutron_rules_def
      by (metis fst_conv snd_conv rule_opts.simps(1) rule_opts.select_convs(1) rule_opts.surjective rule_opts.update_convs(1))
    then show ?thesis by (simp add: rule_of_opts_def)
  qed
  moreover have "V w = V (world s)" if "a = Inl e" "rules_atomic E c sgid V" for e
    using that d unfolding rules_atomic_def
    by (metis fst_conv snd_conv rule_opts.select_convs(1) rule_opts.surjective rule_opts.update_convs(1))
  ultimately show ?thesis using good bad by (auto simp: wp_simps d split: sum.splits)
qed

lemma wp_create_step:
  fixes E :: "'w env"
  assumes law: "neutron_rules E c sgid V" and I: "created_upto f P V1 l (V (world s))"
    and own: "\<And>k' r. k' \<in> fst ` set l \<Longrightarrow> rule_of_opts (f k') r \<Longrightarrow> \<not> rule_match (f k) r"
    and good: "\<And>s'. created_upto f P V1 (l @ [(k, f k)]) (V (world s')) \<Longrightarrow> Q (Inr ()) s'"
    and bad: "\<And>e s'. \<not> P k \<Longrightarrow> \<not> rules_reliable E c sgid V \<or> list_ex (rule_match (f k)) V1 \<Longrightarrow>
      (rules_atomic E c sgid V \<Longrightarrow> created_upto f P V1 l (V (world s'))) \<Longrightarrow> Q (Inl e) s'"
  shows "wp (if P k then ret () else check m (create_rule E c ((f k)\<lparr>ro_sg := sgid\<rparr>)) (\<lambda>_. ret ())) Q s"
proof (cases "P k")
  case True
  with I have "created_upto f P V1 (l @ [(k, f k)]) (V (world s))" by (simp add: created_upto_def)
  with True show ?thesis by (simp add: wp_ret good)
next
  case False
  from I obtain news where n: "V (world s) = V1 @ news" "list_all2 (\<lambda>k r. rule_of_opts (f k) r) (filter (\<lambda>k. \<not> P k) (map fst l)) news"
    "distinct (map ru_id V1) \<longrightarrow> distinct (map ru_id (V1 @ news))" by (auto simp: created_upto_def)
  have fresh: "\<not> rule_match (f k) r" if "r \<in> set news" for r
  proof -
    from that n(2) obtain k' where k': "k' \<in> set (filter (\<lambda>k. \<not> P k) (map fst l))" "rule_of_opts (f k') r"
      by (metis in_set_conv_nth list_all2_conv_all_nth)
    then have "k' \<in> fst ` set l" by auto
    from own [OF this k'(2)] show ?thesis .
  qed
  show ?thesis
    unfolding if_not_P [OF False] wp_check
  proof (rule wp_create_rule [OF law])
    fix r and s' :: "('w, event) st"
    assume "V (world s') = V (world s) @ [r]" "rule_of_opts (f k) r" "ru_id r \<notin> ru_id ` set (V (world s))"
    with n have "created_upto f P V1 (l @ [(k, f k)]) (V (world s'))"
      unfolding created_upto_def by (intro exI [of _ "news @ [r]"]) (auto simp: False intro: list_all2_appendI)
    then show "case Inr r of Inl e \<Rightarrow> Q (Inl (Wrap m e)) s' | Inr x \<Rightarrow> wp (ret ()) Q s'" by (simp add: wp_ret good)
  next
    fix e and s' :: "('w, event) st"
    assume "\<not> rules_reliable E c sgid V \<or> list_ex (rule_match (f k)) (V (world s))"
      and same: "rules_atomic E c sgid V \<Longrightarrow> V (world s') = V (world s)"
    with fresh have "\<not> rules_reliable E c sgid V \<or> list_ex (rule_match (f k)) V1" by (auto simp: n(1) list_ex_iff)
    moreover have "rules_atomic E c sgid V \<Longrightarrow> created_upto f P V1 l (V (world s'))" using I same by simp
    ultimately have "Q (Inl (Wrap m e)) s'" by (rule bad [OF False])
    then show "case Inl e of Inl e \<Rightarrow> Q (Inl (Wrap m e)) s' | Inr x \<Rightarrow> wp (ret ()) Q s'" by simp
  qed
qed

lemma wp_create_missing:
  fixes E :: "'w env"
  assumes law: "neutron_rules E c sgid V"
    and opts: "\<And>k opts. (k, opts) \<in> set de \<Longrightarrow> opts = f k" and dist: "distinct (map fst de)"
    and own: "\<And>k k' r. k' \<in> fst ` set de \<Longrightarrow> rule_of_opts (f k') r \<Longrightarrow> rule_match (f k) r \<Longrightarrow> k = k'"
    and done_post: "\<And>s' l. created_upto f P (V (world s)) l (V (world s')) \<Longrightarrow> set l = set de \<Longrightarrow> distinct (map fst l) \<Longrightarrow> Q (Inr ()) s'"
    and fail_post: "\<And>e s' k l. \<not> rules_reliable E c sgid V \<or>
        k \<in> fst ` set de \<and> \<not> P k \<and> list_ex (rule_match (f k)) (V (world s)) \<Longrightarrow> set l \<subseteq> set de \<Longrightarrow> distinct (map fst l) \<Longrightarrow>
        (rules_atomic E c sgid V \<Longrightarrow> created_upto f P (V (world s)) l (V (world s'))) \<Longrightarrow> Q (Inl e) s'"
  shows "wp (for_range E de (\<lambda>(k, opts). if P k then ret ()
       else check (msg k) (create_rule E c (opts\<lparr>ro_sg := sgid\<rparr>)) (\<lambda>_. ret ()))) Q s"
proof -
  let ?I = "\<lambda>l (s' :: ('w, event) st). created_upto f P (V (world s)) l (V (world s'))"
  obtain ns w where seed: "map_seed E (world s) = (ns, w)" by fastforce
  with law have w: "V w = V (world s)" unfolding neutron_rules_def by (metis snd_conv)
  have uniq: "distinct (map fst (pick_order ns de))" using dist by simp
  show ?thesis
  proof (simp add: wp_simps seed, rule wp_foreach [where I = ?I])
    show "?I [] (s\<lparr>world := w\<rparr>)" using w by (simp add: created_upto_def)
  next
    fix xs1 x xs2 t assume p: "pick_order ns de = xs1 @ x # xs2" "?I xs1 t"
    have sub: "set (xs1 @ [x]) \<subseteq> set de" using arg_cong [OF p(1), of set] by auto
    have new: "fst x \<notin> fst ` set xs1" using uniq unfolding p(1) by auto
    obtain k o1 where x: "x = (k, o1)" by fastforce
    with sub opts have o1: "o1 = f k" by simp
    from x sub have k: "k \<in> fst ` set de" by force
    show "wp ((\<lambda>(k, opts). if P k then ret ()
       else check (msg k) (create_rule E c (opts\<lparr>ro_sg := sgid\<rparr>)) (\<lambda>_. ret ())) x)
      (\<lambda>r s'. case r of Inl e \<Rightarrow> Q (Inl e) s' | Inr _ \<Rightarrow> ?I (xs1 @ [x]) s') t"
      unfolding x prod.case o1
    proof (rule wp_create_step [OF law p(2)])
      fix k' r assume k': "k' \<in> fst ` set xs1" "rule_of_opts (f k') r"
      from k'(1) sub have "k' \<in> fst ` set de" by auto
      with own [OF this k'(2), of k] k'(1) new x show "\<not> rule_match (f k) r" by auto
    next
      fix e and s' :: "('w, event) st"
      assume "\<not> P k" "\<not> rules_reliable E c sgid V \<or> list_ex (rule_match (f k)) (V (world s))"
        "rules_atomic E c sgid V \<Longrightarrow> created_upto f P (V (world s)) xs1 (V (world s'))"
      then show "case Inl e of Inl e \<Rightarrow> Q (Inl e) s' | Inr _ \<Rightarrow> ?I (xs1 @ [(k, f k)]) s'"
        using k sub uniq by (simp, intro fail_post [of k xs1]) (auto simp: p(1))
    qed simp
  qed (use done_post uniq in auto)
qed

text \<open>
  The set of rules after the two loops. Ids are unique in the group, and no two owned rules
  have one key; a rule the program created for this Service is never one of another
  direction or port range.
\<close>

definition group_ok :: "string \<Rightarrow> service \<Rightarrow> rule list \<Rightarrow> bool" where
  "group_ok tenant svc rs \<longleftrightarrow> distinct (map ru_id rs) \<and> inj_on rule_key_of {r \<in> set rs. rule_owned tenant svc r}"

definition owned_keys :: "string \<Rightarrow> service \<Rightarrow> rule list \<Rightarrow> rule_key set" where
  "owned_keys tenant svc rs = rule_key_of ` {r \<in> set rs. rule_owned tenant svc r}"

lemma rule_of_desired:
  assumes "rule_of_opts (desired_rule tenant svc k) r" "rk_port k \<noteq> 0"
  shows "rule_owned tenant svc r \<and> rule_key_of r = k"
  using assms
  by (simp add: rule_of_opts_def desired_rule_def rule_owned_def rule_key_of_def has_prefix_def
      rule_description_def rule_description_prefix_def)

lemma owned_rules_all:
  assumes "group_ok tenant svc rs"
  shows "(k, r) \<in> set (owned_rules tenant svc rs) \<longleftrightarrow> r \<in> set rs \<and> rule_owned tenant svc r \<and> k = rule_key_of r"
proof
  assume r: "r \<in> set rs \<and> rule_owned tenant svc r \<and> k = rule_key_of r"
  have "map_of (owned_rules tenant svc rs) (rule_key_of r) = Some r"
    unfolding owned_rules_build
    by (rule map_build_unique) (use r assms in \<open>auto simp: group_ok_def inj_on_def\<close>)
  with r show "(k, r) \<in> set (owned_rules tenant svc rs)" by (simp add: map_of_SomeD)
qed (rule owned_rules_mem)

lemma owned_ids_distinct:
  assumes "group_ok tenant svc rs"
  shows "distinct (map (\<lambda>(k, r). ru_id r) (owned_rules tenant svc rs))"
proof -
  have "distinct (owned_rules tenant svc rs)"
    using distinct_map_build [of "rule_owned tenant svc" rule_key_of "\<lambda>r. r" rs]
    unfolding owned_rules_build by (simp add: distinct_map)
  moreover have "x = y" if "x \<in> set (owned_rules tenant svc rs)" "y \<in> set (owned_rules tenant svc rs)"
    "(\<lambda>(k, r). ru_id r) x = (\<lambda>(k, r). ru_id r) y" for x y
  proof -
    obtain k r k' r' where xy: "x = (k, r)" "y = (k', r')" by (metis surj_pair)
    with that(3) have ids: "ru_id r = ru_id r'" by simp
    from xy that(1,2) owned_rules_all [OF assms] have "r \<in> set rs" "r' \<in> set rs" "k = rule_key_of r" "k' = rule_key_of r'"
      by auto
    moreover from this assms ids have "r = r'" unfolding group_ok_def distinct_map by (metis inj_onD)
    ultimately show ?thesis using xy by simp
  qed
  ultimately show ?thesis by (simp add: distinct_map inj_on_def)
qed

lemma stale_removed:
  assumes ok: "group_ok tenant svc rs"
    and stale: "stale = {r. \<exists>k. (k, r) \<in> set (owned_rules tenant svc rs) \<and> k \<notin> D}"
  shows "set (filter (\<lambda>r. ru_id r \<notin> ru_id ` stale) rs) =
     {r \<in> set rs. rule_owned tenant svc r \<longrightarrow> rule_key_of r \<in> D}"
proof -
  have mem: "r \<in> stale \<longleftrightarrow> r \<in> set rs \<and> rule_owned tenant svc r \<and> rule_key_of r \<notin> D" for r
    by (auto simp: stale owned_rules_all [OF ok])
  have "ru_id r \<in> ru_id ` stale \<longleftrightarrow> r \<in> stale" if "r \<in> set rs" for r
    using ok that mem unfolding group_ok_def distinct_map inj_on_def by blast
  with mem show ?thesis by auto
qed

lemma created_owned:
  assumes news: "list_all2 (\<lambda>k r. rule_of_opts (desired_rule tenant svc k) r) ks news"
    and ports: "\<And>k. k \<in> set ks \<Longrightarrow> rk_port k \<noteq> 0" and dist: "distinct ks"
  shows "r \<in> set news \<Longrightarrow> rule_owned tenant svc r \<and> rule_key_of r \<in> set ks"
    and "rule_key_of ` set news = set ks" and "inj_on rule_key_of (set news)"
proof -
  have "\<And>k r. k \<in> set ks \<Longrightarrow> rule_of_opts (desired_rule tenant svc k) r \<Longrightarrow> rule_owned tenant svc r \<and> rule_key_of r = k"
    by (rule rule_of_desired) (simp_all add: ports)
  with news have own: "list_all2 (\<lambda>k r. rule_owned tenant svc r \<and> rule_key_of r = k) ks news"
    by (induction rule: list_all2_induct) auto
  then have map: "map rule_key_of news = ks" and all: "list_all (rule_owned tenant svc) news"
    by (induction rule: list_all2_induct) auto
  show keys: "rule_key_of ` set news = set ks" using arg_cong [OF map, of set] by simp
  with all show "r \<in> set news \<Longrightarrow> rule_owned tenant svc r \<and> rule_key_of r \<in> set ks" by (auto simp: list_all_iff)
  from map dist have "distinct (map rule_key_of news)" by simp
  then show "inj_on rule_key_of (set news)" by (simp add: distinct_map)
qed

text \<open>Some of the missing rules made: the rest of the Service's rules are among the desired ones.\<close>

lemma group_after:
  assumes ok: "group_ok tenant svc rs"
    and V: "V = filter (\<lambda>r. ru_id r \<notin> ru_id ` {r. \<exists>k. (k, r) \<in> set (owned_rules tenant svc rs) \<and> k \<notin> D}) rs @ news"
    and ks: "set ks \<subseteq> {k \<in> D. k \<notin> owned_keys tenant svc rs}"
    and news: "list_all2 (\<lambda>k r. rule_of_opts (desired_rule tenant svc k) r) ks news"
    and D: "\<And>k. k \<in> D \<Longrightarrow> rk_port k \<noteq> 0"
    and dist: "distinct ks" and ids: "distinct (map ru_id V)"
  shows "group_ok tenant svc V" and "owned_keys tenant svc V = {k \<in> owned_keys tenant svc rs. k \<in> D} \<union> set ks"
    and "{r \<in> set V. \<not> rule_owned tenant svc r} = {r \<in> set rs. \<not> rule_owned tenant svc r}"
proof -
  have ports: "\<And>k. k \<in> set ks \<Longrightarrow> rk_port k \<noteq> 0" using ks D by blast
  note own = created_owned(1) [OF news ports dist] and keys = created_owned(2) [OF news ports dist]
    and inj = created_owned(3) [OF news ports dist]
  have setV: "set V = {r \<in> set rs. rule_owned tenant svc r \<longrightarrow> rule_key_of r \<in> D} \<union> set news"
    using stale_removed [OF ok refl, of D] by (simp add: V)
  have "{r \<in> set V. rule_owned tenant svc r} = {r \<in> set rs. rule_owned tenant svc r \<and> rule_key_of r \<in> D} \<union> set news"
    using own by (auto simp: setV)
  then show "owned_keys tenant svc V = {k \<in> owned_keys tenant svc rs. k \<in> D} \<union> set ks"
    unfolding owned_keys_def by (auto simp: image_Un keys)
  show "{r \<in> set V. \<not> rule_owned tenant svc r} = {r \<in> set rs. \<not> rule_owned tenant svc r}"
    using own by (auto simp: setV)
  have old: "rule_key_of x \<notin> set ks" if "x \<in> set rs" "rule_owned tenant svc x" for x
    using ks that by (auto simp: owned_keys_def)
  have "inj_on rule_key_of {r \<in> set rs. rule_owned tenant svc r}" using ok by (simp add: group_ok_def)
  then have "inj_on rule_key_of ({r \<in> set rs. rule_owned tenant svc r} \<union> set news)"
    using inj old own by (subst inj_on_Un) (auto simp: image_iff, metis)
  then have "inj_on rule_key_of {r \<in> set V. rule_owned tenant svc r}" by (rule inj_on_subset) (auto simp: setV)
  with ids show "group_ok tenant svc V" by (simp add: group_ok_def)
qed

text \<open>
  A foreign rule that matches the packets of a desired one: Neutron refuses to create the
  desired one beside it.
\<close>

definition rules_clash :: "string \<Rightarrow> service \<Rightarrow> string list \<Rightarrow> rule list \<Rightarrow> bool" where
  "rules_clash tenant svc cidrs rs \<longleftrightarrow>
     list_ex (\<lambda>k. list_ex (\<lambda>r. \<not> rule_owned tenant svc r \<and> rule_match (desired_rule tenant svc k) r) rs)
       (desired_keys svc cidrs)"

lemma rule_match_key: "rule_match (desired_rule tenant svc k) r \<Longrightarrow> rule_key_of r = k"
  by (simp add: rule_match_def desired_rule_def rule_key_of_def)

text \<open>
  A run that ends without an error leaves, among the rules of the Service, exactly one key
  per NodePort and allowed CIDR, and every other rule of the group as it was; it ends with
  an error only for an empty group id, an empty CIDR list, a clash, or a call that failed.
\<close>

definition rules_settled ::
  "string \<Rightarrow> service \<Rightarrow> string list \<Rightarrow> rule list \<Rightarrow> rule list \<Rightarrow> bool" where
  "rules_settled tenant svc cidrs before after \<longleftrightarrow>
     owned_keys tenant svc after = set (desired_keys svc cidrs) \<and>
     {r \<in> set after. \<not> rule_owned tenant svc r} = {r \<in> set before. \<not> rule_owned tenant svc r}"

lemma wp_list_owned:
  fixes E :: "'w env"
  assumes law: "neutron_rules E c sgid V"
    and good: "\<And>s'. V (world s') = V (world s) \<Longrightarrow> wp (f (owned_rules tenant svc (V (world s)))) Q s'"
    and bad: "\<And>e s'. \<not> rules_reliable E c sgid V \<Longrightarrow> Q (Inl e) s'"
  shows "wp (check m (list_owned_rules E c sgid tenant svc) f) Q s"
proof -
  obtain p w where l: "n_list_rules (neutron E) c sgid (world s) = (p, w)" by fastforce
  have same: "V w = V (world s)" using law l unfolding neutron_rules_def by (metis snd_conv)
  show ?thesis
  proof (cases "pages_items p")
    case (Inl e)
    then have "\<not> rules_reliable E c sgid V" using l unfolding rules_reliable_def by (metis Inl_Inr_False fst_conv)
    with Inl bad show ?thesis by (simp add: list_owned_rules_def wp_check wp_bind wp_call_items l)
  next
    case (Inr rs)
    with law l have "rs = V (world s)" unfolding neutron_rules_def by (metis fst_conv)
    with Inr good same show ?thesis by (simp add: list_owned_rules_def wp_check wp_bind wp_call_items l wp_ret)
  qed
qed

definition rules_tending ::
  "string \<Rightarrow> service \<Rightarrow> string list \<Rightarrow> rule list \<Rightarrow> rule list \<Rightarrow> bool" where
  "rules_tending tenant svc cidrs before after \<longleftrightarrow>
     group_ok tenant svc after \<and> owned_keys tenant svc after \<subseteq> set (desired_keys svc cidrs) \<and>
     {r \<in> set after. \<not> rule_owned tenant svc r} = {r \<in> set before. \<not> rule_owned tenant svc r}"

text \<open>The second loop, whether it comes to its end or not.\<close>

lemma created_group:
  assumes ok: "group_ok tenant svc rs"
    and del: "rs1 = filter (\<lambda>r. ru_id r \<notin> ru_id `
      {r. \<exists>k. (k, r) \<in> set (owned_rules tenant svc rs) \<and> k \<notin> set (desired_keys svc cidrs)}) rs"
    and up: "created_upto (desired_rule tenant svc) (\<lambda>k. k \<in> owned_keys tenant svc rs) rs1 l after"
    and l: "set l \<subseteq> set (build_desired_rules tenant svc cidrs)" "distinct (map fst l)"
  shows "rules_tending tenant svc cidrs rs after"
    and "set l = set (build_desired_rules tenant svc cidrs) \<Longrightarrow> owned_keys tenant svc after = set (desired_keys svc cidrs)"
proof -
  let ?D = "set (desired_keys svc cidrs)" and ?ks = "filter (\<lambda>k. k \<notin> owned_keys tenant svc rs) (map fst l)"
  have keys: "fst ` set (build_desired_rules tenant svc cidrs) = ?D" by (metis build_desired_dom dom_map_of_conv_image_fst)
  with l(1) have ks: "set ?ks \<subseteq> {k \<in> ?D. k \<notin> owned_keys tenant svc rs}" by fastforce
  have "distinct (map ru_id rs1)" using ok by (simp add: del group_ok_def distinct_map_filter)
  with up obtain news where n: "after = rs1 @ news" "distinct (map ru_id after)"
    "list_all2 (\<lambda>k r. rule_of_opts (desired_rule tenant svc k) r) ?ks news"
    unfolding created_upto_def by blast
  have V: "after = filter (\<lambda>r. ru_id r \<notin> ru_id ` {r. \<exists>k. (k, r) \<in> set (owned_rules tenant svc rs) \<and> k \<notin> ?D}) rs @ news"
    using n(1) del by simp
  note after = group_after [OF ok V ks n(3) desired_port_nonzero _ n(2)]
  show "rules_tending tenant svc cidrs rs after"
    unfolding rules_tending_def using after l(2) ks by (auto simp: distinct_filter)
  assume "set l = set (build_desired_rules tenant svc cidrs)"
  with keys have "set ?ks = {k \<in> ?D. k \<notin> owned_keys tenant svc rs}" by (auto simp: image_iff)
  then show "owned_keys tenant svc after = ?D" using after(2) l(2) by (auto simp: distinct_filter)
qed

lemma wp_create_desired:
  fixes E :: "'w env"
  assumes law: "neutron_rules E c sgid V" and ok: "group_ok tenant svc rs"
    and del: "V (world s) = filter (\<lambda>r. ru_id r \<notin> ru_id `
      {r. \<exists>k. (k, r) \<in> set (owned_rules tenant svc rs) \<and> k \<notin> set (desired_keys svc cidrs)}) rs"
    and good: "\<And>s'. rules_settled tenant svc cidrs rs (V (world s')) \<Longrightarrow> group_ok tenant svc (V (world s')) \<Longrightarrow> Q (Inr ()) s'"
    and bad: "\<And>e s'. rules_clash tenant svc cidrs rs \<or> \<not> rules_reliable E c sgid V \<Longrightarrow>
      (rules_atomic E c sgid V \<Longrightarrow> rules_tending tenant svc cidrs rs (V (world s'))) \<Longrightarrow> Q (Inl e) s'"
  shows "wp (for_range E (build_desired_rules tenant svc cidrs) (\<lambda>(k, opts).
      if k \<in> owned_keys tenant svc rs then ret ()
      else check (msg k) (create_rule E c (opts\<lparr>ro_sg := sgid\<rparr>)) (\<lambda>_. ret ()))) Q s"
proof -
  have keys: "fst ` set (build_desired_rules tenant svc cidrs) = set (desired_keys svc cidrs)"
    by (metis build_desired_dom dom_map_of_conv_image_fst)
  show ?thesis
  proof (rule wp_create_missing [OF law, where f = "desired_rule tenant svc"])
    fix s' :: "('w, event) st" and l
    assume l: "created_upto (desired_rule tenant svc) (\<lambda>k. k \<in> owned_keys tenant svc rs) (V (world s)) l (V (world s'))"
      "set l = set (build_desired_rules tenant svc cidrs)" "distinct (map fst l)"
    from created_group [OF ok del l(1) _ l(3)] l(2) show "Q (Inr ()) s'"
      by (intro good) (simp_all add: rules_settled_def rules_tending_def)
  next
    fix e and s' :: "('w, event) st" and k l
    assume fail: "\<not> rules_reliable E c sgid V \<or> k \<in> fst ` set (build_desired_rules tenant svc cidrs) \<and>
      k \<notin> owned_keys tenant svc rs \<and> list_ex (rule_match (desired_rule tenant svc k)) (V (world s))"
      and l: "set l \<subseteq> set (build_desired_rules tenant svc cidrs)" "distinct (map fst l)"
      "rules_atomic E c sgid V \<Longrightarrow>
        created_upto (desired_rule tenant svc) (\<lambda>k. k \<in> owned_keys tenant svc rs) (V (world s)) l (V (world s'))"
    have "rules_clash tenant svc cidrs rs" if "rules_reliable E c sgid V"
    proof -
      from fail that obtain r where r: "k \<in> set (desired_keys svc cidrs)" "k \<notin> owned_keys tenant svc rs" "r \<in> set rs"
        "rule_match (desired_rule tenant svc k) r" by (auto simp: keys list_ex_iff del)
      with rule_match_key [OF r(4)] have "\<not> rule_owned tenant svc r" by (auto simp: owned_keys_def)
      with r show ?thesis by (auto simp: rules_clash_def list_ex_iff)
    qed
    then show "Q (Inl e) s'" using created_group(1) [OF ok del l(3) l(1,2)] by (intro bad) blast+
  next
    fix k k' r
    assume k': "k' \<in> fst ` set (build_desired_rules tenant svc cidrs)"
      and r: "rule_of_opts (desired_rule tenant svc k') r" "rule_match (desired_rule tenant svc k) r"
    from k' have "rk_port k' \<noteq> 0" unfolding keys by (rule desired_port_nonzero)
    with rule_of_desired [OF r(1)] rule_match_key [OF r(2)] show "k = k'" by simp
  next
    show "distinct (map fst (build_desired_rules tenant svc cidrs))" by (simp add: build_desired_rules_build)
  qed (auto dest: build_desired_mem)
qed

lemma ensure_rules_run:
  fixes E :: "'w env"
  assumes law: "neutron_rules E c sgid V" and ok: "group_ok tenant svc (V (world s))" and args: "sgid \<noteq> ''''" "cidrs \<noteq> []"
    and good: "\<And>s'. rules_settled tenant svc cidrs (V (world s)) (V (world s')) \<Longrightarrow> group_ok tenant svc (V (world s')) \<Longrightarrow>
      Q (Inr ()) s'"
    and bad: "\<And>e s'. rules_clash tenant svc cidrs (V (world s)) \<or> \<not> rules_reliable E c sgid V \<Longrightarrow>
      (rules_reliable E c sgid V \<Longrightarrow> rules_atomic E c sgid V \<Longrightarrow>
         rules_tending tenant svc cidrs (V (world s)) (V (world s'))) \<Longrightarrow> Q (Inl e) s'"
  shows "wp (ensure_node_port_rules E c sgid tenant svc cidrs) Q s"
proof -
  let ?V0 = "V (world s)" and ?D = "set (desired_keys svc cidrs)"
  have have_key: "(map_of (owned_rules tenant svc ?V0) k \<noteq> None) = (k \<in> owned_keys tenant svc ?V0)" for k
    using owned_rules_dom [of tenant svc ?V0] unfolding owned_keys_def by blast
  have desired: "(map_of (build_desired_rules tenant svc cidrs) k \<noteq> None) = (k \<in> ?D)" for k
    using build_desired_dom [of tenant svc cidrs] by blast
  show ?thesis
    unfolding ensure_node_port_rules_def if_not_P [OF args(1)] if_not_P [OF args(2)] Let_def
  proof (rule wp_list_owned [OF law])
    fix t :: "('w, event) st" assume t: "V (world t) = ?V0"
    show "wp (bind (for_range E (owned_rules tenant svc ?V0) (\<lambda>(k, r).
            if map_of (build_desired_rules tenant svc cidrs) k \<noteq> None then ret ()
            else check (''deleting stale SG rule '' @ ru_id r) (del_rule E c (ru_id r)) ret)) (\<lambda>_.
          for_range E (build_desired_rules tenant svc cidrs) (\<lambda>(k, opts).
            if map_of (owned_rules tenant svc ?V0) k \<noteq> None then ret ()
            else check (''creating SG rule '' @ rule_key_string k) (create_rule E c (opts\<lparr>ro_sg := sgid\<rparr>)) (\<lambda>_. ret ())))) Q t"
      unfolding have_key desired wp_bind
      by (rule wp_delete_stale [OF law t _ owned_ids_distinct [OF ok]])
         (auto simp: owned_rules_all [OF ok] intro: wp_create_desired [OF law ok] good bad)
  qed (auto intro: bad)
qed

lemma ensure_rules_settle:
  fixes E :: "'w env"
  assumes law: "neutron_rules E c sgid V" and ok: "group_ok tenant svc (V (world s))"
  shows "wp (ensure_node_port_rules E c sgid tenant svc cidrs)
    (\<lambda>r s'. case r of
        Inr _ \<Rightarrow> rules_settled tenant svc cidrs (V (world s)) (V (world s')) \<and> group_ok tenant svc (V (world s'))
      | Inl e \<Rightarrow> sgid = '''' \<or> cidrs = [] \<or> rules_clash tenant svc cidrs (V (world s)) \<or>
          \<not> rules_reliable E c sgid V) s"
    (is "wp _ ?Q _")
proof (cases "sgid = '''' \<or> cidrs = []")
  case True
  then show ?thesis by (auto simp: ensure_node_port_rules_def wp_simps)
next
  case False
  then show ?thesis by (intro ensure_rules_run [OF law ok]) auto
qed

lemma delete_rules_settle:
  fixes E :: "'w env"
  assumes law: "neutron_rules E c sgid V" and ok: "group_ok tenant svc (V (world s))"
  shows "wp (delete_node_port_rules E c sgid tenant svc)
    (\<lambda>r s'. case r of
        Inr _ \<Rightarrow> V (world s') = (if sgid = '''' then V (world s) else filter (\<lambda>r. \<not> rule_owned tenant svc r) (V (world s)))
      | Inl e \<Rightarrow> \<not> rules_reliable E c sgid V) s"
proof (cases "sgid = ''''")
  case False
  let ?V0 = "V (world s)"
  have gone: "filter (\<lambda>r. ru_id r \<notin> ru_id ` {r. \<exists>k. (k, r) \<in> set (owned_rules tenant svc ?V0)}) ?V0 =
      filter (\<lambda>r. \<not> rule_owned tenant svc r) ?V0"
  proof (rule filter_cong [OF refl])
    fix r assume r: "r \<in> set ?V0"
    have "r' = r" if "ru_id r = ru_id r'" "r' \<in> set ?V0" for r'
      using ok r that unfolding group_ok_def distinct_map by (metis inj_onD)
    with r show "(ru_id r \<notin> ru_id ` {r. \<exists>k. (k, r) \<in> set (owned_rules tenant svc ?V0)}) = (\<not> rule_owned tenant svc r)"
      by (auto simp: owned_rules_all [OF ok]; metis)
  qed
  show ?thesis
    unfolding delete_node_port_rules_def if_not_P [OF False]
  proof (rule wp_list_owned [OF law])
    fix t :: "('w, event) st" assume t: "V (world t) = ?V0"
    show "wp (for_range E (owned_rules tenant svc ?V0) (\<lambda>(k, r).
        check (''deleting SG rule '' @ ru_id r) (del_rule E c (ru_id r)) ret))
      (\<lambda>r s'. case r of Inr _ \<Rightarrow> V (world s') = filter (\<lambda>r. \<not> rule_owned tenant svc r) ?V0
        | Inl e \<Rightarrow> \<not> rules_reliable E c sgid V) t"
      by (rule wp_delete_stale [OF law t _ owned_ids_distinct [OF ok], where P = "\<lambda>_. False", simplified])
         (simp_all add: gone [symmetric] owned_rules_all [OF ok])
  qed simp
qed (simp add: delete_node_port_rules_def wp_ret)

section \<open>The calls of a run\<close>

lemma emits_security_group [emit_rules]:
  assumes "\<And>e. P (Neutron c e)"
  shows "emits P (find_sg_by_name E c n)"
    and "emits P (ensure_baseline_rules E c i)"
    and "emits P (lookup_cluster_security_group E c n)"
    and "emits P (ensure_node_port_rules E c i tenant svc cidrs)"
    and "emits P (delete_node_port_rules E c i tenant svc)"
  using assms
  by (auto simp: find_sg_by_name_def ensure_baseline_rules_def lookup_cluster_security_group_def
      ensure_node_port_rules_def delete_node_port_rules_def list_owned_rules_def Let_def
      intro!: emit_rules)

lemma emits_ensure_cluster_sg [emit_rules]:
  "(\<And>e. P (Neutron c e)) \<Longrightarrow> emits P (ensure_cluster_security_group E c n)"
  by (auto simp: ensure_cluster_security_group_def Let_def intro!: emit_rules)

end
