(* ===== verification/Sweep.thy ===== *)
theory Sweep
  imports LoadBalancer SecurityGroup
begin

text \<open>
  \<^verbatim>\<open>internal/openstack/sweep.go\<close>: the removal of what deleted clusters and deleted Services
  left behind in OpenStack. The set of known clusters is a list; \<open>exists_fn\<close> is the
  \<^verbatim>\<open>ServiceExistsFunc\<close> of the caller, \<^const>\<open>None\<close> when it is nil.
\<close>

type_synonym 'w exists_fn = "string \<Rightarrow> string \<Rightarrow> string \<Rightarrow> ('w, bool) lbc"

section \<open>One cluster\<close>

definition is_conflict_error :: "err \<Rightarrow> bool" where
  "is_conflict_error e =
     (let msg = err_text e in
      str_contains msg ''got 409 instead'' \<or> str_contains msg ''Bad response code: 409'' \<or>
      str_contains msg ''SecurityGroupInUse'')"

definition sweep_lb :: "'w env \<Rightarrow> clients \<Rightarrow> lb \<Rightarrow> ('w, unit) lbc" where
  "sweep_lb E c b =
     check (''deleting FIP for orphan LB '' @ lb_id b) (delete_floating_ip E c (lb_vip_port b)) (\<lambda>_.
     check (''cascade-deleting orphan LB '' @ lb_id b) (del_lb_cascade E c (lb_id b)) ret)"

definition sweep_sg :: "'w env \<Rightarrow> clients \<Rightarrow> sgroup \<Rightarrow> ('w, unit) lbc" where
  "sweep_sg E c g =
     attempt (del_sg E c (sg_id g)) (\<lambda>r. case r of
         Inr _ \<Rightarrow> ret ()
       | Inl e \<Rightarrow> if \<not> is_conflict_error e then throw (Wrap (''deleting cluster SG '' @ sg_id g) e) else ret ())"

definition sweep_cluster_resources :: "'w env \<Rightarrow> clients \<Rightarrow> string \<Rightarrow> ('w, unit) lbc" where
  "sweep_cluster_resources E c cluster =
     (let lb_prefix = managed_name_prefix @ cluster @ ''/'' in
      check ''listing LBs for cluster sweep'' (list_lbs_items E c None) (\<lambda>lbs.
      bind (foreach (filter (\<lambda>b. has_prefix (lb_name b) lb_prefix) lbs) (sweep_lb E c)) (\<lambda>_.
      check ''looking up cluster SG for sweep'' (find_sg_by_name E c (cluster_sg_name cluster)) (\<lambda>g.
        case g of None \<Rightarrow> ret () | Some g \<Rightarrow> sweep_sg E c g))))"

section \<open>Orphans\<close>

text \<open>Whether the Service of a tag is gone, through the cache both loops share.\<close>

definition service_gone ::
  "'w exists_fn \<Rightarrow> string \<times> string \<times> string \<Rightarrow> (string \<times> bool) list \<Rightarrow> ('w, bool \<times> (string \<times> bool) list) lbc" where
  "service_gone exists_fn t cache =
     (case t of (cluster, ns, name) \<Rightarrow>
       let key = cluster @ ''/'' @ ns @ ''/'' @ name in
       case map_of cache key of
         Some cached \<Rightarrow> ret (\<not> cached, cache)
       | None \<Rightarrow> attempt (exists_fn cluster ns name) (\<lambda>r. case r of
             Inl e \<Rightarrow> ret (False, AList.update key True cache)
           | Inr ex \<Rightarrow> ret (\<not> ex, AList.update key ex cache)))"

record scan =
  sc_clusters :: "string list"
  sc_lbs :: "lb list"
  sc_cache :: "(string \<times> bool) list"

definition scan_lb :: "string list \<Rightarrow> 'w exists_fn option \<Rightarrow> lb \<Rightarrow> scan \<Rightarrow> ('w, scan) lbc" where
  "scan_lb known exists_opt b acc =
     (if \<not> has_prefix (lb_name b) managed_name_prefix then ret acc
      else case parse_cluster_from_lb_name (lb_name b) of
        None \<Rightarrow> ret acc
      | Some cluster \<Rightarrow>
          if cluster \<notin> set known then ret (acc\<lparr>sc_clusters := sc_clusters acc @ [cluster]\<rparr>)
          else (case exists_opt of
              None \<Rightarrow> ret acc
            | Some ex \<Rightarrow> (case parse_service_from_tag (lb_name b) of
                  None \<Rightarrow> ret acc
                | Some t \<Rightarrow> bind (service_gone ex t (sc_cache acc)) (\<lambda>(gone, cache).
                    ret (acc\<lparr>sc_lbs := (if gone then sc_lbs acc @ [b] else sc_lbs acc), sc_cache := cache\<rparr>)))))"

definition delete_orphan_lb :: "'w env \<Rightarrow> clients \<Rightarrow> lb \<Rightarrow> ('w, unit) lbc" where
  "delete_orphan_lb E c b =
     attempt (del_lb_cascade E c (lb_id b)) (\<lambda>r. case r of
         Inr _ \<Rightarrow> ret ()
       | Inl e \<Rightarrow> if \<not> is_conflict_error e
           then throw (Wrap (''deleting per-Service orphan LB '' @ lb_name b @ '' ('' @ lb_id b @ '')'') e)
           else ret ())"

definition scan_fip ::
  "string list \<Rightarrow> 'w exists_fn \<Rightarrow> fip \<Rightarrow> fip list \<times> (string \<times> bool) list \<Rightarrow>
     ('w, fip list \<times> (string \<times> bool) list) lbc" where
  "scan_fip known ex f acc =
     (if \<not> has_prefix (fp_desc f) managed_name_prefix then ret acc
      else case parse_service_from_tag (fp_desc f) of
        None \<Rightarrow> ret acc
      | Some (cluster, ns, name) \<Rightarrow>
          if cluster \<notin> set known then ret acc
          else bind (service_gone ex (cluster, ns, name) (snd acc)) (\<lambda>(gone, cache).
                 ret (if gone then fst acc @ [f] else fst acc, cache)))"

definition delete_orphan_fip :: "'w env \<Rightarrow> clients \<Rightarrow> fip \<Rightarrow> ('w, unit) lbc" where
  "delete_orphan_fip E c f =
     attempt (del_fip E c (fp_id f)) (\<lambda>r. case r of
         Inr _ \<Rightarrow> ret ()
       | Inl e \<Rightarrow> if \<not> is_conflict_error e
           then throw (Wrap (''deleting per-Service orphan FIP '' @ fp_addr f @ '' ('' @ fp_id f @ '')'') e)
           else ret ())"

definition sweep_orphan_fips ::
  "'w env \<Rightarrow> clients \<Rightarrow> string list \<Rightarrow> 'w exists_fn \<Rightarrow> (string \<times> bool) list \<Rightarrow> ('w, unit) lbc" where
  "sweep_orphan_fips E c known ex cache =
     check ''listing FIPs for per-Service orphan sweep''
       (bind (list_fips_pages E c None) (\<lambda>p. each_page p (\<lambda>fs. fold_io fs (scan_fip known ex)) ([], cache)))
       (\<lambda>(orphans, _). foreach orphans (delete_orphan_fip E c))"

definition sweep_orphan_sg :: "'w env \<Rightarrow> clients \<Rightarrow> string list \<Rightarrow> string list \<Rightarrow> sgroup \<Rightarrow> ('w, unit) lbc" where
  "sweep_orphan_sg E c known seen g =
     (if \<not> has_prefix (sg_name g) cluster_sg_name_prefix then ret ()
      else let cluster = trim_prefix (sg_name g) cluster_sg_name_prefix in
        if cluster \<in> set known then ret ()
        else if cluster \<in> set seen then ret ()
        else check (''deleting orphan SG '' @ sg_id g) (del_sg E c (sg_id g)) ret)"

definition sweep_orphan_cluster :: "'w env \<Rightarrow> clients \<Rightarrow> string \<Rightarrow> string list \<Rightarrow> ('w, string list) lbc" where
  "sweep_orphan_cluster E c cl seen =
     (if cl \<in> set seen then ret seen
      else check (''sweeping resources for orphan cluster '' @ quoted cl) (sweep_cluster_resources E c cl)
             (\<lambda>_. ret (seen @ [cl])))"

definition sweep_orphans :: "'w env \<Rightarrow> clients \<Rightarrow> string list \<Rightarrow> 'w exists_fn option \<Rightarrow> ('w, unit) lbc" where
  "sweep_orphans E c known exists_opt =
     check ''listing LBs for orphan sweep''
       (bind (list_lbs_pages E c None) (\<lambda>p.
          each_page p (\<lambda>lbs. fold_io lbs (scan_lb known exists_opt)) \<lparr>sc_clusters = [], sc_lbs = [], sc_cache = []\<rparr>))
       (\<lambda>scan.
     bind (foreach (sc_lbs scan) (delete_orphan_lb E c)) (\<lambda>_.
     bind (case exists_opt of
             None \<Rightarrow> ret ()
           | Some ex \<Rightarrow> check ''sweeping per-Service orphan FIPs''
               (sweep_orphan_fips E c known ex (sc_cache scan)) ret) (\<lambda>_.
     bind (fold_io (sc_clusters scan) (sweep_orphan_cluster E c) []) (\<lambda>seen.
     check ''listing SGs for orphan sweep''
       (bind (list_sgs_pages E c None) (\<lambda>p.
          each_page p (\<lambda>gs _. foreach gs (sweep_orphan_sg E c known seen)) ())) ret))))"

definition sweep_orphan_nova_servers :: "'w env \<Rightarrow> clients \<Rightarrow> string list \<Rightarrow> ('w, unit) lbc" where
  "sweep_orphan_nova_servers E c known =
     (if \<not> cl_compute c then ret ()
      else check ''listing Nova servers for orphan sweep'' (list_servers_items E c) (\<lambda>ss.
        foreach (filter (\<lambda>s. has_prefix (sv_name s) ksc_server_name_prefix \<and> \<not> is_claimed_by_known (sv_name s) known) ss)
          (\<lambda>s. check (''deleting orphan Nova server '' @ sv_name s @ '' ('' @ sv_id s @ '')'')
                 (del_server E c (sv_id s)) ret)))"

section \<open>What a sweep may delete\<close>

text \<open>
  The evidence in the trace for a delete: the listing that showed the resource, its name or
  tag, and, for a Service of a known cluster, an answer of the tenant that it is gone.
\<close>

definition lb_listed :: "event list \<Rightarrow> clients \<Rightarrow> lb \<Rightarrow> bool" where
  "lb_listed pre c b \<longleftrightarrow> (\<exists>f p. Octavia c (ListLBs f p) \<in> set pre \<and> b \<in> set (pages_seen p))"

definition fip_listed :: "event list \<Rightarrow> clients \<Rightarrow> string option \<Rightarrow> fip \<Rightarrow> bool" where
  "fip_listed pre c f x \<longleftrightarrow> (\<exists>p. Neutron c (ListFIPs f p) \<in> set pre \<and> x \<in> set (pages_seen p))"

definition sg_listed :: "event list \<Rightarrow> clients \<Rightarrow> sgroup \<Rightarrow> bool" where
  "sg_listed pre c g \<longleftrightarrow> (\<exists>f p. Neutron c (ListSGs f p) \<in> set pre \<and> g \<in> set (pages_seen p))"

definition server_listed :: "event list \<Rightarrow> clients \<Rightarrow> server \<Rightarrow> bool" where
  "server_listed pre c x \<longleftrightarrow> (\<exists>p. Nova c (ListServers p) \<in> set pre \<and> x \<in> set (pages_seen p))"

definition tenant_denies :: "event list \<Rightarrow> string \<times> string \<times> string \<Rightarrow> bool" where
  "tenant_denies pre t =
     (case t of (cluster, ns, name) \<Rightarrow>
        \<exists>a. Tenant cluster (GetSvc ns name (Inl a)) \<in> set pre \<and> ae_not_found a)"

lemmas listed_defs = lb_listed_def fip_listed_def sg_listed_def server_listed_def

definition cluster_delete :: "clients \<Rightarrow> string \<Rightarrow> event list \<Rightarrow> event \<Rightarrow> bool" where
  "cluster_delete c cluster pre e =
     (case e of
        Octavia c' (DelLB i _) \<Rightarrow> c' = c \<and>
          (\<exists>b. lb_listed pre c b \<and> lb_id b = i \<and> has_prefix (lb_name b) (managed_name_prefix @ cluster @ ''/''))
      | Neutron c' (DelFIP i _) \<Rightarrow> c' = c \<and>
          (\<exists>b x. lb_listed pre c b \<and> has_prefix (lb_name b) (managed_name_prefix @ cluster @ ''/'') \<and>
             fip_listed pre c (Some (lb_vip_port b)) x \<and> fp_id x = i)
      | Neutron c' (DelSG i _) \<Rightarrow> c' = c \<and>
          (\<exists>g. sg_listed pre c g \<and> sg_id g = i \<and> sg_name g = cluster_sg_name cluster)
      | _ \<Rightarrow> False)"

definition cluster_sweep_just :: "clients \<Rightarrow> string \<Rightarrow> event list \<Rightarrow> event \<Rightarrow> bool" where
  "cluster_sweep_just c cluster pre e \<longleftrightarrow> \<not> cloud_mutation e \<or> cluster_delete c cluster pre e"

definition orphan_delete :: "clients \<Rightarrow> string list \<Rightarrow> event list \<Rightarrow> event \<Rightarrow> bool" where
  "orphan_delete c known pre e =
     (case e of
        Octavia c' (DelLB i _) \<Rightarrow> c' = c \<and>
          (\<exists>b t. lb_listed pre c b \<and> lb_id b = i \<and> parse_service_from_tag (lb_name b) = Some t \<and> tenant_denies pre t)
      | Neutron c' (DelFIP i _) \<Rightarrow> c' = c \<and>
          (\<exists>x t. fip_listed pre c None x \<and> fp_id x = i \<and> parse_service_from_tag (fp_desc x) = Some t \<and>
             tenant_denies pre t)
      | Neutron c' (DelSG i _) \<Rightarrow> c' = c \<and>
          (\<exists>g cluster. sg_listed pre c g \<and> sg_id g = i \<and> sg_name g = cluster_sg_name cluster \<and> cluster \<notin> set known)
      | _ \<Rightarrow> False)"

definition sweep_just :: "clients \<Rightarrow> string list \<Rightarrow> event list \<Rightarrow> event \<Rightarrow> bool" where
  "sweep_just c known pre e \<longleftrightarrow> \<not> cloud_mutation e \<or> orphan_delete c known pre e \<or>
     (\<exists>cluster. cluster \<noteq> '''' \<and> CHR ''/'' \<notin> set cluster \<and> cluster \<notin> set known \<and> cluster_delete c cluster pre e)"

definition asks_tenant :: "'w exists_fn \<Rightarrow> bool" where
  "asks_tenant ex \<longleftrightarrow> (\<forall>cluster ns name. every_run (ex cluster ns name) (\<lambda>evs r.
     reads_only evs \<and> (r = Inr False \<longrightarrow> tenant_denies evs (cluster, ns, name))))"

lemma listed_mono:
  assumes "set pre \<subseteq> set pre'"
  shows "lb_listed pre c b \<Longrightarrow> lb_listed pre' c b" "fip_listed pre c f x \<Longrightarrow> fip_listed pre' c f x"
    and "sg_listed pre c g \<Longrightarrow> sg_listed pre' c g" "tenant_denies pre t \<Longrightarrow> tenant_denies pre' t"
    and "server_listed pre c y \<Longrightarrow> server_listed pre' c y"
  using assms by (auto simp: listed_defs tenant_denies_def split: prod.splits)

lemma listed_now [simp]:
  "x \<in> set (pages_seen p) \<Longrightarrow> lb_listed (pre @ [Octavia c (ListLBs f p)]) c x"
  "y \<in> set (pages_seen q) \<Longrightarrow> fip_listed (pre @ [Neutron c (ListFIPs g q)]) c g y"
  "z \<in> set (pages_seen r) \<Longrightarrow> sg_listed (pre @ [Neutron c (ListSGs h r)]) c z"
  "u \<in> set (pages_seen v) \<Longrightarrow> server_listed (pre @ [Nova c (ListServers v)]) c u"
  by (auto simp: listed_defs)

subsection \<open>One cluster\<close>

lemma just_reads: "reads_only evs \<Longrightarrow> (\<And>pre e. \<not> cloud_mutation e \<Longrightarrow> J pre e) \<Longrightarrow> just J pre evs"
  by (rule just_all [where P = "\<lambda>e. \<not> cloud_mutation e"]) (simp_all add: reads_only_def)

lemma cluster_just_read [simp]: "\<not> cloud_mutation e \<Longrightarrow> cluster_sweep_just c cluster pre e"
  by (simp add: cluster_sweep_just_def)

lemma cluster_just_fip:
  "lb_listed pre c b \<Longrightarrow> has_prefix (lb_name b) (managed_name_prefix @ cluster @ ''/'') \<Longrightarrow>
     fip_listed pre c (Some (lb_vip_port b)) x \<Longrightarrow> cluster_sweep_just c cluster pre (Neutron c (DelFIP (fp_id x) r))"
  by (auto simp: cluster_sweep_just_def cluster_delete_def)

lemma yields_delete_fip:
  assumes "\<And>p e. \<not> cloud_mutation e \<Longrightarrow> J p e"
    and "\<And>p x r. x \<in> set (pages_seen p) \<Longrightarrow>
      J (pre @ [Neutron c (ListFIPs (Some port) p)]) (Neutron c (DelFIP (fp_id x) r))"
  shows "yields J pre (delete_floating_ip E c port) (\<lambda>_ _. True)"
  by (rule yields_every_run [OF delete_floating_ip_runs])
     (use assms in \<open>auto simp: fip_delete_run_def\<close>)

lemma yields_sweep_lb:
  assumes "lb_listed pre c b" "has_prefix (lb_name b) (managed_name_prefix @ cluster @ ''/'')"
  shows "yields (cluster_sweep_just c cluster) pre (sweep_lb E c b) (\<lambda>_ _. True)"
  unfolding sweep_lb_def
proof (rule yields_check [OF yields_delete_fip])
  fix p :: "fip pager" and x r assume x: "x \<in> set (pages_seen p)"
  have "lb_listed (pre @ [Neutron c (ListFIPs (Some (lb_vip_port b)) p)]) c b"
    by (rule listed_mono(1) [OF _ assms(1)]) auto
  from cluster_just_fip [OF this assms(2)] x
  show "cluster_sweep_just c cluster (pre @ [Neutron c (ListFIPs (Some (lb_vip_port b)) p)])
      (Neutron c (DelFIP (fp_id x) r))" by simp
next
  fix p x assume "set pre \<subseteq> set p"
  then have "lb_listed p c b" by (rule listed_mono(1) [OF _ assms(1)])
  with assms(2) show "yields (cluster_sweep_just c cluster) p
      (check (''cascade-deleting orphan LB '' @ lb_id b) (del_lb_cascade E c (lb_id b)) ret) (\<lambda>_ _. True)"
    by (intro yields_check yields_call_unit yields_ret)
       (auto simp: cluster_sweep_just_def cluster_delete_def)
qed simp_all

lemma yields_sweep_sg:
  assumes "sg_listed pre c g" "sg_name g = cluster_sg_name cluster"
  shows "yields (cluster_sweep_just c cluster) pre (sweep_sg E c g) (\<lambda>_ _. True)"
proof -
  have "cluster_sweep_just c cluster pre (Neutron c (DelSG (sg_id g) x))" for x
    using assms by (auto simp: cluster_sweep_just_def cluster_delete_def)
  then show ?thesis
    unfolding sweep_sg_def
    by (intro yields_attempt every_run_call_unit)
       (auto intro!: yields_ret yields_throw)
qed

lemma yields_sweep_cluster:
  "yields (cluster_sweep_just c cluster) pre (sweep_cluster_resources E c cluster) (\<lambda>_ _. True)"
  unfolding sweep_cluster_resources_def Let_def find_sg_by_name_def
proof (rule yields_check, rule yields_call_items [where R = "\<lambda>p xs. list_all (lb_listed p c) xs"])
  fix p lbs assume lbs: "list_all (lb_listed p c) lbs"
  show "yields (cluster_sweep_just c cluster) p
      (bind (foreach (filter (\<lambda>b. has_prefix (lb_name b) (managed_name_prefix @ cluster @ ''/'')) lbs) (sweep_lb E c)) (\<lambda>_.
       check ''looking up cluster SG for sweep''
        (list_sgs_find (\<lambda>g. sg_name g = cluster_sg_name cluster) E c (Some (cluster_sg_name cluster))) (\<lambda>g.
         case g of None \<Rightarrow> ret () | Some g \<Rightarrow> sweep_sg E c g))) (\<lambda>_ _. True)"
  proof (rule yields_bind, rule yields_foreach)
    fix b p' assume "b \<in> set (filter (\<lambda>b. has_prefix (lb_name b) (managed_name_prefix @ cluster @ ''/'')) lbs)"
      "set p \<subseteq> set p'"
    with lbs show "yields (cluster_sweep_just c cluster) p' (sweep_lb E c b) (\<lambda>_ _. True)"
      by (intro yields_sweep_lb listed_mono(1) [of p p']) (auto simp: list_all_iff)
  next
    fix p'
    show "yields (cluster_sweep_just c cluster) p' (check ''looking up cluster SG for sweep''
        (list_sgs_find (\<lambda>g. sg_name g = cluster_sg_name cluster) E c (Some (cluster_sg_name cluster))) (\<lambda>g.
         case g of None \<Rightarrow> ret () | Some g \<Rightarrow> sweep_sg E c g)) (\<lambda>_ _. True)"
      by (rule yields_check, rule yields_call_find
            [where R = "\<lambda>p g. \<forall>x. g = Some x \<longrightarrow> sg_listed p c x \<and> sg_name x = cluster_sg_name cluster"])
         (auto intro!: yields_option yields_ret yields_sweep_sg)
  qed
qed (auto simp: list_all_iff)

subsection \<open>Orphans\<close>

lemma sweep_just_read [simp]: "\<not> cloud_mutation e \<Longrightarrow> sweep_just c known pre e"
  by (simp add: sweep_just_def)

lemma sweep_just_cluster:
  "cluster_sweep_just c cl pre e \<Longrightarrow> cl \<noteq> '''' \<Longrightarrow> CHR ''/'' \<notin> set cl \<Longrightarrow> cl \<notin> set known \<Longrightarrow> sweep_just c known pre e"
  by (auto simp: sweep_just_def cluster_sweep_just_def)

text \<open>The cache only says gone what a tenant denied.\<close>

definition cache_ok :: "event list \<Rightarrow> (string \<times> bool) list \<Rightarrow> bool" where
  "cache_ok pre cache \<longleftrightarrow>
     (\<forall>t. tag_ok t \<and> map_of cache (drop (length managed_name_prefix) (lb_name_of t)) = Some False \<longrightarrow> tenant_denies pre t)"

lemma cache_key: "cluster @ ''/'' @ ns @ ''/'' @ name = drop (length managed_name_prefix) (lb_name_of (cluster, ns, name))"
  by (simp add: lb_name_of_def service_lb_name_def)

lemma cache_key_inj:
  "tag_ok t \<Longrightarrow> tag_ok t' \<Longrightarrow>
     drop (length managed_name_prefix) (lb_name_of t) = drop (length managed_name_prefix) (lb_name_of t') \<Longrightarrow> t = t'"
  using lb_tag.enc_eq [of t t'] by (auto simp: lb_name_of_def service_lb_name_def split: prod.splits)

lemma cache_ok_mono: "set pre \<subseteq> set pre' \<Longrightarrow> cache_ok pre cache \<Longrightarrow> cache_ok pre' cache"
  unfolding cache_ok_def by (blast intro: listed_mono(4))

lemma cache_ok_update:
  assumes "cache_ok pre cache" "tag_ok t" "\<not> ex \<Longrightarrow> tenant_denies pre t"
  shows "cache_ok pre (AList.update (drop (length managed_name_prefix) (lb_name_of t)) ex cache)"
  using assms cache_key_inj [OF assms(2)] unfolding cache_ok_def
  by (simp del: split_paired_All) (metis (full_types) option.inject)

lemma yields_service_gone:
  assumes ex: "asks_tenant ex" and t: "tag_ok t" and cache: "cache_ok pre cache"
  shows "yields (sweep_just c known) pre (service_gone ex t cache)
     (\<lambda>p (gone, cache'). cache_ok p cache' \<and> (gone \<longrightarrow> tenant_denies p t))"
proof -
  obtain cl ns n where tt: "t = (cl, ns, n)" by (cases t)
  have run: "every_run (ex cl ns n) (\<lambda>evs r. reads_only evs \<and> (r = Inr False \<longrightarrow> tenant_denies evs t))"
    using ex by (simp add: asks_tenant_def tt)
  let ?key = "drop (length managed_name_prefix) (lb_name_of t)"
  have "yields (sweep_just c known) pre (attempt (ex cl ns n) (\<lambda>r. case r of
             Inl e \<Rightarrow> ret (False, AList.update ?key True cache)
           | Inr ex \<Rightarrow> ret (\<not> ex, AList.update ?key ex cache)))
     (\<lambda>p (gone, cache'). cache_ok p cache' \<and> (gone \<longrightarrow> tenant_denies p t))"
  proof (rule yields_attempt, rule every_run_mono [OF run], intro conjI)
    fix evs r assume *: "reads_only evs \<and> (r = Inr False \<longrightarrow> tenant_denies evs t)"
    then show "just (sweep_just c known) pre evs" by (auto intro: just_reads)
    have pre: "cache_ok (pre @ evs) cache" by (rule cache_ok_mono [OF _ cache]) simp
    have "tenant_denies evs t \<Longrightarrow> tenant_denies (pre @ evs) t" by (rule listed_mono(4)) simp_all
    with * show "yields (sweep_just c known) (pre @ evs) (case r of
             Inl e \<Rightarrow> ret (False, AList.update ?key True cache)
           | Inr ex \<Rightarrow> ret (\<not> ex, AList.update ?key ex cache))
     (\<lambda>p (gone, cache'). cache_ok p cache' \<and> (gone \<longrightarrow> tenant_denies p t))"
      by (auto intro!: yields_ret cache_ok_update [OF pre t] split: sum.splits)
  qed
  moreover have "map_of cache ?key = Some False \<Longrightarrow> tenant_denies pre t"
    using cache t unfolding cache_ok_def by blast
  moreover have "service_gone ex t cache = (case map_of cache ?key of
         Some cached \<Rightarrow> ret (\<not> cached, cache)
       | None \<Rightarrow> attempt (ex cl ns n) (\<lambda>r. case r of
             Inl e \<Rightarrow> ret (False, AList.update ?key True cache)
           | Inr ex \<Rightarrow> ret (\<not> ex, AList.update ?key ex cache)))"
    by (simp only: service_gone_def tt prod.case Let_def cache_key)
  ultimately show ?thesis
    using cache by (cases "map_of cache ?key") (auto intro!: yields_ret)
qed

definition scan_ok :: "clients \<Rightarrow> string list \<Rightarrow> event list \<Rightarrow> scan \<Rightarrow> bool" where
  "scan_ok c known pre acc \<longleftrightarrow>
     list_all (\<lambda>cl. cl \<noteq> '''' \<and> CHR ''/'' \<notin> set cl \<and> cl \<notin> set known) (sc_clusters acc) \<and>
     list_all (\<lambda>b. lb_listed pre c b \<and> (\<exists>t. parse_service_from_tag (lb_name b) = Some t \<and> tenant_denies pre t)) (sc_lbs acc) \<and>
     cache_ok pre (sc_cache acc)"

lemma scan_ok_mono: "set pre \<subseteq> set pre' \<Longrightarrow> scan_ok c known pre acc \<Longrightarrow> scan_ok c known pre' acc"
  unfolding scan_ok_def list_all_iff
  by (meson cache_ok_mono listed_mono(1) listed_mono(4))

lemma yields_scan_lb:
  assumes ex: "\<And>ex. exists_opt = Some ex \<Longrightarrow> asks_tenant ex"
    and b: "lb_listed pre c b" and acc: "scan_ok c known pre acc"
  shows "yields (sweep_just c known) pre (scan_lb known exists_opt b acc) (scan_ok c known)"
  unfolding scan_lb_def
proof (intro yields_if yields_option yields_ret)
  fix cl assume "parse_cluster_from_lb_name (lb_name b) = Some cl" "cl \<notin> set known"
  with acc parse_cluster_SomeD [OF this(1)]
  show "scan_ok c known pre (acc\<lparr>sc_clusters := sc_clusters acc @ [cl]\<rparr>)"
    by (simp add: scan_ok_def)
next
  fix ex t assume ex': "exists_opt = Some ex" and t: "parse_service_from_tag (lb_name b) = Some t"
  from parse_service_SomeD [of "lb_name b"] t have ok: "tag_ok t" by (cases t) auto
  from acc have cache: "cache_ok pre (sc_cache acc)" by (simp add: scan_ok_def)
  show "yields (sweep_just c known) pre
    (bind (service_gone ex t (sc_cache acc)) (\<lambda>(gone, cache).
       ret (acc\<lparr>sc_lbs := (if gone then sc_lbs acc @ [b] else sc_lbs acc), sc_cache := cache\<rparr>))) (scan_ok c known)"
  proof (rule yields_bind [OF yields_service_gone [OF ex [OF ex'] ok cache]], clarify, intro yields_ret)
    fix p gone cache'
    assume p: "set pre \<subseteq> set p" "cache_ok p cache'" "gone \<longrightarrow> tenant_denies p t"
    with scan_ok_mono [OF p(1) acc] listed_mono(1) [OF p(1) b] t
    show "scan_ok c known p (acc\<lparr>sc_lbs := (if gone then sc_lbs acc @ [b] else sc_lbs acc), sc_cache := cache'\<rparr>)"
      by (simp add: scan_ok_def del: split_paired_Ex)
  qed
qed (use acc in simp_all)

definition fips_ok :: "clients \<Rightarrow> event list \<Rightarrow> fip list \<times> (string \<times> bool) list \<Rightarrow> bool" where
  "fips_ok c pre acc \<longleftrightarrow> cache_ok pre (snd acc) \<and>
     list_all (\<lambda>x. fip_listed pre c None x \<and> (\<exists>t. parse_service_from_tag (fp_desc x) = Some t \<and> tenant_denies pre t)) (fst acc)"

lemma fips_ok_mono: "set pre \<subseteq> set pre' \<Longrightarrow> fips_ok c pre acc \<Longrightarrow> fips_ok c pre' acc"
  unfolding fips_ok_def list_all_iff
  by (meson cache_ok_mono listed_mono(2) listed_mono(4))

lemma yields_scan_fip:
  assumes ex: "asks_tenant ex" and f: "fip_listed pre c None f" and acc: "fips_ok c pre acc"
  shows "yields (sweep_just c known) pre (scan_fip known ex f acc) (fips_ok c)"
  unfolding scan_fip_def
proof (intro yields_if yields_option yields_ret yields_prod)
  fix t cl y ns n assume t: "parse_service_from_tag (fp_desc f) = Some t" "t = (cl, y)" "y = (ns, n)"
  with parse_service_SomeD [of "fp_desc f" cl ns n] have ok: "tag_ok (cl, ns, n)" by simp
  from acc have cache: "cache_ok pre (snd acc)" by (simp add: fips_ok_def)
  show "yields (sweep_just c known) pre
    (bind (service_gone ex (cl, ns, n) (snd acc)) (\<lambda>(gone, cache).
       ret (if gone then fst acc @ [f] else fst acc, cache))) (fips_ok c)"
  proof (rule yields_bind [OF yields_service_gone [OF ex ok cache]], clarify, intro yields_ret)
    fix p gone cache'
    assume p: "set pre \<subseteq> set p" "cache_ok p cache'" "gone \<longrightarrow> tenant_denies p (cl, ns, n)"
    with fips_ok_mono [OF p(1) acc] listed_mono(2) [OF p(1) f] t
    show "fips_ok c p (if gone then fst acc @ [f] else fst acc, cache')"
      by (simp add: fips_ok_def del: split_paired_Ex)
  qed
qed (use acc in simp_all)

text \<open>The whole sweep.\<close>

lemma yields_delete_orphan_lb:
  assumes "lb_listed pre c b" "parse_service_from_tag (lb_name b) = Some t" "tenant_denies pre t"
  shows "yields (sweep_just c known) pre (delete_orphan_lb E c b) (\<lambda>_ _. True)"
proof -
  have "sweep_just c known pre (Octavia c (DelLB (lb_id b) r))" for r
    using assms unfolding sweep_just_def orphan_delete_def by (auto simp del: split_paired_Ex)
  then show ?thesis
    unfolding delete_orphan_lb_def
    by (intro yields_attempt every_run_call_unit) (auto intro!: yields_ret yields_throw)
qed

lemma yields_delete_orphan_fip:
  assumes "fip_listed pre c None x" "parse_service_from_tag (fp_desc x) = Some t" "tenant_denies pre t"
  shows "yields (sweep_just c known) pre (delete_orphan_fip E c x) (\<lambda>_ _. True)"
proof -
  have "sweep_just c known pre (Neutron c (DelFIP (fp_id x) r))" for r
    using assms unfolding sweep_just_def orphan_delete_def by (auto simp del: split_paired_Ex)
  then show ?thesis
    unfolding delete_orphan_fip_def
    by (intro yields_attempt every_run_call_unit) (auto intro!: yields_ret yields_throw)
qed

lemma yields_sweep_fips:
  assumes ex: "asks_tenant ex" and cache: "cache_ok pre cache"
  shows "yields (sweep_just c known) pre (sweep_orphan_fips E c known ex cache) (\<lambda>_ _. True)"
  unfolding sweep_orphan_fips_def
proof (rule yields_check [where R = "fips_ok c"])
  show "yields (sweep_just c known) pre
      (bind (list_fips_pages E c None) (\<lambda>p. each_page p (\<lambda>fs. fold_io fs (scan_fip known ex)) ([], cache))) (fips_ok c)"
  proof (rule yields_bind [where R = "\<lambda>p pg. cache_ok p cache \<and> list_all (fip_listed p c None) (pages_seen pg)"])
    show "yields (sweep_just c known) pre (list_fips_pages E c None)
        (\<lambda>p pg. cache_ok p cache \<and> list_all (fip_listed p c None) (pages_seen pg))"
      by (rule yields_call) (auto simp: list_all_iff intro: cache_ok_mono [OF _ cache])
  next
    fix p pg assume pg: "cache_ok p cache \<and> list_all (fip_listed p c None) (pages_seen pg)"
    show "yields (sweep_just c known) p (each_page pg (\<lambda>fs. fold_io fs (scan_fip known ex)) ([], cache)) (fips_ok c)"
    proof (rule yields_each_page, simp add: fips_ok_def pg, rule yields_fold_io, assumption)
      fix xs p' b x p'' a
      assume "set xs \<subseteq> set (pages_seen pg)" "set p \<subseteq> set p'" "x \<in> set xs" "set p' \<subseteq> set p''"
      with pg show "yields (sweep_just c known) p'' (scan_fip known ex x a) (fips_ok c)" if "fips_ok c p'' a"
        by (intro yields_scan_fip [OF ex _ that] listed_mono(2) [of p p'']) (auto simp: list_all_iff)
    qed
  qed
next
  fix p acc assume acc: "fips_ok c p acc"
  obtain xs cache' where a: "acc = (xs, cache')" by (cases acc)
  show "yields (sweep_just c known) p (case acc of (orphans, _) \<Rightarrow> foreach orphans (delete_orphan_fip E c)) (\<lambda>_ _. True)"
    unfolding a prod.case
  proof (rule yields_foreach)
    fix x p' assume "x \<in> set xs" "set p \<subseteq> set p'"
    with acc show "yields (sweep_just c known) p' (delete_orphan_fip E c x) (\<lambda>_ _. True)"
      unfolding a fips_ok_def list_all_iff by (metis fst_conv listed_mono(2) listed_mono(4) yields_delete_orphan_fip)
  qed
qed

lemma yields_weaken: "yields J pre m R \<Longrightarrow> (\<And>p e. J p e \<Longrightarrow> K p e) \<Longrightarrow> yields K pre m R"
  unfolding yields_def by (erule every_run_mono) (auto intro: just_imp)

lemma yields_sweep_orphan_cluster:
  assumes "cl \<noteq> ''''" "CHR ''/'' \<notin> set cl" "cl \<notin> set known"
  shows "yields (sweep_just c known) pre (sweep_orphan_cluster E c cl seen) (\<lambda>_ _. True)"
proof -
  have "yields (sweep_just c known) pre (sweep_cluster_resources E c cl) (\<lambda>_ _. True)"
    by (rule yields_weaken [OF yields_sweep_cluster]) (rule sweep_just_cluster [OF _ assms])
  then show ?thesis
    unfolding sweep_orphan_cluster_def by (intro yields_if yields_ret yields_check) auto
qed

lemma yields_sweep_orphan_sg:
  assumes "sg_listed pre c g"
  shows "yields (sweep_just c known) pre (sweep_orphan_sg E c known seen g) (\<lambda>_ _. True)"
proof -
  have "sweep_just c known pre (Neutron c (DelSG (sg_id g) r))"
    if "has_prefix (sg_name g) cluster_sg_name_prefix" "trim_prefix (sg_name g) cluster_sg_name_prefix \<notin> set known" for r
  proof -
    from that obtain cl where "sg_name g = cluster_sg_name_prefix @ cl" "cl \<notin> set known"
      by (auto elim: has_prefixE)
    with assms show ?thesis
      unfolding sweep_just_def orphan_delete_def cluster_sg_name_def by auto
  qed
  then show ?thesis
    unfolding sweep_orphan_sg_def Let_def
    by (intro yields_if yields_ret yields_check yields_call_unit) auto
qed

lemma yields_scan:
  assumes ex: "\<And>ex. exists_opt = Some ex \<Longrightarrow> asks_tenant ex"
  shows "yields (sweep_just c known) pre (bind (list_lbs_pages E c None) (\<lambda>p.
    each_page p (\<lambda>lbs. fold_io lbs (scan_lb known exists_opt)) \<lparr>sc_clusters = [], sc_lbs = [], sc_cache = []\<rparr>)) (scan_ok c known)"
proof (rule yields_bind [where R = "\<lambda>p pg. list_all (lb_listed p c) (pages_seen pg)"])
  show "yields (sweep_just c known) pre (list_lbs_pages E c None) (\<lambda>p pg. list_all (lb_listed p c) (pages_seen pg))"
    by (rule yields_call) (auto simp: list_all_iff)
next
  fix p pg assume pg: "list_all (lb_listed p c) (pages_seen pg)"
  show "yields (sweep_just c known) p (each_page pg (\<lambda>lbs. fold_io lbs (scan_lb known exists_opt))
    \<lparr>sc_clusters = [], sc_lbs = [], sc_cache = []\<rparr>) (scan_ok c known)"
  proof (rule yields_each_page, simp add: scan_ok_def cache_ok_def, rule yields_fold_io, assumption)
    fix xs p' b x p'' a
    assume "set xs \<subseteq> set (pages_seen pg)" "set p \<subseteq> set p'" "x \<in> set xs" "set p' \<subseteq> set p''"
    with pg show "yields (sweep_just c known) p'' (scan_lb known exists_opt x a) (scan_ok c known)" if "scan_ok c known p'' a"
      by (intro yields_scan_lb [OF ex _ that] listed_mono(1) [of p p'']) (auto simp: list_all_iff)
  qed
qed

lemma yields_sweep_sgs:
  "yields (sweep_just c known) pre (bind (list_sgs_pages E c None) (\<lambda>p.
     each_page p (\<lambda>gs _. foreach gs (sweep_orphan_sg E c known seen)) ())) (\<lambda>_ _. True)"
proof (rule yields_bind [where R = "\<lambda>p pg. list_all (sg_listed p c) (pages_seen pg)"])
  show "yields (sweep_just c known) pre (list_sgs_pages E c None) (\<lambda>p pg. list_all (sg_listed p c) (pages_seen pg))"
    by (rule yields_call) (auto simp: list_all_iff)
next
  fix p pg assume pg: "list_all (sg_listed p c) (pages_seen pg)"
  show "yields (sweep_just c known) p (each_page pg (\<lambda>gs _. foreach gs (sweep_orphan_sg E c known seen)) ()) (\<lambda>_ _. True)"
  proof (rule yields_each_page, simp, rule yields_foreach)
    fix xs p' x p''
    assume "set xs \<subseteq> set (pages_seen pg)" "set p \<subseteq> set p'" "x \<in> set xs" "set p' \<subseteq> set p''"
    with pg show "yields (sweep_just c known) p'' (sweep_orphan_sg E c known seen x) (\<lambda>_ _. True)"
      by (intro yields_sweep_orphan_sg listed_mono(3) [of p p'']) (auto simp: list_all_iff)
  qed
qed

lemma yields_sweep_orphans:
  assumes ex: "\<And>ex. exists_opt = Some ex \<Longrightarrow> asks_tenant ex"
  shows "yields (sweep_just c known) pre (sweep_orphans E c known exists_opt) (\<lambda>_ _. True)"
  unfolding sweep_orphans_def
proof (rule yields_check [OF yields_scan [OF ex]], assumption)
  fix p1 scan assume scan: "scan_ok c known p1 scan"
  have lbs: "yields (sweep_just c known) p1 (foreach (sc_lbs scan) (delete_orphan_lb E c)) (\<lambda>_ _. True)"
  proof (rule yields_foreach)
    fix b p' assume "b \<in> set (sc_lbs scan)" "set p1 \<subseteq> set p'"
    with scan show "yields (sweep_just c known) p' (delete_orphan_lb E c b) (\<lambda>_ _. True)"
      unfolding scan_ok_def list_all_iff by (metis listed_mono(1) listed_mono(4) yields_delete_orphan_lb)
  qed
  have cache: "cache_ok p2 (sc_cache scan)" if "set p1 \<subseteq> set p2" for p2
    using scan cache_ok_mono [OF that] by (simp add: scan_ok_def)
  have fips: "yields (sweep_just c known) p2 (case exists_opt of
             None \<Rightarrow> ret ()
           | Some ex \<Rightarrow> check ''sweeping per-Service orphan FIPs''
               (sweep_orphan_fips E c known ex (sc_cache scan)) ret) (\<lambda>_ _. True)" if "set p1 \<subseteq> set p2" for p2
    by (intro yields_option yields_ret yields_check [OF yields_sweep_fips [OF ex cache [OF that]]]) simp_all
  have clusters: "yields (sweep_just c known) p3 (fold_io (sc_clusters scan) (sweep_orphan_cluster E c) []) (\<lambda>_ _. True)" for p3
    using scan by (intro yields_fold_io yields_sweep_orphan_cluster) (auto simp: scan_ok_def list_all_iff)
  show "yields (sweep_just c known) p1
     (bind (foreach (sc_lbs scan) (delete_orphan_lb E c)) (\<lambda>_.
     bind (case exists_opt of
             None \<Rightarrow> ret ()
           | Some ex \<Rightarrow> check ''sweeping per-Service orphan FIPs''
               (sweep_orphan_fips E c known ex (sc_cache scan)) ret) (\<lambda>_.
     bind (fold_io (sc_clusters scan) (sweep_orphan_cluster E c) []) (\<lambda>seen.
     check ''listing SGs for orphan sweep''
       (bind (list_sgs_pages E c None) (\<lambda>p.
          each_page p (\<lambda>gs _. foreach gs (sweep_orphan_sg E c known seen)) ())) ret)))) (\<lambda>_ _. True)"
    by (rule yields_bind [OF lbs], rule yields_bind [OF fips], assumption,
        rule yields_bind [OF clusters], rule yields_check [OF yields_sweep_sgs], rule yields_ret) simp
qed

section \<open>Servers\<close>

definition server_just :: "clients \<Rightarrow> string list \<Rightarrow> event list \<Rightarrow> event \<Rightarrow> bool" where
  "server_just c known pre e =
     (case e of
        Nova c' (ListServers _) \<Rightarrow> c' = c \<and> cl_compute c
      | Nova c' (DelServer i _) \<Rightarrow> c' = c \<and>
          (\<exists>x. server_listed pre c x \<and> sv_id x = i \<and> has_prefix (sv_name x) ksc_server_name_prefix \<and>
             (\<forall>cl. cl \<in> set known \<and> cl \<noteq> '''' \<longrightarrow> \<not> has_prefix (sv_name x) (ksc_server_name_prefix @ cl @ ''-'')))
      | _ \<Rightarrow> False)"

lemma keeps_sweep_servers: "keeps (server_just c known) (sweep_orphan_nova_servers E c known)"
proof (rule keeps_runs, rule yieldsD)
  fix pre
  show "yields (server_just c known) pre (sweep_orphan_nova_servers E c known) (\<lambda>_ _. True)"
    unfolding sweep_orphan_nova_servers_def
  proof (intro yields_if yields_ret, simp, rule yields_check [where R = "\<lambda>p xs. list_all (server_listed p c) xs"])
    assume "\<not> \<not> cl_compute c"
    then show "yields (server_just c known) pre (list_servers_items E c) (\<lambda>p. list_all (server_listed p c))"
      by (intro yields_call_items) (auto simp: server_just_def list_all_iff)
  next
    fix p ss assume ss: "list_all (server_listed p c) ss"
    show "yields (server_just c known) p
      (foreach (filter (\<lambda>s. has_prefix (sv_name s) ksc_server_name_prefix \<and> \<not> is_claimed_by_known (sv_name s) known) ss)
        (\<lambda>s. check (''deleting orphan Nova server '' @ sv_name s @ '' ('' @ sv_id s @ '')'')
               (del_server E c (sv_id s)) ret)) (\<lambda>_ _. True)"
    proof (rule yields_foreach)
      fix x p' assume x: "x \<in> set (filter (\<lambda>s. has_prefix (sv_name s) ksc_server_name_prefix \<and>
          \<not> is_claimed_by_known (sv_name s) known) ss)" "set p \<subseteq> set p'"
      with ss listed_mono(5) [OF x(2), of c x] have "server_just c known p' (Nova c (DelServer (sv_id x) r))" for r
        by (auto simp: server_just_def is_claimed_by_known_def list_ex_iff list_all_iff)
      then show "yields (server_just c known) p' (check (''deleting orphan Nova server '' @ sv_name x @ '' ('' @ sv_id x @ '')'')
               (del_server E c (sv_id x)) ret) (\<lambda>_ _. True)"
        by (intro yields_check yields_call_unit yields_ret) auto
    qed
  qed
qed

end
