(* ===== verification/Cidr.thy ===== *)
theory Cidr
  imports Prelude
begin

text \<open>
  The part of \<^verbatim>\<open>net/netip\<close> the program uses: parsing a prefix, masking it, and printing it. An
  IPv4 address is four octets, an IPv6 address eight groups of 16 bits. A zone makes an address
  no prefix, so it is refused here.
\<close>

section \<open>Addresses\<close>

datatype ip_addr = V4 "nat list" | V6 "nat list"

fun addr_ok :: "ip_addr \<Rightarrow> bool" where
  "addr_ok (V4 os) \<longleftrightarrow> length os = 4 \<and> list_all (\<lambda>x. x < 256) os"
| "addr_ok (V6 gs) \<longleftrightarrow> length gs = 8 \<and> list_all (\<lambda>x. x < 65536) gs"

section \<open>Parsing\<close>

definition parse_octet :: "string \<Rightarrow> nat option" where
  "parse_octet s =
     (if s \<noteq> '''' \<and> list_all is_digit s \<and> \<not> (length s > 1 \<and> hd s = CHR ''0'') \<and> undigits s \<le> 255
      then Some (undigits s) else None)"

definition parse_ipv4 :: "string \<Rightarrow> nat list option" where
  "parse_ipv4 s =
     (let parts = map parse_octet (split_all CHR ''.'' s) in
      if length parts = 4 \<and> None \<notin> set parts then Some (map the parts) else None)"

definition hex_val :: "char \<Rightarrow> nat" where
  "hex_val c = (let n = of_char c in if n \<le> 57 then n - 48 else if n \<le> 70 then n - 55 else n - 87)"

definition is_hex :: "char \<Rightarrow> bool" where
  "is_hex c = (let n = (of_char c :: nat) in (48 \<le> n \<and> n \<le> 57) \<or> (97 \<le> n \<and> n \<le> 102) \<or> (65 \<le> n \<and> n \<le> 70))"

definition unhex :: "string \<Rightarrow> nat" where
  "unhex s = foldl (\<lambda>a c. 16 * a + hex_val c) 0 s"

text \<open>
  The loop of \<^verbatim>\<open>parseIPv6\<close>: \<open>gs\<close> are the groups read, \<open>e\<close> is the position of the ellipsis.
\<close>

function parse_groups :: "nat list \<Rightarrow> nat option \<Rightarrow> string \<Rightarrow> (nat list \<times> nat option) option" where
  "parse_groups gs e s =
     (if 8 \<le> length gs then (if s = '''' then Some (gs, e) else None)
      else let h = takeWhile is_hex s; rest = dropWhile is_hex s; gs' = gs @ [unhex h] in
        if h = '''' \<or> length h > 4 then None
        else if rest = '''' then Some (gs', e)
        else if hd rest = CHR ''.'' then
          (if (e = None \<and> length gs \<noteq> 6) \<or> length gs > 6 then None
           else (case parse_ipv4 s of
               Some [a, b, c, d] \<Rightarrow> Some (gs @ [256 * a + b, 256 * c + d], e)
             | _ \<Rightarrow> None))
        else if hd rest \<noteq> CHR '':'' \<or> tl rest = '''' then None
        else if hd (tl rest) \<noteq> CHR '':'' then parse_groups gs' e (tl rest)
        else if e \<noteq> None then None
        else if tl (tl rest) = '''' then Some (gs', Some (length gs'))
        else parse_groups gs' (Some (length gs')) (tl (tl rest)))"
  by pat_completeness auto
termination by (relation "measure (\<lambda>(gs, e, s). 8 - length gs)") (auto simp: Let_def)

declare parse_groups.simps [simp del]

definition expand :: "nat list \<times> nat option \<Rightarrow> nat list option" where
  "expand ge =
     (case ge of (gs, e) \<Rightarrow>
       if length gs < 8 then
         (case e of None \<Rightarrow> None | Some k \<Rightarrow> Some (take k gs @ replicate (8 - length gs) 0 @ drop k gs))
       else if e \<noteq> None then None else Some gs)"

definition parse_ipv6 :: "string \<Rightarrow> nat list option" where
  "parse_ipv6 s =
     (if CHR ''%'' \<in> set s then None
      else if take 2 s = ''::'' then
        (if drop 2 s = '''' then Some (replicate 8 0)
         else Option.bind (parse_groups [] (Some 0) (drop 2 s)) expand)
      else Option.bind (parse_groups [] None s) expand)"

definition addr_mark :: "char \<Rightarrow> bool" where
  "addr_mark c \<longleftrightarrow> c = CHR ''.'' \<or> c = CHR '':'' \<or> c = CHR ''%''"

definition parse_addr :: "string \<Rightarrow> ip_addr option" where
  "parse_addr s =
     (case find addr_mark s of
        None \<Rightarrow> None
      | Some c \<Rightarrow>
          if c = CHR ''.'' then map_option V4 (parse_ipv4 s)
          else if c = CHR '':'' then map_option V6 (parse_ipv6 s)
          else None)"

fun max_bits :: "ip_addr \<Rightarrow> nat" where
  "max_bits (V4 os) = 32"
| "max_bits (V6 gs) = 128"

definition parse_bits :: "nat \<Rightarrow> string \<Rightarrow> nat option" where
  "parse_bits m s =
     (if length s > 1 \<and> \<not> (is_digit (hd s) \<and> hd s \<noteq> CHR ''0'') then None
      else (case atoi s of None \<Rightarrow> None | Some n \<Rightarrow> if n < 0 \<or> n > int m then None else Some (nat n)))"

text \<open>\<^verbatim>\<open>ParsePrefix\<close>: the address and the bits after the last slash.\<close>

definition parse_prefix :: "string \<Rightarrow> (ip_addr \<times> nat) option" where
  "parse_prefix s =
     (case cut CHR ''/'' (rev s) of
        None \<Rightarrow> None
      | Some (bits, addr) \<Rightarrow> (case parse_addr (rev addr) of
            None \<Rightarrow> None
          | Some ip \<Rightarrow> map_option (Pair ip) (parse_bits (max_bits ip) (rev bits))))"

section \<open>Masking and printing\<close>

definition mask_part :: "nat \<Rightarrow> nat \<Rightarrow> nat \<Rightarrow> nat \<Rightarrow> nat" where
  "mask_part w bits i x = (let m = 2 ^ (w - (bits - w * i)) in x div m * m)"

definition mask_parts :: "nat \<Rightarrow> nat \<Rightarrow> nat list \<Rightarrow> nat list" where
  "mask_parts w bits xs = map (\<lambda>i. mask_part w bits i (xs ! i)) [0..<length xs]"

fun masked :: "nat \<Rightarrow> ip_addr \<Rightarrow> ip_addr" where
  "masked bits (V4 os) = V4 (mask_parts 8 bits os)"
| "masked bits (V6 gs) = V6 (mask_parts 16 bits gs)"

fun hexs :: "nat \<Rightarrow> string" where
  "hexs n = (if n < 16 then [hex_digit n] else hexs (n div 16) @ [hex_digit (n mod 16)])"

declare hexs.simps [simp del]

definition string4 :: "nat list \<Rightarrow> string" where
  "string4 os = join ''.'' (map digits os)"

text \<open>The first longest run of at least two zero groups, as its start and length.\<close>

definition zero_run :: "nat list \<Rightarrow> nat" where
  "zero_run gs = length (takeWhile (\<lambda>g. g = 0) gs)"

definition best_run :: "nat list \<Rightarrow> nat \<times> nat" where
  "best_run gs = fold (\<lambda>i (st, len). let l = zero_run (drop i gs) in
      if 2 \<le> l \<and> len < l then (i, l) else (st, len)) [0..<length gs] (0, 0)"

definition string6 :: "nat list \<Rightarrow> string" where
  "string6 gs =
     (case best_run gs of (st, len) \<Rightarrow>
       if len = 0 then join '':'' (map hexs gs)
       else join '':'' (map hexs (take st gs)) @ ''::'' @ join '':'' (map hexs (drop (st + len) gs)))"

definition is_4in6 :: "nat list \<Rightarrow> bool" where
  "is_4in6 gs \<longleftrightarrow> take 6 gs = [0, 0, 0, 0, 0, 65535]"

fun addr_string :: "ip_addr \<Rightarrow> string" where
  "addr_string (V4 os) = string4 os"
| "addr_string (V6 gs) =
     (if is_4in6 gs then ''::ffff:'' @ string4 [gs ! 6 div 256, gs ! 6 mod 256, gs ! 7 div 256, gs ! 7 mod 256]
      else string6 gs)"

definition prefix_string :: "ip_addr \<times> nat \<Rightarrow> string" where
  "prefix_string p = addr_string (fst p) @ ''/'' @ digits (snd p)"

text \<open>\<^verbatim>\<open>p.Masked().String()\<close> of a parsed prefix.\<close>

definition canon_cidr :: "string \<Rightarrow> string option" where
  "canon_cidr s = map_option (\<lambda>(ip, bits). prefix_string (masked bits ip, bits)) (parse_prefix s)"

section \<open>IPv4 is read back\<close>

lemma hd_digits: "0 < n \<Longrightarrow> hd (digits n) \<noteq> CHR ''0''"
proof (induction n rule: digits.induct)
  case (1 n)
  have d: "digit m = CHR ''0'' \<Longrightarrow> m < 10 \<Longrightarrow> m = 0" for m
    using digit_val_digit [of m] by (simp add: digit_val_def)
  show ?case
  proof (cases "n < 10")
    case True
    with 1(2) show ?thesis by (auto simp: digits.simps [of n] dest: d)
  next
    case False
    with 1 show ?thesis by (simp add: digits.simps [of n])
  qed
qed

lemma length_digits: "n < 10 ^ Suc k \<Longrightarrow> length (digits n) \<le> Suc k"
proof (induction k arbitrary: n)
  case 0
  then show ?case by (simp add: digits.simps [of n])
next
  case (Suc k)
  show ?case
  proof (cases "n < 10")
    case False
    have "n div 10 < 10 ^ Suc k" using Suc.prems by (simp add: div_less_iff_less_mult)
    with Suc.IH [of "n div 10"] False show ?thesis by (simp add: digits.simps [of n])
  qed (simp add: digits.simps [of n])
qed

lemma parse_octet_digits: "n < 256 \<Longrightarrow> parse_octet (digits n) = Some n"
proof -
  assume n: "n < 256"
  have "\<not> (length (digits n) > 1 \<and> hd (digits n) = CHR ''0'')"
  proof (cases "n = 0")
    case True
    then show ?thesis by (simp add: digits.simps [of 0])
  qed (simp add: hd_digits)
  with n show ?thesis by (simp add: parse_octet_def digits_are_digits)
qed

lemma parse_octet_Some: "parse_octet s = Some n \<Longrightarrow> n < 256"
  by (auto simp: parse_octet_def split: if_splits)

lemma split_all_none: "c \<notin> set a \<Longrightarrow> split_all c a = [a]"
  by (induction a) auto

lemma split_all_sep: "c \<notin> set a \<Longrightarrow> split_all c (a @ c # b) = a # split_all c b"
  by (induction a) auto

lemma dot_digits: "CHR ''.'' \<notin> set (digits n)"
  by (simp add: notin_digits)

lemma four: "length xs = 4 \<Longrightarrow> \<exists>a b c d. xs = [a, b, c, d]"
  by (auto simp: numeral_eq_Suc length_Suc_conv)

lemma parse_ipv4_string4: "addr_ok (V4 os) \<Longrightarrow> parse_ipv4 (string4 os) = Some os"
  using four [of os]
  by (auto simp: parse_ipv4_def string4_def split_all_sep split_all_none dot_digits parse_octet_digits Let_def)

lemma parse_ipv4_ok: "parse_ipv4 s = Some os \<Longrightarrow> addr_ok (V4 os)"
  by (auto simp: parse_ipv4_def Let_def list_all_iff parse_octet_Some split: if_splits) (metis image_iff not_None_eq option.sel parse_octet_Some)

section \<open>Groups in hexadecimal\<close>

lemma hex_val_digit [simp]: "n < 16 \<Longrightarrow> hex_val (hex_digit n) = n"
  by (auto simp: hex_val_def hex_digit_def digit_def Let_def)

lemma is_hex_digit [simp]: "n < 16 \<Longrightarrow> is_hex (hex_digit n)"
  by (auto simp: is_hex_def hex_digit_def digit_def Let_def)

lemma is_hex_hexs: "list_all is_hex (hexs n)"
proof (induction n rule: hexs.induct)
  case (1 n)
  then show ?case by (cases "n < 16") (simp_all add: hexs.simps [of n])
qed

lemma hexs_nonempty [simp]: "hexs n \<noteq> []"
  by (subst hexs.simps) simp

lemma unhex_hexs [simp]: "unhex (hexs n) = n"
proof (induction n rule: hexs.induct)
  case (1 n)
  show ?case
  proof (cases "n < 16")
    case True
    then show ?thesis by (simp add: hexs.simps [of n] unhex_def)
  next
    case False
    with 1 show ?thesis by (simp add: hexs.simps [of n] unhex_def)
  qed
qed

lemma length_hexs: "n < 16 ^ Suc k \<Longrightarrow> length (hexs n) \<le> Suc k"
proof (induction k arbitrary: n)
  case 0
  then show ?case by (simp add: hexs.simps [of n])
next
  case (Suc k)
  show ?case
  proof (cases "n < 16")
    case False
    have "n div 16 < 16 ^ Suc k" using Suc.prems by (simp add: div_less_iff_less_mult)
    with Suc.IH [of "n div 16"] False show ?thesis by (simp add: hexs.simps [of n])
  qed (simp add: hexs.simps [of n])
qed

lemma hex_val_less: "is_hex c \<Longrightarrow> hex_val c < 16"
  by (auto simp: is_hex_def hex_val_def Let_def)

lemma unhex_less: "list_all is_hex s \<Longrightarrow> unhex s < 16 ^ length s"
proof (induction s rule: rev_induct)
  case (snoc c s)
  then have "unhex s + 1 \<le> 16 ^ length s" "hex_val c < 16" by (auto intro: hex_val_less)
  then have "16 * unhex s + hex_val c < 16 * 16 ^ length s" by linarith
  then show ?case by (simp add: unhex_def)
qed (simp add: unhex_def)

lemma not_hex [simp]: "\<not> is_hex (CHR '':'')" "\<not> is_hex (CHR ''.'')" "\<not> is_hex (CHR ''/'')" "\<not> is_hex (CHR ''%'')"
  by (simp_all add: is_hex_def Let_def)

lemma while_hexs:
  "takeWhile is_hex (hexs x @ c # s) = (if is_hex c then hexs x @ c # takeWhile is_hex s else hexs x)"
  "dropWhile is_hex (hexs x @ c # s) = (if is_hex c then dropWhile is_hex s else c # s)"
  "takeWhile is_hex (hexs x) = hexs x" "dropWhile is_hex (hexs x) = []"
  using is_hex_hexs [of x] by (auto simp: takeWhile_append dropWhile_append list_all_iff takeWhile_eq_all_conv)

section \<open>IPv6 is read back\<close>

lemma group_length: "x < 65536 \<Longrightarrow> length (hexs x) \<le> 4"
  using length_hexs [of x 3] by simp

lemma parse_last: "x < 65536 \<Longrightarrow> length gs < 8 \<Longrightarrow> parse_groups gs e (hexs x) = Some (gs @ [x], e)"
  by (subst parse_groups.simps) (use group_length [of x] in \<open>simp add: Let_def while_hexs not_less\<close>)

lemma parse_colon:
  "x < 65536 \<Longrightarrow> length gs < 8 \<Longrightarrow> s \<noteq> '''' \<Longrightarrow> hd s \<noteq> CHR '':'' \<Longrightarrow>
     parse_groups gs e (hexs x @ CHR '':'' # s) = parse_groups (gs @ [x]) e s"
  by (subst parse_groups.simps) (use group_length [of x] in \<open>simp add: Let_def while_hexs not_less\<close>)

lemma parse_ellipsis:
  "x < 65536 \<Longrightarrow> length gs < 8 \<Longrightarrow>
     parse_groups gs None (hexs x @ CHR '':'' # CHR '':'' # s) =
       (if s = '''' then Some (gs @ [x], Some (Suc (length gs)))
        else parse_groups (gs @ [x]) (Some (Suc (length gs))) s)"
  by (subst parse_groups.simps) (use group_length [of x] in \<open>simp add: Let_def while_hexs not_less\<close>)

lemma hd_hexs: "is_hex (hd (hexs x))"
  using is_hex_hexs [of x] by (cases "hexs x") auto

lemma hd_join: "xs \<noteq> [] \<Longrightarrow> is_hex (hd (join '':'' (map hexs xs) @ s)) \<and> join '':'' (map hexs xs) \<noteq> ''''"
  using hd_hexs by (cases xs; cases "tl xs") auto

lemma hd_join_colon: "xs \<noteq> [] \<Longrightarrow> hd (join '':'' (map hexs xs) @ s) \<noteq> CHR '':''"
  using hd_join [of xs s] by force

lemma parse_join:
  "xs \<noteq> [] \<Longrightarrow> list_all (\<lambda>x. x < 65536) xs \<Longrightarrow> length gs + length xs \<le> 8 \<Longrightarrow>
     parse_groups gs e (join '':'' (map hexs xs)) = Some (gs @ xs, e)"
proof (induction xs arbitrary: gs)
  case (Cons x xs)
  show ?case
  proof (cases xs)
    case Nil
    with Cons.prems show ?thesis by (simp add: parse_last)
  next
    case (Cons y ys)
    with Cons.prems have "parse_groups gs e (join '':'' (map hexs (x # xs))) =
        parse_groups (gs @ [x]) e (join '':'' (map hexs xs))"
      using hd_join [of xs "[]"] hd_join_colon [of xs "[]"] by (simp add: parse_colon)
    with Cons.IH [of "gs @ [x]"] Cons.prems Cons show ?thesis by simp
  qed
qed simp

lemma parse_join_ellipsis:
  "xs \<noteq> [] \<Longrightarrow> list_all (\<lambda>x. x < 65536) xs \<Longrightarrow> length gs + length xs \<le> 8 \<Longrightarrow>
     parse_groups gs None (join '':'' (map hexs xs) @ CHR '':'' # CHR '':'' # s) =
       (if s = '''' then Some (gs @ xs, Some (length (gs @ xs))) else parse_groups (gs @ xs) (Some (length (gs @ xs))) s)"
proof (induction xs arbitrary: gs)
  case (Cons x xs)
  show ?case
  proof (cases xs)
    case Nil
    with Cons.prems show ?thesis by (simp add: parse_ellipsis)
  next
    case (Cons y ys)
    with Cons.prems have "parse_groups gs None (join '':'' (map hexs (x # xs)) @ CHR '':'' # CHR '':'' # s) =
        parse_groups (gs @ [x]) None (join '':'' (map hexs xs) @ CHR '':'' # CHR '':'' # s)"
      using hd_join_colon [of xs "CHR '':'' # CHR '':'' # s"] by (simp add: parse_colon)
    with Cons.IH [of "gs @ [x]"] Cons.prems Cons show ?thesis by simp
  qed
qed simp

text \<open>The run of zeros that is left out.\<close>

lemma zero_run_take: "take (zero_run gs) gs = replicate (zero_run gs) 0"
  unfolding zero_run_def by (induction gs) auto

lemma zero_run_le: "zero_run gs \<le> length gs"
  by (simp add: zero_run_def length_takeWhile_le)

lemma best_run_ok:
  assumes "best_run gs = (st, len)"
  shows "len = 0 \<or> (2 \<le> len \<and> st + len \<le> length gs \<and> gs = take st gs @ replicate len 0 @ drop (st + len) gs)"
proof -
  define P where "P = (\<lambda>(st, len). len = 0 \<or>
    (2 \<le> len \<and> st + len \<le> length gs \<and> gs = take st gs @ replicate len 0 @ drop (st + len) gs))"
  have step: "P (let l = zero_run (drop i gs) in if 2 \<le> l \<and> snd sl < l then (i, l) else sl)"
    if "i < length gs" "P sl" for i sl
  proof -
    have "gs = take i gs @ replicate (zero_run (drop i gs)) 0 @ drop (i + zero_run (drop i gs)) gs"
      by (metis add.commute append_take_drop_id drop_drop zero_run_take)
    with that zero_run_le [of "drop i gs"] show ?thesis by (auto simp: P_def Let_def)
  qed
  have "list_all (\<lambda>i. i < length gs) is \<Longrightarrow> P sl \<Longrightarrow>
      P (fold (\<lambda>i (st, len). let l = zero_run (drop i gs) in if 2 \<le> l \<and> len < l then (i, l) else (st, len)) is sl)" for "is" sl
  proof (induction "is" arbitrary: sl)
    case (Cons i js)
    then have "P (let l = zero_run (drop i gs) in if 2 \<le> l \<and> snd sl < l then (i, l) else sl)"
      by (intro step) simp_all
    with Cons.IH [OF _ this] Cons.prems(1) show ?case by (cases sl) auto
  qed simp
  from this [of "[0..<length gs]" "(0, 0)"] have "P (best_run gs)"
    by (simp add: best_run_def list_all_iff P_def)
  with assms show ?thesis by (simp add: P_def)
qed


lemma expand_run:
  "length (xs @ ys) + n = 8 \<Longrightarrow> 0 < n \<Longrightarrow> expand (xs @ ys, Some (length xs)) = Some (xs @ replicate n 0 @ ys)"
  by (simp add: expand_def)

lemma chars_join: "set (join '':'' (map hexs xs)) \<subseteq> {c. is_hex c \<or> c = CHR '':''}"
proof (induction xs)
  case (Cons x xs)
  moreover have "set (hexs x) \<subseteq> {c. is_hex c}" using is_hex_hexs [of x] by (auto simp: list_all_iff)
  ultimately show ?case by (cases xs) auto
qed simp

lemma string6_chars: "c \<in> set (string6 gs) \<Longrightarrow> is_hex c \<or> c = CHR '':''"
  using chars_join by (auto simp: string6_def split: prod.splits if_splits)

lemma string6_split:
  assumes "addr_ok (V6 gs)"
  obtains (full) "string6 gs = join '':'' (map hexs gs)"
  | (run) xs n ys where "gs = xs @ replicate n 0 @ ys" "0 < n" "length (xs @ ys) + n = 8"
      "string6 gs = join '':'' (map hexs xs) @ ''::'' @ join '':'' (map hexs ys)"
proof -
  obtain st len where b: "best_run gs = (st, len)" by fastforce
  show ?thesis
  proof (cases "len = 0")
    case True
    with b full show ?thesis by (simp add: string6_def)
  next
    case False
    with best_run_ok [OF b] have l: "2 \<le> len" "st + len \<le> length gs"
      "gs = take st gs @ replicate len 0 @ drop (st + len) gs" by auto
    show ?thesis
      by (rule run [OF l(3)]) (use l assms False in \<open>auto simp: string6_def b\<close>)
  qed
qed

lemma parse_string6: "addr_ok (V6 gs) \<Longrightarrow> parse_ipv6 (string6 gs) = Some gs"
proof -
  assume ok: "addr_ok (V6 gs)"
  have zone: "CHR ''%'' \<notin> set (string6 gs)"
    using string6_chars [of "CHR ''%''" gs] by auto
  have start: "take 2 (join '':'' (map hexs xs) @ s) \<noteq> ''::''" if "xs \<noteq> []" for xs s
    using hd_join_colon [OF that, of s] by (cases "join '':'' (map hexs xs) @ s") auto
  from ok show ?thesis
  proof (cases rule: string6_split)
    case full
    from ok have "gs \<noteq> []" by auto
    with ok parse_join [of gs "[]" None] start [of gs "[]"] zone show ?thesis
      unfolding full by (simp add: parse_ipv6_def expand_def)
  next
    case (run xs n ys)
    from ok run have small: "list_all (\<lambda>x. x < 65536) xs" "list_all (\<lambda>x. x < 65536) ys" by simp_all
    show ?thesis
    proof (cases "xs = []")
      case True
      show ?thesis
      proof (cases "ys = []")
        case True
        with \<open>xs = []\<close> run zone show ?thesis by (simp add: parse_ipv6_def)
      next
        case False
        have "parse_groups [] (Some 0) (join '':'' (map hexs ys)) = Some (ys, Some 0)"
          using parse_join [OF False small(2), of "[]" "Some 0"] run(3) by simp
        moreover have "expand (ys, Some 0) = Some gs"
          using expand_run [of "[]" ys n] run True by simp
        moreover have "join '':'' (map hexs ys) \<noteq> ''''" using hd_join [OF False] by blast
        ultimately show ?thesis using zone True run(4) by (simp add: parse_ipv6_def)
      qed
    next
      case False
      let ?s = "join '':'' (map hexs xs) @ CHR '':'' # CHR '':'' # join '':'' (map hexs ys)"
      have s: "string6 gs = ?s" using run(4) by simp
      have "parse_groups [] None ?s = Some (xs @ ys, Some (length xs))"
      proof (cases "ys = []")
        case True
        with parse_join_ellipsis [OF False small(1), of "[]" "[]"] run(3) show ?thesis by simp
      next
        case nil: False
        with hd_join [OF nil] parse_join_ellipsis [OF False small(1), of "[]" "join '':'' (map hexs ys)"]
          parse_join [OF nil small(2), of xs "Some (length xs)"] run(3) show ?thesis by simp
      qed
      moreover have "expand (xs @ ys, Some (length xs)) = Some gs"
        using expand_run [OF run(3,2)] run(1) by simp
      ultimately show ?thesis
        using zone start [OF False] unfolding s by (simp add: parse_ipv6_def)
    qed
  qed
qed

section \<open>Addresses are read back\<close>

lemma eight: "length xs = 8 \<Longrightarrow> \<exists>a b c d e f g h. xs = [a, b, c, d, e, f, g, h]"
  by (auto simp: numeral_eq_Suc length_Suc_conv)

lemma find_mark: "\<forall>x \<in> set xs. \<not> addr_mark x \<Longrightarrow> addr_mark c \<Longrightarrow> find addr_mark (xs @ c # ys) = Some c"
  by (induction xs) auto

lemma find_string4: "addr_ok (V4 os) \<Longrightarrow> find addr_mark (string4 os) = Some (CHR ''.'')"
proof -
  assume ok: "addr_ok (V4 os)"
  then obtain a b c d where os: "os = [a, b, c, d]" using four by fastforce
  have "\<forall>x \<in> set (digits a). \<not> addr_mark x"
    using digits_are_digits [of a] by (auto simp: list_all_iff addr_mark_def is_digit_def Let_def)
  then show ?thesis
    by (simp add: os string4_def find_mark addr_mark_def)
qed

lemma find_string6: "addr_ok (V6 gs) \<Longrightarrow> find addr_mark (string6 gs) = Some (CHR '':'')"
proof -
  assume ok: "addr_ok (V6 gs)"
  have hex: "find addr_mark (hexs x @ CHR '':'' # s) = Some (CHR '':'')" for x s
  proof (rule find_mark)
    show "\<forall>c \<in> set (hexs x). \<not> addr_mark c"
      using is_hex_hexs [of x] by (auto simp: list_all_iff addr_mark_def is_hex_def Let_def)
  qed (simp add: addr_mark_def)
  from ok show ?thesis
  proof (cases rule: string6_split)
    case full
    from ok have "length gs = 8" by simp
    then obtain x y ys where "gs = x # y # ys" using eight by blast
    with full show ?thesis by (simp add: hex)
  next
    case (run xs n ys)
    show ?thesis
    proof (cases xs)
      case Nil
      with run show ?thesis by (simp add: addr_mark_def)
    next
      case (Cons x xs')
      with run show ?thesis by (cases xs') (simp_all add: hex)
    qed
  qed
qed


lemma parse_addr_string: "addr_ok ip \<Longrightarrow> parse_addr (addr_string ip) = Some ip"
proof (cases ip)
  case (V4 os)
  assume "addr_ok ip"
  with V4 find_string4 [of os] parse_ipv4_string4 [of os] show ?thesis by (simp add: parse_addr_def)
next
  case (V6 gs)
  assume ok: "addr_ok ip"
  show ?thesis
  proof (cases "is_4in6 gs")
    case False
    with ok V6 find_string6 [of gs] parse_string6 [of gs] show ?thesis by (simp add: parse_addr_def)
  next
    case True
    from ok V6 have "length gs = 8" by simp
    then obtain a b c d e f x y where "gs = [a, b, c, d, e, f, x, y]" using eight by blast
    with True have gs: "gs = [0, 0, 0, 0, 0, 65535, x, y]" by (simp add: is_4in6_def)
    have five: "replicate 5 (0 :: nat) = [0, 0, 0, 0, 0]" by (simp add: numeral_eq_Suc)
    from ok V6 gs have xy: "x < 65536" "y < 65536" by simp_all
    let ?os = "[x div 256, x mod 256, y div 256, y mod 256]"
    have os: "addr_ok (V4 ?os)" using xy by (simp add: div_less_iff_less_mult)
    let ?s = "string4 ?os"
    have s: "?s = digits (x div 256) @ CHR ''.'' # join ''.'' (map digits [x mod 256, y div 256, y mod 256])"
      by (simp add: string4_def)
    have hexd: "list_all is_hex (digits n)" for n
      using digits_are_digits [of n] by (auto simp: list_all_iff is_digit_def is_hex_def Let_def)
    have short: "length (digits n) \<le> 4" if "n < 256" for n
      using length_digits [of n 3] that by simp
    have tw: "takeWhile is_hex ?s = digits (x div 256)" "dropWhile is_hex ?s = CHR ''.'' # join ''.'' (map digits [x mod 256, y div 256, y mod 256])"
      unfolding s using hexd [of "x div 256"] by (auto simp: takeWhile_append dropWhile_append list_all_iff takeWhile_eq_all_conv)
    have last: "parse_groups [65535] (Some 0) ?s = Some ([65535, x, y], Some 0)"
      by (subst parse_groups.simps)
        (use tw short [of "x div 256"] xy parse_ipv4_string4 [OF os] in
          \<open>simp add: Let_def div_less_iff_less_mult not_less\<close>)
    have hd: "hd ?s \<noteq> CHR '':''" "?s \<noteq> ''''"
      using digits_are_digits [of "x div 256"] unfolding s
      by (cases "digits (x div 256)"; auto simp: is_digit_def Let_def)+
    have f: "hex_digit 15 = CHR ''f''" by (simp add: hex_digit_def) code_simp
    have ffff: "hexs 65535 = ''ffff''"
      by (simp add: hexs.simps [of 65535] hexs.simps [of 4095] hexs.simps [of 255] hexs.simps [of 15] f)
    have groups: "parse_groups [] (Some 0) (''ffff:'' @ ?s) = Some ([65535, x, y], Some 0)"
      using parse_colon [of 65535 "[]" ?s "Some 0"] hd last by (simp add: ffff)
    have zone: "CHR ''%'' \<notin> set ?s"
      by (simp add: string4_def notin_digits is_digit_def Let_def)
    have "parse_ipv6 (''::ffff:'' @ ?s) = Some gs"
      using zone groups by (simp add: parse_ipv6_def expand_def gs five)
    with V6 True gs show ?thesis by (simp add: parse_addr_def addr_mark_def)
  qed
qed

section \<open>What is parsed is an address\<close>

lemma parse_groups_ok:
  "parse_groups gs e s = Some (gs', e') \<Longrightarrow> list_all (\<lambda>x. x < 65536) gs \<Longrightarrow> length gs \<le> 8 \<Longrightarrow>
     list_all (\<lambda>x. x < 65536) gs' \<and> length gs' \<le> 8"
proof (induction gs e s rule: parse_groups.induct)
  case (1 gs e s)
  have small: "unhex h < 65536" if "list_all is_hex h" "length h \<le> 4" for h
  proof -
    have "(16 :: nat) ^ length h \<le> 16 ^ 4" using that(2) by (intro power_increasing) simp_all
    with unhex_less [OF that(1)] show ?thesis by simp
  qed
  let ?h = "takeWhile is_hex s" and ?rest = "dropWhile is_hex s"
  let ?gs = "gs @ [unhex ?h]"
  show ?case
  proof (cases "8 \<le> length gs")
    case True
    with 1 show ?thesis by (subst (asm) (3) parse_groups.simps) (simp split: if_splits)
  next
    case False
    have hexs: "list_all is_hex ?h" by (auto simp: list_all_iff dest: set_takeWhileD)
    from 1(3) False have len: "?h \<noteq> ''''" "length ?h \<le> 4"
      by (subst (asm) parse_groups.simps; simp add: Let_def split: if_splits)+
    with small [OF hexs len(2)] 1(4) False have gs: "list_all (\<lambda>x. x < 65536) ?gs" "length ?gs \<le> 8" by simp_all
    note parse = 1(3) [unfolded parse_groups.simps [of gs e s] Let_def]
    consider "?rest = ''''" | (dot) "?rest \<noteq> ''''" "hd ?rest = CHR ''.''"
      | (colon) "?rest \<noteq> ''''" "hd ?rest \<noteq> CHR ''.''" by blast
    then show ?thesis
    proof cases
      case dot
      with parse False len obtain a b c d where p: "parse_ipv4 s = Some [a, b, c, d]"
        and g: "gs' = gs @ [256 * a + b, 256 * c + d]" "length gs \<le> 6"
        by (auto split: if_splits option.splits list.splits)
      from parse_ipv4_ok [OF p] g 1(4) show ?thesis by simp
    next
      case colon
      with parse False len gs 1(1) [OF False refl refl refl] 1(2) [OF False refl refl refl] show ?thesis
        by (auto split: if_splits)
    qed (use parse False len gs in simp)
  qed
qed

lemma expand_ok: "expand (gs, e) = Some hs \<Longrightarrow> list_all (\<lambda>x. x < 65536) gs \<Longrightarrow> length gs \<le> 8 \<Longrightarrow> addr_ok (V6 hs)"
  by (auto simp: expand_def list_all_iff split: if_splits option.splits) (meson in_set_takeD in_set_dropD)+

lemma parse_ipv6_ok: "parse_ipv6 s = Some gs \<Longrightarrow> addr_ok (V6 gs)"
proof -
  assume s: "parse_ipv6 s = Some gs"
  have loop: "addr_ok (V6 gs)" if "Option.bind (parse_groups [] e r) expand = Some gs" for e r
    using that by (auto simp: bind_eq_Some_conv simp del: addr_ok.simps dest!: parse_groups_ok intro: expand_ok)
  have zero: "addr_ok (V6 (replicate 8 0))" by (simp add: list_all_iff)
  from s show ?thesis
    unfolding parse_ipv6_def by (auto simp del: addr_ok.simps bind_eq_Some_conv intro: loop zero split: if_splits)
qed

lemma parse_addr_ok: "parse_addr s = Some ip \<Longrightarrow> addr_ok ip"
  by (auto simp: parse_addr_def simp del: addr_ok.simps dest: parse_ipv4_ok parse_ipv6_ok split: option.splits if_splits)

section \<open>Canonical prefixes\<close>

lemma mask_part_le: "mask_part w bits i x \<le> x"
  by (simp add: mask_part_def Let_def)

lemma mask_part_idem [simp]: "mask_part w bits i (mask_part w bits i x) = mask_part w bits i x"
  by (simp add: mask_part_def Let_def)

lemma mask_parts_idem [simp]: "mask_parts w bits (mask_parts w bits xs) = mask_parts w bits xs"
  by (simp add: mask_parts_def)

lemma masked_idem [simp]: "masked bits (masked bits ip) = masked bits ip"
  by (cases ip) simp_all

lemma masked_max [simp]: "max_bits (masked bits ip) = max_bits ip"
  by (cases ip) simp_all

lemma masked_ok: "addr_ok ip \<Longrightarrow> addr_ok (masked bits ip)"
  by (cases ip) (auto simp: mask_parts_def list_all_length intro: le_less_trans [OF mask_part_le])

lemma parse_bits_digits: "n \<le> m \<Longrightarrow> m < 2 ^ 63 \<Longrightarrow> parse_bits m (digits n) = Some n"
proof -
  assume n: "n \<le> m" "m < 2 ^ 63"
  have "is_digit (hd (digits n))"
    using digits_are_digits [of n] by (cases "digits n") (auto simp: list_all_iff)
  moreover have "hd (digits n) \<noteq> CHR ''0''" if "length (digits n) > 1"
    using that hd_digits [of n] by (cases "n = 0") (simp_all add: digits.simps [of 0])
  moreover have "atoi (digits n) = Some (int n)"
    using atoi_itoa [of "int n"] n by (simp add: itoa_def)
  ultimately show ?thesis using n by (auto simp: parse_bits_def)
qed

lemma parse_prefix_string:
  assumes "addr_ok ip" "bits \<le> max_bits ip"
  shows "parse_prefix (prefix_string (ip, bits)) = Some (ip, bits)"
proof -
  have "CHR ''/'' \<notin> set (rev (digits bits))" by (simp add: notin_digits)
  then have "cut CHR ''/'' (rev (prefix_string (ip, bits))) = Some (rev (digits bits), rev (addr_string ip))"
    using cut_append [of "CHR ''/''" "rev (digits bits)" "rev (addr_string ip)"] by (simp add: prefix_string_def del: cut_append)
  moreover have "max_bits ip < 2 ^ 63" by (cases ip) simp_all
  ultimately show ?thesis
    using assms parse_addr_string [of ip] parse_bits_digits [of bits "max_bits ip"]
    by (simp add: parse_prefix_def)
qed

lemma parse_prefix_ok: "parse_prefix s = Some (ip, bits) \<Longrightarrow> addr_ok ip \<and> bits \<le> max_bits ip"
  by (auto simp: parse_prefix_def parse_bits_def dest: parse_addr_ok split: option.splits if_splits)

text \<open>A canonical prefix is its own canonical form, and the canonical form of one masked address.\<close>

lemma canon_cidr_stable:
  assumes "canon_cidr s = Some c"
  shows "canon_cidr c = Some c"
proof -
  from assms obtain ip bits where p: "parse_prefix s = Some (ip, bits)" "c = prefix_string (masked bits ip, bits)"
    by (auto simp: canon_cidr_def)
  from parse_prefix_ok [OF p(1)] have "parse_prefix c = Some (masked bits ip, bits)"
    unfolding p(2) by (intro parse_prefix_string) (simp_all add: masked_ok)
  then show ?thesis by (simp add: canon_cidr_def p(2))
qed

definition masked_prefix :: "string \<Rightarrow> (ip_addr \<times> nat) option" where
  "masked_prefix s = map_option (\<lambda>(ip, n). (masked n ip, n)) (parse_prefix s)"

lemma canon_cidr_parses: "canon_cidr s = Some c \<Longrightarrow> parse_prefix c = masked_prefix s"
proof -
  assume "canon_cidr s = Some c"
  then obtain ip bits where p: "parse_prefix s = Some (ip, bits)" "c = prefix_string (masked bits ip, bits)"
    by (auto simp: canon_cidr_def)
  from parse_prefix_ok [OF p(1)] have "parse_prefix c = Some (masked bits ip, bits)"
    unfolding p(2) by (intro parse_prefix_string) (simp_all add: masked_ok)
  then show ?thesis by (simp add: masked_prefix_def p(1))
qed

lemma canon_cidr_unique:
  assumes "canon_cidr s = Some c" "canon_cidr t = Some d"
  shows "c = d \<longleftrightarrow> masked_prefix s = masked_prefix t"
proof
  assume "c = d"
  with canon_cidr_parses [OF assms(1)] canon_cidr_parses [OF assms(2)]
  show "masked_prefix s = masked_prefix t" by simp
next
  have "c = prefix_string p" if "canon_cidr s = Some c" "masked_prefix s = Some p" for s c p
    using that by (auto simp: canon_cidr_def masked_prefix_def)
  moreover assume "masked_prefix s = masked_prefix t"
  moreover obtain p where "masked_prefix s = Some p"
    using assms(1) by (auto simp: canon_cidr_def masked_prefix_def)
  ultimately show "c = d" using assms by metis
qed

text \<open>A colon tells the family of a canonical prefix.\<close>

lemma canon_cidr_family:
  assumes "canon_cidr s = Some c" "parse_prefix s = Some (ip, bits)"
  shows "CHR '':'' \<in> set c \<longleftrightarrow> (case ip of V4 _ \<Rightarrow> False | V6 _ \<Rightarrow> True)"
proof -
  from assms have c: "c = prefix_string (masked bits ip, bits)" by (auto simp: canon_cidr_def)
  from parse_prefix_ok [OF assms(2)] have ok: "addr_ok (masked bits ip)" by (simp add: masked_ok)
  show ?thesis
  proof (cases ip)
    case (V4 os)
    with ok obtain a b d e where "mask_parts 8 bits os = [a, b, d, e]" using four by fastforce
    with V4 c show ?thesis by (simp add: prefix_string_def string4_def notin_digits)
  next
    case (V6 gs)
    with ok find_string6 [of "mask_parts 16 bits gs"] have "CHR '':'' \<in> set (string6 (mask_parts 16 bits gs))"
      by (metis find_Some_iff masked.simps(2) nth_mem)
    with V6 c show ?thesis by (simp add: prefix_string_def)
  qed
qed

end
