(* ===== verification/KscResolve.thy ===== *)
theory KscResolve
  imports Calls Cidr
begin

text \<open>
  \<^verbatim>\<open>internal/ksc/resolve.go\<close>: the configuration of a tenant, read from its
  KubernetesSwitchcloud object, the Secret it may name and the OpenStackCluster. Parsing the
  YAML of the Secret is library code, the field of \<open>ksc_lib\<close>: the clouds of the file with
  their credential pairs, or an error. The allowed CIDRs are canonicalised by the definitions
  of Cidr; the reason netip adds to the error of one that does not parse is left out.
\<close>

record ksc_lib =
  kl_clouds :: "string \<Rightarrow> string + (string \<times> string \<times> string) list"

record lb_config =
  cf_enabled :: bool
  cf_provider :: string
  cf_vip_net :: string
  cf_fip_net :: string
  cf_fip_subnet :: string
  cf_worker_sg :: string
  cf_cidrs :: "string list"
  cf_creds :: credentials
  cf_misconfigured :: string

definition tenant_namespace :: string where
  "tenant_namespace = ''tenant-root''"

definition ksc_chart_release_prefix :: string where
  "ksc_chart_release_prefix = ''kubernetes-switchcloud-''"

definition lb_field :: "string \<Rightarrow> string list" where
  "lb_field f = [''spec'', ''openstack'', ''loadBalancer'', f]"

definition os_field :: "string \<Rightarrow> string list" where
  "os_field f = [''spec'', ''openstack'', f]"

section \<open>Credentials\<close>

definition read_clouds_yaml :: "'w env \<Rightarrow> ksc_lib \<Rightarrow> string \<Rightarrow> ('w, string \<times> string) lbc" where
  "read_clouds_yaml E L secret_name =
     check (''fetching existingSecret '' @ tenant_namespace @ ''/'' @ secret_name)
       (get_secret E tenant_namespace secret_name) (\<lambda>s.
       case sec_data s ''clouds.yaml'' of
         None \<Rightarrow> throw (Msg (''Secret '' @ tenant_namespace @ ''/'' @ secret_name @
           '' missing required key clouds.yaml''))
       | Some raw \<Rightarrow> (case kl_clouds L raw of
           Inl e \<Rightarrow> throw (Wrap ''parsing clouds.yaml'' (Msg e))
         | Inr clouds \<Rightarrow>
             bind (go_range E clouds) (\<lambda>cs.
               case find (\<lambda>(_, i, _). i \<noteq> '''') cs of
                 Some (_, i, sec) \<Rightarrow> ret (i, sec)
               | None \<Rightarrow> throw (Msg (''clouds.yaml in Secret '' @ tenant_namespace @ ''/'' @ secret_name @
                   '' has no application-credential entry'')))))"

definition resolve_credentials :: "'w env \<Rightarrow> ksc_lib \<Rightarrow> kobj \<Rightarrow> ('w, credentials) lbc" where
  "resolve_credentials E L k =
     (let auth_url = ko_str k (os_field ''authURL'');
          region = ko_str k (os_field ''regionName'');
          existing = ko_str k (os_field ''existingSecret'')
      in if existing \<noteq> '''' then
           bind (read_clouds_yaml E L existing) (\<lambda>(i, sec).
             ret \<lparr>cr_auth_url = auth_url, cr_region = region, cr_id = i, cr_secret = sec\<rparr>)
         else
           let i = ko_str k (os_field ''applicationCredentialID'');
               sec = ko_str k (os_field ''applicationCredentialSecret'')
           in if i = '''' \<or> sec = '''' then
                throw (Msg (''openstack credentials missing: set either spec.openstack.existingSecret '' @
                  ''or both spec.openstack.applicationCredentialID and applicationCredentialSecret''))
              else ret \<lparr>cr_auth_url = auth_url, cr_region = region, cr_id = i, cr_secret = sec\<rparr>)"

section \<open>The worker network\<close>

definition auto_discover_network :: "'w env \<Rightarrow> string \<Rightarrow> string \<Rightarrow> ('w, string) lbc" where
  "auto_discover_network E cluster ns =
     attempt (get_osc E ns (ksc_chart_release_prefix @ cluster)) (\<lambda>r. case r of
         Inl e \<Rightarrow> if api_not_found e then ret '''' else throw (Wrap ''fetching OpenStackCluster'' e)
       | Inr osc \<Rightarrow> ret (ko_str osc [''status'', ''network'', ''id'']))"

definition resolve_vip_network :: "'w env \<Rightarrow> kobj \<Rightarrow> string \<Rightarrow> ('w, string) lbc" where
  "resolve_vip_network E k tenant =
     (if ko_str k (lb_field ''vipNetworkID'') \<noteq> '''' then ret (ko_str k (lb_field ''vipNetworkID''))
      else let legacy = ko_str k [''spec'', ''openstack'', ''network'', ''id''] in
        if legacy \<noteq> '''' then ret legacy
        else check ''auto-discovering CAPI-managed network ID'' (auto_discover_network E tenant (ko_ns k)) ret)"

section \<open>Allowed CIDRs\<close>

fun canon_cidrs :: "string list \<Rightarrow> err + string list" where
  "canon_cidrs [] = Inr []"
| "canon_cidrs (raw # raws) =
     (case canon_cidr raw of
        None \<Rightarrow> Inl (Msg (''parsing spec.openstack.loadBalancer.allowedCIDRs['' @ quoted raw @ '']''))
      | Some c \<Rightarrow> (case canon_cidrs raws of Inl e \<Rightarrow> Inl e | Inr cs \<Rightarrow> Inr (c # cs)))"

definition raw_cidrs :: "kobj \<Rightarrow> string list" where
  "raw_cidrs k =
     (let raw = ko_strs k (lb_field ''allowedCIDRs'') in if raw = [] then [''0.0.0.0/0''] else raw)"

section \<open>The configuration\<close>

definition disabled_config :: "credentials \<Rightarrow> lb_config" where
  "disabled_config creds =
     \<lparr>cf_enabled = False, cf_provider = '''', cf_vip_net = '''', cf_fip_net = '''', cf_fip_subnet = '''',
      cf_worker_sg = '''', cf_cidrs = [], cf_creds = creds, cf_misconfigured = ''''\<rparr>"

definition no_network_reason :: string where
  "no_network_reason = ''no worker network resolvable: set spec.openstack.loadBalancer.vipNetworkID explicitly, '' @
     ''or wait for CAPO to provision the auto-managed network (OpenStackCluster.status.network.id)''"

definition resolve :: "'w env \<Rightarrow> ksc_lib \<Rightarrow> string \<Rightarrow> ('w, lb_config) lbc" where
  "resolve E L tenant =
     check (''fetching KubernetesSwitchcloud '' @ tenant_namespace @ ''/'' @ tenant)
       (get_ksc E tenant_namespace tenant) (\<lambda>k.
     check (''resolving OpenStack credentials for tenant '' @ quoted tenant) (resolve_credentials E L k) (\<lambda>creds.
       if \<not> ko_bool k (lb_field ''enabled'') then ret (disabled_config creds)
       else bind (resolve_vip_network E k tenant) (\<lambda>vip.
         if vip = '''' then
           ret ((disabled_config creds)
             \<lparr>cf_provider := ko_str k (lb_field ''providerDriver''), cf_misconfigured := no_network_reason\<rparr>)
         else case canon_cidrs (raw_cidrs k) of
             Inl e \<Rightarrow> throw e
           | Inr cidrs \<Rightarrow> ret
               \<lparr>cf_enabled = True, cf_provider = ko_str k (lb_field ''providerDriver''), cf_vip_net = vip,
                cf_fip_net = ko_str k (lb_field ''floatingNetworkID''),
                cf_fip_subnet = ko_str k (lb_field ''floatingSubnetID''),
                cf_worker_sg = ko_str k (lb_field ''workerSecurityGroupID''), cf_cidrs = cidrs,
                cf_creds = creds, cf_misconfigured = ''''\<rparr>)))"

definition is_not_found :: "err \<Rightarrow> bool" where
  "is_not_found e = api_not_found (unwrap_all e)"

section \<open>What a configuration guarantees\<close>

text \<open>
  An enabled configuration has a worker network and at least one allowed CIDR, all of them
  canonical, and is not marked misconfigured; every configuration comes from the tenant's own
  object.
\<close>

definition config_ok :: "lb_config \<Rightarrow> bool" where
  "config_ok cfg \<longleftrightarrow> (cf_enabled cfg \<longrightarrow>
     cf_vip_net cfg \<noteq> '''' \<and> cf_cidrs cfg \<noteq> [] \<and> list_all (\<lambda>c. canon_cidr c = Some c) (cf_cidrs cfg) \<and>
     cf_misconfigured cfg = '''')"

definition mgmt_read :: "event \<Rightarrow> bool" where
  "mgmt_read e = (case e of
      Mgmt (GetKSC _ _ _) \<Rightarrow> True | Mgmt (GetSecret _ _ _) \<Rightarrow> True | Mgmt (GetOSC _ _ _) \<Rightarrow> True
    | _ \<Rightarrow> False)"

lemma canon_cidrs_length: "canon_cidrs raws = Inr cs \<Longrightarrow> length cs = length raws"
  by (induction raws arbitrary: cs) (auto split: option.splits sum.splits)

lemma canon_cidrs_stable: "canon_cidrs raws = Inr cs \<Longrightarrow> list_all (\<lambda>c. canon_cidr c = Some c) cs"
  by (induction raws arbitrary: cs) (auto dest: canon_cidr_stable split: option.splits sum.splits)

lemma raw_cidrs_nonempty [simp]: "raw_cidrs k \<noteq> []"
  by (simp add: raw_cidrs_def Let_def)

lemma emits_resolve_parts:
  "emits mgmt_read (resolve_credentials E L k)"
  "emits mgmt_read (resolve_vip_network E k tenant)"
  by (auto simp: resolve_credentials_def read_clouds_yaml_def resolve_vip_network_def auto_discover_network_def
      Let_def mgmt_read_def intro!: emit_rules split: sum.splits option.splits prod.splits)

lemma emits_resolve: "emits mgmt_read (resolve E L tenant)"
  unfolding resolve_def
  by (intro emit_rules emits_resolve_parts) (simp_all add: mgmt_read_def)

definition resolve_run :: "string \<Rightarrow> event list \<Rightarrow> err + lb_config \<Rightarrow> bool" where
  "resolve_run tenant evs r \<longleftrightarrow>
     list_all mgmt_read evs \<and>
     (\<exists>x evs'. evs = Mgmt (GetKSC tenant_namespace tenant x) # evs' \<and>
        (case r of
           Inr cfg \<Rightarrow> config_ok cfg \<and> (\<exists>k. x = Inr k \<and> (cf_enabled cfg \<longrightarrow> ko_bool k (lb_field ''enabled'')))
         | Inl e \<Rightarrow> is_not_found e \<longrightarrow>
             (\<exists>a. x = Inl a \<and> ae_not_found a) \<or>
             (\<exists>k a. x = Inr k \<and> ko_str k (os_field ''existingSecret'') \<noteq> '''' \<and>
                Mgmt (GetSecret tenant_namespace (ko_str k (os_field ''existingSecret'')) (Inl a)) \<in> set evs' \<and>
                ae_not_found a)))"

lemma is_not_found_simps [simp]:
  "is_not_found (Api a) \<longleftrightarrow> ae_not_found a" "\<not> is_not_found (Msg m)" "is_not_found (Wrap m e) \<longleftrightarrow> is_not_found e"
  by (simp_all add: is_not_found_def)

lemma api_not_found_Wrap: "\<not> api_not_found (Wrap m e)" by simp

lemma credentials_runs:
  "every_run (resolve_credentials E L k) (\<lambda>evs r. case r of
      Inr _ \<Rightarrow> True
    | Inl e \<Rightarrow> is_not_found e \<longrightarrow> ko_str k (os_field ''existingSecret'') \<noteq> '''' \<and>
        (\<exists>a. Mgmt (GetSecret tenant_namespace (ko_str k (os_field ''existingSecret'')) (Inl a)) \<in> set evs \<and> ae_not_found a))"
  unfolding resolve_credentials_def read_clouds_yaml_def Let_def
  by (auto intro!: runs split: sum.splits option.splits prod.splits)

lemma vip_runs:
  "every_run (resolve_vip_network E k tenant) (\<lambda>evs r. case r of Inr _ \<Rightarrow> True | Inl e \<Rightarrow> \<not> is_not_found e)"
  unfolding resolve_vip_network_def auto_discover_network_def Let_def
  by (auto intro!: runs split: sum.splits)

lemma canon_error: "canon_cidrs raws = Inl e \<Longrightarrow> \<not> is_not_found e"
  by (induction raws arbitrary: e) (auto split: option.splits sum.splits)

lemma resolve_runs: "every_run (resolve E L tenant) (resolve_run tenant)"
proof -
  have rest: "every_run (bind (resolve_vip_network E k tenant) (\<lambda>vip.
         if vip = '''' then
           ret ((disabled_config creds)
             \<lparr>cf_provider := ko_str k (lb_field ''providerDriver''), cf_misconfigured := no_network_reason\<rparr>)
         else case canon_cidrs (raw_cidrs k) of
             Inl e \<Rightarrow> throw e
           | Inr cidrs \<Rightarrow> ret
               \<lparr>cf_enabled = True, cf_provider = ko_str k (lb_field ''providerDriver''), cf_vip_net = vip,
                cf_fip_net = ko_str k (lb_field ''floatingNetworkID''),
                cf_fip_subnet = ko_str k (lb_field ''floatingSubnetID''),
                cf_worker_sg = ko_str k (lb_field ''workerSecurityGroupID''), cf_cidrs = cidrs,
                cf_creds = creds, cf_misconfigured = ''''\<rparr>))
     (\<lambda>evs r. list_all mgmt_read evs \<and> (case r of Inr cfg \<Rightarrow> config_ok cfg | Inl e \<Rightarrow> \<not> is_not_found e))" for k creds
    by (rule every_run_bind,
        rule every_run_mono [OF emits_every_run [OF emits_resolve_parts(2) vip_runs]])
       (auto simp: disabled_config_def config_ok_def dest: canon_error canon_cidrs_length canon_cidrs_stable
          intro!: every_run_ret every_run_throw split: sum.splits)
  have creds: "every_run (check m (resolve_credentials E L k) (\<lambda>creds.
       if \<not> ko_bool k (lb_field ''enabled'') then ret (disabled_config creds) else f creds))
     (\<lambda>evs. resolve_run tenant (Mgmt (GetKSC tenant_namespace tenant (Inr k)) # evs))"
    if f: "\<And>creds. every_run (f creds) (\<lambda>evs r. list_all mgmt_read evs \<and>
       (case r of Inr cfg \<Rightarrow> config_ok cfg | Inl e \<Rightarrow> \<not> is_not_found e))" for k f and m :: string
    by (rule every_run_check,
        rule every_run_mono [OF emits_every_run [OF emits_resolve_parts(1) credentials_runs]])
       (auto simp: resolve_run_def mgmt_read_def config_ok_def disabled_config_def
          intro!: every_run_ret every_run_mono [OF f] split: sum.splits)
  show ?thesis
    unfolding resolve_def
    by (rule every_run_check, rule every_run_call_val)
       (auto simp: resolve_run_def mgmt_read_def intro!: creds rest)
qed

end
