(* ===== verification/PortAttach.thy ===== *)
theory PortAttach
  imports SecurityGroup
begin

text \<open>
  \<^verbatim>\<open>internal/openstack/portattach.go\<close>: which security groups the worker ports carry, and
  the worker addresses the pools are built from.
\<close>

definition find_port_by_ip :: "'w env \<Rightarrow> clients \<Rightarrow> string \<Rightarrow> string \<Rightarrow> ('w, nport option) lbc" where
  "find_port_by_ip E c net ip = list_ports_find (\<lambda>_. True) E c net None (Some ip)"

definition list_worker_ips :: "'w env \<Rightarrow> clients \<Rightarrow> string \<Rightarrow> ('w, string list) lbc" where
  "list_worker_ips E c net =
     (if net = '''' then throw (Msg ''workerNetworkID is empty'')
      else bind (list_ports_items E c net (Some ''compute:nova'') None) (\<lambda>ps.
        ret (concat (map (\<lambda>p. filter (\<lambda>ip. ip \<noteq> '''') (pt_ips p)) ps))))"

definition has_sg :: "string list \<Rightarrow> string \<Rightarrow> bool" where
  "has_sg sgs want = list_ex (\<lambda>s. s = want) sgs"

definition attach_worker :: "'w env \<Rightarrow> clients \<Rightarrow> string \<Rightarrow> string \<Rightarrow> string \<Rightarrow> ('w, unit) lbc" where
  "attach_worker E c sgid net ip =
     check (''looking up port for member '' @ ip) (find_port_by_ip E c net ip) (\<lambda>port.
       case port of
         None \<Rightarrow> ret ()
       | Some p \<Rightarrow>
           if has_sg (pt_sgs p) sgid then ret ()
           else check (''attaching SG '' @ sgid @ '' to worker port '' @ pt_id p)
                  (update_port E c (pt_id p) (pt_sgs p @ [sgid])) (\<lambda>_. ret ()))"

definition ensure_sg_attached ::
  "'w env \<Rightarrow> clients \<Rightarrow> string \<Rightarrow> string list \<Rightarrow> string \<Rightarrow> ('w, unit) lbc" where
  "ensure_sg_attached E c sgid ips net =
     (if sgid = '''' \<or> net = '''' \<or> ips = [] then ret ()
      else foreach ips (attach_worker E c sgid net))"

definition detach_worker :: "'w env \<Rightarrow> clients \<Rightarrow> string \<Rightarrow> string \<Rightarrow> string \<Rightarrow> ('w, unit) lbc" where
  "detach_worker E c d net ip =
     check (''looking up port for member '' @ ip) (find_port_by_ip E c net ip) (\<lambda>port.
       case port of
         None \<Rightarrow> ret ()
       | Some p \<Rightarrow>
           if \<not> has_sg (pt_sgs p) d then ret ()
           else let new_sgs = filter (\<lambda>s. s \<noteq> d) (pt_sgs p) in
             if new_sgs = [] then
               throw (Msg (''refusing to detach default SG from port '' @ pt_id p @
                 '': it would leave the port with no SG at all (cluster SG attach must run first)''))
             else check (''detaching default SG from worker port '' @ pt_id p)
                    (update_port E c (pt_id p) new_sgs) (\<lambda>_. ret ()))"

definition detach_default_sg :: "'w env \<Rightarrow> clients \<Rightarrow> string list \<Rightarrow> string \<Rightarrow> ('w, unit) lbc" where
  "detach_default_sg E c ips net =
     (if net = '''' \<or> ips = [] then ret ()
      else check ''looking up project default SG'' (find_sg_by_name E c ''default'') (\<lambda>g.
        case g of
          None \<Rightarrow> ret ()
        | Some d \<Rightarrow> foreach ips (detach_worker E c (sg_id d) net)))"

lemma has_sg_iff [simp]: "has_sg sgs x \<longleftrightarrow> x \<in> set sgs"
  by (auto simp: has_sg_def list_ex_iff)

section \<open>What a run may do to a port\<close>

text \<open>
  An update of a port follows the listing that showed it: an attach keeps every group the
  port had and adds one it had not, a detach removes the default group only, and leaves at
  least one.
\<close>

definition listed_before :: "event list \<Rightarrow> clients \<Rightarrow> nport \<Rightarrow> bool" where
  "listed_before evs c p \<longleftrightarrow>
     (\<exists>net o1 ip pg. Neutron c (ListPorts net o1 ip pg) \<in> set evs \<and> p \<in> set (pages_seen pg))"

lemma listed_before_simps [simp]:
  "listed_before (a @ b) c p \<longleftrightarrow> listed_before a c p \<or> listed_before b c p"
  "listed_before [Neutron c' (ListPorts net o1 ip pg)] c p \<longleftrightarrow> c' = c \<and> p \<in> set (pages_seen pg)"
  by (auto simp: listed_before_def)

definition attach_just :: "clients \<Rightarrow> string \<Rightarrow> event list \<Rightarrow> event \<Rightarrow> bool" where
  "attach_just c sgid pre e =
     (case e of
        Neutron c' (ListPorts _ _ _ _) \<Rightarrow> c' = c
      | Neutron c' (UpdatePort i sgs _) \<Rightarrow> c' = c \<and>
          (\<exists>p. listed_before pre c p \<and> pt_id p = i \<and> sgs = pt_sgs p @ [sgid] \<and> sgid \<notin> set (pt_sgs p))
      | _ \<Rightarrow> False)"

definition detach_just :: "clients \<Rightarrow> event list \<Rightarrow> event \<Rightarrow> bool" where
  "detach_just c pre e =
     (case e of
        Neutron c' (ListPorts _ _ _ _) \<Rightarrow> c' = c
      | Neutron c' (ListSGs n _) \<Rightarrow> c' = c \<and> n = Some ''default''
      | Neutron c' (UpdatePort i sgs _) \<Rightarrow> c' = c \<and> sgs \<noteq> [] \<and>
          (\<exists>p g pg. listed_before pre c p \<and> pt_id p = i \<and>
             Neutron c (ListSGs (Some ''default'') pg) \<in> set pre \<and> g \<in> set (pages_seen pg) \<and>
             sg_name g = ''default'' \<and> sg_id g \<in> set (pt_sgs p) \<and>
             sgs = filter (\<lambda>s. s \<noteq> sg_id g) (pt_sgs p))
      | _ \<Rightarrow> False)"

lemma ensure_sg_attached_keeps: "keeps (attach_just c sgid) (ensure_sg_attached E c sgid ips net)"
proof -
  have "keeps (attach_just c sgid) (attach_worker E c sgid net ip)" for ip
    unfolding attach_worker_def find_port_by_ip_def
    by (intro keeps_runs)
       (auto intro!: runs simp: attach_just_def dest!: pages_find_Some split: option.splits; blast)
  then show ?thesis
    unfolding ensure_sg_attached_def by (intro keep_rules)
qed

definition detach_step :: "clients \<Rightarrow> string \<Rightarrow> event list \<Rightarrow> event \<Rightarrow> bool" where
  "detach_step c d pre e =
     (case e of
        Neutron c' (ListPorts _ _ _ _) \<Rightarrow> c' = c
      | Neutron c' (UpdatePort i sgs _) \<Rightarrow> c' = c \<and> sgs \<noteq> [] \<and>
          (\<exists>p. listed_before pre c p \<and> pt_id p = i \<and> d \<in> set (pt_sgs p) \<and>
             sgs = filter (\<lambda>s. s \<noteq> d) (pt_sgs p))
      | _ \<Rightarrow> False)"

lemma detach_step_keeps: "keeps (detach_step c d) (detach_worker E c d net ip)"
  unfolding detach_worker_def find_port_by_ip_def Let_def
  by (intro keeps_runs)
     (auto intro!: runs simp: detach_step_def dest!: pages_find_Some split: option.splits; blast)

lemma detach_default_sg_keeps: "keeps (detach_just c) (detach_default_sg E c ips net)"
proof -
  have weaken: "detach_just c pre e" if "detach_step c (sg_id d) pre e"
    "Neutron c (ListSGs (Some ''default'') pg) \<in> set pre" "d \<in> set (pages_seen pg)" "sg_name d = ''default''"
    for pre e d pg
    using that by (auto simp: detach_step_def detach_just_def split: event.splits neutron_event.splits)
  show ?thesis
    unfolding detach_default_sg_def find_sg_by_name_def
    by (intro keeps_runs, rule every_run_if, rule every_run_ret, simp)
       (auto intro!: runs keeps_in [OF keeps_foreach [OF detach_step_keeps]] weaken
          simp: detach_just_def dest!: pages_find_Some split: option.splits)
qed

lemma emits_port_attach [emit_rules]:
  assumes "\<And>e. P (Neutron c e)"
  shows "emits P (list_worker_ips E c net)"
    and "emits P (ensure_sg_attached E c sgid ips net)"
    and "emits P (detach_default_sg E c ips net)"
  using assms
  by (auto simp: list_worker_ips_def ensure_sg_attached_def attach_worker_def detach_default_sg_def
      detach_worker_def find_port_by_ip_def Let_def intro!: emit_rules)

end
