(* ===== verification/ServiceController.thy ===== *)
theory ServiceController
  imports KscResolve LoadBalancer PortAttach
begin

text \<open>
  \<^verbatim>\<open>internal/controller/service_controller.go\<close> and \<^verbatim>\<open>internal/finalizers/names.go\<close>: the
  reconciler of a tenant's Services. A \<^verbatim>\<open>ctrl.Result\<close> is its \<^verbatim>\<open>RequeueAfter\<close> in seconds,
  0 for none. Log calls are left out, their conditions kept.
\<close>

definition finalizer_name :: string where
  "finalizer_name = ''loadbalancer.switchcloud.aenix.io/cleanup''"

definition member_resync_after :: int where "member_resync_after = 60"
definition pending_requeue :: int where "pending_requeue = 5"

definition contains_string :: "string list \<Rightarrow> string \<Rightarrow> bool" where
  "contains_string xs s = list_ex (\<lambda>v. v = s) xs"

definition remove_string :: "string list \<Rightarrow> string \<Rightarrow> string list" where
  "remove_string xs s = filter (\<lambda>v. v \<noteq> s) xs"

lemma contains_string_iff [simp]: "contains_string xs s \<longleftrightarrow> s \<in> set xs"
  by (auto simp: contains_string_def list_ex_iff)

lemma remove_string_simps [simp]:
  "s \<notin> set (remove_string xs s)" "set (remove_string xs s) = set xs - {s}"
  by (auto simp: remove_string_def)

section \<open>Finalizer and status\<close>

definition drop_finalizer :: "'w env \<Rightarrow> string \<Rightarrow> service \<Rightarrow> ('w, int) lbc" where
  "drop_finalizer E tenant svc =
     (if \<not> contains_string (s_finalizers svc) finalizer_name then ret 0
      else check ''removing finalizer''
             (patch_finalizers E tenant (s_ns svc) (s_name svc) (remove_string (s_finalizers svc) finalizer_name))
             (\<lambda>_. ret 0))"

definition helm_release_name :: "string \<Rightarrow> string" where
  "helm_release_name tenant = ''kubernetes-switchcloud-'' @ tenant"

definition is_helm_release_deleting :: "'w env \<Rightarrow> string \<Rightarrow> ('w, bool) lbc" where
  "is_helm_release_deleting E tenant =
     attempt (get_hr E tenant_namespace (helm_release_name tenant)) (\<lambda>r. case r of
         Inl e \<Rightarrow> if api_not_found e then ret True else throw (Wrap ''fetching HelmRelease'' e)
       | Inr hr \<Rightarrow> ret (hr_deleting hr))"

definition patch_status :: "'w env \<Rightarrow> string \<Rightarrow> service \<Rightarrow> string \<Rightarrow> ('w, unit) lbc" where
  "patch_status E tenant svc vip =
     (if vip = '''' then throw (Msg ''OpenStack LB returned empty VipAddress'')
      else if list_ex (\<lambda>ip. ip = vip) (s_ingress svc) then ret ()
      else check ''refetching Service before status patch'' (get_svc E tenant (s_ns svc) (s_name svc)) (\<lambda>fresh.
           check ''patching Service status loadBalancer.ingress''
             (patch_ingress E tenant (s_ns svc) (s_name svc) [vip]) ret))"

definition clear_status_ingress :: "'w env \<Rightarrow> string \<Rightarrow> service \<Rightarrow> ('w, unit) lbc" where
  "clear_status_ingress E tenant svc =
     (if s_ingress svc = [] then ret ()
      else attempt (get_svc E tenant (s_ns svc) (s_name svc)) (\<lambda>r. case r of
          Inl e \<Rightarrow> if api_not_found e then ret ()
                   else throw (Wrap ''refetching Service before clearing status'' e)
        | Inr fresh \<Rightarrow>
            if s_ingress fresh = [] then ret ()
            else check ''patching Service status loadBalancer.ingress to empty''
                   (patch_ingress E tenant (s_ns svc) (s_name svc) []) ret))"

section \<open>Cleanup\<close>

definition resolve_cleanup_sgid :: "'w env \<Rightarrow> string \<Rightarrow> clients \<Rightarrow> lb_config \<Rightarrow> ('w, string) lbc" where
  "resolve_cleanup_sgid E tenant c cfg =
     (if cf_worker_sg cfg \<noteq> '''' then ret (cf_worker_sg cfg)
      else lookup_cluster_security_group E c tenant)"

definition cleanup :: "'w env \<Rightarrow> string \<Rightarrow> service \<Rightarrow> lb_config \<Rightarrow> ('w, int) lbc" where
  "cleanup E tenant svc cfg =
     (if \<not> contains_string (s_finalizers svc) finalizer_name then ret 0
      else check ''building OpenStack clients for cleanup'' (new_clients E (cf_creds cfg)) (\<lambda>c.
           check ''resolving cleanup SG'' (resolve_cleanup_sgid E tenant c cfg) (\<lambda>sgid.
           bind (if sgid = '''' then ret ()
                 else check ''deleting nodePort SG rules'' (delete_node_port_rules E c sgid tenant svc) ret) (\<lambda>_.
           check ''deleting Octavia LB'' (delete_lb E c tenant svc) (\<lambda>pending.
             if pending then ret pending_requeue
             else check ''clearing Service status loadBalancer.ingress'' (clear_status_ingress E tenant svc) (\<lambda>_.
                  drop_finalizer E tenant svc))))))"

section \<open>Provisioning\<close>

definition publish_address :: "'w env \<Rightarrow> string \<Rightarrow> service \<Rightarrow> lb_config \<Rightarrow> clients \<Rightarrow> lb \<Rightarrow> ('w, string) lbc" where
  "publish_address E tenant svc cfg c b =
     bind (if cf_fip_net cfg = ''''
           then check ''auto-discovering floating network'' (find_first_external_network E c) ret
           else ret (cf_fip_net cfg)) (\<lambda>net.
       if net = '''' then ret (lb_vip b)
       else check ''ensuring floating IP''
              (ensure_floating_ip E c (lb_vip_port b) net (cf_fip_subnet cfg)
                (service_lb_name tenant (s_ns svc) (s_name svc))) ret)"

definition wire_workers :: "'w env \<Rightarrow> string \<Rightarrow> lb_config \<Rightarrow> clients \<Rightarrow> string list \<Rightarrow> ('w, string) lbc" where
  "wire_workers E tenant cfg c ips =
     (if cf_worker_sg cfg \<noteq> '''' then ret (cf_worker_sg cfg)
      else check ''ensuring cluster security group'' (ensure_cluster_security_group E c tenant) (\<lambda>sgid.
           check ''attaching cluster SG to worker ports'' (ensure_sg_attached E c sgid ips (cf_vip_net cfg)) (\<lambda>_.
           check ''detaching default SG from worker ports'' (detach_default_sg E c ips (cf_vip_net cfg)) (\<lambda>_.
           ret sgid))))"

definition provision :: "'w env \<Rightarrow> string \<Rightarrow> service \<Rightarrow> lb_config \<Rightarrow> ('w, int) lbc" where
  "provision E tenant svc cfg =
     check ''building OpenStack clients'' (new_clients E (cf_creds cfg)) (\<lambda>c.
     check ''resolving member subnet'' (resolve_member_subnet E c (cf_vip_net cfg)) (\<lambda>subnet.
     check ''ensuring Octavia LB'' (ensure_lb E c tenant svc (cf_vip_net cfg) (cf_provider cfg)) (\<lambda>(b, pending).
       if pending then ret pending_requeue
       else
     check ''listing worker IPs from OpenStack'' (list_worker_ips E c (cf_vip_net cfg)) (\<lambda>ips.
     check ''syncing listeners and members'' (sync_listeners_and_members E c b svc ips subnet) (\<lambda>pending.
       if pending then ret pending_requeue
       else
     bind (publish_address E tenant svc cfg c b) (\<lambda>public_addr.
     bind (wire_workers E tenant cfg c ips) (\<lambda>sgid.
     check ''ensuring nodePort SG rules'' (ensure_node_port_rules E c sgid tenant svc (cf_cidrs cfg)) (\<lambda>_.
     check ''patching Service status'' (patch_status E tenant svc public_addr) (\<lambda>_.
     ret member_resync_after)))))))))"

section \<open>The reconciler\<close>

definition wipe_operator_sg :: "'w env \<Rightarrow> string \<Rightarrow> service \<Rightarrow> lb_config \<Rightarrow> ('w, unit) lbc" where
  "wipe_operator_sg E tenant svc cfg =
     (if cf_worker_sg cfg \<noteq> '''' \<and> contains_string (s_finalizers svc) finalizer_name then
        attempt (new_clients E (cf_creds cfg)) (\<lambda>r. case r of
            Inl _ \<Rightarrow> ret ()
          | Inr c \<Rightarrow> attempt (delete_node_port_rules E c (cf_worker_sg cfg) tenant svc) (\<lambda>_. ret ()))
      else ret ())"

definition reconcile_config :: "'w env \<Rightarrow> string \<Rightarrow> service \<Rightarrow> lb_config \<Rightarrow> ('w, int) lbc" where
  "reconcile_config E tenant svc cfg =
     check ''checking HelmRelease delete state'' (is_helm_release_deleting E tenant) (\<lambda>deleting.
       if deleting then bind (wipe_operator_sg E tenant svc cfg) (\<lambda>_. drop_finalizer E tenant svc)
       else
         let is_lb = (s_type svc = ''LoadBalancer'');
             managed = (is_lb \<and> cf_enabled cfg);
             claimed = contains_string (s_finalizers svc) finalizer_name
         in if \<not> managed \<and> cf_misconfigured cfg \<noteq> '''' \<and> is_lb \<and> \<not> claimed then ret 0
            else if \<not> managed \<or> s_deleting svc then cleanup E tenant svc cfg
            else if \<not> claimed then
              check ''adding finalizer''
                (patch_finalizers E tenant (s_ns svc) (s_name svc) (s_finalizers svc @ [finalizer_name]))
                (\<lambda>_. ret 0)
            else provision E tenant svc cfg)"

definition reconcile :: "'w env \<Rightarrow> ksc_lib \<Rightarrow> string \<Rightarrow> string \<Rightarrow> string \<Rightarrow> ('w, int) lbc" where
  "reconcile E L tenant ns name =
     attempt (get_svc E tenant ns name) (\<lambda>r. case r of
         Inl e \<Rightarrow> if api_not_found e then ret 0 else throw (Wrap ''fetching Service'' e)
       | Inr svc \<Rightarrow>
           if s_type svc \<noteq> ''LoadBalancer'' \<and> \<not> contains_string (s_finalizers svc) finalizer_name then ret 0
           else attempt (resolve E L tenant) (\<lambda>r. case r of
               Inl e \<Rightarrow>
                 if is_not_found e then drop_finalizer E tenant svc
                 else throw (Wrap ''resolving KubernetesSwitchcloud config'' e)
             | Inr cfg \<Rightarrow> reconcile_config E tenant svc cfg))"

section \<open>What a reconcile may do\<close>

text \<open>Whether a Service is one the controller leaves alone: the fast path.\<close>

definition claims :: "service \<Rightarrow> bool" where
  "claims svc \<longleftrightarrow> s_type svc = ''LoadBalancer'' \<or> finalizer_name \<in> set (s_finalizers svc)"

text \<open>
  The events of the provisioning path, and the evidence in the trace for each change:
  a Service that is claimed, not being deleted and of a tenant whose HelmRelease lives;
  a finalizer that goes only with the tenant, once no load balancer of the Service is listed, or
  when the credentials Secret the tenant's object names is missing. Only the HelmRelease of the
  tenant's own name tells whether it lives.
\<close>

fun provisions :: "event \<Rightarrow> bool" where
  "provisions (Octavia _ (DelLB _ _)) = False"
| "provisions (Octavia _ e) = octavia_mutation e"
| "provisions (Neutron _ (DelRule _ _)) = False"
| "provisions (Neutron _ (DelFIP _ _)) = False"
| "provisions (Neutron _ e) = neutron_mutation e"
| "provisions (Nova _ e) = nova_mutation e"
| "provisions _ = False"

definition tenant_going :: "event list \<Rightarrow> string \<Rightarrow> bool" where
  "tenant_going pre tenant \<longleftrightarrow>
     (\<exists>a. Mgmt (GetKSC tenant_namespace tenant (Inl a)) \<in> set pre \<and> ae_not_found a) \<or>
     (\<exists>a. Mgmt (GetHR tenant_namespace (''kubernetes-switchcloud-'' @ tenant) (Inl a)) \<in> set pre \<and> ae_not_found a) \<or>
     (\<exists>hr. Mgmt (GetHR tenant_namespace (''kubernetes-switchcloud-'' @ tenant) (Inr hr)) \<in> set pre \<and> hr_deleting hr)"

definition secret_missing :: "event list \<Rightarrow> string \<Rightarrow> bool" where
  "secret_missing pre tenant \<longleftrightarrow>
     (\<exists>k a. Mgmt (GetKSC tenant_namespace tenant (Inr k)) \<in> set pre \<and> ko_str k (os_field ''existingSecret'') \<noteq> '''' \<and>
        Mgmt (GetSecret tenant_namespace (ko_str k (os_field ''existingSecret'')) (Inl a)) \<in> set pre \<and> ae_not_found a)"

definition lb_absent :: "event list \<Rightarrow> string \<Rightarrow> service \<Rightarrow> bool" where
  "lb_absent pre tenant svc \<longleftrightarrow>
     (\<exists>c p. let lbn = service_lb_name tenant (s_ns svc) (s_name svc) in
        Octavia c (ListLBs (Some lbn) p) \<in> set pre \<and> pages_find (\<lambda>b. lb_name b = lbn) p = Inr None)"

definition tenant_alive :: "event list \<Rightarrow> string \<Rightarrow> bool" where
  "tenant_alive pre tenant \<longleftrightarrow>
     (\<exists>hr. Mgmt (GetHR tenant_namespace (''kubernetes-switchcloud-'' @ tenant) (Inr hr)) \<in> set pre \<and> \<not> hr_deleting hr)"

definition reconcile_just :: "string \<Rightarrow> service \<Rightarrow> event list \<Rightarrow> event \<Rightarrow> bool" where
  "reconcile_just tenant svc pre e \<longleftrightarrow>
     (cloud_mutation e \<longrightarrow> claims svc) \<and>
     (provisions e \<longrightarrow> tenant_alive pre tenant \<and> s_type svc = ''LoadBalancer'' \<and> \<not> s_deleting svc \<and>
        finalizer_name \<in> set (s_finalizers svc)) \<and>
     (case e of
        Tenant t (PatchFinalizers ns n fs _) \<Rightarrow> t = tenant \<and> ns = s_ns svc \<and> n = s_name svc \<and>
          (if finalizer_name \<in> set fs then tenant_alive pre tenant \<and> set fs = insert finalizer_name (set (s_finalizers svc))
           else finalizer_name \<in> set (s_finalizers svc) \<and> set fs = set (s_finalizers svc) - {finalizer_name} \<and>
             (tenant_going pre tenant \<or> secret_missing pre tenant \<or> lb_absent pre tenant svc))
      | Tenant t (PatchIngress ns n ips _) \<Rightarrow> t = tenant \<and> ns = s_ns svc \<and> n = s_name svc \<and>
          (if ips = [] then lb_absent pre tenant svc else tenant_alive pre tenant \<and> '''' \<notin> set ips)
      | _ \<Rightarrow> True)"

section \<open>The proofs\<close>

definition not_tenant :: "event \<Rightarrow> bool" where
  "not_tenant e = (case e of Tenant _ _ \<Rightarrow> False | _ \<Rightarrow> True)"

text \<open>The events of the removal path.\<close>

definition removes :: "event \<Rightarrow> bool" where
  "removes e \<longleftrightarrow> not_tenant e \<and> \<not> provisions e"

lemma removes_simps [simp]:
  "removes (Neutron c (DelRule i r))" "removes (Neutron c (DelFIP i r))" "removes (Octavia c (DelLB i r))"
  "removes (Neutron c (ListRules i p))" "removes (Neutron c (ListFIPs f q))" "removes (Octavia c (ListLBs f t))"
  "removes (Neutron c (ListSGs f u))" "removes (Keystone k)"
  by (simp_all add: removes_def not_tenant_def)

lemma emits_removes_fip: "emits removes (delete_floating_ip E c port)"
  unfolding delete_floating_ip_def find_fip_by_port_def
  by (intro emits_if emits_ret emits_check emits_call_find emits_case_option emits_call_unit) simp_all

lemma emits_removes:
  "emits removes (delete_node_port_rules E c sgid tenant svc)"
  "emits removes (delete_lb E c tenant svc)"
  "emits removes (lookup_cluster_security_group E c n)"
  "emits removes (new_clients E creds)"
  unfolding delete_node_port_rules_def list_owned_rules_def delete_lb_def find_lb_by_name_def Let_def
      lookup_cluster_security_group_def find_sg_by_name_def new_clients_def
  by (intro emits_if emits_ret emits_throw emits_check emits_bind emits_call_find emits_case_option emits_call_unit
      emits_call emits_call_items emits_for_range emits_case_prod emits_removes_fip; simp)+

lemma emits_removes_resolve: "emits removes (resolve E L tenant)"
  by (rule emits_mono [OF emits_resolve])
     (auto simp: mgmt_read_def removes_def not_tenant_def split: event.splits)

lemma just_removes: "removes e \<Longrightarrow> claims svc \<Longrightarrow> reconcile_just tenant svc pre e"
  by (auto simp: removes_def not_tenant_def reconcile_just_def split: event.splits)

definition may_provision :: "event list \<Rightarrow> string \<Rightarrow> service \<Rightarrow> bool" where
  "may_provision pre tenant svc \<longleftrightarrow> tenant_alive pre tenant \<and> s_type svc = ''LoadBalancer'' \<and> \<not> s_deleting svc \<and>
     finalizer_name \<in> set (s_finalizers svc)"

lemma tenant_mono:
  assumes "set pre \<subseteq> set p"
  shows "tenant_alive pre tenant \<Longrightarrow> tenant_alive p tenant" and "may_provision pre tenant svc \<Longrightarrow> may_provision p tenant svc"
    and "tenant_going pre tenant \<Longrightarrow> tenant_going p tenant" and "secret_missing pre tenant \<Longrightarrow> secret_missing p tenant" and "lb_absent pre tenant svc \<Longrightarrow> lb_absent p tenant svc"
  using assms by (auto simp: tenant_alive_def may_provision_def tenant_going_def secret_missing_def lb_absent_def Let_def; blast)+

lemma just_provision: "not_tenant e \<Longrightarrow> may_provision pre tenant svc \<Longrightarrow> reconcile_just tenant svc pre e"
  by (auto simp: not_tenant_def may_provision_def reconcile_just_def claims_def split: event.splits)

lemma yields_removes:
  "emits removes m \<Longrightarrow> claims svc \<Longrightarrow> yields (reconcile_just tenant svc) pre m (\<lambda>_ _. True)"
  by (erule yields_emits) (rule just_removes)

lemma yields_drop_finalizer:
  assumes "tenant_going pre tenant \<or> secret_missing pre tenant \<or> lb_absent pre tenant svc"
  shows "yields (reconcile_just tenant svc) pre (drop_finalizer E tenant svc) (\<lambda>_ _. True)"
  unfolding drop_finalizer_def
  using assms
  by (intro yields_if yields_ret yields_check [where R = "\<lambda>_ _. True"] yields_call_unit)
     (auto simp: reconcile_just_def)

lemma yields_hr:
  assumes "claims svc"
  shows "yields (reconcile_just tenant svc) pre (is_helm_release_deleting E tenant)
     (\<lambda>p d. if d then tenant_going p tenant else tenant_alive p tenant)"
proof -
  let ?n = "helm_release_name tenant"
  have "tenant_going (pre @ [Mgmt (GetHR tenant_namespace ?n (Inl a))]) tenant" if "ae_not_found a" for a
    unfolding tenant_going_def using that by (auto simp: helm_release_name_def)
  moreover have "if hr_deleting hr then tenant_going (pre @ [Mgmt (GetHR tenant_namespace ?n (Inr hr))]) tenant
      else tenant_alive (pre @ [Mgmt (GetHR tenant_namespace ?n (Inr hr))]) tenant" for hr
    unfolding tenant_going_def tenant_alive_def by (auto simp: helm_release_name_def)
  ultimately show ?thesis
    unfolding is_helm_release_deleting_def
    by (intro yields_attempt every_run_call_val)
       (simp_all add: reconcile_just_def yields_ret yields_throw)
qed

lemma yields_wipe:
  "claims svc \<Longrightarrow> yields (reconcile_just tenant svc) pre (wipe_operator_sg E tenant svc cfg) (\<lambda>_ _. True)"
  unfolding wipe_operator_sg_def
  by (rule yields_removes) (auto intro!: emit_rules emits_removes split: sum.splits)

lemma yields_delete_lb:
  assumes "claims svc"
  shows "yields (reconcile_just tenant svc) pre (delete_lb E c tenant svc)
     (\<lambda>p pending. \<not> pending \<longrightarrow> lb_absent p tenant svc)"
proof (rule yields_every_run [OF emits_every_run [OF emits_removes(2) delete_lb_runs]])
  fix evs r
  assume "list_all removes evs \<and> delete_lb_run c (service_lb_name tenant (s_ns svc) (s_name svc)) evs r"
  then show "just (reconcile_just tenant svc) pre evs"
    by (auto intro: just_all just_removes assms)
next
  fix evs pending
  let ?n = "service_lb_name tenant (s_ns svc) (s_name svc)"
  assume run: "list_all removes evs \<and> delete_lb_run c ?n evs (Inr pending)"
  show "\<not> pending \<longrightarrow> lb_absent (pre @ evs) tenant svc"
  proof
    assume "\<not> pending"
    with run have "delete_lb_run c ?n evs (Inr False)" by simp
    then obtain p where "Octavia c (ListLBs (Some ?n) p) \<in> set evs" "pages_find (\<lambda>b. lb_name b = ?n) p = Inr None"
      using delete_lb_gone by blast
    then show "lb_absent (pre @ evs) tenant svc"
      unfolding lb_absent_def Let_def by auto
  qed
qed

lemma yields_clear_status:
  assumes "lb_absent pre tenant svc"
  shows "yields (reconcile_just tenant svc) pre (clear_status_ingress E tenant svc)
     (\<lambda>p _. lb_absent p tenant svc)"
proof -
  have p: "lb_absent (pre @ evs) tenant svc" for evs
    by (rule tenant_mono(5) [OF _ assms]) simp
  have q: "lb_absent p tenant svc" if "set pre \<subseteq> set p" for p
    by (rule tenant_mono(5) [OF that assms])
  show ?thesis
    unfolding clear_status_ingress_def
    by (intro yields_if yields_ret assms yields_attempt every_run_call_val)
       (auto intro!: yields_ret yields_throw yields_check [where R = "\<lambda>p _. lb_absent p tenant svc"] yields_call_unit
          simp: reconcile_just_def p q)
qed

lemma yields_cleanup:
  assumes "claims svc"
  shows "yields (reconcile_just tenant svc) pre (cleanup E tenant svc cfg) (\<lambda>_ _. True)"
proof -
  have sgid: "emits removes (resolve_cleanup_sgid E tenant c cfg)" for c
    by (auto simp: resolve_cleanup_sgid_def intro!: emit_rules emits_removes)
  have rules: "emits removes (if sgid = '''' then ret ()
      else check m (delete_node_port_rules E c sgid tenant svc) ret)" for c sgid and m :: string
    by (intro emit_rules emits_removes)
  show ?thesis
    unfolding cleanup_def
    apply (rule yields_if, rule yields_ret, simp)
    apply (rule yields_check [OF yields_removes [OF emits_removes(4) assms]])
    apply (rule yields_check [OF yields_removes [OF sgid assms]])
    apply (rule yields_bind [OF yields_removes [OF rules assms]])
    apply (rule yields_check [OF yields_delete_lb [OF assms]])
    apply (rule yields_if, rule yields_ret, simp)
    apply (rule yields_check [OF yields_clear_status], simp)
    apply (rule yields_drop_finalizer, simp)
    done
qed

definition provision_event :: "string \<Rightarrow> service \<Rightarrow> event \<Rightarrow> bool" where
  "provision_event tenant svc e =
     (case e of
        Tenant t (GetSvc _ _ _) \<Rightarrow> True
      | Tenant t (PatchIngress ns n ips _) \<Rightarrow> t = tenant \<and> ns = s_ns svc \<and> n = s_name svc \<and> ips \<noteq> [] \<and> '''' \<notin> set ips
      | Tenant _ _ \<Rightarrow> False
      | _ \<Rightarrow> True)"

lemma emits_provision: "emits (provision_event tenant svc) (provision E tenant svc cfg)"
proof -
  have parts: "emits (provision_event tenant svc) (publish_address E tenant svc cfg c b)"
    "emits (provision_event tenant svc) (wire_workers E tenant cfg c ips)"
    "emits (provision_event tenant svc) (patch_status E tenant svc a)" for c b ips a
    unfolding publish_address_def wire_workers_def patch_status_def
    by (intro emit_rules; simp add: provision_event_def)+
  show ?thesis
    unfolding provision_def
    by (intro emit_rules parts; simp add: provision_event_def)
qed

lemma yields_provision:
  assumes ok: "may_provision pre tenant svc"
  shows "yields (reconcile_just tenant svc) pre (provision E tenant svc cfg) (\<lambda>_ _. True)"
proof (rule yields_emits [OF emits_provision])
  fix p e assume "set pre \<subseteq> set p" "provision_event tenant svc e"
  with tenant_mono(2) [OF this(1) ok] show "reconcile_just tenant svc p e"
    by (auto simp: reconcile_just_def provision_event_def may_provision_def claims_def
        split: event.splits tenant_event.splits)
qed

lemma yields_reconcile_config:
  assumes "claims svc"
  shows "yields (reconcile_just tenant svc) pre (reconcile_config E tenant svc cfg) (\<lambda>_ _. True)"
  unfolding reconcile_config_def Let_def
proof (rule yields_check [OF yields_hr [OF assms]])
  fix p d assume d: "if d then tenant_going p tenant else tenant_alive p tenant"
  have going: "yields (reconcile_just tenant svc) p
     (bind (wipe_operator_sg E tenant svc cfg) (\<lambda>_. drop_finalizer E tenant svc)) (\<lambda>_ _. True)"
    if "tenant_going p tenant"
    by (rule yields_bind [OF yields_wipe [OF assms]], rule yields_drop_finalizer)
       (use that tenant_mono(3) in blast)
  have add: "yields (reconcile_just tenant svc) p
      (check m (patch_finalizers E tenant (s_ns svc) (s_name svc) (s_finalizers svc @ [finalizer_name])) (\<lambda>_. ret 0))
      (\<lambda>_ _. True)" if "tenant_alive p tenant" for m :: string
    using that by (intro yields_check yields_call_unit yields_ret) (auto simp: reconcile_just_def)
  show "yields (reconcile_just tenant svc) p
     (if d then bind (wipe_operator_sg E tenant svc cfg) (\<lambda>_. drop_finalizer E tenant svc)
      else if \<not> (s_type svc = ''LoadBalancer'' \<and> cf_enabled cfg) \<and> cf_misconfigured cfg \<noteq> '''' \<and>
           s_type svc = ''LoadBalancer'' \<and> \<not> contains_string (s_finalizers svc) finalizer_name then ret 0
      else if \<not> (s_type svc = ''LoadBalancer'' \<and> cf_enabled cfg) \<or> s_deleting svc then cleanup E tenant svc cfg
      else if \<not> contains_string (s_finalizers svc) finalizer_name then
        check ''adding finalizer''
          (patch_finalizers E tenant (s_ns svc) (s_name svc) (s_finalizers svc @ [finalizer_name])) (\<lambda>_. ret 0)
      else provision E tenant svc cfg) (\<lambda>_ _. True)"
  proof (intro yields_if)
    assume "\<not> (\<not> (s_type svc = ''LoadBalancer'' \<and> cf_enabled cfg) \<or> s_deleting svc)"
      "\<not> \<not> contains_string (s_finalizers svc) finalizer_name" "\<not> d"
    with d show "yields (reconcile_just tenant svc) p (provision E tenant svc cfg) (\<lambda>_ _. True)"
      by (intro yields_provision) (simp add: may_provision_def)
  qed (use d going add in \<open>auto intro: yields_ret yields_cleanup [OF assms]\<close>)
qed

text \<open>
  Every run of the reconciler reads the Service first. A missing or unclaimed Service ends
  it there; otherwise every later event is justified.
\<close>

definition reconcile_run :: "string \<Rightarrow> string \<Rightarrow> string \<Rightarrow> event list \<Rightarrow> err + int \<Rightarrow> bool" where
  "reconcile_run tenant ns name evs r \<longleftrightarrow>
     (\<exists>x evs'. evs = Tenant tenant (GetSvc ns name x) # evs' \<and>
        (case x of
           Inl a \<Rightarrow> evs' = [] \<and> (r = Inr 0 \<longleftrightarrow> ae_not_found a)
         | Inr svc \<Rightarrow> (\<not> claims svc \<longrightarrow> evs' = [] \<and> r = Inr 0) \<and> just (reconcile_just tenant svc) [] evs'))"

lemma yields_reconcile_claimed:
  assumes "claims svc"
  shows "yields (reconcile_just tenant svc) pre (attempt (resolve E L tenant) (\<lambda>r. case r of
       Inl e \<Rightarrow> if is_not_found e then drop_finalizer E tenant svc else throw (Wrap m e)
     | Inr cfg \<Rightarrow> reconcile_config E tenant svc cfg)) (\<lambda>_ _. True)"
proof (rule yields_attempt, rule every_run_mono [OF resolve_runs], intro conjI)
  fix evs r assume run: "resolve_run tenant evs r"
  then have "list_all removes evs"
    by (auto simp: resolve_run_def list_all_iff mgmt_read_def removes_def not_tenant_def split: event.splits)
  then show "just (reconcile_just tenant svc) pre evs"
    by (rule just_all) (rule just_removes [OF _ assms])
  have "tenant_going (pre @ evs) tenant \<or> secret_missing (pre @ evs) tenant" if "r = Inl e" "is_not_found e" for e
    using run that by (auto simp: resolve_run_def tenant_going_def secret_missing_def; blast)
  then show "yields (reconcile_just tenant svc) (pre @ evs) (case r of
       Inl e \<Rightarrow> if is_not_found e then drop_finalizer E tenant svc else throw (Wrap m e)
     | Inr cfg \<Rightarrow> reconcile_config E tenant svc cfg) (\<lambda>_ _. True)"
    by (auto intro!: yields_drop_finalizer yields_throw yields_reconcile_config [OF assms] split: sum.split)
qed

lemma reconcile_runs: "every_run (reconcile E L tenant ns name) (reconcile_run tenant ns name)"
proof -
  have claimed: "every_run (attempt (resolve E L tenant) (\<lambda>r. case r of
       Inl e \<Rightarrow> if is_not_found e then drop_finalizer E tenant svc else throw (Wrap m e)
     | Inr cfg \<Rightarrow> reconcile_config E tenant svc cfg))
     (\<lambda>evs. reconcile_run tenant ns name (Tenant tenant (GetSvc ns name (Inr svc)) # evs))"
    if "claims svc" for svc m
    by (rule every_run_mono [OF yieldsD [OF yields_reconcile_claimed [OF that]]])
       (use that in \<open>auto simp: reconcile_run_def\<close>)
  show ?thesis
    unfolding reconcile_def
    by (rule every_run_attempt, rule every_run_call_val)
       (auto simp: claims_def intro!: every_run_ret every_run_throw claimed, auto simp: reconcile_run_def claims_def)
qed

end
