(* ===== verification/ClusterController.thy ===== *)
theory ClusterController
  imports Sweep ServiceController
begin

text \<open>
  \<^verbatim>\<open>internal/controller/cluster_controller.go\<close> and the sweeper loop of \<^verbatim>\<open>cmd/main.go\<close>:
  the finalizer on a cluster's HelmRelease, and the periodic removal of orphans.
\<close>

section \<open>The cluster finalizer\<close>

definition cluster_finalizer_name :: string where
  "cluster_finalizer_name = ''loadbalancer.switchcloud.aenix.io/cluster-cleanup''"

definition app_name_label :: string where
  "app_name_label = ''apps.cozystack.io/application.name''"

definition drop_cluster_finalizer :: "'w env \<Rightarrow> hrelease \<Rightarrow> ('w, int) lbc" where
  "drop_cluster_finalizer E hr =
     (if \<not> contains_string (hr_finalizers hr) cluster_finalizer_name then ret 0
      else check ''removing cluster finalizer from HelmRelease''
             (patch_hr E (hr_ns hr) (hr_name hr) (remove_string (hr_finalizers hr) cluster_finalizer_name))
             (\<lambda>_. ret 0))"

definition borrow_creds_from :: "'w env \<Rightarrow> ksc_lib \<Rightarrow> hrelease \<Rightarrow> ('w, credentials option) lbc" where
  "borrow_creds_from E L hr =
     (let sibling = str_at (hr_labels hr) app_name_label in
      if sibling = '''' then ret None
      else attempt (resolve E L sibling) (\<lambda>r. case r of
          Inl _ \<Rightarrow> ret None
        | Inr cfg \<Rightarrow> if cr_auth_url (cf_creds cfg) \<noteq> '''' then ret (Some (cf_creds cfg)) else ret None))"

definition borrow_any_creds :: "'w env \<Rightarrow> ksc_lib \<Rightarrow> string \<Rightarrow> ('w, credentials option) lbc" where
  "borrow_any_creds E L ns =
     attempt (list_ksc_hrs E ns) (\<lambda>r. case r of
         Inl _ \<Rightarrow> ret None
       | Inr hrs \<Rightarrow> foreach_until hrs (borrow_creds_from E L))"

definition sweep_and_drop :: "'w env \<Rightarrow> string \<Rightarrow> hrelease \<Rightarrow> credentials \<Rightarrow> ('w, int) lbc" where
  "sweep_and_drop E cluster hr creds =
     check ''building OpenStack clients for cluster sweep'' (new_clients E creds) (\<lambda>c.
     check ''sweeping cluster resources'' (sweep_cluster_resources E c cluster) (\<lambda>_.
     drop_cluster_finalizer E hr))"

definition cluster_reconcile :: "'w env \<Rightarrow> ksc_lib \<Rightarrow> string \<Rightarrow> string \<Rightarrow> ('w, int) lbc" where
  "cluster_reconcile E L ns name =
     attempt (get_hr E ns name) (\<lambda>r. case r of
         Inl e \<Rightarrow> if api_not_found e then ret 0 else throw (Wrap ''fetching HelmRelease'' e)
       | Inr hr \<Rightarrow>
           let cluster = str_at (hr_labels hr) app_name_label in
           if cluster = '''' then ret 0
           else if \<not> hr_deleting hr then
             (if contains_string (hr_finalizers hr) cluster_finalizer_name then ret 0
              else check ''adding cluster finalizer to HelmRelease''
                     (patch_hr E (hr_ns hr) (hr_name hr) (hr_finalizers hr @ [cluster_finalizer_name])) (\<lambda>_. ret 0))
           else if \<not> contains_string (hr_finalizers hr) cluster_finalizer_name then ret 0
           else attempt (resolve E L cluster) (\<lambda>r. case r of
               Inr cfg \<Rightarrow> sweep_and_drop E cluster hr (cf_creds cfg)
             | Inl e \<Rightarrow>
                 if is_not_found e then
                   bind (borrow_any_creds E L (hr_ns hr)) (\<lambda>found. case found of
                       None \<Rightarrow> drop_cluster_finalizer E hr
                     | Some creds \<Rightarrow> sweep_and_drop E cluster hr creds)
                 else throw (Wrap ''resolving KSC config during deletion'' e)))"

section \<open>The orphan sweeper\<close>

text \<open>An error of a step is logged and ends the tick.\<close>

definition or_skip :: "('w, 'a) lbc \<Rightarrow> ('a \<Rightarrow> ('w, unit) lbc) \<Rightarrow> ('w, unit) lbc" where
  "or_skip m f = attempt m (\<lambda>r. case r of Inl _ \<Rightarrow> ret () | Inr x \<Rightarrow> f x)"

definition live_clusters :: "hrelease list \<Rightarrow> string list" where
  "live_clusters hrs =
     map fst (fold (\<lambda>hr out.
       if hr_deleting hr then out
       else let cluster = str_at (hr_labels hr) app_name_label in
         if cluster = '''' then out else AList.update cluster () out) hrs [])"

definition list_known_clusters :: "'w env \<Rightarrow> ('w, string list) lbc" where
  "list_known_clusters E =
     check ''listing KSC HelmReleases'' (list_ksc_hrs E tenant_namespace) (\<lambda>hrs. ret (live_clusters hrs))"

text \<open>
  \<open>live\<close> asks the tenant manager for a session of the cluster, at the moment of the call.
\<close>

definition service_exists :: "'w env \<Rightarrow> (string \<Rightarrow> 'w \<Rightarrow> bool \<times> 'w) \<Rightarrow> 'w exists_fn" where
  "service_exists E live cluster ns name =
     bind (draw (live cluster)) (\<lambda>present.
       if \<not> present then ret True
       else attempt (get_svc E cluster ns name) (\<lambda>r. case r of
           Inl e \<Rightarrow> if api_not_found e then ret False else throw e
         | Inr _ \<Rightarrow> ret True))"

definition sweep_secret :: "'w env \<Rightarrow> string list \<Rightarrow> secret \<Rightarrow> ('w, unit) lbc" where
  "sweep_secret E known s =
     (let name = sec_name s in
      if \<not> has_prefix name ''kubernetes-switchcloud-'' \<or> \<not> has_suffix name ''-admin-kubeconfig'' then ret ()
      else let cluster = trim_suffix (trim_prefix name ''kubernetes-switchcloud-'') ''-admin-kubeconfig'' in
        if cluster = '''' then ret ()
        else if cluster \<in> set known then ret ()
        else attempt (del_secret E (sec_ns s) name) (\<lambda>r. case r of
            Inr _ \<Rightarrow> ret ()
          | Inl e \<Rightarrow> if api_not_found e then ret ()
                     else throw (Wrap (''deleting orphan kubeconfig secret '' @ name) e)))"

definition sweep_orphan_kubeconfig_secrets :: "'w env \<Rightarrow> string list \<Rightarrow> ('w, unit) lbc" where
  "sweep_orphan_kubeconfig_secrets E known =
     check ''listing tenant-root secrets'' (list_secrets E tenant_namespace) (\<lambda>ss.
       foreach ss (sweep_secret E known))"

definition sweep_cycle :: "'w env \<Rightarrow> ksc_lib \<Rightarrow> (string \<Rightarrow> 'w \<Rightarrow> bool \<times> 'w) \<Rightarrow> string list \<Rightarrow> ('w, unit) lbc" where
  "sweep_cycle E L live known =
     bind (go_range E known) (\<lambda>order.
     or_skip (resolve E L (hd order)) (\<lambda>cfg.
       if cr_auth_url (cf_creds cfg) = '''' then ret ()
       else
     or_skip (new_clients E (cf_creds cfg)) (\<lambda>c.
     or_skip (sweep_orphan_nova_servers E c known) (\<lambda>_.
     or_skip (sweep_orphans E c known (Some (service_exists E live))) (\<lambda>_.
     or_skip (sweep_orphan_kubeconfig_secrets E known) ret)))))"

definition sweep_tick :: "'w env \<Rightarrow> ksc_lib \<Rightarrow> (string \<Rightarrow> 'w \<Rightarrow> bool \<times> 'w) \<Rightarrow> ('w, unit) lbc" where
  "sweep_tick E L live =
     or_skip (list_known_clusters E) (\<lambda>known.
       if known = [] then ret () else sweep_cycle E L live known)"

section \<open>What a tick may delete\<close>

lemma asks_tenant_service_exists: "asks_tenant (service_exists E live)"
  unfolding asks_tenant_def service_exists_def
  by (auto intro!: runs simp: tenant_denies_def)

lemma live_clusters_set:
  "set (live_clusters hrs) =
     {str_at (hr_labels hr) app_name_label | hr. hr \<in> set hrs \<and> \<not> hr_deleting hr \<and>
        str_at (hr_labels hr) app_name_label \<noteq> ''''}"
proof -
  let ?P = "\<lambda>hr. \<not> hr_deleting hr \<and> str_at (hr_labels hr) app_name_label \<noteq> ''''"
  have "(\<lambda>hr out. if hr_deleting hr then out
       else let cluster = str_at (hr_labels hr) app_name_label in
         if cluster = '''' then out else AList.update cluster () out)
     = (\<lambda>hr m. if ?P hr then AList.update (str_at (hr_labels hr) app_name_label) () m else m)"
    by (intro ext) (simp add: Let_def)
  then have "live_clusters hrs = map fst (map_build ?P (\<lambda>hr. str_at (hr_labels hr) app_name_label) (\<lambda>_. ()) hrs)"
    unfolding live_clusters_def map_build_def by (rule arg_cong [where f = "\<lambda>f. map fst (fold f hrs [])"])
  then have "set (live_clusters hrs) = dom (map_of (map_build ?P (\<lambda>hr. str_at (hr_labels hr) app_name_label) (\<lambda>_. ()) hrs))"
    by (simp add: dom_map_of_conv_image_fst)
  then show ?thesis by (simp only: map_build_dom) auto
qed

definition tick_just :: "string list \<Rightarrow> event list \<Rightarrow> event \<Rightarrow> bool" where
  "tick_just known pre e \<longleftrightarrow>
     (cloud_mutation e \<longrightarrow> (\<exists>c. sweep_just c known pre e \<or> server_just c known pre e)) \<and>
     (case e of
        Mgmt (DelSecret ns n _) \<Rightarrow>
          (\<exists>ss s. Mgmt (ListSecrets tenant_namespace (Inr ss)) \<in> set pre \<and> s \<in> set ss \<and> sec_ns s = ns \<and>
             sec_name s = n \<and> is_kubeconfig_secret_name n \<and> tenant_from_secret_name n \<notin> set known)
      | Mgmt (PatchHR _ _ _ _) \<Rightarrow> False
      | Tenant _ (PatchFinalizers _ _ _ _) \<Rightarrow> False
      | Tenant _ (PatchIngress _ _ _ _) \<Rightarrow> False
      | _ \<Rightarrow> True)"

lemma yields_or_skip:
  assumes "yields J pre m R" and "\<And>p x. set pre \<subseteq> set p \<Longrightarrow> R p x \<Longrightarrow> yields J p (f x) (\<lambda>_ _. True)"
  shows "yields J pre (or_skip m f) (\<lambda>_ _. True)"
  unfolding or_skip_def
  by (rule yields_attempt, rule every_run_mono [OF assms(1) [unfolded yields_def]])
     (auto intro!: yields_ret assms(2) split: sum.splits)

text \<open>A step whose cloud events one justification covers and whose other events are reads.\<close>

definition quiet :: "event \<Rightarrow> bool" where
  "quiet e = (case e of
      Mgmt (DelSecret _ _ _) \<Rightarrow> False | Mgmt (PatchHR _ _ _ _) \<Rightarrow> False
    | Tenant _ (PatchFinalizers _ _ _ _) \<Rightarrow> False | Tenant _ (PatchIngress _ _ _ _) \<Rightarrow> False
    | _ \<Rightarrow> True)"

lemma tick_just_quiet:
  "quiet e \<Longrightarrow> (cloud_mutation e \<Longrightarrow> sweep_just c known pre e \<or> server_just c known pre e) \<Longrightarrow> tick_just known pre e"
  by (auto simp: tick_just_def quiet_def split: event.splits mgmt_event.splits tenant_event.splits)

lemma quiet_simps [simp]:
  "quiet (Octavia c x)" "quiet (Neutron c y)" "quiet (Nova c z)" "quiet (Keystone k)" "quiet (Tenant t (GetSvc n m r))"
  by (simp_all add: quiet_def)

lemma emits_quiet:
  "emits quiet (sweep_orphans E c known (Some (service_exists E live)))"
  "emits quiet (sweep_orphan_nova_servers E c known)"
  "emits quiet (resolve E L t)" "emits quiet (new_clients E creds)"
proof -
  have ex: "emits quiet (service_exists E live a b d)" for a b d
    unfolding service_exists_def by (intro emit_rules) simp_all
  then have gone: "emits quiet (service_gone (service_exists E live) t cache)" for t cache
    unfolding service_gone_def Let_def by (intro emit_rules)
  have scans: "emits quiet (scan_lb known (Some (service_exists E live)) b acc)"
    "emits quiet (scan_fip known (service_exists E live) f facc)" for b acc f facc
    unfolding scan_lb_def scan_fip_def option.case by (intro emit_rules gone)+
  show "emits quiet (sweep_orphans E c known (Some (service_exists E live)))"
    unfolding sweep_orphans_def delete_orphan_lb_def sweep_orphan_fips_def option.case
      delete_orphan_fip_def sweep_orphan_cluster_def sweep_orphan_sg_def sweep_cluster_resources_def
      sweep_lb_def sweep_sg_def find_sg_by_name_def delete_floating_ip_def find_fip_by_port_def Let_def
    by (intro emit_rules scans; simp)
  show "emits quiet (sweep_orphan_nova_servers E c known)"
    unfolding sweep_orphan_nova_servers_def by (intro emit_rules) simp_all
  show "emits quiet (resolve E L t)"
    by (rule emits_mono [OF emits_resolve]) (auto simp: mgmt_read_def quiet_def split: event.splits mgmt_event.splits)
  show "emits quiet (new_clients E creds)"
    by (rule emits_new_clients) simp
qed

lemma yields_both:
  assumes "yields J pre m R" "emits P m" "\<And>p e. J p e \<Longrightarrow> P e \<Longrightarrow> K p e"
  shows "yields K pre m (\<lambda>_ _. True)"
proof -
  have "just K p evs" if "just J p evs" "list_all P evs" for p evs
    using that assms(3) by (induction evs arbitrary: p) auto
  then show ?thesis
    unfolding yields_def
    by (intro every_run_mono [OF every_run_conj [OF assms(1) [unfolded yields_def] assms(2) [unfolded emits_def]]])
       (auto split: sum.splits)
qed

definition quiet_read :: "event \<Rightarrow> bool" where
  "quiet_read e \<longleftrightarrow> quiet e \<and> \<not> cloud_mutation e"

lemma yields_quiet_read: "emits quiet_read m \<Longrightarrow> yields (tick_just known) pre m (\<lambda>_ _. True)"
  by (erule yields_emits) (auto simp: quiet_read_def intro: tick_just_quiet)

lemma emits_quiet_read:
  "emits quiet_read (resolve E L t)" "emits quiet_read (new_clients E creds)"
proof -
  show "emits quiet_read (resolve E L t)"
    by (rule emits_mono [OF emits_resolve])
       (auto simp: mgmt_read_def quiet_read_def quiet_def split: event.splits mgmt_event.splits)
  show "emits quiet_read (new_clients E creds)"
    by (rule emits_new_clients) (simp add: quiet_read_def)
qed

lemma yields_sweep_secret:
  assumes "Mgmt (ListSecrets tenant_namespace (Inr ss)) \<in> set pre" "s \<in> set ss"
  shows "yields (tick_just known) pre (sweep_secret E known s) (\<lambda>_ _. True)"
proof -
  have "tick_just known pre (Mgmt (DelSecret (sec_ns s) (sec_name s) r))"
    if "has_prefix (sec_name s) ''kubernetes-switchcloud-''" "has_suffix (sec_name s) ''-admin-kubeconfig''"
      "trim_suffix (trim_prefix (sec_name s) ''kubernetes-switchcloud-'') ''-admin-kubeconfig'' \<notin> set known"
      "trim_suffix (trim_prefix (sec_name s) ''kubernetes-switchcloud-'') ''-admin-kubeconfig'' \<noteq> ''''" for r
    using that assms
    by (auto simp: tick_just_def is_kubeconfig_secret_name_def tenant_from_secret_name_def
        kubeconfig_name_prefix_def kubeconfig_suffix_def)
  then show ?thesis
    unfolding sweep_secret_def Let_def
    by (intro yields_if yields_ret yields_attempt every_run_call_unit)
       (auto intro!: yields_ret yields_throw)
qed

lemma yields_sweep_secrets: "yields (tick_just known) pre (sweep_orphan_kubeconfig_secrets E known) (\<lambda>_ _. True)"
  unfolding sweep_orphan_kubeconfig_secrets_def
proof (rule yields_check [where R = "\<lambda>p ss. Mgmt (ListSecrets tenant_namespace (Inr ss)) \<in> set p"])
  show "yields (tick_just known) pre (list_secrets E tenant_namespace)
     (\<lambda>p ss. Mgmt (ListSecrets tenant_namespace (Inr ss)) \<in> set p)"
    by (rule yields_call_val) (auto simp: tick_just_def)
next
  fix p ss assume ss: "Mgmt (ListSecrets tenant_namespace (Inr ss)) \<in> set p"
  show "yields (tick_just known) p (foreach ss (sweep_secret E known)) (\<lambda>_ _. True)"
    by (rule yields_foreach, rule yields_sweep_secret) (use ss in auto)
qed

lemma yields_sweep_cycle: "yields (tick_just known) pre (sweep_cycle E L live known) (\<lambda>_ _. True)"
proof -
  have servers: "yields (tick_just known) p (sweep_orphan_nova_servers E c known) (\<lambda>_ _. True)" for p c
    by (rule yields_both [OF yields_keeps [OF keeps_sweep_servers] emits_quiet(2)]) (auto intro: tick_just_quiet)
  have orphans: "yields (tick_just known) p (sweep_orphans E c known (Some (service_exists E live))) (\<lambda>_ _. True)" for p c
    by (rule yields_both [OF yields_sweep_orphans emits_quiet(1)])
       (auto intro: tick_just_quiet asks_tenant_service_exists)
  show ?thesis
    unfolding sweep_cycle_def
    by (rule yields_bind [OF yields_quiet_read [OF emits_go_range]],
        rule yields_or_skip [OF yields_quiet_read [OF emits_quiet_read(1)]],
        rule yields_if, rule yields_ret, simp,
        rule yields_or_skip [OF yields_quiet_read [OF emits_quiet_read(2)]],
        rule yields_or_skip [OF servers], rule yields_or_skip [OF orphans],
        rule yields_or_skip [OF yields_sweep_secrets], rule yields_ret, simp)
qed

text \<open>
  A tick lists the live clusters first and does nothing more when the listing fails or
  shows none; every later change is justified against the clusters listed.
\<close>

definition tick_run :: "event list \<Rightarrow> err + unit \<Rightarrow> bool" where
  "tick_run evs r \<longleftrightarrow>
     (\<exists>x evs'. evs = Mgmt (ListHRs tenant_namespace x) # evs' \<and>
        (case x of
           Inl _ \<Rightarrow> evs' = []
         | Inr hrs \<Rightarrow> (live_clusters hrs = [] \<longrightarrow> evs' = []) \<and> just (tick_just (live_clusters hrs)) [] evs'))"

lemma sweep_tick_runs: "every_run (sweep_tick E L live) tick_run"
proof -
  have step: "every_run (if live_clusters hrs = [] then ret () else sweep_cycle E L live (live_clusters hrs))
     (\<lambda>evs. tick_run (Mgmt (ListHRs tenant_namespace (Inr hrs)) # evs))" for hrs
  proof (rule every_run_if)
    assume "live_clusters hrs = []"
    then show "every_run (ret ()) (\<lambda>evs. tick_run (Mgmt (ListHRs tenant_namespace (Inr hrs)) # evs))"
      by (intro every_run_ret) (auto simp: tick_run_def)
  next
    assume "live_clusters hrs \<noteq> []"
    then show "every_run (sweep_cycle E L live (live_clusters hrs))
      (\<lambda>evs. tick_run (Mgmt (ListHRs tenant_namespace (Inr hrs)) # evs))"
      by (intro every_run_mono [OF yieldsD [OF yields_sweep_cycle]]) (auto simp: tick_run_def)
  qed
  show ?thesis
    unfolding sweep_tick_def or_skip_def
    unfolding list_known_clusters_def
    apply (rule every_run_attempt, rule every_run_check, rule every_run_call_val)
    apply (simp add: every_run_ret tick_run_def)
    apply (simp only: sum.case, rule every_run_ret, simp only: sum.case append_Cons append_Nil append_Nil2, rule step)
    done
qed

section \<open>The cluster finalizer falls only after a sweep\<close>

text \<open>
  \<open>swept\<close>: the load balancers were listed in full, and every one of the cluster was
  deleted. \<open>ksc_gone\<close>: the tenant's object, or the Secret it names, was not found.
\<close>

definition swept :: "event list \<Rightarrow> string \<Rightarrow> bool" where
  "swept pre cluster \<longleftrightarrow>
     (\<exists>c p. Octavia c (ListLBs None p) \<in> set pre \<and> pages_items p = Inr (pages_seen p) \<and>
        (\<forall>b. b \<in> set (pages_seen p) \<and> has_prefix (lb_name b) (managed_name_prefix @ cluster @ ''/'') \<longrightarrow>
           Octavia c (DelLB (lb_id b) None) \<in> set pre))"

lemma sweptI:
  assumes "Octavia c (ListLBs None p) \<in> set evs" "pages_items p = Inr xs"
    and "(\<lambda>b. Octavia c (DelLB (lb_id b) None)) `
      set (filter (\<lambda>b. has_prefix (lb_name b) (managed_name_prefix @ cluster @ ''/'')) xs) \<subseteq> set evs"
  shows "swept evs cluster"
proof -
  from assms(2) have "xs = pages_seen p" by (simp add: pages_items_seen)
  with assms show ?thesis unfolding swept_def by (intro exI [of _ c] exI [of _ p]) auto
qed

definition ksc_gone :: "event list \<Rightarrow> string \<Rightarrow> bool" where
  "ksc_gone pre cluster \<longleftrightarrow>
     (\<exists>a. Mgmt (GetKSC tenant_namespace cluster (Inl a)) \<in> set pre \<and> ae_not_found a) \<or> secret_missing pre cluster"

definition cluster_just :: "hrelease \<Rightarrow> string \<Rightarrow> event list \<Rightarrow> event \<Rightarrow> bool" where
  "cluster_just hr cluster pre e \<longleftrightarrow>
     (cloud_mutation e \<longrightarrow> hr_deleting hr \<and> (\<exists>c. cluster_delete c cluster pre e)) \<and>
     (case e of
        Mgmt (PatchHR ns n fs _) \<Rightarrow> ns = hr_ns hr \<and> n = hr_name hr \<and>
          (if cluster_finalizer_name \<in> set fs
           then \<not> hr_deleting hr \<and> set fs = insert cluster_finalizer_name (set (hr_finalizers hr))
           else hr_deleting hr \<and> set fs = set (hr_finalizers hr) - {cluster_finalizer_name} \<and>
             (swept pre cluster \<or> ksc_gone pre cluster))
      | Mgmt (DelSecret _ _ _) \<Rightarrow> False
      | Tenant _ _ \<Rightarrow> False
      | _ \<Rightarrow> True)"

lemma sweep_cluster_complete:
  "every_run (sweep_cluster_resources E c cluster) (\<lambda>evs r. r = Inr () \<longrightarrow> swept evs cluster)"
proof -
  let ?P = "\<lambda>b. has_prefix (lb_name b) (managed_name_prefix @ cluster @ ''/'')"
  have lb: "every_run (sweep_lb E c b) (\<lambda>evs r. r = Inr () \<longrightarrow> Octavia c (DelLB (lb_id b) None) \<in> set evs)" for b
    unfolding sweep_lb_def
    by (rule every_run_check, rule every_run_mono [OF delete_floating_ip_runs])
       (auto intro!: runs split: sum.splits)
  have loop: "every_run (bind (foreach (filter ?P xs) (sweep_lb E c)) g)
      (\<lambda>evs r. r = Inr () \<longrightarrow> (\<lambda>b. Octavia c (DelLB (lb_id b) None)) ` set (filter ?P xs) \<subseteq> set evs)"
    if "\<And>u. every_run (g u) (\<lambda>evs r. True)" for xs and g :: "unit \<Rightarrow> ('a, unit) lbc"
    by (rule every_run_bind, rule every_run_mono [OF foreach_all [where g = "\<lambda>b. Octavia c (DelLB (lb_id b) None)", OF lb]])
       (auto intro!: every_run_mono [OF that] split: sum.splits)
  have tail: "every_run (check m (find_sg_by_name E c n) (\<lambda>g. case g of None \<Rightarrow> ret () | Some g \<Rightarrow> sweep_sg E c g))
      (\<lambda>evs r. True)" for n and m :: string
    by (rule every_run_mono [OF emits_check [unfolded emits_def, where P = "\<lambda>_. True"]])
       (auto simp: sweep_sg_def emits_def [symmetric] intro!: emit_rules)
  show ?thesis
    unfolding sweep_cluster_resources_def Let_def
  proof (rule every_run_check, rule every_run_call_items)
    fix p :: "lb pager" and xs assume p: "pages_items p = Inr xs"
    show "case Inr xs of
        Inl e \<Rightarrow> Inl (Wrap ''listing LBs for cluster sweep'' e) = Inr () \<longrightarrow> swept [Octavia c (ListLBs None p)] cluster
      | Inr lbs \<Rightarrow> every_run (bind (foreach (filter ?P lbs) (sweep_lb E c)) (\<lambda>_.
          check ''looking up cluster SG for sweep'' (find_sg_by_name E c (cluster_sg_name cluster)) (\<lambda>g.
            case g of None \<Rightarrow> ret () | Some g \<Rightarrow> sweep_sg E c g)))
          (\<lambda>evs' r. r = Inr () \<longrightarrow> swept ([Octavia c (ListLBs None p)] @ evs') cluster)"
      using p by (auto intro!: every_run_mono [OF loop [OF tail]] sweptI [of c p _ xs])
  qed simp
qed

lemma yields_drop_cluster:
  assumes "hr_deleting hr" "swept pre cluster \<or> ksc_gone pre cluster"
  shows "yields (cluster_just hr cluster) pre (drop_cluster_finalizer E hr) (\<lambda>_ _. True)"
  unfolding drop_cluster_finalizer_def
  using assms
  by (intro yields_if yields_ret yields_check [where R = "\<lambda>_ _. True"] yields_call_unit)
     (auto simp: cluster_just_def)

lemma swept_mono: "set pre \<subseteq> set p \<Longrightarrow> swept pre cluster \<Longrightarrow> swept p cluster"
  unfolding swept_def by blast

lemma ksc_gone_mono: "set pre \<subseteq> set p \<Longrightarrow> ksc_gone pre cluster \<Longrightarrow> ksc_gone p cluster"
  unfolding ksc_gone_def secret_missing_def by blast

lemma cluster_just_quiet: "quiet_read e \<Longrightarrow> \<not> (\<exists>t x. e = Tenant t x) \<Longrightarrow> cluster_just hr cluster pre e"
  by (auto simp: cluster_just_def quiet_read_def quiet_def split: event.splits mgmt_event.splits)

lemma yields_quiet_cluster:
  "emits (\<lambda>e. quiet_read e \<and> \<not> (\<exists>t x. e = Tenant t x)) m \<Longrightarrow> yields (cluster_just hr cluster) pre m (\<lambda>_ _. True)"
  by (erule yields_emits) (blast intro: cluster_just_quiet)

lemma emits_quiet_cluster:
  "emits (\<lambda>e. quiet_read e \<and> \<not> (\<exists>t x. e = Tenant t x)) (resolve E L t)"
  "emits (\<lambda>e. quiet_read e \<and> \<not> (\<exists>t x. e = Tenant t x)) (new_clients E creds)"
  "emits (\<lambda>e. quiet_read e \<and> \<not> (\<exists>t x. e = Tenant t x)) (borrow_any_creds E L ns)"
proof -
  show r: "emits (\<lambda>e. quiet_read e \<and> \<not> (\<exists>t x. e = Tenant t x)) (resolve E L t)" for t
    by (rule emits_mono [OF emits_resolve])
       (auto simp: mgmt_read_def quiet_read_def quiet_def split: event.splits mgmt_event.splits)
  show "emits (\<lambda>e. quiet_read e \<and> \<not> (\<exists>t x. e = Tenant t x)) (new_clients E creds)"
    by (rule emits_new_clients) (simp add: quiet_read_def)
  show "emits (\<lambda>e. quiet_read e \<and> \<not> (\<exists>t x. e = Tenant t x)) (borrow_any_creds E L ns)"
    unfolding borrow_any_creds_def borrow_creds_from_def Let_def
    by (intro emit_rules r) (simp_all add: quiet_read_def quiet_def)
qed

lemma yields_sweep_and_drop:
  assumes del: "hr_deleting hr"
  shows "yields (cluster_just hr cluster) pre (sweep_and_drop E cluster hr creds) (\<lambda>_ _. True)"
proof -
  have no_mgmt: "emits (\<lambda>e. case e of Mgmt _ \<Rightarrow> False | Tenant _ _ \<Rightarrow> False | _ \<Rightarrow> True) (sweep_cluster_resources E c cluster)" for c
    unfolding sweep_cluster_resources_def sweep_lb_def sweep_sg_def find_sg_by_name_def delete_floating_ip_def
      find_fip_by_port_def Let_def
    by (intro emit_rules) simp_all
  have sweep: "yields (cluster_just hr cluster) p (sweep_cluster_resources E c cluster) (\<lambda>p' _. swept p' cluster)" for p c
  proof -
    have 1: "yields (cluster_just hr cluster) p (sweep_cluster_resources E c cluster) (\<lambda>_ _. True)"
      by (rule yields_both [OF yields_sweep_cluster no_mgmt])
         (auto simp: cluster_just_def cluster_sweep_just_def del split: event.splits)
    show ?thesis
      unfolding yields_def
      by (rule every_run_mono [OF every_run_conj [OF 1 [unfolded yields_def] sweep_cluster_complete]])
         (auto split: sum.splits intro: swept_mono [rotated])
  qed
  show ?thesis
    unfolding sweep_and_drop_def
    by (rule yields_check [OF yields_quiet_cluster [OF emits_quiet_cluster(2)]], rule yields_check [OF sweep],
        rule yields_drop_cluster [OF del]) simp
qed

definition cluster_run :: "string \<Rightarrow> string \<Rightarrow> event list \<Rightarrow> err + int \<Rightarrow> bool" where
  "cluster_run ns name evs r \<longleftrightarrow>
     (\<exists>x evs'. evs = Mgmt (GetHR ns name x) # evs' \<and>
        (case x of
           Inl a \<Rightarrow> evs' = [] \<and> (r = Inr 0 \<longleftrightarrow> ae_not_found a)
         | Inr hr \<Rightarrow> (str_at (hr_labels hr) app_name_label = '''' \<longrightarrow> evs' = []) \<and>
             just (cluster_just hr (str_at (hr_labels hr) app_name_label)) [] evs'))"

lemma yields_cluster_deleting:
  assumes del: "hr_deleting hr"
  shows "yields (cluster_just hr cluster) pre (attempt (resolve E L cluster) (\<lambda>r. case r of
               Inr cfg \<Rightarrow> sweep_and_drop E cluster hr (cf_creds cfg)
             | Inl e \<Rightarrow>
                 if is_not_found e then
                   bind (borrow_any_creds E L (hr_ns hr)) (\<lambda>found. case found of
                       None \<Rightarrow> drop_cluster_finalizer E hr
                     | Some creds \<Rightarrow> sweep_and_drop E cluster hr creds)
                 else throw (Wrap m e))) (\<lambda>_ _. True)"
proof (rule yields_attempt, rule every_run_mono [OF resolve_runs], intro conjI)
  fix evs r assume run: "resolve_run cluster evs r"
  then show "just (cluster_just hr cluster) pre evs"
    by (intro just_all [where P = mgmt_read])
       (auto simp: resolve_run_def mgmt_read_def cluster_just_def split: event.splits mgmt_event.splits)
  have gone: "ksc_gone (pre @ evs) cluster" if "r = Inl e" "is_not_found e" for e
    using run that by (auto simp: resolve_run_def ksc_gone_def secret_missing_def; blast)
  have drop: "yields (cluster_just hr cluster) p (drop_cluster_finalizer E hr) (\<lambda>_ _. True)"
    if "r = Inl e" "is_not_found e" "set (pre @ evs) \<subseteq> set p" for e p
    by (rule yields_drop_cluster [OF del], rule disjI2, rule ksc_gone_mono [OF that(3) gone [OF that(1,2)]])
  have notfound: "yields (cluster_just hr cluster) (pre @ evs) (bind (borrow_any_creds E L (hr_ns hr)) (\<lambda>found.
       case found of
         None \<Rightarrow> drop_cluster_finalizer E hr
       | Some creds \<Rightarrow> sweep_and_drop E cluster hr creds)) (\<lambda>_ _. True)" if "r = Inl e" "is_not_found e" for e
    by (rule yields_bind [OF yields_quiet_cluster [OF emits_quiet_cluster(3)]], rule yields_option)
       (rule drop [OF that], assumption, rule yields_sweep_and_drop [OF del])
  then show "yields (cluster_just hr cluster) (pre @ evs) (case r of
               Inr cfg \<Rightarrow> sweep_and_drop E cluster hr (cf_creds cfg)
             | Inl e \<Rightarrow>
                 if is_not_found e then
                   bind (borrow_any_creds E L (hr_ns hr)) (\<lambda>found. case found of
                       None \<Rightarrow> drop_cluster_finalizer E hr
                     | Some creds \<Rightarrow> sweep_and_drop E cluster hr creds)
                 else throw (Wrap m e)) (\<lambda>_ _. True)"
    by (auto intro: yields_sweep_and_drop [OF del] yields_throw split: sum.split)
qed

lemma cluster_reconcile_runs: "every_run (cluster_reconcile E L ns name) (cluster_run ns name)"
proof -
  let ?cl = "\<lambda>hr. str_at (hr_labels hr) app_name_label"
  have add: "yields (cluster_just hr (?cl hr)) []
      (check m (patch_hr E (hr_ns hr) (hr_name hr) (hr_finalizers hr @ [cluster_finalizer_name])) (\<lambda>_. ret 0))
      (\<lambda>_ _. True)" if "\<not> hr_deleting hr" for hr and m :: string
    using that by (intro yields_check yields_call_unit yields_ret) (auto simp: cluster_just_def)
  have body: "every_run m (\<lambda>evs. cluster_run ns name (Mgmt (GetHR ns name (Inr hr)) # evs))"
    if "yields (cluster_just hr (?cl hr)) [] m (\<lambda>_ _. True)" "?cl hr \<noteq> ''''" for hr and m :: "('a, int) lbc"
    by (rule every_run_mono [OF yieldsD [OF that(1)]]) (use that(2) in \<open>auto simp: cluster_run_def\<close>)
  show ?thesis
    unfolding cluster_reconcile_def Let_def
    by (rule every_run_attempt, rule every_run_call_val)
       (auto intro!: every_run_ret every_run_throw body add yields_cluster_deleting, auto simp: cluster_run_def)
qed

end
