(* ===== verification/Session.thy ===== *)
theory Session
  imports ServiceController
begin

text \<open>
  \<^verbatim>\<open>internal/multicluster/session.go\<close>: the life of one tenant's session, its work queue and
  its worker. The cluster cache, the informers and client-go's work queue are library code:
  their operations are calls of an environment and events of the trace. A session owns one
  cluster and one queue, named by one id; \<open>se_cancel\<close> is \<^verbatim>\<open>cancel != nil\<close>, and
  \<open>se_stopped\<close> is whether its \<^verbatim>\<open>stopOnce\<close> has fired.
\<close>

section \<open>Objects, calls and events\<close>

record request =
  rq_ns :: string
  rq_name :: string

record session =
  se_tenant :: string
  se_hash :: string
  se_id :: nat
  se_cancel :: bool
  se_stopped :: bool

datatype command =
    SpawnCluster nat
  | Cancel nat
  | SpawnResync nat
  | SpawnWorker nat
  | Drain nat
  | QAdd nat request
  | QAddRateLimited nat request
  | QAddAfter nat request int
  | QForget nat request
  | QDone nat request

datatype mc_event =
    SecretInformer "api_err option"
  | SecretHandler "api_err option"
  | TenantSecrets "api_err + secret list"
  | ParseConfig string "api_err option"
  | NewCluster string "api_err + nat"
  | WaitSync nat bool
  | ServiceInformer nat "api_err option"
  | AddHandler nat "api_err option"
  | ListServices nat "api_err + service list"
  | QGet nat "request option"
  | Do command
  | Handled event

record 'w mc_env =
  mc_secret_informer :: "'w \<Rightarrow> api_err option \<times> 'w"
  mc_secret_handler :: "'w \<Rightarrow> api_err option \<times> 'w"
  mc_secrets :: "'w \<Rightarrow> (api_err + secret list) \<times> 'w"
  mc_parse :: "string \<Rightarrow> 'w \<Rightarrow> api_err option \<times> 'w"
  mc_cluster :: "string \<Rightarrow> 'w \<Rightarrow> (api_err + nat) \<times> 'w"
  mc_sync :: "nat \<Rightarrow> 'w \<Rightarrow> bool \<times> 'w"
  mc_informer :: "nat \<Rightarrow> 'w \<Rightarrow> api_err option \<times> 'w"
  mc_handler :: "nat \<Rightarrow> 'w \<Rightarrow> api_err option \<times> 'w"
  mc_services :: "nat \<Rightarrow> 'w \<Rightarrow> (api_err + service list) \<times> 'w"
  mc_get :: "nat \<Rightarrow> 'w \<Rightarrow> request option \<times> 'w"
  mc_do :: "command \<Rightarrow> 'w \<Rightarrow> unit \<times> 'w"
  mc_seed :: "'w \<Rightarrow> nat list \<times> 'w"

type_synonym ('w, 'a) mc = "('w, mc_event, 'a) io"

definition perform :: "'w mc_env \<Rightarrow> command \<Rightarrow> ('w, unit) mc" where
  "perform M x = call (mc_do M x) (\<lambda>_. Do x)"

lemma every_run_perform [runs]: "Q [Do x] (Inr ()) \<Longrightarrow> every_run (perform M x) Q"
  by (simp add: perform_def every_run_call)

lemma emits_perform [emit_rules]: "P (Do x) \<Longrightarrow> emits P (perform M x)"
  by (simp add: perform_def emits_call)

section \<open>Start and stop\<close>

definition new_session :: "string \<Rightarrow> string \<Rightarrow> nat \<Rightarrow> session" where
  "new_session tenant hash i =
     \<lparr>se_tenant = tenant, se_hash = hash, se_id = i, se_cancel = False, se_stopped = False\<rparr>"

text \<open>
  \<open>Start\<close> answers the session with its cancel function set, and the error if it failed;
  every failure cancels what was spawned.
\<close>

definition start_failed :: "'w mc_env \<Rightarrow> session \<Rightarrow> err \<Rightarrow> ('w, session \<times> err option) mc" where
  "start_failed M s e = bind (perform M (Cancel (se_id s))) (\<lambda>_. ret (s, Some e))"

definition session_start :: "'w mc_env \<Rightarrow> session \<Rightarrow> ('w, session \<times> err option) mc" where
  "session_start M s0 =
     (let s = s0\<lparr>se_cancel := True\<rparr>; i = se_id s0 in
      bind (perform M (SpawnCluster i)) (\<lambda>_.
      bind (call (mc_sync M i) (WaitSync i)) (\<lambda>synced.
        if \<not> synced then
          start_failed M s (Msg (''tenant '' @ quoted (se_tenant s) @ '' cache failed to sync within 1m30s''))
        else attempt (call_unit (mc_informer M i) (ServiceInformer i)) (\<lambda>r. case r of
            Inl e \<Rightarrow> start_failed M s (Wrap (''getting Service informer for tenant '' @ quoted (se_tenant s)) e)
          | Inr _ \<Rightarrow> attempt (call_unit (mc_handler M i) (AddHandler i)) (\<lambda>r. case r of
              Inl e \<Rightarrow> start_failed M s (Wrap (''registering Service event handler for tenant '' @ quoted (se_tenant s)) e)
            | Inr _ \<Rightarrow>
                bind (perform M (SpawnResync i)) (\<lambda>_.
                bind (perform M (SpawnWorker i)) (\<lambda>_.
                ret (s, None))))))))"

definition session_stop :: "'w mc_env \<Rightarrow> session \<Rightarrow> ('w, session) mc" where
  "session_stop M s =
     (if se_stopped s then ret s
      else bind (if se_cancel s then perform M (Cancel (se_id s)) else ret ()) (\<lambda>_.
           bind (perform M (Drain (se_id s))) (\<lambda>_.
           ret (s\<lparr>se_stopped := True\<rparr>))))"

section \<open>Filling the queue\<close>

definition has_string :: "string list \<Rightarrow> string \<Rightarrow> bool" where
  "has_string xs s = list_ex (\<lambda>x. x = s) xs"

definition request_of :: "service \<Rightarrow> request" where
  "request_of svc = \<lparr>rq_ns = s_ns svc, rq_name = s_name svc\<rparr>"

definition enqueue_service :: "'w mc_env \<Rightarrow> session \<Rightarrow> string \<Rightarrow> service \<Rightarrow> ('w, unit) mc" where
  "enqueue_service M s fin svc =
     (if s_type svc \<noteq> ''LoadBalancer'' \<and> \<not> has_string (s_finalizers svc) fin then ret ()
      else perform M (QAdd (se_id s) (request_of svc)))"

definition enqueue_all_lb_services :: "'w mc_env \<Rightarrow> session \<Rightarrow> string \<Rightarrow> ('w, unit) mc" where
  "enqueue_all_lb_services M s fin =
     check (''listing Services for tenant '' @ quoted (se_tenant s))
       (call_val (mc_services M (se_id s)) (ListServices (se_id s))) (\<lambda>svcs.
       foreach svcs (enqueue_service M s fin))"

text \<open>What an informer hands to its event handler.\<close>

datatype informer_obj = ObjService service | ObjTombstone "service option" | ObjOther

definition enqueue_from_object :: "'w mc_env \<Rightarrow> session \<Rightarrow> informer_obj \<Rightarrow> ('w, unit) mc" where
  "enqueue_from_object M s obj =
     (case obj of
        ObjService svc \<Rightarrow> perform M (QAdd (se_id s) (request_of svc))
      | ObjTombstone (Some svc) \<Rightarrow> perform M (QAdd (se_id s) (request_of svc))
      | ObjTombstone None \<Rightarrow> ret ()
      | ObjOther \<Rightarrow> ret ())"

text \<open>One tick of \<open>runResync\<close>: an error is logged.\<close>

definition resync_tick :: "'w mc_env \<Rightarrow> session \<Rightarrow> ('w, unit) mc" where
  "resync_tick M s = attempt (enqueue_all_lb_services M s finalizer_name) (\<lambda>_. ret ())"

section \<open>The worker\<close>

text \<open>A program with its own events, run inside one with others.\<close>

definition embed :: "('e \<Rightarrow> 'f) \<Rightarrow> ('w, 'e, 'a) io \<Rightarrow> ('w, 'f, 'a) io" where
  "embed g m s =
     (case m \<lparr>world = world s, trace = []\<rparr> of
        (r, s') \<Rightarrow> (r, \<lparr>world = world s', trace = trace s @ map g (trace s')\<rparr>))"

definition process_next ::
  "'w mc_env \<Rightarrow> session \<Rightarrow> (request \<Rightarrow> ('w, event, int) io) \<Rightarrow> ('w, bool) mc" where
  "process_next M s reconciler =
     bind (call (mc_get M (se_id s)) (QGet (se_id s))) (\<lambda>got.
       case got of
         None \<Rightarrow> ret False
       | Some item \<Rightarrow>
           bind (attempt (embed Handled (reconciler item)) (\<lambda>r. case r of
               Inl e \<Rightarrow> perform M (QAddRateLimited (se_id s) item)
             | Inr after \<Rightarrow>
                 if after > 0 then
                   bind (perform M (QForget (se_id s) item)) (\<lambda>_.
                   perform M (QAddAfter (se_id s) item after))
                 else perform M (QForget (se_id s) item))) (\<lambda>_.
           bind (perform M (QDone (se_id s) item)) (\<lambda>_. ret True)))"

text \<open>The worker loop until the queue is shut down, or the fuel ends.\<close>

fun run_worker :: "nat \<Rightarrow> 'w mc_env \<Rightarrow> session \<Rightarrow> (request \<Rightarrow> ('w, event, int) io) \<Rightarrow> ('w, bool) mc" where
  "run_worker 0 M s reconciler = ret True"
| "run_worker (Suc n) M s reconciler =
     bind (process_next M s reconciler) (\<lambda>alive. if alive then run_worker n M s reconciler else ret False)"

section \<open>What a session does\<close>

definition no_worker :: "mc_event \<Rightarrow> bool" where
  "no_worker e = (case e of Do (SpawnWorker _) \<Rightarrow> False | Do (SpawnResync _) \<Rightarrow> False | _ \<Rightarrow> True)"

text \<open>
  A start that succeeds has synced, registered its handler and spawned one worker and one
  resync loop, last; one that fails has cancelled, last, and spawned neither.
\<close>

definition start_run :: "session \<Rightarrow> mc_event list \<Rightarrow> err + session \<times> err option \<Rightarrow> bool" where
  "start_run s0 evs r \<longleftrightarrow>
     (\<exists>e. r = Inr (s0\<lparr>se_cancel := True\<rparr>, e) \<and>
        (case e of
           None \<Rightarrow> evs = [Do (SpawnCluster (se_id s0)), WaitSync (se_id s0) True, ServiceInformer (se_id s0) None,
             AddHandler (se_id s0) None, Do (SpawnResync (se_id s0)), Do (SpawnWorker (se_id s0))]
         | Some _ \<Rightarrow> (\<exists>evs'. evs = evs' @ [Do (Cancel (se_id s0))] \<and> list_all no_worker evs')))"

lemma session_start_runs: "every_run (session_start M s0) (start_run s0)"
  unfolding session_start_def start_failed_def Let_def
  by (auto intro!: runs simp: start_run_def no_worker_def)

text \<open>A stop drains the queue once; on a stopped session it does nothing.\<close>

definition stop_run :: "session \<Rightarrow> mc_event list \<Rightarrow> err + session \<Rightarrow> bool" where
  "stop_run s evs r \<longleftrightarrow>
     r = Inr (s\<lparr>se_stopped := True\<rparr>) \<and>
     evs = (if se_stopped s then []
            else (if se_cancel s then [Do (Cancel (se_id s))] else []) @ [Do (Drain (se_id s))])"

lemma session_stop_runs: "every_run (session_stop M s) (stop_run s)"
  unfolding session_stop_def by (auto intro!: runs simp: stop_run_def)

definition wanted :: "string \<Rightarrow> service \<Rightarrow> bool" where
  "wanted fin svc \<longleftrightarrow> s_type svc = ''LoadBalancer'' \<or> fin \<in> set (s_finalizers svc)"

lemma has_string_iff [simp]: "has_string xs s \<longleftrightarrow> s \<in> set xs"
  by (auto simp: has_string_def list_ex_iff)

lemma enqueue_loop:
  "every_run (foreach svcs (enqueue_service M s fin)) (\<lambda>evs r.
     r = Inr () \<and> evs = map (\<lambda>svc. Do (QAdd (se_id s) (request_of svc))) (filter (wanted fin) svcs))"
proof (induction svcs)
  case (Cons svc svcs)
  have "every_run (enqueue_service M s fin svc) (\<lambda>evs r. r = Inr () \<and>
      evs = (if wanted fin svc then [Do (QAdd (se_id s) (request_of svc))] else []))"
    unfolding enqueue_service_def wanted_def by (auto intro!: runs)
  then show ?case
    unfolding foreach.simps
    by (rule every_run_bind [OF every_run_mono]) (auto intro!: every_run_mono [OF Cons])
qed (simp add: every_run_ret)

text \<open>The resync and the configuration watch enqueue exactly the Services the reconciler claims.\<close>

definition enqueue_run :: "session \<Rightarrow> string \<Rightarrow> mc_event list \<Rightarrow> err + unit \<Rightarrow> bool" where
  "enqueue_run s fin evs r \<longleftrightarrow>
     (\<exists>x evs'. evs = ListServices (se_id s) x # evs' \<and>
        (case x of
           Inl _ \<Rightarrow> evs' = [] \<and> (\<exists>e. r = Inl e)
         | Inr svcs \<Rightarrow> r = Inr () \<and>
             evs' = map (\<lambda>svc. Do (QAdd (se_id s) (request_of svc))) (filter (wanted fin) svcs)))"

lemma enqueue_all_runs: "every_run (enqueue_all_lb_services M s fin) (enqueue_run s fin)"
  unfolding enqueue_all_lb_services_def
  by (rule every_run_check, rule every_run_call_val)
     (auto intro!: every_run_mono [OF enqueue_loop] simp: enqueue_run_def)

lemma wanted_claims: "wanted finalizer_name svc \<longleftrightarrow> claims svc"
  by (simp add: wanted_def claims_def)

lemma every_run_embed [runs]:
  fixes m :: "('c, 'd, 'a) io" and g :: "'d \<Rightarrow> 'b"
  assumes "every_run m (\<lambda>evs. Q (map g evs))"
  shows "every_run (embed g m) Q"
  unfolding every_run_def wp_def
proof
  fix s :: "('c, 'b) st"
  obtain r s' where m: "m \<lparr>world = world s, trace = []\<rparr> = (r, s')" by fastforce
  with every_runD [OF assms, of "\<lparr>world = world s, trace = []\<rparr>"] have "Q (map g (trace s')) r" by auto
  then show "case embed g m s of (r, s') \<Rightarrow> \<exists>evs. trace s' = trace s @ evs \<and> Q evs r"
    by (simp add: embed_def m)
qed

section \<open>The worker against any reconciler\<close>

text \<open>
  The interface between the worker and its reconciler: a handler of requests whose runs
  satisfy \<open>run\<close>. A worker step takes one request, runs the handler on it once, and answers
  the queue: retry with back-off after an error, again after the asked time, or forget; and
  then done, always.
\<close>

definition queue_answer :: "nat \<Rightarrow> request \<Rightarrow> err + int \<Rightarrow> mc_event list" where
  "queue_answer i q r =
     (case r of
        Inl _ \<Rightarrow> [Do (QAddRateLimited i q)]
      | Inr after \<Rightarrow> if after > 0 then [Do (QForget i q), Do (QAddAfter i q after)] else [Do (QForget i q)])
     @ [Do (QDone i q)]"

definition step_block :: "(request \<Rightarrow> event list \<Rightarrow> err + int \<Rightarrow> bool) \<Rightarrow> nat \<Rightarrow> mc_event list \<Rightarrow> bool" where
  "step_block run i evs \<longleftrightarrow>
     (\<exists>q hs r. run q hs r \<and> evs = QGet i (Some q) # map Handled hs @ queue_answer i q r)"

fun worker_trace :: "(request \<Rightarrow> event list \<Rightarrow> err + int \<Rightarrow> bool) \<Rightarrow> nat \<Rightarrow> nat \<Rightarrow> mc_event list \<Rightarrow> bool \<Rightarrow> bool" where
  "worker_trace run i 0 evs alive \<longleftrightarrow> evs = [] \<and> alive"
| "worker_trace run i (Suc n) evs alive \<longleftrightarrow>
     evs = [QGet i None] \<and> \<not> alive \<or>
     (\<exists>evs1 evs2. evs = evs1 @ evs2 \<and> step_block run i evs1 \<and> worker_trace run i n evs2 alive)"

locale request_handler =
  fixes handle :: "request \<Rightarrow> ('w, event, int) io"
    and run :: "request \<Rightarrow> event list \<Rightarrow> err + int \<Rightarrow> bool"
  assumes handle_run: "every_run (handle q) (run q)"
begin

lemma process_next_runs:
  "every_run (process_next M s handle) (\<lambda>evs r.
     evs = [QGet (se_id s) None] \<and> r = Inr False \<or> step_block run (se_id s) evs \<and> r = Inr True)"
proof -
  have block: "every_run (bind (attempt (embed Handled (handle q)) (\<lambda>r. case r of
               Inl e \<Rightarrow> perform M (QAddRateLimited (se_id s) q)
             | Inr after \<Rightarrow>
                 if after > 0 then
                   bind (perform M (QForget (se_id s) q)) (\<lambda>_.
                   perform M (QAddAfter (se_id s) q after))
                 else perform M (QForget (se_id s) q))) (\<lambda>_.
           bind (perform M (QDone (se_id s) q)) (\<lambda>_. ret True)))
      (\<lambda>evs r. (\<exists>hs x. run q hs x \<and> evs = map Handled hs @ queue_answer (se_id s) q x) \<and> r = Inr True)" for q
    by (rule every_run_bind, rule every_run_attempt, rule every_run_embed, rule every_run_mono [OF handle_run])
       (auto intro!: runs simp: queue_answer_def split: sum.splits; fastforce)
  show ?thesis
    unfolding process_next_def
    by (rule every_run_bind, rule every_run_call)
       (auto intro!: every_run_ret every_run_mono [OF block] simp: step_block_def split: option.splits)
qed

lemma run_worker_runs:
  "every_run (run_worker n M s handle) (\<lambda>evs r. \<exists>alive. r = Inr alive \<and> worker_trace run (se_id s) n evs alive)"
proof (induction n)
  case (Suc n)
  show ?case
    unfolding run_worker.simps
    by (rule every_run_bind, rule every_run_mono [OF process_next_runs])
       (auto intro!: every_run_ret every_run_mono [OF Suc])
qed (auto intro: every_run_ret)

end

text \<open>The tenant's Service reconciler is such a handler.\<close>

interpretation service_worker: request_handler
  "\<lambda>q. reconcile E L tenant (rq_ns q) (rq_name q)" "\<lambda>q. reconcile_run tenant (rq_ns q) (rq_name q)"
  for E L tenant
  by unfold_locales (rule reconcile_runs)

end
