(* ===== verification/Manager.thy ===== *)
theory Manager
  imports Session
begin

text \<open>
  \<^verbatim>\<open>internal/multicluster/manager.go\<close> and \<^verbatim>\<open>internal/controller/ksc_watcher.go\<close>: the set of
  live sessions, kept in step with the kubeconfig Secrets of the management cluster. The map
  \<^verbatim>\<open>sessions\<close> is an association list; the hash of a kubeconfig is a parameter. The
  goroutines of a phase run one after the other in an order the environment chooses; the
  step relation at the end lets passes, shutdown and lookups interleave at every lock.
\<close>

section \<open>The desired sessions\<close>

record snapshot =
  sp_kubeconfig :: string
  sp_hash :: string

definition kubeconfig_secret_key :: string where
  "kubeconfig_secret_key = ''super-admin.conf''"

definition secret_tenant :: "secret \<Rightarrow> string" where
  "secret_tenant s = tenant_from_secret_name (sec_name s)"

definition secret_kubeconfig :: "secret \<Rightarrow> string" where
  "secret_kubeconfig s = (case sec_data s kubeconfig_secret_key of None \<Rightarrow> '''' | Some k \<Rightarrow> k)"

definition desired_sessions :: "(string \<Rightarrow> string) \<Rightarrow> secret list \<Rightarrow> (string \<times> snapshot) list" where
  "desired_sessions hash secrets =
     fold (\<lambda>s desired.
       if \<not> is_kubeconfig_secret_name (sec_name s) then desired
       else if secret_tenant s = '''' then desired
       else if secret_kubeconfig s = '''' then desired
       else AList.update (secret_tenant s)
         \<lparr>sp_kubeconfig = secret_kubeconfig s, sp_hash = hash (secret_kubeconfig s)\<rparr> desired) secrets []"

section \<open>The phases of a pass\<close>

text \<open>Phase 1: the sessions to stop, taken off the map, and the tenants to build.\<close>

definition is_stale :: "(string \<times> snapshot) list \<Rightarrow> string \<times> session \<Rightarrow> bool" where
  "is_stale desired ts =
     (case map_of desired (fst ts) of None \<Rightarrow> True | Some w \<Rightarrow> sp_hash w \<noteq> se_hash (snd ts))"

definition stale_sessions :: "(string \<times> snapshot) list \<Rightarrow> (string \<times> session) list \<Rightarrow> session list" where
  "stale_sessions desired sessions = map snd (filter (is_stale desired) sessions)"

definition kept_sessions :: "(string \<times> snapshot) list \<Rightarrow> (string \<times> session) list \<Rightarrow> (string \<times> session) list" where
  "kept_sessions desired sessions = filter (\<lambda>ts. \<not> is_stale desired ts) sessions"

definition to_build :: "(string \<times> snapshot) list \<Rightarrow> (string \<times> session) list \<Rightarrow> (string \<times> snapshot) list" where
  "to_build desired kept = filter (\<lambda>(tenant, _). map_of kept tenant = None) desired"

text \<open>Phase 2: stop; phase 3: build and start.\<close>

definition stop_one :: "'w mc_env \<Rightarrow> session \<Rightarrow> ('w, unit) mc" where
  "stop_one M s = bind (session_stop M s) (\<lambda>_. ret ())"

definition build_session :: "'w mc_env \<Rightarrow> string \<Rightarrow> string \<Rightarrow> string \<Rightarrow> ('w, session) mc" where
  "build_session M tenant kubeconfig hash =
     check (''parsing kubeconfig for tenant '' @ quoted tenant)
       (call_unit (mc_parse M kubeconfig) (ParseConfig kubeconfig)) (\<lambda>_.
     check (''building cluster.Cluster for tenant '' @ quoted tenant)
       (call_val (mc_cluster M kubeconfig) (NewCluster kubeconfig)) (\<lambda>i.
     ret (new_session tenant hash i)))"

definition build_one :: "'w mc_env \<Rightarrow> string \<times> snapshot \<Rightarrow> ('w, string \<times> session option) mc" where
  "build_one M tw =
     (case tw of (tenant, want) \<Rightarrow>
       attempt (build_session M tenant (sp_kubeconfig want) (sp_hash want)) (\<lambda>r. case r of
           Inl e \<Rightarrow> ret (tenant, None)
         | Inr s0 \<Rightarrow> bind (session_start M s0) (\<lambda>(s, e). case e of
               Some _ \<Rightarrow> bind (stop_one M s) (\<lambda>_. ret (tenant, None))
             | None \<Rightarrow> ret (tenant, Some s))))"

fun build_all :: "'w mc_env \<Rightarrow> (string \<times> snapshot) list \<Rightarrow> ('w, (string \<times> session option) list) mc" where
  "build_all M [] = ret []"
| "build_all M (tw # tws) = bind (build_one M tw) (\<lambda>r. bind (build_all M tws) (\<lambda>rs. ret (r # rs)))"

text \<open>Phase 4: publish; a tenant that meanwhile has a session keeps it.\<close>

definition publish ::
  "'w mc_env \<Rightarrow> string \<times> session option \<Rightarrow> (string \<times> session) list \<Rightarrow> ('w, (string \<times> session) list) mc" where
  "publish M r sessions =
     (case r of
        (tenant, None) \<Rightarrow> ret sessions
      | (tenant, Some s) \<Rightarrow>
          if map_of sessions tenant \<noteq> None then bind (stop_one M s) (\<lambda>_. ret sessions)
          else ret (AList.update tenant s sessions))"

definition mc_range :: "'w mc_env \<Rightarrow> 'a list \<Rightarrow> ('w, 'a list) mc" where
  "mc_range M xs = bind (draw (mc_seed M)) (\<lambda>ns. ret (pick_order ns xs))"

definition reconcile_all ::
  "'w mc_env \<Rightarrow> (string \<Rightarrow> string) \<Rightarrow> (string \<times> session) list \<Rightarrow> ('w, (string \<times> session) list) mc" where
  "reconcile_all M hash sessions =
     check ''listing tenant Secrets'' (call_val (mc_secrets M) TenantSecrets) (\<lambda>secrets.
       let desired = desired_sessions hash secrets;
           kept = kept_sessions desired sessions
       in bind (mc_range M (stale_sessions desired sessions)) (\<lambda>stops.
          bind (foreach stops (stop_one M)) (\<lambda>_.
          bind (mc_range M (to_build desired kept)) (\<lambda>builds.
          bind (build_all M builds) (\<lambda>results.
          fold_io results (publish M) kept)))))"

section \<open>The other operations\<close>

definition tenant_client :: "(string \<times> session) list \<Rightarrow> string \<Rightarrow> nat option" where
  "tenant_client sessions tenant = map_option se_id (map_of sessions tenant)"

definition tenants_of :: "(string \<times> session) list \<Rightarrow> string list" where
  "tenants_of sessions = map fst sessions"

definition enqueue_all_for_tenant :: "'w mc_env \<Rightarrow> (string \<times> session) list \<Rightarrow> string \<Rightarrow> ('w, unit) mc" where
  "enqueue_all_for_tenant M sessions tenant =
     (case map_of sessions tenant of
        None \<Rightarrow> ret ()
      | Some s \<Rightarrow> enqueue_all_lb_services M s finalizer_name)"

definition ksc_watch :: "'w mc_env \<Rightarrow> (string \<times> session) list \<Rightarrow> request \<Rightarrow> ('w, unit) mc" where
  "ksc_watch M sessions q =
     (if rq_ns q \<noteq> tenant_namespace then ret ()
      else if rq_name q = '''' then ret ()
      else check (''enqueueing tenant '' @ quoted (rq_name q) @ '' after KSC change'')
             (enqueue_all_for_tenant M sessions (rq_name q)) ret)"

definition stop_all :: "'w mc_env \<Rightarrow> (string \<times> session) list \<Rightarrow> ('w, (string \<times> session) list) mc" where
  "stop_all M sessions =
     bind (mc_range M (map snd sessions)) (\<lambda>snapshot.
     bind (foreach snapshot (stop_one M)) (\<lambda>_. ret []))"

text \<open>
  \<open>Start\<close>: the initial pass, then one pass per wake-up or tick, \<open>n\<close> of them before the
  parent context ends, and the deferred \<open>stopAll\<close>. An error of a later pass is logged; it
  comes from the listing, before the map is touched.
\<close>

definition wake_pass ::
  "'w mc_env \<Rightarrow> (string \<Rightarrow> string) \<Rightarrow> (string \<times> session) list \<Rightarrow> ('w, (string \<times> session) list) mc" where
  "wake_pass M hash sessions =
     attempt (reconcile_all M hash sessions) (\<lambda>r. case r of Inl _ \<Rightarrow> ret sessions | Inr after \<Rightarrow> ret after)"

fun wake_loop ::
  "'w mc_env \<Rightarrow> (string \<Rightarrow> string) \<Rightarrow> nat \<Rightarrow> (string \<times> session) list \<Rightarrow> ('w, (string \<times> session) list) mc" where
  "wake_loop M hash 0 sessions = ret sessions"
| "wake_loop M hash (Suc n) sessions = bind (wake_pass M hash sessions) (wake_loop M hash n)"

definition manager_start :: "'w mc_env \<Rightarrow> (string \<Rightarrow> string) \<Rightarrow> nat \<Rightarrow> ('w, unit) mc" where
  "manager_start M hash n =
     check ''getting Secret informer'' (call_unit (mc_secret_informer M) SecretInformer) (\<lambda>_.
     check ''registering Secret event handler'' (call_unit (mc_secret_handler M) SecretHandler) (\<lambda>_.
     attempt (reconcile_all M hash []) (\<lambda>r. case r of
         Inl e \<Rightarrow> bind (stop_all M []) (\<lambda>_. throw (Wrap ''initial Session reconcile'' e))
       | Inr sessions \<Rightarrow>
           bind (wake_loop M hash n sessions) (\<lambda>after.
           bind (stop_all M after) (\<lambda>_. ret ())))))"

section \<open>What a pass leaves\<close>

text \<open>
  The invariant of the map: one entry per tenant, under its own name, started and not stopped.
\<close>

definition sessions_ok :: "(string \<times> session) list \<Rightarrow> bool" where
  "sessions_ok sessions \<longleftrightarrow> distinct (map fst sessions) \<and>
     list_all (\<lambda>(t, s). se_tenant s = t \<and> se_cancel s \<and> \<not> se_stopped s) sessions"

definition stop_events :: "session \<Rightarrow> mc_event list" where
  "stop_events s = [Do (Cancel (se_id s)), Do (Drain (se_id s))]"

text \<open>A tenant's entry after the pass: a session of the wanted kubeconfig that was started.\<close>

definition fresh_entry :: "mc_event list \<Rightarrow> string \<Rightarrow> snapshot \<Rightarrow> session option \<Rightarrow> bool" where
  "fresh_entry evs t w x =
     (case x of
        None \<Rightarrow> True
      | Some s \<Rightarrow> s = (new_session t (sp_hash w) (se_id s))\<lparr>se_cancel := True\<rparr> \<and>
          NewCluster (sp_kubeconfig w) (Inr (se_id s)) \<in> set evs \<and> Do (SpawnWorker (se_id s)) \<in> set evs)"

definition entry_after ::
  "mc_event list \<Rightarrow> (string \<times> snapshot) list \<Rightarrow> (string \<times> session) list \<Rightarrow> string \<Rightarrow> session option \<Rightarrow> bool" where
  "entry_after evs desired sessions t x =
     (case map_of desired t of
        None \<Rightarrow> x = None
      | Some w \<Rightarrow> (case map_of sessions t of
            Some s \<Rightarrow> if se_hash s = sp_hash w then x = Some s else fresh_entry evs t w x
          | None \<Rightarrow> fresh_entry evs t w x))"

definition pass_run :: "(string \<Rightarrow> string) \<Rightarrow> (string \<times> session) list \<Rightarrow> mc_event list \<Rightarrow> err + (string \<times> session) list \<Rightarrow> bool" where
  "pass_run hash sessions evs r \<longleftrightarrow>
     (\<exists>x evs'. evs = TenantSecrets x # evs' \<and>
        (case x of
           Inl _ \<Rightarrow> evs' = [] \<and> (\<exists>e. r = Inl e)
         | Inr secrets \<Rightarrow>
             (\<exists>stops evs2 after. r = Inr after \<and> sessions_ok after \<and>
                evs' = concat (map stop_events stops) @ evs2 \<and>
                mset stops = mset (stale_sessions (desired_sessions hash secrets) sessions) \<and>
                (\<forall>t. entry_after evs2 (desired_sessions hash secrets) sessions t (map_of after t)))))"

lemma every_run_mc_range [runs]: "(\<And>ns. Q [] (Inr (pick_order ns xs))) \<Longrightarrow> every_run (mc_range M xs) Q"
  by (auto simp: mc_range_def intro!: runs)

lemma every_run_stop_one [runs]:
  "se_cancel s \<Longrightarrow> \<not> se_stopped s \<Longrightarrow> Q (stop_events s) (Inr ()) \<Longrightarrow> every_run (stop_one M s) Q"
  unfolding stop_one_def
  by (rule every_run_bind, rule every_run_mono [OF session_stop_runs])
     (simp add: stop_run_def stop_events_def every_run_ret)

lemma stop_loop:
  assumes "list_all (\<lambda>s. se_cancel s \<and> \<not> se_stopped s) xs"
  shows "every_run (foreach xs (stop_one M)) (\<lambda>evs r. r = Inr () \<and> evs = concat (map stop_events xs))"
  using assms
proof (induction xs)
  case (Cons s xs)
  then show ?case
    by (auto intro!: every_run_bind every_run_stop_one every_run_mono [OF Cons.IH])
qed (simp add: every_run_ret)

text \<open>The results of phase 3, one per tenant built.\<close>

definition result_ok :: "mc_event list \<Rightarrow> string \<times> snapshot \<Rightarrow> string \<times> session option \<Rightarrow> bool" where
  "result_ok evs tw r \<longleftrightarrow> fst r = fst tw \<and> fresh_entry evs (fst tw) (snd tw) (snd r)"

lemma fresh_entry_mono: "fresh_entry evs t w x \<Longrightarrow> set evs \<subseteq> set evs' \<Longrightarrow> fresh_entry evs' t w x"
  by (auto simp: fresh_entry_def split: option.splits)

definition built :: "string \<times> snapshot \<Rightarrow> mc_event list \<Rightarrow> err + string \<times> session option \<Rightarrow> bool" where
  "built tw evs r \<longleftrightarrow> (\<exists>x. r = Inr x \<and> result_ok evs tw x)"

lemma built_None [simp]: "built (t, w) evs (Inr (t, None))"
  by (simp add: built_def result_ok_def fresh_entry_def)

lemma build_one_runs: "every_run (build_one M tw) (built tw)"
proof -
  obtain t w where tw: "tw = (t, w)" by (cases tw)
  have start: "every_run (bind (session_start M (new_session t (sp_hash w) i)) (\<lambda>(s, e). case e of
               Some _ \<Rightarrow> bind (stop_one M s) (\<lambda>_. ret (t, None))
             | None \<Rightarrow> ret (t, Some s)))
      (\<lambda>evs. built tw (ParseConfig k x # NewCluster (sp_kubeconfig w) (Inr i) # evs))" for i k x
    by (rule every_run_bind, rule every_run_mono [OF session_start_runs])
       (auto simp: start_run_def tw built_def result_ok_def fresh_entry_def new_session_def
          intro!: runs split: option.splits)
  show ?thesis
    unfolding build_one_def build_session_def tw prod.case
    by (auto intro!: runs simp: start [unfolded tw])
qed

lemma build_all_runs:
  "every_run (build_all M tws) (\<lambda>evs r. \<exists>rs. r = Inr rs \<and> list_all2 (result_ok evs) tws rs)"
proof (induction tws)
  case (Cons tw tws)
  have mono: "result_ok evs tw x \<Longrightarrow> result_ok (evs @ evs') tw x"
    "result_ok evs tw x \<Longrightarrow> result_ok (evs' @ evs) tw x" for evs evs' tw x
    by (auto simp: result_ok_def elim: fresh_entry_mono)
  have weaken: "list_all2 (result_ok (evs @ evs')) tws rs" if "list_all2 (result_ok evs') tws rs" for evs evs' rs
    using that by (rule list_all2_mono) (rule mono)
  have rest: "every_run (bind (build_all M tws) (\<lambda>rs. ret (x # rs)))
      (\<lambda>evs' r. \<exists>rs. r = Inr rs \<and> list_all2 (result_ok (evs @ evs')) (tw # tws) rs)"
    if "result_ok evs tw x" for evs x
    by (rule every_run_bind, rule every_run_mono [OF Cons])
       (use that in \<open>auto intro!: every_run_ret weaken mono(1)\<close>)
  show ?case
    unfolding build_all.simps
    by (rule every_run_bind, rule every_run_mono [OF build_one_runs])
       (use rest in \<open>auto simp: built_def simp del: list_all2_Cons1\<close>)
qed (simp add: every_run_ret)

lemma publish_loop:
  assumes "list_all2 (result_ok evs0) tws rs" "distinct (map fst tws)"
    and "list_all (\<lambda>tw. map_of kept (fst tw) = None) tws"
  shows "every_run (fold_io rs (publish M) kept) (\<lambda>evs r. evs = [] \<and>
     r = Inr (fold (\<lambda>(t, x) m. case x of None \<Rightarrow> m | Some s \<Rightarrow> AList.update t s m) rs kept))"
  using assms
proof (induction tws rs arbitrary: kept rule: list_all2_induct)
  case (Cons tw tws r rs)
  obtain t x where r: "r = (t, x)" by (cases r)
  with Cons.hyps Cons.prems have t: "fst tw = t" "map_of kept t = None" "t \<notin> fst ` set tws"
    by (auto simp: result_ok_def split: prod.splits)
  have step: "every_run (publish M r kept) (\<lambda>evs y. evs = [] \<and>
      y = Inr (case x of None \<Rightarrow> kept | Some s \<Rightarrow> AList.update t s kept))"
    using t unfolding r publish_def by (auto intro!: every_run_ret split: option.splits)
  let ?k = "case x of None \<Rightarrow> kept | Some s \<Rightarrow> AList.update t s kept"
  have "list_all (\<lambda>tw. map_of ?k (fst tw) = None) tws"
    using Cons.prems t by (auto simp: list_all_iff image_iff split: option.splits)
  with Cons.prems Cons.IH [of ?k] have rest: "every_run (fold_io rs (publish M) ?k) (\<lambda>evs y. evs = [] \<and>
     y = Inr (fold (\<lambda>(t, x) m. case x of None \<Rightarrow> m | Some s \<Rightarrow> AList.update t s m) rs ?k))" by simp
  show ?case
    unfolding fold_io.simps
    by (rule every_run_bind, rule every_run_mono [OF step]) (auto simp: r intro!: every_run_mono [OF rest])
qed (simp add: every_run_ret)

lemma map_of_set_eq:
  assumes "distinct (map fst xs)" "distinct (map fst ys)" "set xs = set ys"
  shows "map_of xs = map_of ys"
proof
  fix k
  have "map_of xs k = Some v \<longleftrightarrow> map_of ys k = Some v" for v
    using assms by (simp add: map_of_eq_Some_iff)
  then show "map_of xs k = map_of ys k" by (metis not_None_eq)
qed

lemma map_of_filter_key:
  "distinct (map fst m) \<Longrightarrow>
     map_of (filter P m) k = (case map_of m k of None \<Rightarrow> None | Some v \<Rightarrow> if P (k, v) then Some v else None)"
  by (induction m) (auto split: option.splits simp: map_of_eq_None_iff image_iff)

lemma distinct_map_filter_fst: "distinct (map fst m) \<Longrightarrow> distinct (map fst (filter P m))"
  by (induction m) auto

lemma distinct_desired: "distinct (map fst (desired_sessions hash secrets))"
proof -
  have "distinct (map fst m) \<Longrightarrow> distinct (map fst (fold (\<lambda>s desired.
       if \<not> is_kubeconfig_secret_name (sec_name s) then desired
       else if secret_tenant s = [] then desired
       else if secret_kubeconfig s = [] then desired
       else AList.update (secret_tenant s)
         \<lparr>sp_kubeconfig = secret_kubeconfig s, sp_hash = hash (secret_kubeconfig s)\<rparr> desired) secrets m))" for m
    by (induction secrets arbitrary: m) (auto simp: distinct_update)
  then show ?thesis by (simp add: desired_sessions_def)
qed

definition merged :: "(string \<times> session option) list \<Rightarrow> (string \<times> session) list \<Rightarrow> (string \<times> session) list" where
  "merged rs kept = fold (\<lambda>(t, x) m. case x of None \<Rightarrow> m | Some s \<Rightarrow> AList.update t s m) rs kept"

lemma merged_lookup:
  assumes "list_all2 (result_ok evs) tws rs" "distinct (map fst tws)"
    and "list_all (\<lambda>tw. map_of kept (fst tw) = None) tws"
  shows "case map_of tws t of
      None \<Rightarrow> map_of (merged rs kept) t = map_of kept t
    | Some w \<Rightarrow> fresh_entry evs t w (map_of (merged rs kept) t)"
  using assms
proof (induction tws rs arbitrary: kept rule: list_all2_induct)
  case (Cons tw tws r rs)
  obtain u x where r: "r = (u, x)" by (cases r)
  let ?k = "case x of None \<Rightarrow> kept | Some s \<Rightarrow> AList.update u s kept"
  from Cons.hyps(1) Cons.prems r have u: "fst tw = u" "fresh_entry evs u (snd tw) x" "map_of kept u = None"
    "u \<notin> fst ` set tws" by (auto simp: result_ok_def)
  have m: "merged (r # rs) kept = merged rs ?k" by (simp add: merged_def r)
  have "list_all (\<lambda>tw. map_of ?k (fst tw) = None) tws"
    using Cons.prems u by (auto simp: list_all_iff image_iff split: option.splits)
  with Cons.IH [of ?k] Cons.prems
  have ih: "case map_of tws t of None \<Rightarrow> map_of (merged rs ?k) t = map_of ?k t
    | Some w \<Rightarrow> fresh_entry evs t w (map_of (merged rs ?k) t)" by simp
  show ?case
  proof (cases "t = u")
    case True
    with u have "map_of tws t = None" by (simp add: map_of_eq_None_iff)
    with ih u True have "map_of (merged rs ?k) t = x" by (cases x) auto
    with u True show ?thesis by (cases tw) (simp add: m)
  next
    case False
    with ih u show ?thesis by (cases tw) (auto simp: m split: option.splits)
  qed
qed (simp add: merged_def)

lemma distinct_merged: "distinct (map fst kept) \<Longrightarrow> distinct (map fst (merged rs kept))"
  unfolding merged_def by (induction rs arbitrary: kept) (auto simp: distinct_update split: option.splits)

definition entry_ok :: "string \<Rightarrow> session \<Rightarrow> bool" where
  "entry_ok t s \<longleftrightarrow> se_tenant s = t \<and> se_cancel s \<and> \<not> se_stopped s"

lemma sessions_ok_map:
  "sessions_ok m \<longleftrightarrow> distinct (map fst m) \<and> (\<forall>t s. map_of m t = Some s \<longrightarrow> entry_ok t s)"
  by (auto simp: sessions_ok_def list_all_iff entry_ok_def map_of_eq_Some_iff)

lemma fresh_entry_ok:
  assumes "fresh_entry evs t w (Some s)"
  shows "entry_ok t s"
proof -
  from assms have e: "s = (new_session t (sp_hash w) (se_id s))\<lparr>se_cancel := True\<rparr>"
    by (simp add: fresh_entry_def)
  show ?thesis
    by (rule ssubst [where P = "entry_ok t", OF e]) (simp add: entry_ok_def new_session_def)
qed

text \<open>The outcome of phases 3 and 4, from the map phase 1 left.\<close>

lemma pass_result:
  assumes ok: "sessions_ok sessions"
    and kept: "kept = kept_sessions desired sessions"
    and tws: "tws = pick_order ns (to_build desired kept)" and des: "distinct (map fst desired)"
    and rs: "list_all2 (result_ok evs) tws rs"
  shows "sessions_ok (merged rs kept) \<and> entry_after evs desired sessions t (map_of (merged rs kept) t)"
proof -
  from ok have dist: "distinct (map fst sessions)" by (simp add: sessions_ok_map)
  have kept_at: "map_of kept u = (case map_of sessions u of None \<Rightarrow> None
      | Some s \<Rightarrow> if is_stale desired (u, s) then None else Some s)" for u
    unfolding kept kept_sessions_def by (simp add: map_of_filter_key [OF dist] split: option.splits)
  have dt: "distinct (map fst (to_build desired kept))"
    unfolding to_build_def by (rule distinct_map_filter_fst [OF des])
  then have dtws: "distinct (map fst tws)"
    unfolding tws by (metis distinct_pick_order mset_map mset_pick_order mset_eq_imp_distinct_iff)
  have "map_of tws = map_of (to_build desired kept)"
    by (rule map_of_set_eq [OF dtws dt]) (simp add: tws)
  then have tws_at: "map_of tws u = (case map_of desired u of None \<Rightarrow> None
      | Some w \<Rightarrow> if map_of kept u = None then Some w else None)" for u
    unfolding to_build_def by (simp add: map_of_filter_key [OF des] split: option.splits)
  have free: "list_all (\<lambda>tw. map_of kept (fst tw) = None) tws"
    by (auto simp: list_all_iff tws to_build_def)
  have at: "case map_of tws u of None \<Rightarrow> map_of (merged rs kept) u = map_of kept u
      | Some w \<Rightarrow> fresh_entry evs u w (map_of (merged rs kept) u)" for u
    by (rule merged_lookup [OF rs dtws free])
  have "entry_ok u s" if "map_of (merged rs kept) u = Some s" for u s
  proof (cases "map_of tws u")
    case None
    with at [of u] that kept_at [of u] have "map_of sessions u = Some s"
      by (auto split: option.splits if_splits)
    with ok show ?thesis by (simp add: sessions_ok_map)
  next
    case (Some w)
    with at [of u] that show ?thesis by (auto dest: fresh_entry_ok)
  qed
  moreover have "distinct (map fst (merged rs kept))"
    by (rule distinct_merged) (simp add: kept kept_sessions_def distinct_map_filter_fst dist)
  moreover have "entry_after evs desired sessions t (map_of (merged rs kept) t)"
    using at [of t] kept_at [of t] tws_at [of t]
    by (auto simp: entry_after_def is_stale_def split: option.splits if_splits)
  ultimately show ?thesis by (simp add: sessions_ok_map)
qed

lemma reconcile_all_runs:
  assumes ok: "sessions_ok sessions"
  shows "every_run (reconcile_all M hash sessions) (pass_run hash sessions)"
proof -
  let ?des = "desired_sessions hash"
  let ?kept = "\<lambda>secrets. kept_sessions (?des secrets) sessions"
  have build: "every_run (bind (build_all M (pick_order ns (to_build (?des secrets) (?kept secrets)))) (\<lambda>results.
        fold_io results (publish M) (?kept secrets)))
      (\<lambda>evs r. \<exists>after. r = Inr after \<and> sessions_ok after \<and>
         (\<forall>t. entry_after evs (?des secrets) sessions t (map_of after t)))" for secrets ns
  proof (rule every_run_bind, rule every_run_mono [OF build_all_runs], clarsimp)
    fix evs rs
    let ?tws = "pick_order ns (to_build (?des secrets) (?kept secrets))"
    assume rs: "list_all2 (result_ok evs) ?tws rs"
    have d: "distinct (map fst ?tws)"
      by (metis distinct_desired distinct_map_filter_fst mset_eq_imp_distinct_iff mset_map mset_pick_order to_build_def)
    have free: "list_all (\<lambda>tw. map_of (?kept secrets) (fst tw) = None) ?tws"
      by (auto simp: list_all_iff to_build_def)
    show "every_run (fold_io rs (publish M) (?kept secrets)) (\<lambda>evs' r. \<exists>after. r = Inr after \<and> sessions_ok after \<and>
         (\<forall>t. entry_after (evs @ evs') (?des secrets) sessions t (map_of after t)))"
      by (rule every_run_mono [OF publish_loop [OF rs d free]])
         (use pass_result [OF ok refl refl distinct_desired rs] in \<open>auto simp: merged_def [symmetric]\<close>)
  qed
  have stale: "list_all (\<lambda>s. se_cancel s \<and> \<not> se_stopped s) (pick_order ns (stale_sessions desired sessions))" for ns desired
    using ok by (auto simp: list_all_iff stale_sessions_def sessions_ok_def)
  have body: "every_run (bind (mc_range M (stale_sessions (?des secrets) sessions)) (\<lambda>stops.
          bind (foreach stops (stop_one M)) (\<lambda>_.
          bind (mc_range M (to_build (?des secrets) (?kept secrets))) (\<lambda>builds.
          bind (build_all M builds) (\<lambda>results.
          fold_io results (publish M) (?kept secrets))))))
     (\<lambda>evs. pass_run hash sessions (TenantSecrets (Inr secrets) # evs))" for secrets
    apply (rule every_run_bind, rule every_run_mc_range, simp only: sum.case append_Nil)
    apply (rule every_run_bind, rule every_run_mono [OF stop_loop [OF stale]], clarify, simp only: sum.case)
    apply (rule every_run_bind, rule every_run_mc_range, simp only: sum.case append_Nil append_Nil2)
    apply (rule every_run_mono [OF build])
    subgoal for ns evs r ns' evs' r'
      unfolding pass_run_def
      apply (rule exI [of _ "Inr secrets"], rule exI, rule conjI, rule refl)
      apply (simp only: sum.case, rule exI [of _ "pick_order ns (stale_sessions (?des secrets) sessions)"], rule exI [of _ evs'])
      apply auto
      done
    done
  show ?thesis
    unfolding reconcile_all_def Let_def
    by (rule every_run_check, rule every_run_call_val) (auto simp: body, auto simp: pass_run_def)
qed

section \<open>Interleavings\<close>

text \<open>
  The lock protects the map in phases 1 and 4 only: between them other passes, the shutdown
  and lookups run. A state is the map, the passes under way, and the ids of the sessions
  started and stopped so far. A session that was started is in the map, in the hands of one
  pass, or stopped, and never two of these: nothing published is stopped, and nothing leaks.
\<close>

datatype pass =
    Stopping "session list" "(string \<times> snapshot) list"
  | Building "(string \<times> snapshot) list" "(string \<times> session) list"

record mgr =
  mg_sessions :: "(string \<times> session) list"
  mg_passes :: "pass list"
  mg_started :: "nat set"
  mg_stopped :: "nat set"

definition mgr_start :: mgr where
  "mgr_start = \<lparr>mg_sessions = [], mg_passes = [], mg_started = {}, mg_stopped = {}\<rparr>"

definition started_session :: "string \<Rightarrow> snapshot \<Rightarrow> nat \<Rightarrow> session" where
  "started_session t w i = (new_session t (sp_hash w) i)\<lparr>se_cancel := True\<rparr>"

definition publish_entry ::
  "string \<times> session \<Rightarrow> (string \<times> session) list \<times> nat set \<Rightarrow> (string \<times> session) list \<times> nat set" where
  "publish_entry ts acc =
     (if map_of (fst acc) (fst ts) \<noteq> None then (fst acc, insert (se_id (snd ts)) (snd acc))
      else (AList.update (fst ts) (snd ts) (fst acc), snd acc))"

inductive mgr_step :: "mgr \<Rightarrow> mgr \<Rightarrow> bool" where
  step_diff: "distinct (map fst desired) \<Longrightarrow> kept = kept_sessions desired (mg_sessions m) \<Longrightarrow>
     mgr_step m (m\<lparr>mg_sessions := kept,
       mg_passes := Stopping (stale_sessions desired (mg_sessions m)) (to_build desired kept) # mg_passes m\<rparr>)"
| step_shutdown:
    "mgr_step m (m\<lparr>mg_sessions := [], mg_passes := Stopping (map snd (mg_sessions m)) [] # mg_passes m\<rparr>)"
| step_stop: "mg_passes m = ps @ Stopping (s # ss) tws # qs \<Longrightarrow>
     mgr_step m (m\<lparr>mg_passes := ps @ Stopping ss tws # qs, mg_stopped := insert (se_id s) (mg_stopped m)\<rparr>)"
| step_stopped: "mg_passes m = ps @ Stopping [] tws # qs \<Longrightarrow>
     mgr_step m (m\<lparr>mg_passes := ps @ Building tws [] # qs\<rparr>)"
| step_build: "mg_passes m = ps @ Building ((t, w) # tws) rs # qs \<Longrightarrow> i \<notin> mg_started m \<Longrightarrow>
     mgr_step m (m\<lparr>mg_passes := ps @ Building tws (rs @ [(t, started_session t w i)]) # qs,
       mg_started := insert i (mg_started m)\<rparr>)"
| step_failed: "mg_passes m = ps @ Building (tw # tws) rs # qs \<Longrightarrow> i \<notin> mg_started m \<Longrightarrow>
     mgr_step m (m\<lparr>mg_passes := ps @ Building tws rs # qs, mg_started := insert i (mg_started m),
       mg_stopped := insert i (mg_stopped m)\<rparr>)"
| step_publish: "mg_passes m = ps @ Building [] rs # qs \<Longrightarrow>
     fold publish_entry rs (mg_sessions m, mg_stopped m) = (sessions, stopped) \<Longrightarrow>
     mgr_step m (m\<lparr>mg_sessions := sessions, mg_passes := ps @ qs, mg_stopped := stopped\<rparr>)"

inductive mgr_reachable :: "mgr \<Rightarrow> bool" where
  reach_start: "mgr_reachable mgr_start"
| reach_step: "mgr_reachable m \<Longrightarrow> mgr_step m m' \<Longrightarrow> mgr_reachable m'"

fun pass_ids :: "pass \<Rightarrow> nat list" where
  "pass_ids (Stopping ss tws) = map se_id ss"
| "pass_ids (Building tws rs) = map (\<lambda>ts. se_id (snd ts)) rs"

definition map_ids :: "(string \<times> session) list \<Rightarrow> nat list" where
  "map_ids sessions = map (\<lambda>ts. se_id (snd ts)) sessions"

definition owned :: "mgr \<Rightarrow> nat list" where
  "owned m = map_ids (mg_sessions m) @ concat (map pass_ids (mg_passes m))"

definition ids_ok :: "nat list \<Rightarrow> nat set \<Rightarrow> nat set \<Rightarrow> bool" where
  "ids_ok ids started stopped \<longleftrightarrow>
     distinct ids \<and> set ids \<inter> stopped = {} \<and> started = set ids \<union> stopped"

fun results_ok :: "pass \<Rightarrow> bool" where
  "results_ok (Stopping ss tws) = True"
| "results_ok (Building tws rs) = list_all (\<lambda>(t, s). entry_ok t s) rs"

definition mgr_inv :: "mgr \<Rightarrow> bool" where
  "mgr_inv m \<longleftrightarrow> sessions_ok (mg_sessions m) \<and> list_all results_ok (mg_passes m) \<and>
     ids_ok (owned m) (mg_started m) (mg_stopped m)"

lemma ids_ok_perm: "mset ids = mset ids' \<Longrightarrow> ids_ok ids' started stopped \<Longrightarrow> ids_ok ids started stopped"
  unfolding ids_ok_def by (metis mset_eq_imp_distinct_iff mset_eq_setD)

lemma mset_diff:
  "mset (map_ids (kept_sessions desired sessions)) + mset (map se_id (stale_sessions desired sessions)) =
     mset (map_ids sessions)"
  by (induction sessions) (auto simp: map_ids_def kept_sessions_def stale_sessions_def)

lemma sessions_ok_filter: "sessions_ok m \<Longrightarrow> sessions_ok (kept_sessions desired m)"
  by (auto simp: sessions_ok_def kept_sessions_def list_all_iff distinct_map_filter_fst)

lemma entry_ok_started: "entry_ok t (started_session t w i)"
  by (simp add: entry_ok_def started_session_def new_session_def)

lemma publish_entry_ok:
  assumes "sessions_ok m" "entry_ok t s" "ids_ok (map_ids m @ se_id s # rest) started stopped"
    and "publish_entry (t, s) (m, stopped) = (m', stopped')"
  shows "sessions_ok m' \<and> ids_ok (map_ids m' @ rest) started stopped'"
proof (cases "map_of m t")
  case (Some s')
  with assms show ?thesis by (auto simp: publish_entry_def ids_ok_def)
next
  case None
  then have "AList.update t s m = m @ [(t, s)]"
    by (induction m) (auto split: if_splits)
  with None assms(4) have m': "m' = m @ [(t, s)]" "stopped' = stopped"
    by (simp_all add: publish_entry_def)
  from None assms(1-3) show ?thesis
    unfolding m' by (auto simp: ids_ok_def map_ids_def sessions_ok_def entry_ok_def map_of_eq_None_iff)
qed

lemma publish_ok:
  assumes "sessions_ok m" "list_all (\<lambda>(t, s). entry_ok t s) rs"
    and "ids_ok (map_ids m @ map (\<lambda>ts. se_id (snd ts)) rs @ rest) started stopped"
    and "fold publish_entry rs (m, stopped) = (m', stopped')"
  shows "sessions_ok m' \<and> ids_ok (map_ids m' @ rest) started stopped'"
  using assms
proof (induction rs arbitrary: m stopped)
  case (Cons r rs)
  obtain t s where r: "r = (t, s)" by (cases r)
  obtain m1 stopped1 where p: "publish_entry r (m, stopped) = (m1, stopped1)" by fastforce
  from publish_entry_ok [of m t s "map (\<lambda>ts. se_id (snd ts)) rs @ rest" started stopped m1 stopped1] Cons.prems p
  have "sessions_ok m1 \<and> ids_ok (map_ids m1 @ map (\<lambda>ts. se_id (snd ts)) rs @ rest) started stopped1"
    by (simp add: r)
  with Cons.IH [of m1 stopped1] Cons.prems p show ?case by simp
qed simp

lemma mgr_inv_step:
  assumes "mgr_step m m'" "mgr_inv m"
  shows "mgr_inv m'"
  using assms
proof (induction rule: mgr_step.induct)
  case (step_diff desired kept m)
  let ?m' = "m\<lparr>mg_sessions := kept,
       mg_passes := Stopping (stale_sessions desired (mg_sessions m)) (to_build desired kept) # mg_passes m\<rparr>"
  have "mset (owned ?m') = mset (owned m)"
    using mset_diff [of desired "mg_sessions m"] by (simp add: owned_def step_diff(2))
  with step_diff show ?case
    using ids_ok_perm [of "owned ?m'" "owned m"] by (simp add: mgr_inv_def sessions_ok_filter)
next
  case (step_shutdown m)
  then show ?case
    by (auto simp: mgr_inv_def owned_def map_ids_def sessions_ok_def comp_def)
next
  case (step_stop m ps s ss tws qs)
  then show ?case by (auto simp: mgr_inv_def owned_def ids_ok_def)
next
  case (step_stopped m ps tws qs)
  then show ?case by (auto simp: mgr_inv_def owned_def)
next
  case (step_build m ps t w tws rs qs i)
  let ?m' = "m\<lparr>mg_passes := ps @ Building tws (rs @ [(t, started_session t w i)]) # qs,
       mg_started := insert i (mg_started m)\<rparr>"
  have id: "se_id (started_session t w i) = i" by (simp add: started_session_def new_session_def)
  have perm: "mset (owned ?m') = mset (i # owned m)"
    by (simp add: owned_def step_build(1) id)
  have "ids_ok (i # owned m) (insert i (mg_started m)) (mg_stopped m)"
    using step_build(2,3) by (auto simp: mgr_inv_def ids_ok_def)
  from ids_ok_perm [OF perm this] have "ids_ok (owned ?m') (mg_started ?m') (mg_stopped ?m')"
    by simp
  with step_build show ?case
    by (simp add: mgr_inv_def entry_ok_started)
next
  case (step_failed m ps tw tws rs qs i)
  then show ?case by (auto simp: mgr_inv_def owned_def ids_ok_def)
next
  case (step_publish m ps rs qs sessions stopped)
  let ?rest = "concat (map pass_ids (ps @ qs))"
  have "mset (map_ids (mg_sessions m) @ map (\<lambda>ts. se_id (snd ts)) rs @ ?rest) = mset (owned m)"
    by (simp add: owned_def step_publish(1))
  from ids_ok_perm [OF this] step_publish(3)
  have "ids_ok (map_ids (mg_sessions m) @ map (\<lambda>ts. se_id (snd ts)) rs @ ?rest) (mg_started m) (mg_stopped m)"
    by (simp add: mgr_inv_def)
  with publish_ok [OF _ _ this step_publish(2)] step_publish show ?case
    by (simp add: mgr_inv_def owned_def)
qed

lemma mgr_inv_reachable: "mgr_reachable m \<Longrightarrow> mgr_inv m"
proof (induction rule: mgr_reachable.induct)
  case reach_start
  then show ?case by (simp add: mgr_inv_def mgr_start_def sessions_ok_def owned_def map_ids_def ids_ok_def)
next
  case (reach_step m m')
  then show ?case by (blast intro: mgr_inv_step)
qed

text \<open>What holds in every reachable state.\<close>

lemma mgr_no_leak:
  assumes "mgr_reachable m"
  shows "sessions_ok (mg_sessions m) \<and> distinct (map_ids (mg_sessions m)) \<and>
    set (map_ids (mg_sessions m)) \<inter> mg_stopped m = {} \<and>
    (mg_passes m = [] \<longrightarrow> mg_started m - mg_stopped m = set (map_ids (mg_sessions m)))"
  using mgr_inv_reachable [OF assms] by (auto simp: mgr_inv_def owned_def ids_ok_def)

section \<open>Watching the configuration\<close>

text \<open>
  A change of a tenant's object enqueues every Service of the tenant that the reconciler
  claims, if the tenant has a session, and does nothing otherwise.
\<close>

definition ksc_run :: "(string \<times> session) list \<Rightarrow> request \<Rightarrow> mc_event list \<Rightarrow> err + unit \<Rightarrow> bool" where
  "ksc_run sessions q evs r \<longleftrightarrow>
     (case (if rq_ns q = tenant_namespace \<and> rq_name q \<noteq> [] then map_of sessions (rq_name q) else None) of
        None \<Rightarrow> evs = [] \<and> r = Inr ()
      | Some s \<Rightarrow> (\<exists>x. evs = ListServices (se_id s) x #
           (case x of Inl _ \<Rightarrow> [] | Inr svcs \<Rightarrow>
              map (\<lambda>svc. Do (QAdd (se_id s) (request_of svc))) (filter claims svcs)) \<and>
          (r = Inr () \<longleftrightarrow> (case x of Inl _ \<Rightarrow> False | Inr _ \<Rightarrow> True))))"

lemma filter_wanted: "filter (wanted finalizer_name) svcs = filter claims svcs"
  by (rule filter_cong [OF refl wanted_claims])

lemma ksc_watch_runs: "every_run (ksc_watch M sessions q) (ksc_run sessions q)"
proof (cases "rq_ns q = tenant_namespace \<and> rq_name q \<noteq> [] \<and> map_of sessions (rq_name q) \<noteq> None")
  case False
  then show ?thesis
    by (auto simp: ksc_watch_def enqueue_all_for_tenant_def ksc_run_def intro!: runs split: option.splits)
next
  case True
  then obtain s where s: "map_of sessions (rq_name q) = Some s" by blast
  have "every_run (check m (enqueue_all_lb_services M s finalizer_name) ret)
     (\<lambda>evs r. \<exists>x. evs = ListServices (se_id s) x #
           (case x of Inl _ \<Rightarrow> [] | Inr svcs \<Rightarrow>
              map (\<lambda>svc. Do (QAdd (se_id s) (request_of svc))) (filter claims svcs)) \<and>
          (r = Inr () \<longleftrightarrow> (case x of Inl _ \<Rightarrow> False | Inr _ \<Rightarrow> True)))" for m
    by (rule every_run_check, rule every_run_mono [OF enqueue_all_runs])
       (auto simp: enqueue_run_def filter_wanted intro!: every_run_ret split: sum.splits)
  note loop = this
  have run: "ksc_run sessions q = (\<lambda>evs r. \<exists>x. evs = ListServices (se_id s) x #
           (case x of Inl _ \<Rightarrow> [] | Inr svcs \<Rightarrow>
              map (\<lambda>svc. Do (QAdd (se_id s) (request_of svc))) (filter claims svcs)) \<and>
          (r = Inr () \<longleftrightarrow> (case x of Inl _ \<Rightarrow> False | Inr _ \<Rightarrow> True)))"
    using True s by (intro ext) (simp add: ksc_run_def)
  show ?thesis
    unfolding ksc_watch_def enqueue_all_for_tenant_def s option.case run
    by (intro every_run_if loop) (use True in simp_all)
qed

text \<open>Stopping everything stops every session and leaves none.\<close>

lemma stop_all_runs:
  assumes "sessions_ok sessions"
  shows "every_run (stop_all M sessions) (\<lambda>evs r. r = Inr [] \<and>
     (\<exists>order. mset order = mset (map snd sessions) \<and> evs = concat (map stop_events order)))"
proof -
  have ok: "list_all (\<lambda>s. se_cancel s \<and> \<not> se_stopped s) (pick_order ns (map snd sessions))" for ns
    using assms by (auto simp: sessions_ok_def list_all_iff)
  show ?thesis
    unfolding stop_all_def
    apply (rule every_run_bind, rule every_run_mc_range, simp only: sum.case append_Nil)
    subgoal for ns
      by (rule every_run_bind, rule every_run_mono [OF stop_loop [OF ok [of ns]]])
         (auto intro!: every_run_ret exI [of _ "pick_order ns (map snd sessions)"])
    done
qed

end
