(* ===== verification/Startup.thy ===== *)
theory Startup
  imports ClusterController Manager
begin

text \<open>
  \<^verbatim>\<open>cmd/main.go\<close> of the load balancer controller: the start of the process and the loop of the
  orphan sweeper; and \<^verbatim>\<open>tenantNodeIPs\<close> of \<^verbatim>\<open>service_controller.go\<close>, which nothing calls. The
  controller library's calls are steps of an environment.
\<close>

section \<open>The start of the process\<close>

record cli_options =
  op_metrics_addr :: string
  op_probe_addr :: string
  op_leader_election :: bool

record manager_options =
  mo_metrics_addr :: string
  mo_probe_addr :: string
  mo_leader_election :: bool
  mo_leader_id :: string
  mo_cache_namespaces :: "string list"

datatype start_step =
    CreateManager manager_options
  | AddTenantManager
  | SetupKscWatcher
  | SetupClusterReconciler
  | SpawnSweeper
  | AddHealthz
  | AddReadyz
  | StartManager

datatype start_event = Step start_step "api_err option" | Spawned start_step

type_synonym 'w start_env = "start_step \<Rightarrow> 'w \<Rightarrow> api_err option \<times> 'w"

definition start_call :: "'w start_env \<Rightarrow> start_step \<Rightarrow> ('w, start_event, unit) io" where
  "start_call S x = call_unit (S x) (Step x)"

definition manager_options_of :: "cli_options \<Rightarrow> manager_options" where
  "manager_options_of opts =
     \<lparr>mo_metrics_addr = op_metrics_addr opts, mo_probe_addr = op_probe_addr opts,
      mo_leader_election = op_leader_election opts,
      mo_leader_id = ''9b27e8c3.loadbalancer.switchcloud.aenix.io'',
      mo_cache_namespaces = [tenant_namespace]\<rparr>"

definition controller_run :: "'w start_env \<Rightarrow> cli_options \<Rightarrow> ('w, start_event, unit) io" where
  "controller_run S opts =
     check ''creating manager'' (start_call S (CreateManager (manager_options_of opts))) (\<lambda>_.
     check ''registering tenant Manager'' (start_call S AddTenantManager) (\<lambda>_.
     check ''registering KSC watcher'' (start_call S SetupKscWatcher) (\<lambda>_.
     check ''registering Cluster reconciler'' (start_call S SetupClusterReconciler) (\<lambda>_.
     bind (call (\<lambda>w. ((), w)) (\<lambda>_. Spawned SpawnSweeper)) (\<lambda>_.
     check ''setting up healthz'' (start_call S AddHealthz) (\<lambda>_.
     check ''setting up readyz'' (start_call S AddReadyz) (\<lambda>_.
     check ''manager exited with error'' (start_call S StartManager) ret)))))))"

definition controller_main :: "'w start_env \<Rightarrow> cli_options \<Rightarrow> ('w, start_event, nat) io" where
  "controller_main S opts =
     attempt (controller_run S opts) (\<lambda>r. case r of Inl _ \<Rightarrow> ret 1 | Inr _ \<Rightarrow> ret 0)"

text \<open>
  The steps of a start are a prefix of the whole sequence, each of them but the last a success.
\<close>

definition start_sequence :: "cli_options \<Rightarrow> start_event list" where
  "start_sequence opts = [Step (CreateManager (manager_options_of opts)) None, Step AddTenantManager None,
     Step SetupKscWatcher None, Step SetupClusterReconciler None, Spawned SpawnSweeper,
     Step AddHealthz None, Step AddReadyz None, Step StartManager None]"

fun failed_step :: "start_event \<Rightarrow> start_event \<Rightarrow> bool" where
  "failed_step (Step x (Some e)) (Step y None) \<longleftrightarrow> x = y"
| "failed_step _ _ \<longleftrightarrow> False"

fun launch_run :: "start_event list \<Rightarrow> start_event list \<Rightarrow> bool \<Rightarrow> bool" where
  "launch_run [] [] ok \<longleftrightarrow> ok"
| "launch_run (s # ss) (e # es) ok \<longleftrightarrow> (if e = s then launch_run ss es ok else failed_step e s \<and> es = [] \<and> \<not> ok)"
| "launch_run _ _ ok \<longleftrightarrow> False"

lemma every_run_start_call [runs]:
  "(\<And>a. Q [Step x (Some a)] (Inl (Api a))) \<Longrightarrow> Q [Step x None] (Inr ()) \<Longrightarrow> every_run (start_call S x) Q"
  unfolding start_call_def by (rule every_run_call_unit)

lemma controller_main_runs:
  "every_run (controller_main S opts) (\<lambda>evs r. \<exists>code. r = Inr code \<and> launch_run (start_sequence opts) evs (code = 0))"
  unfolding controller_main_def controller_run_def
  by (auto intro!: runs simp: start_sequence_def)

section \<open>The sweeper's loop\<close>

definition sweep_interval :: int where
  "sweep_interval = 600"

text \<open>\<open>n\<close> ticks before the context ends.\<close>

fun run_orphan_sweeper :: "'w env \<Rightarrow> ksc_lib \<Rightarrow> (string \<Rightarrow> 'w \<Rightarrow> bool \<times> 'w) \<Rightarrow> nat \<Rightarrow> ('w, unit) lbc" where
  "run_orphan_sweeper E L live 0 = ret ()"
| "run_orphan_sweeper E L live (Suc n) = attempt (sweep_tick E L live) (\<lambda>_. run_orphan_sweeper E L live n)"

lemma run_orphan_sweeper_runs:
  "every_run (run_orphan_sweeper E L live n)
     (\<lambda>evs r. r = Inr () \<and> (\<exists>ticks. evs = concat ticks \<and> length ticks = n \<and> list_all (\<lambda>t. \<exists>x. tick_run t x) ticks))"
proof (induction n)
  case (Suc n)
  show ?case
    unfolding run_orphan_sweeper.simps
  proof (rule every_run_attempt, rule every_run_mono [OF sweep_tick_runs], rule every_run_mono [OF Suc])
    fix evs r evs' r'
    assume t: "tick_run evs r"
      and "r' = Inr () \<and> (\<exists>ticks. evs' = concat ticks \<and> length ticks = n \<and> list_all (\<lambda>t. \<exists>x. tick_run t x) ticks)"
    then obtain ticks where "r' = Inr ()" "evs' = concat ticks" "length ticks = n" "list_all (\<lambda>t. \<exists>x. tick_run t x) ticks"
      by blast
    with t show "r' = Inr () \<and> (\<exists>ticks. evs @ evs' = concat ticks \<and> length ticks = Suc n \<and>
        list_all (\<lambda>t. \<exists>x. tick_run t x) ticks)"
      by (intro conjI exI [of _ "evs # ticks"]) auto
  qed
qed (simp add: every_run_ret)

section \<open>The addresses of ready nodes\<close>

record tenant_node =
  tn_conditions :: "(string \<times> string) list"
  tn_addresses :: "(string \<times> string) list"

fun ready_condition :: "(string \<times> string) list \<Rightarrow> bool" where
  "ready_condition [] = False"
| "ready_condition ((t, s) # cs) = (if t = ''Ready'' then s = ''True'' else ready_condition cs)"

definition node_ready :: "tenant_node \<Rightarrow> bool" where
  "node_ready n = ready_condition (tn_conditions n)"

fun internal_ip :: "(string \<times> string) list \<Rightarrow> string option" where
  "internal_ip [] = None"
| "internal_ip ((t, a) # as) = (if t = ''InternalIP'' \<and> a \<noteq> '''' then Some a else internal_ip as)"

definition ready_ips :: "tenant_node list \<Rightarrow> string list" where
  "ready_ips nodes = fold (\<lambda>n ips. if \<not> node_ready n then ips
       else case internal_ip (tn_addresses n) of None \<Rightarrow> ips | Some a \<Rightarrow> ips @ [a]) nodes []"

definition tenant_node_ips ::
  "('w \<Rightarrow> (api_err + tenant_node list) \<times> 'w) \<Rightarrow> ('w, api_err + tenant_node list, string list) io" where
  "tenant_node_ips list_nodes = check ''listing tenant Nodes'' (call_val list_nodes id) (\<lambda>nodes. ret (ready_ips nodes))"

lemma ready_ips_filter:
  "ready_ips nodes = List.map_filter (\<lambda>n. if node_ready n then internal_ip (tn_addresses n) else None) nodes"
proof -
  have "fold (\<lambda>n ips. if \<not> node_ready n then ips
       else case internal_ip (tn_addresses n) of None \<Rightarrow> ips | Some a \<Rightarrow> ips @ [a]) nodes acc
     = acc @ List.map_filter (\<lambda>n. if node_ready n then internal_ip (tn_addresses n) else None) nodes" for acc
    by (induction nodes arbitrary: acc) (auto simp: map_filter_simps split: option.splits)
  then show ?thesis by (simp add: ready_ips_def)
qed

end
