(* ===== verification/Requeue.thy ===== *)
theory Requeue
  imports ServiceController
begin

text \<open>
  When a Service is looked at again: what the \<^verbatim>\<open>RequeueAfter\<close> of a reconcile that ends without
  an error says of the run. With no delay the next look waits for an event of the Service.
\<close>

text \<open>Octavia is at work: it was given a change, or a listed balancer is not active.\<close>

definition octavia_at_work :: "event list \<Rightarrow> bool" where
  "octavia_at_work evs \<longleftrightarrow>
     list_ex (\<lambda>e. case e of
         Octavia _ (ListLBs _ pg) \<Rightarrow> list_ex (\<lambda>b. lb_status b \<noteq> status_active) (pages_seen pg)
       | Octavia _ m \<Rightarrow> octavia_mutation m
       | _ \<Rightarrow> False) evs"

definition finalizers_patched :: "string \<Rightarrow> string \<Rightarrow> string \<Rightarrow> event list \<Rightarrow> bool" where
  "finalizers_patched tenant ns name evs \<longleftrightarrow> (\<exists>fs. Tenant tenant (PatchFinalizers ns name fs None) \<in> set evs)"

definition address_published :: "string \<Rightarrow> service \<Rightarrow> event list \<Rightarrow> bool" where
  "address_published tenant svc evs \<longleftrightarrow>
     (\<exists>a. a \<noteq> '''' \<and> (a \<in> set (s_ingress svc) \<or> Tenant tenant (PatchIngress (s_ns svc) (s_name svc) [a] None) \<in> set evs))"

definition requeue_ok :: "string \<Rightarrow> service \<Rightarrow> event list \<Rightarrow> int \<Rightarrow> bool" where
  "requeue_ok tenant svc evs t \<longleftrightarrow>
     t = 0 \<and> (finalizer_name \<notin> set (s_finalizers svc) \<or> finalizers_patched tenant (s_ns svc) (s_name svc) evs) \<or>
     t = pending_requeue \<and> octavia_at_work evs \<or>
     t = member_resync_after \<and> address_published tenant svc evs"

definition requeue_run :: "string \<Rightarrow> string \<Rightarrow> string \<Rightarrow> event list \<Rightarrow> err + int \<Rightarrow> bool" where
  "requeue_run tenant ns name evs r \<longleftrightarrow>
     (\<exists>x evs'. evs = Tenant tenant (GetSvc ns name x) # evs' \<and>
        (case r of Inl _ \<Rightarrow> True
         | Inr t \<Rightarrow> (case x of Inl a \<Rightarrow> ae_not_found a \<and> t = 0 | Inr svc \<Rightarrow> requeue_ok tenant svc evs' t)))"

abbreviation (input) ends_with :: "event list \<Rightarrow> ('w, 'a) lbc \<Rightarrow> (event list \<Rightarrow> 'a \<Rightarrow> bool) \<Rightarrow> bool" where
  "ends_with \<equiv> yields (\<lambda>_ _. True)"

lemma just_True [simp]: "just (\<lambda>_ _. True) pre evs"
  by (rule just_all [where P = "\<lambda>_. True"]) (simp_all add: list_all_iff)

lemma at_work_append: "octavia_at_work evs \<Longrightarrow> octavia_at_work (pre @ evs)"
  by (auto simp: octavia_at_work_def)

lemma at_work_last:
  assumes "evs \<noteq> []" "cloud_mutation (last evs)" "list_all (\<lambda>e. \<exists>o1. e = Octavia c o1) evs"
  shows "octavia_at_work evs"
proof -
  from assms(3) last_in_set [OF assms(1)] obtain o1 where o1: "last evs = Octavia c o1" unfolding list_all_iff by blast
  with assms(2) have "octavia_mutation o1" by simp
  with last_in_set [OF assms(1)] o1 show ?thesis
    by (auto simp: octavia_at_work_def list_ex_iff intro!: bexI [of _ "last evs"] split: octavia_event.split)
qed

lemma outcome_any: "emits (\<lambda>_. True) m \<Longrightarrow> ends_with pre m (\<lambda>_ _. True)"
  by (rule yields_emits)

lemma outcome_every_run:
  "every_run m Q \<Longrightarrow> (\<And>evs x. Q evs (Inr x) \<Longrightarrow> R (pre @ evs) x) \<Longrightarrow> ends_with pre m R"
  by (rule yields_every_run [where Q = Q]) simp_all

section \<open>The parts that wait\<close>

lemma outcome_ensure_lb:
  "ends_with pre (ensure_lb E c tenant svc net prov)
     (\<lambda>p x. if snd x then octavia_at_work p else lb_status (fst x) = status_active)"
proof (rule outcome_every_run [OF ensure_lb_runs])
  fix evs and x :: "lb \<times> bool"
  assume run: "ensure_lb_run c (service_lb_name tenant (s_ns svc) (s_name svc)) evs (Inr x)"
  obtain b pending where x: "x = (b, pending)" by (cases x)
  from run have "snd x \<longrightarrow> octavia_at_work evs" "\<not> snd x \<longrightarrow> lb_status (fst x) = status_active"
    unfolding x by (auto simp: ensure_lb_run_def octavia_at_work_def list_ex_iff status_active_def)
  then show "if snd x then octavia_at_work (pre @ evs) else lb_status (fst x) = status_active"
    by (simp add: at_work_append)
qed

lemma outcome_sync:
  "lb_status b = status_active \<Longrightarrow>
     ends_with pre (sync_listeners_and_members E c b svc ips subnet) (\<lambda>p x. x \<longrightarrow> octavia_at_work p)"
  by (rule outcome_every_run [OF emits_every_run [OF emits_lb(2) sync_runs, where P = "\<lambda>e. \<exists>o1. e = Octavia c o1"]])
     (auto simp: sync_run_def intro: at_work_append at_work_last)


lemma outcome_delete_lb: "ends_with pre (delete_lb E c tenant svc) (\<lambda>p x. x \<longrightarrow> octavia_at_work p)"
proof (rule outcome_every_run [OF delete_lb_runs])
  fix evs x
  let ?n = "service_lb_name tenant (s_ns svc) (s_name svc)"
  assume run: "delete_lb_run c ?n evs (Inr x)"
  then obtain pg evs' where evs: "evs = Octavia c (ListLBs (Some ?n) pg) # evs'"
    and rest: "case pages_find (\<lambda>b. lb_name b = ?n) pg of
           Inl a \<Rightarrow> evs' = [] \<and> (\<exists>e. Inr x = (Inl e :: err + bool))
         | Inr None \<Rightarrow> evs' = [] \<and> Inr x = (Inr False :: err + bool)
         | Inr (Some b) \<Rightarrow> Inr x \<noteq> (Inr False :: err + bool) \<and>
             (\<exists>evs1 r1. fip_delete_run c (lb_vip_port b) evs1 r1 \<and>
                (case r1 of
                   Inl _ \<Rightarrow> evs' = evs1 \<and> (\<exists>e. Inr x = (Inl e :: err + bool))
                 | Inr _ \<Rightarrow>
                     if lb_status b = status_pending_delete then evs' = evs1 \<and> Inr x = (Inr True :: err + bool)
                     else (\<exists>y. evs' = evs1 @ [Octavia c (DelLB (lb_id b) y)] \<and>
                       ((Inr x :: err + bool) = Inr True \<longleftrightarrow> y = None))))"
    unfolding delete_lb_run_def by blast
  show "x \<longrightarrow> octavia_at_work (pre @ evs)"
  proof (intro impI at_work_append)
    assume x
    with rest obtain b where b: "pages_find (\<lambda>b. lb_name b = ?n) pg = Inr (Some b)"
      by (auto split: sum.splits option.splits)
    from rest b obtain evs1 and r1 :: "err + unit" where r1: "case r1 of
                   Inl _ \<Rightarrow> evs' = evs1 \<and> (\<exists>e. Inr x = (Inl e :: err + bool))
                 | Inr _ \<Rightarrow>
                     if lb_status b = status_pending_delete then evs' = evs1 \<and> Inr x = (Inr True :: err + bool)
                     else (\<exists>y. evs' = evs1 @ [Octavia c (DelLB (lb_id b) y)] \<and>
                       ((Inr x :: err + bool) = Inr True \<longleftrightarrow> y = None))" by auto
    then have "lb_status b = status_pending_delete \<or> (\<exists>evs1 y. evs' = evs1 @ [Octavia c (DelLB (lb_id b) y)])"
      by (cases r1) (auto split: if_splits)
    with pages_find_Some [OF b] show "octavia_at_work evs"
      by (auto simp: evs octavia_at_work_def list_ex_iff intro!: bexI [of _ b])
  qed
qed

section \<open>The paths of a reconcile\<close>

lemma requeue_now: "finalizer_name \<notin> set (s_finalizers svc) \<Longrightarrow> requeue_ok tenant svc p 0"
  by (simp add: requeue_ok_def)

lemma requeue_wait: "octavia_at_work p \<Longrightarrow> requeue_ok tenant svc p pending_requeue"
  by (simp add: requeue_ok_def)

lemma outcome_patch_finalizers:
  "ends_with pre (check m (patch_finalizers E tenant (s_ns svc) (s_name svc) fs) (\<lambda>_. ret 0)) (requeue_ok tenant svc)"
  by (rule yields_check [where R = "\<lambda>p _. finalizers_patched tenant (s_ns svc) (s_name svc) p"])
     (auto intro!: yields_call_unit yields_ret simp: finalizers_patched_def requeue_ok_def)

lemma outcome_drop_finalizer: "ends_with pre (drop_finalizer E tenant svc) (requeue_ok tenant svc)"
  unfolding drop_finalizer_def
  by (rule yields_if) (auto intro: yields_ret requeue_now outcome_patch_finalizers)

lemma outcome_patch_status:
  "ends_with pre (check m (patch_status E tenant svc a) (\<lambda>_. ret member_resync_after)) (requeue_ok tenant svc)"
proof (rule yields_check)
  show "ends_with pre (patch_status E tenant svc a) (\<lambda>p _. address_published tenant svc p)"
    unfolding patch_status_def
  proof (intro yields_if)
    assume "a \<noteq> ''''" "\<not> list_ex (\<lambda>ip. ip = a) (s_ingress svc)"
    then show "ends_with pre (check m1 (get_svc E tenant (s_ns svc) (s_name svc)) (\<lambda>fresh.
        check m2 (patch_ingress E tenant (s_ns svc) (s_name svc) [a]) ret)) (\<lambda>p _. address_published tenant svc p)" for m1 m2 :: string
      by (intro yields_check [where R = "\<lambda>_ _. True"] yields_check [where R = "\<lambda>p _. address_published tenant svc p"]
          yields_call_val yields_call_unit yields_ret) (auto simp: address_published_def)
  qed (auto intro!: yields_throw yields_ret simp: address_published_def list_ex_iff)
qed (auto intro!: yields_ret simp: requeue_ok_def)

lemma outcome_provision: "ends_with pre (provision E tenant svc cfg) (requeue_ok tenant svc)"
proof -
  have finish: "ends_with p (bind (publish_address E tenant svc cfg c b) (\<lambda>a. bind (wire_workers E tenant cfg c ips) (\<lambda>g.
      check m1 (ensure_node_port_rules E c g tenant svc (cf_cidrs cfg)) (\<lambda>_.
      check m2 (patch_status E tenant svc a) (\<lambda>_. ret member_resync_after))))) (requeue_ok tenant svc)"
    for p c b ips and m1 m2 :: string
    by (intro yields_bind [where R = "\<lambda>_ _. True"] yields_check [where R = "\<lambda>_ _. True" and m = "ensure_node_port_rules _ _ _ _ _ _"]
        outcome_patch_status outcome_any)
       (auto simp: publish_address_def wire_workers_def intro!: emit_rules)
  show ?thesis
    unfolding provision_def
    apply (rule yields_check [OF outcome_any], (auto intro!: emit_rules)[1])
    apply (rule yields_check [OF outcome_any], (auto intro!: emit_rules)[1])
    apply (rule yields_check [OF outcome_ensure_lb])
    apply (rule yields_prod, rule yields_if, rule yields_ret, rule requeue_wait, simp)
    apply (rule yields_check [OF outcome_any], (auto intro!: emit_rules)[1])
    apply (rule yields_check [OF outcome_sync], simp)
    apply (rule yields_if, rule yields_ret, rule requeue_wait, simp)
    apply (rule finish)
    done
qed

lemma outcome_cleanup: "ends_with pre (cleanup E tenant svc cfg) (requeue_ok tenant svc)"
  unfolding cleanup_def
  apply (rule yields_if, rule yields_ret, rule requeue_now, simp)
  apply (rule yields_check [OF outcome_any], (auto intro!: emit_rules)[1])
  apply (rule yields_check [OF outcome_any], (auto simp: resolve_cleanup_sgid_def intro!: emit_rules)[1])
  apply (rule yields_bind [OF outcome_any], (auto intro!: emit_rules)[1])
  apply (rule yields_check [OF outcome_delete_lb])
  apply (rule yields_if, rule yields_ret, rule requeue_wait, simp)
  apply (rule yields_check [OF outcome_any], (auto simp: clear_status_ingress_def intro!: emit_rules)[1])
  apply (rule outcome_drop_finalizer)
  done

lemma outcome_config: "ends_with pre (reconcile_config E tenant svc cfg) (requeue_ok tenant svc)"
  unfolding reconcile_config_def Let_def
  apply (rule yields_check [OF outcome_any], (auto simp: is_helm_release_deleting_def intro!: emit_rules)[1])
  apply (rule yields_if, rule yields_bind [OF outcome_any], (auto simp: wipe_operator_sg_def intro!: emit_rules)[1])
   apply (rule outcome_drop_finalizer)
  apply (rule yields_if, rule yields_ret, rule requeue_now, simp)
  apply (rule yields_if, rule outcome_cleanup)
  apply (rule yields_if, rule outcome_patch_finalizers, rule outcome_provision)
  done

lemma outcome_claimed:
  "ends_with pre (attempt (resolve E L tenant) (\<lambda>r. case r of
       Inl e \<Rightarrow> if is_not_found e then drop_finalizer E tenant svc else throw (Wrap m e)
     | Inr cfg \<Rightarrow> reconcile_config E tenant svc cfg)) (requeue_ok tenant svc)"
  by (rule yields_attempt, rule every_run_mono [OF resolve_runs])
     (auto intro: outcome_drop_finalizer yields_throw outcome_config split: sum.split)

lemma requeue_runs: "every_run (reconcile E L tenant ns name) (requeue_run tenant ns name)"
proof -
  have claimed: "every_run (attempt (resolve E L tenant) (\<lambda>r. case r of
       Inl e \<Rightarrow> if is_not_found e then drop_finalizer E tenant svc else throw (Wrap m e)
     | Inr cfg \<Rightarrow> reconcile_config E tenant svc cfg))
     (\<lambda>evs. requeue_run tenant ns name (Tenant tenant (GetSvc ns name (Inr svc)) # evs))" for svc m
    by (rule every_run_mono [OF outcome_claimed [of "[]", unfolded yields_def]])
       (auto simp: requeue_run_def split: sum.splits)
  show ?thesis
    unfolding reconcile_def
    by (rule every_run_attempt, rule every_run_call_val)
       (auto intro!: every_run_ret every_run_throw claimed, auto simp: requeue_run_def requeue_now)
qed

end
