(* ===== verification/Sim.thy ===== *)
theory Sim
  imports Calls
begin

text \<open>
  An in-memory OpenStack and Kubernetes, the concrete environment of the witnesses, with one
  Service and its balancer: a create appends under a fresh id, a delete removes, a listing is
  one page. A balancer takes a change only while it is ACTIVE and is PENDING for a round
  afterwards; everything else is answered with a conflict. Nothing the program does is defined
  here.
\<close>

text \<open>What no call of the controller changes, but for the finalizers of the HelmReleases.\<close>

record site =
  si_ksc :: "kobj option"
  si_secrets :: "secret list"
  si_hrs :: "hrelease list"
  si_nics :: "(string \<times> string list) list"

text \<open>Rules and floating IPs are kept with their group or port.\<close>

record sim =
  sim_svc :: "service option"
  sim_lb :: "lb option"
  sim_busy :: nat
  sim_listeners :: "string \<Rightarrow> listener list"
  sim_pools :: "string \<Rightarrow> pool list"
  sim_members :: "string \<Rightarrow> member list"
  sim_fips :: "(string \<times> fip) list"
  sim_groups :: "sgroup list"
  sim_rules :: "(string \<times> rule) list"
  sim_port_sgs :: "string \<Rightarrow> string list"
  sim_site :: site

definition sim0 :: sim where
  "sim0 = \<lparr>sim_svc = None, sim_lb = None, sim_busy = 0, sim_listeners = (\<lambda>_. []), sim_pools = (\<lambda>_. []),
     sim_members = (\<lambda>_. []), sim_fips = [], sim_groups = [], sim_rules = [], sim_port_sgs = (\<lambda>_. []),
     sim_site = \<lparr>si_ksc = None, si_secrets = [], si_hrs = [], si_nics = []\<rparr>\<rparr>"

definition of_key :: "string \<Rightarrow> (string \<times> 'a) list \<Rightarrow> 'a list" where
  "of_key k xs = map snd (filter (\<lambda>(i, _). i = k) xs)"

text \<open>Fresh ids are longer than any id of the start.\<close>

definition fresh_id :: "string list \<Rightarrow> string" where
  "fresh_id ids = ''x'' @ concat ids"

lemma fresh_id: "fresh_id ids \<notin> set ids"
proof
  have short: "x \<in> set ids \<Longrightarrow> length x \<le> length (concat ids)" for x
    by (induction ids) auto
  assume "fresh_id ids \<in> set ids"
  from short [OF this] show False by (simp add: fresh_id_def)
qed

definition not_found :: api_err where
  "not_found = ApiErr True ''not found''"

definition conflict :: api_err where
  "conflict = ApiErr False ''conflict''"

section \<open>New objects\<close>

definition sim_rule :: "rule_opts \<Rightarrow> sim \<Rightarrow> rule" where
  "sim_rule opts w = \<lparr>ru_id = fresh_id (map (ru_id \<circ> snd) (sim_rules w)), ru_dir = ro_dir opts,
     ru_ether = ro_ether opts, ru_pmin = ro_pmin opts, ru_pmax = ro_pmax opts, ru_proto = ro_proto opts,
     ru_cidr = ro_cidr opts, ru_group = ro_group opts, ru_desc = ro_desc opts\<rparr>"

definition same_match :: "rule_opts \<Rightarrow> rule \<Rightarrow> bool" where
  "same_match opts r \<longleftrightarrow>
     ru_dir r = ro_dir opts \<and> ru_ether r = ro_ether opts \<and> ru_pmin r = ro_pmin opts \<and>
     ru_pmax r = ro_pmax opts \<and> ru_proto r = ro_proto opts \<and> ru_cidr r = ro_cidr opts \<and>
     ru_group r = ro_group opts"

definition sim_new_lb :: "lb_opts \<Rightarrow> sim \<Rightarrow> lb" where
  "sim_new_lb opts w = \<lparr>lb_id = ''lb'', lb_name = lo_name opts, lb_status = ''PENDING_CREATE'',
     lb_oper = ''OFFLINE'', lb_vip = ''10.0.0.9'', lb_vip_port = fresh_id (map fst (sim_fips w))\<rparr>"

definition sim_fip :: "fip_opts \<Rightarrow> sim \<Rightarrow> fip" where
  "sim_fip opts w = \<lparr>fp_id = fresh_id (map (fp_id \<circ> snd) (sim_fips w)), fp_addr = ''203.0.113.7'', fp_desc = fo_desc opts\<rparr>"

definition sim_listener :: "listener_opts \<Rightarrow> sim \<Rightarrow> listener" where
  "sim_listener opts w =
     \<lparr>ls_id = fresh_id (map ls_id (sim_listeners w (lso_lb opts)) @
        concat (map pl_listeners (sim_pools w (lso_lb opts)))), ls_name = lso_name opts\<rparr>"

definition sim_pool :: "pool_opts \<Rightarrow> string \<Rightarrow> sim \<Rightarrow> pool" where
  "sim_pool opts i w = \<lparr>pl_id = fresh_id (map pl_id (sim_pools w i)), pl_listeners = [po_listener opts]\<rparr>"

definition sim_member :: "member_opts \<Rightarrow> member" where
  "sim_member m = \<lparr>mb_addr = mo_addr m, mb_port = mo_port m, mb_subnet = mo_subnet m\<rparr>"

definition sim_ports :: "sim \<Rightarrow> nport list" where
  "sim_ports w = map (\<lambda>(i, ips). \<lparr>pt_id = i, pt_sgs = sim_port_sgs w i, pt_ips = ips\<rparr>) (si_nics (sim_site w))"

section \<open>Octavia\<close>

text \<open>The balancer that takes a change, and what a change does to it.\<close>

definition ready_lb :: "sim \<Rightarrow> string option" where
  "ready_lb w = (case sim_lb w of None \<Rightarrow> None | Some b \<Rightarrow> if lb_status b = ''ACTIVE'' then Some (lb_id b) else None)"

definition touch :: "sim \<Rightarrow> sim" where
  "touch w = w\<lparr>sim_lb := map_option (lb_status_update (\<lambda>_. ''PENDING_UPDATE'')) (sim_lb w), sim_busy := 1\<rparr>"

definition sim_create_listener :: "listener_opts \<Rightarrow> sim \<Rightarrow> (api_err + listener) \<times> sim" where
  "sim_create_listener opts w =
     (if ready_lb w = Some (lso_lb opts)
      then (Inr (sim_listener opts w), touch (w\<lparr>sim_listeners := (sim_listeners w)(lso_lb opts :=
              sim_listeners w (lso_lb opts) @ [sim_listener opts w])\<rparr>))
      else (Inl conflict, w))"

definition sim_create_pool :: "pool_opts \<Rightarrow> sim \<Rightarrow> (api_err + pool) \<times> sim" where
  "sim_create_pool opts w =
     (case ready_lb w of
        None \<Rightarrow> (Inl conflict, w)
      | Some i \<Rightarrow>
          (Inr (sim_pool opts i w), touch (w\<lparr>sim_pools := (sim_pools w)(i := sim_pools w i @ [sim_pool opts i w])\<rparr>)))"

definition sim_del_listener :: "string \<Rightarrow> sim \<Rightarrow> api_err option \<times> sim" where
  "sim_del_listener j w =
     (case ready_lb w of
        None \<Rightarrow> (Some conflict, w)
      | Some i \<Rightarrow>
          (None, touch (w\<lparr>sim_listeners := (sim_listeners w)(i := filter (\<lambda>l. ls_id l \<noteq> j) (sim_listeners w i))\<rparr>)))"

definition sim_set_members :: "string \<Rightarrow> member_opts list \<Rightarrow> sim \<Rightarrow> api_err option \<times> sim" where
  "sim_set_members j ms w =
     (case ready_lb w of
        None \<Rightarrow> (Some conflict, w)
      | Some i \<Rightarrow> (None, touch (w\<lparr>sim_members := (sim_members w)(j := map sim_member ms)\<rparr>)))"

definition sim_del_lb :: "string \<Rightarrow> sim \<Rightarrow> api_err option \<times> sim" where
  "sim_del_lb i w =
     (if ready_lb w = Some i \<or> map_option (\<lambda>b. (lb_id b, lb_status b)) (sim_lb w) = Some (i, ''ERROR'')
      then (None, w\<lparr>sim_lb := map_option (lb_status_update (\<lambda>_. ''PENDING_DELETE'')) (sim_lb w), sim_busy := 1\<rparr>)
      else (Some conflict, w))"

definition sim_octavia :: "sim octavia_api" where
  "sim_octavia = \<lparr>
     o_list_lbs = (\<lambda>c f w. ([Inr (filter (\<lambda>b. f = None \<or> f = Some (lb_name b))
        (case sim_lb w of None \<Rightarrow> [] | Some b \<Rightarrow> [b]))], w)),
     o_create_lb = (\<lambda>c opts w. (Inr (sim_new_lb opts w), w\<lparr>sim_lb := Some (sim_new_lb opts w), sim_busy := 1,
        sim_listeners := (sim_listeners w)(''lb'' := []), sim_pools := (sim_pools w)(''lb'' := [])\<rparr>)),
     o_del_lb = (\<lambda>c. sim_del_lb),
     o_list_listeners = (\<lambda>c i w. ([Inr (sim_listeners w i)], w)),
     o_create_listener = (\<lambda>c. sim_create_listener),
     o_del_listener = (\<lambda>c. sim_del_listener),
     o_list_pools = (\<lambda>c i w. ([Inr (sim_pools w i)], w)),
     o_create_pool = (\<lambda>c. sim_create_pool),
     o_list_members = (\<lambda>c i w. ([Inr (sim_members w i)], w)),
     o_set_members = (\<lambda>c. sim_set_members)\<rparr>"

text \<open>A round of Octavia's own work.\<close>

definition sim_tick :: "sim \<Rightarrow> sim" where
  "sim_tick w =
     (if sim_busy w = 0 then w
      else if sim_busy w > 1 then w\<lparr>sim_busy := sim_busy w - 1\<rparr>
      else w\<lparr>sim_busy := 0, sim_lb := (case sim_lb w of
          None \<Rightarrow> None
        | Some b \<Rightarrow> if lb_status b = ''PENDING_DELETE'' then None else Some (b\<lparr>lb_status := ''ACTIVE''\<rparr>))\<rparr>)"

section \<open>Neutron and the API servers\<close>

definition sim_neutron :: "sim neutron_api" where
  "sim_neutron = \<lparr>
     n_list_sgs = (\<lambda>c f w. ([Inr (filter (\<lambda>g. f = None \<or> f = Some (sg_name g)) (sim_groups w))], w)),
     n_create_sg = (\<lambda>c n d w. let g = \<lparr>sg_id = fresh_id (map sg_id (sim_groups w)), sg_name = n\<rparr> in
        (Inr g, w\<lparr>sim_groups := sim_groups w @ [g], sim_rules := filter (\<lambda>(i, _). i \<noteq> sg_id g) (sim_rules w)\<rparr>)),
     n_del_sg = (\<lambda>c i w. (None, w\<lparr>sim_groups := filter (\<lambda>g. sg_id g \<noteq> i) (sim_groups w)\<rparr>)),
     n_list_rules = (\<lambda>c g w. ([Inr (of_key g (sim_rules w))], w)),
     n_create_rule = (\<lambda>c opts w.
        if list_ex (same_match opts) (of_key (ro_sg opts) (sim_rules w)) then (Inl conflict, w)
        else (Inr (sim_rule opts w), w\<lparr>sim_rules := sim_rules w @ [(ro_sg opts, sim_rule opts w)]\<rparr>)),
     n_del_rule = (\<lambda>c i w.
        if list_ex (\<lambda>(_, r). ru_id r = i) (sim_rules w)
        then (None, w\<lparr>sim_rules := filter (\<lambda>(_, r). ru_id r \<noteq> i) (sim_rules w)\<rparr>) else (Some not_found, w)),
     n_list_fips = (\<lambda>c f w. ([Inr (case f of None \<Rightarrow> map snd (sim_fips w) | Some p \<Rightarrow> of_key p (sim_fips w))], w)),
     n_create_fip = (\<lambda>c opts w. (Inr (sim_fip opts w), w\<lparr>sim_fips := sim_fips w @ [(fo_port opts, sim_fip opts w)]\<rparr>)),
     n_del_fip = (\<lambda>c i w. (None, w\<lparr>sim_fips := filter (\<lambda>(_, f). fp_id f \<noteq> i) (sim_fips w)\<rparr>)),
     n_list_ports = (\<lambda>c n owner ip w.
        ([Inr (filter (\<lambda>p. case ip of None \<Rightarrow> True | Some a \<Rightarrow> a \<in> set (pt_ips p)) (sim_ports w))], w)),
     n_update_port = (\<lambda>c i sgs w. (Inr \<lparr>pt_id = i, pt_sgs = sgs, pt_ips = []\<rparr>,
        w\<lparr>sim_port_sgs := (sim_port_sgs w)(i := sgs)\<rparr>)),
     n_list_networks = (\<lambda>c w. ([Inr [\<lparr>nw_id = ''ext'', nw_external = True\<rparr>]], w)),
     n_list_subnets = (\<lambda>c n w. ([Inr [\<lparr>sn_id = ''sub4'', sn_version = 4, sn_cidr = ''10.0.0.0/24''\<rparr>]], w))\<rparr>"

definition sim_patch_hr :: "string \<Rightarrow> string \<Rightarrow> string list \<Rightarrow> sim \<Rightarrow> api_err option \<times> sim" where
  "sim_patch_hr ns n fs w =
     (let hit = (\<lambda>h. hr_ns h = ns \<and> hr_name h = n) in
      case find hit (si_hrs (sim_site w)) of
        None \<Rightarrow> (Some not_found, w)
      | Some hr \<Rightarrow> (None, w\<lparr>sim_site := (sim_site w)\<lparr>si_hrs :=
            (if hr_deleting hr \<and> fs = [] then filter (\<lambda>h. \<not> hit h) (si_hrs (sim_site w))
             else map (\<lambda>h. if hit h then hr\<lparr>hr_finalizers := fs\<rparr> else h) (si_hrs (sim_site w)))\<rparr>\<rparr>))"

definition sim_mgmt :: "sim mgmt_api" where
  "sim_mgmt = \<lparr>
     m_get_ksc = (\<lambda>ns n w. (case si_ksc (sim_site w) of None \<Rightarrow> Inl not_found | Some k \<Rightarrow> Inr k, w)),
     m_get_secret = (\<lambda>ns n w. (case find (\<lambda>s. sec_ns s = ns \<and> sec_name s = n) (si_secrets (sim_site w)) of
        None \<Rightarrow> Inl not_found | Some s \<Rightarrow> Inr s, w)),
     m_get_osc = (\<lambda>ns n w. (Inl not_found, w)),
     m_get_hr = (\<lambda>ns n w. (case find (\<lambda>h. hr_ns h = ns \<and> hr_name h = n) (si_hrs (sim_site w)) of
        None \<Rightarrow> Inl not_found | Some h \<Rightarrow> Inr h, w)),
     m_list_hrs = (\<lambda>ns w. (Inr (si_hrs (sim_site w)), w)),
     m_patch_hr = (\<lambda>ns n. sim_patch_hr ns n),
     m_list_secrets = (\<lambda>ns w. (Inr (si_secrets (sim_site w)), w)),
     m_del_secret = (\<lambda>ns n w. (Some conflict, w))\<rparr>"

definition sim_patch_finalizers :: "string list \<Rightarrow> sim \<Rightarrow> api_err option \<times> sim" where
  "sim_patch_finalizers fs w = (case sim_svc w of
      None \<Rightarrow> (Some not_found, w)
    | Some svc \<Rightarrow> (None, w\<lparr>sim_svc := if s_deleting svc \<and> fs = [] then None else Some (svc\<lparr>s_finalizers := fs\<rparr>)\<rparr>))"

definition sim_patch_ingress :: "string list \<Rightarrow> sim \<Rightarrow> api_err option \<times> sim" where
  "sim_patch_ingress ips w = (case sim_svc w of
      None \<Rightarrow> (Some not_found, w) | Some svc \<Rightarrow> (None, w\<lparr>sim_svc := Some (svc\<lparr>s_ingress := ips\<rparr>)\<rparr>))"

definition sim_env :: "sim env" where
  "sim_env = \<lparr>
     octavia = sim_octavia,
     neutron = sim_neutron,
     nova = \<lparr>v_list_servers = (\<lambda>c w. ([Inr []], w)), v_del_server = (\<lambda>c i w. (Some not_found, w))\<rparr>,
     keystone = \<lparr>k_authenticate = (\<lambda>c w. (None, w)), k_octavia = (\<lambda>r w. (None, w)),
        k_neutron = (\<lambda>r w. (None, w)), k_nova = (\<lambda>r w. (None, w))\<rparr>,
     mgmt = sim_mgmt,
     tenants = \<lparr>t_get_svc = (\<lambda>t ns n w. (case sim_svc w of None \<Rightarrow> Inl not_found | Some s \<Rightarrow> Inr s, w)),
        t_patch_finalizers = (\<lambda>t ns n. sim_patch_finalizers), t_patch_ingress = (\<lambda>t ns n. sim_patch_ingress)\<rparr>,
     map_seed = (\<lambda>w. ([], w))\<rparr>"

lemmas sim_env_defs = sim_env_def sim_octavia_def sim_neutron_def sim_mgmt_def

section \<open>A tenant and its Service\<close>

definition sim_creds :: credentials where
  "sim_creds = \<lparr>cr_auth_url = ''https://keystone'', cr_region = ''r1'', cr_id = ''id'', cr_secret = ''s''\<rparr>"

definition sim_clients :: clients where
  "sim_clients = \<lparr>cl_creds = sim_creds, cl_compute = True\<rparr>"

definition sim_service :: service where
  "sim_service = \<lparr>s_ns = ''default'', s_name = ''web'', s_type = ''LoadBalancer'', s_finalizers = [],
     s_deleting = False,
     s_ports = [\<lparr>p_name = ''http'', p_port = 80, p_nodeport = 30080, p_proto = ''TCP''\<rparr>],
     s_ingress = [], s_external_ips = [], s_labels = Map.empty, s_annots = Map.empty\<rparr>"

definition sim_start :: "sim \<Rightarrow> (sim, event) st" where
  "sim_start w = \<lparr>world = w, trace = []\<rparr>"

end
