(* ===== verification/Converge.thy ===== *)
theory Converge
  imports LoadBalancer
begin

text \<open>
  Repeated passes of \<^const>\<open>sync_listeners_and_members\<close> bring a load balancer to the Service's
  ports and the workers' addresses: against an Octavia that does what it documents, each
  pass that changes something lowers a cost, and a pass that changes nothing finds the
  balancer in place.
\<close>

section \<open>Member drift\<close>

definition members_in_place :: "member list \<Rightarrow> int \<Rightarrow> string list \<Rightarrow> string \<Rightarrow> bool" where
  "members_in_place ms nodeport ips subnet \<longleftrightarrow>
     set ms = (\<lambda>ip. \<lparr>mb_addr = ip, mb_port = nodeport, mb_subnet = subnet\<rparr>) ` set ips"

lemma current_build: "fold (\<lambda>m. AList.update (mb_addr m) m) ms [] = map_build (\<lambda>_. True) mb_addr (\<lambda>m. m) ms"
  by (simp add: map_build_def)

lemma desired_build: "fold (\<lambda>ip. AList.update ip ()) ips [] = map_build (\<lambda>_. True) (\<lambda>ip. ip) (\<lambda>_. ()) ips"
  by (simp add: map_build_def)

lemma length_map_build: "length (map_build P kf vf xs) = card (kf ` {x \<in> set xs. P x})"
proof -
  have "length (map_build P kf vf xs) = card (fst ` set (map_build P kf vf xs))"
    by (metis distinct_card distinct_map_build length_map set_map)
  then show ?thesis by (simp only: dom_map_of_conv_image_fst [symmetric] map_build_dom)
qed

lemma no_drift_iff:
  "\<not> member_drift ms nodeport ips subnet \<longleftrightarrow>
     mb_addr ` set ms = set ips \<and>
     (\<forall>ip m. map_of (map_build (\<lambda>_. True) mb_addr (\<lambda>m. m) ms) ip = Some m \<longrightarrow>
        mb_port m = nodeport \<and> mb_subnet m = subnet)"
proof -
  let ?cur = "map_build (\<lambda>_. True) mb_addr (\<lambda>m. m) ms"
  let ?des = "map_build (\<lambda>_. True) (\<lambda>ip. ip) (\<lambda>_. ()) ips"
  have des: "fst ` set ?des = set ips"
    using map_build_dom [of "\<lambda>_. True" "\<lambda>ip. ip" "\<lambda>_. ()" ips]
    by (simp add: dom_map_of_conv_image_fst)
  have cur: "dom (map_of ?cur) = mb_addr ` set ms"
    by (simp add: map_build_dom)
  have ex: "list_ex (\<lambda>(ip, _). case map_of ?cur ip of None \<Rightarrow> True | Some c \<Rightarrow> mb_port c \<noteq> nodeport \<or> mb_subnet c \<noteq> subnet) ?des
    \<longleftrightarrow> (\<exists>ip \<in> set ips. case map_of ?cur ip of None \<Rightarrow> True | Some c \<Rightarrow> mb_port c \<noteq> nodeport \<or> mb_subnet c \<noteq> subnet)"
    unfolding list_ex_iff des [symmetric] by (auto simp: case_prod_beta; force)
  have len: "length ?cur = length ?des \<longleftrightarrow> card (mb_addr ` set ms) = card (set ips)"
    by (simp add: length_map_build)
  have sub: "(\<forall>ip \<in> set ips. map_of ?cur ip \<noteq> None) \<longleftrightarrow> set ips \<subseteq> mb_addr ` set ms"
    unfolding cur [symmetric] by blast
  show ?thesis
  proof
    assume nd: "\<not> member_drift ms nodeport ips subnet"
    then have c: "card (mb_addr ` set ms) = card (set ips)"
      and all: "\<forall>ip \<in> set ips. \<exists>m. map_of ?cur ip = Some m \<and> mb_port m = nodeport \<and> mb_subnet m = subnet"
      unfolding member_drift_def Let_def current_build desired_build ex
      by (auto simp: len split: if_splits option.splits)
    from all sub have "set ips \<subseteq> mb_addr ` set ms" by blast
    with c have eq: "mb_addr ` set ms = set ips"
      by (metis List.finite_set card_subset_eq finite_imageI)
    with all cur show "mb_addr ` set ms = set ips \<and> (\<forall>ip m. map_of ?cur ip = Some m \<longrightarrow>
        mb_port m = nodeport \<and> mb_subnet m = subnet)"
      by (metis domI option.inject)
  next
    assume "mb_addr ` set ms = set ips \<and> (\<forall>ip m. map_of ?cur ip = Some m \<longrightarrow>
        mb_port m = nodeport \<and> mb_subnet m = subnet)"
    with sub show "\<not> member_drift ms nodeport ips subnet"
      unfolding member_drift_def Let_def current_build desired_build ex
      by (auto simp: length_map_build split: option.splits)
  qed
qed

text \<open>With one member per address the check is exact.\<close>

lemma drift_exact:
  assumes "distinct (map mb_addr ms)"
  shows "member_drift ms nodeport ips subnet \<longleftrightarrow> \<not> members_in_place ms nodeport ips subnet"
proof -
  let ?cur = "map_build (\<lambda>_. True) mb_addr (\<lambda>m. m) ms"
  have cur: "map_of ?cur ip = Some m \<longleftrightarrow> m \<in> set ms \<and> mb_addr m = ip" for ip m
  proof
    assume "m \<in> set ms \<and> mb_addr m = ip"
    moreover have "map_of ?cur (mb_addr m) = Some m" if "m \<in> set ms"
      by (rule map_build_unique [OF that])
         (use assms that in \<open>auto simp: distinct_map inj_on_def\<close>)
    ultimately show "map_of ?cur ip = Some m" by blast
  qed (auto dest: map_build_mem)
  have eta: "m = \<lparr>mb_addr = mb_addr m, mb_port = nodeport, mb_subnet = subnet\<rparr> \<longleftrightarrow>
    mb_port m = nodeport \<and> mb_subnet m = subnet" for m :: member
    by (metis member.surjective member.select_convs old.unit.exhaust)
  have "members_in_place ms nodeport ips subnet \<longleftrightarrow>
     mb_addr ` set ms = set ips \<and> (\<forall>m \<in> set ms. mb_port m = nodeport \<and> mb_subnet m = subnet)"
    unfolding members_in_place_def
  proof safe
    fix m assume "mb_addr ` set ms = set ips" "\<forall>m \<in> set ms. mb_port m = nodeport \<and> mb_subnet m = subnet" "m \<in> set ms"
    then show "m \<in> (\<lambda>ip. \<lparr>mb_addr = ip, mb_port = nodeport, mb_subnet = subnet\<rparr>) ` set ips"
      using eta [of m] by (metis imageI image_eqI)
  next
    fix ip assume *: "mb_addr ` set ms = set ips" "\<forall>m \<in> set ms. mb_port m = nodeport \<and> mb_subnet m = subnet" "ip \<in> set ips"
    then obtain m where "m \<in> set ms" "mb_addr m = ip" by (metis imageE)
    with * eta [of m] show "\<lparr>mb_addr = ip, mb_port = nodeport, mb_subnet = subnet\<rparr> \<in> set ms" by metis
  qed (auto simp: image_iff)
  with no_drift_iff [of ms nodeport ips subnet] cur show ?thesis by auto
qed

lemma drift_update:
  assumes "set ms = (\<lambda>ip. \<lparr>mb_addr = ip, mb_port = nodeport, mb_subnet = subnet\<rparr>) ` set ips"
  shows "\<not> member_drift ms nodeport ips subnet"
  unfolding no_drift_iff using assms
  by (auto simp: image_image dest!: map_build_mem)

section \<open>What Octavia promises\<close>

text \<open>
  The listeners, pools and members of one balancer as the calls see them, and the
  documented effect of each call on them. Deleting a listener may take pools that no other
  listener uses with it.
\<close>

record lb_view =
  vw_listeners :: "listener list"
  vw_pools :: "pool list"
  vw_members :: "string \<Rightarrow> member list"

text \<open>
  \<open>W\<close> is what else of the world the pass must not disturb, \<open>R\<close> says when the balancer accepts
  a change (Octavia answers 409 to a change of a balancer that is not active), and \<open>M\<close> what a
  change does to \<open>W\<close>. A law on a change speaks of a listener or pool of this balancer only.
\<close>

definition view_reads :: "'w env \<Rightarrow> clients \<Rightarrow> string \<Rightarrow> ('w \<Rightarrow> lb_view) \<Rightarrow> ('w \<Rightarrow> 'x) \<Rightarrow> bool" where
  "view_reads E c lbid V W \<longleftrightarrow>
     (\<forall>w. V (snd (o_list_listeners (octavia E) c lbid w)) = V w \<and> W (snd (o_list_listeners (octavia E) c lbid w)) = W w \<and>
        (\<forall>xs. pages_items (fst (o_list_listeners (octavia E) c lbid w)) = Inr xs \<longrightarrow> xs = vw_listeners (V w))) \<and>
     (\<forall>w. V (snd (o_list_pools (octavia E) c lbid w)) = V w \<and> W (snd (o_list_pools (octavia E) c lbid w)) = W w \<and>
        (\<forall>P r. pages_find P (fst (o_list_pools (octavia E) c lbid w)) = Inr r \<longrightarrow> r = find P (vw_pools (V w)))) \<and>
     (\<forall>i w. V (snd (o_list_members (octavia E) c i w)) = V w \<and> W (snd (o_list_members (octavia E) c i w)) = W w \<and>
        (\<forall>xs. pages_items (fst (o_list_members (octavia E) c i w)) = Inr xs \<longrightarrow> xs = vw_members (V w) i)) \<and>
     (\<forall>w. V (snd (map_seed E w)) = V w \<and> W (snd (map_seed E w)) = W w)"

definition view_creates ::
  "'w env \<Rightarrow> clients \<Rightarrow> string \<Rightarrow> ('w \<Rightarrow> lb_view) \<Rightarrow> ('w \<Rightarrow> bool) \<Rightarrow> ('w \<Rightarrow> 'w \<Rightarrow> bool) \<Rightarrow> bool" where
  "view_creates E c lbid V R M \<longleftrightarrow>
     (\<forall>opts w l. R w \<and> lso_lb opts = lbid \<and> fst (o_create_listener (octavia E) c opts w) = Inr l \<longrightarrow>
        V (snd (o_create_listener (octavia E) c opts w)) =
          (V w)\<lparr>vw_listeners := vw_listeners (V w) @ [l]\<rparr> \<and> ls_name l = lso_name opts \<and>
        ls_id l \<notin> ls_id ` set (vw_listeners (V w)) \<and>
        ls_id l \<notin> \<Union> ((\<lambda>q. set (pl_listeners q)) ` set (vw_pools (V w))) \<and>
        M w (snd (o_create_listener (octavia E) c opts w))) \<and>
     (\<forall>opts w q. R w \<and> po_listener opts \<in> ls_id ` set (vw_listeners (V w)) \<and>
          fst (o_create_pool (octavia E) c opts w) = Inr q \<longrightarrow>
        V (snd (o_create_pool (octavia E) c opts w)) = (V w)\<lparr>vw_pools := vw_pools (V w) @ [q]\<rparr> \<and>
        pl_listeners q = [po_listener opts] \<and> pl_id q \<notin> pl_id ` set (vw_pools (V w)) \<and>
        M w (snd (o_create_pool (octavia E) c opts w)))"

definition view_changes ::
  "'w env \<Rightarrow> clients \<Rightarrow> ('w \<Rightarrow> lb_view) \<Rightarrow> ('w \<Rightarrow> bool) \<Rightarrow> ('w \<Rightarrow> 'w \<Rightarrow> bool) \<Rightarrow> bool" where
  "view_changes E c V R M \<longleftrightarrow>
     (\<forall>i w. R w \<and> i \<in> ls_id ` set (vw_listeners (V w)) \<and> fst (o_del_listener (octavia E) c i w) = None \<longrightarrow>
        (\<exists>K. V (snd (o_del_listener (octavia E) c i w)) =
              (V w)\<lparr>vw_listeners := filter (\<lambda>l. ls_id l \<noteq> i) (vw_listeners (V w)),
                    vw_pools := filter K (vw_pools (V w))\<rparr> \<and>
             (\<forall>q l. l \<in> set (pl_listeners q) \<and> l \<noteq> i \<longrightarrow> K q)) \<and>
        M w (snd (o_del_listener (octavia E) c i w))) \<and>
     (\<forall>i ms w. R w \<and> i \<in> pl_id ` set (vw_pools (V w)) \<and> fst (o_set_members (octavia E) c i ms w) = None \<longrightarrow>
        (\<exists>ms'. V (snd (o_set_members (octavia E) c i ms w)) =
              (V w)\<lparr>vw_members := (vw_members (V w))(i := ms')\<rparr> \<and>
             set ms' = (\<lambda>m. \<lparr>mb_addr = mo_addr m, mb_port = mo_port m, mb_subnet = mo_subnet m\<rparr>) ` set ms) \<and>
        M w (snd (o_set_members (octavia E) c i ms w)))"

definition octavia_view ::
  "'w env \<Rightarrow> clients \<Rightarrow> string \<Rightarrow> ('w \<Rightarrow> lb_view) \<Rightarrow> ('w \<Rightarrow> 'x) \<Rightarrow> ('x \<Rightarrow> bool) \<Rightarrow> ('x \<Rightarrow> 'x \<Rightarrow> bool) \<Rightarrow> bool" where
  "octavia_view E c lbid V W R M \<longleftrightarrow>
     view_reads E c lbid V W \<and> view_creates E c lbid V (\<lambda>w. R (W w)) (\<lambda>w w'. M (W w) (W w')) \<and>
     view_changes E c V (\<lambda>w. R (W w)) (\<lambda>w w'. M (W w) (W w'))"

text \<open>The calls do not fail, except for a change that the balancer does not accept.\<close>

definition octavia_ready ::
  "'w env \<Rightarrow> clients \<Rightarrow> string \<Rightarrow> ('w \<Rightarrow> lb_view) \<Rightarrow> ('w \<Rightarrow> 'x) \<Rightarrow> ('x \<Rightarrow> bool) \<Rightarrow> bool" where
  "octavia_ready E c lbid V W R \<longleftrightarrow>
     (\<forall>w. \<exists>xs. pages_items (fst (o_list_listeners (octavia E) c lbid w)) = Inr xs) \<and>
     (\<forall>P w. \<exists>r. pages_find P (fst (o_list_pools (octavia E) c lbid w)) = Inr r) \<and>
     (\<forall>i w. \<exists>xs. pages_items (fst (o_list_members (octavia E) c i w)) = Inr xs) \<and>
     (\<forall>opts w. R (W w) \<and> lso_lb opts = lbid \<longrightarrow> (\<exists>l. fst (o_create_listener (octavia E) c opts w) = Inr l)) \<and>
     (\<forall>opts w. R (W w) \<and> po_listener opts \<in> ls_id ` set (vw_listeners (V w)) \<longrightarrow>
        (\<exists>q. fst (o_create_pool (octavia E) c opts w) = Inr q)) \<and>
     (\<forall>i w. R (W w) \<and> i \<in> ls_id ` set (vw_listeners (V w)) \<longrightarrow> fst (o_del_listener (octavia E) c i w) = None) \<and>
     (\<forall>i ms w. R (W w) \<and> i \<in> pl_id ` set (vw_pools (V w)) \<longrightarrow> fst (o_set_members (octavia E) c i ms w) = None)"

text \<open>Ids are unique, and a pool serves one listener.\<close>

definition view_ok :: "lb_view \<Rightarrow> bool" where
  "view_ok v \<longleftrightarrow> distinct (map ls_id (vw_listeners v)) \<and> distinct (map pl_id (vw_pools v)) \<and>
     (\<forall>q \<in> set (vw_pools v). \<forall>x \<in> set (pl_listeners q). \<forall>y \<in> set (pl_listeners q). x = y)"

section \<open>The cost of a balancer\<close>

definition listener_of :: "lb_view \<Rightarrow> string \<Rightarrow> listener option" where
  "listener_of v n = map_of (fold (\<lambda>l. AList.update (ls_name l) l) (vw_listeners v) []) n"

definition pool_of :: "lb_view \<Rightarrow> string \<Rightarrow> pool option" where
  "pool_of v i = find (\<lambda>q. list_ex (\<lambda>l. l = i) (pl_listeners q)) (vw_pools v)"

definition port_cost :: "lb_view \<Rightarrow> string list \<Rightarrow> string \<Rightarrow> svc_port \<Rightarrow> nat" where
  "port_cost v ips subnet p =
     (case listener_of v (listener_name p) of
        None \<Rightarrow> 3
      | Some l \<Rightarrow> (case pool_of v (ls_id l) of
            None \<Rightarrow> 2
          | Some q \<Rightarrow> if member_drift (vw_members v (pl_id q)) (p_nodeport p) ips subnet then 1 else 0))"

definition stale_cost :: "lb_view \<Rightarrow> string set \<Rightarrow> nat" where
  "stale_cost v keep = length (filter (\<lambda>l. ls_name l \<notin> keep) (vw_listeners v))"

definition cost :: "lb_view \<Rightarrow> string list \<Rightarrow> string \<Rightarrow> svc_port list \<Rightarrow> nat" where
  "cost v ips subnet ports =
     sum_list (map (port_cost v ips subnet) ports) + stale_cost v (listener_name ` set ports)"

lemma listener_of_append:
  "listener_of (v\<lparr>vw_listeners := vw_listeners v @ [l]\<rparr>) n = (if n = ls_name l then Some l else listener_of v n)"
  by (simp add: listener_of_def)

lemma listener_of_build: "listener_of v = map_of (map_build (\<lambda>_. True) ls_name (\<lambda>l. l) (vw_listeners v))"
  by (simp add: listener_of_def map_build_def fun_eq_iff)

lemma listener_of_Some: "listener_of v n = Some l \<Longrightarrow> l \<in> set (vw_listeners v) \<and> ls_name l = n"
  unfolding listener_of_build by (drule map_build_Some) simp

lemma listener_of_view [simp]:
  "listener_of (v\<lparr>vw_pools := ps\<rparr>) = listener_of v" "listener_of (v\<lparr>vw_members := ms\<rparr>) = listener_of v"
  by (simp_all add: listener_of_def fun_eq_iff)

lemma pool_of_view [simp]:
  "pool_of (v\<lparr>vw_listeners := ls\<rparr>) = pool_of v" "pool_of (v\<lparr>vw_members := ms\<rparr>) = pool_of v"
  by (simp_all add: pool_of_def fun_eq_iff)

lemma pool_of_Some: "pool_of v i = Some q \<Longrightarrow> q \<in> set (vw_pools v) \<and> i \<in> set (pl_listeners q)"
  by (auto simp: pool_of_def find_Some_iff list_ex_iff)

lemma pool_of_None: "pool_of v i = None \<longleftrightarrow> (\<forall>q \<in> set (vw_pools v). i \<notin> set (pl_listeners q))"
  by (auto simp: pool_of_def find_None_iff list_ex_iff)

lemma find_append: "find P (xs @ ys) = (case find P xs of None \<Rightarrow> find P ys | Some x \<Rightarrow> Some x)"
  by (induction xs) auto

lemma pool_of_append:
  "pool_of (v\<lparr>vw_pools := vw_pools v @ [q]\<rparr>) i =
     (case pool_of v i of Some r \<Rightarrow> Some r | None \<Rightarrow> if i \<in> set (pl_listeners q) then Some q else None)"
  by (simp add: pool_of_def find_append list_ex_iff Bex_def split: option.splits)

section \<open>One pass lowers the cost\<close>

lemma other_pool:
  assumes ok: "view_ok v" and l: "pool_of v i = Some q" and l': "pool_of v j = Some q'" and "i \<noteq> j"
  shows "pl_id q \<noteq> pl_id q'"
proof
  assume "pl_id q = pl_id q'"
  with pool_of_Some [OF l] pool_of_Some [OF l'] ok have "q = q'"
    unfolding view_ok_def distinct_map inj_on_def by blast
  with pool_of_Some [OF l] pool_of_Some [OF l'] ok \<open>i \<noteq> j\<close> show False
    unfolding view_ok_def by blast
qed

lemma other_listener:
  assumes "view_ok v" "listener_of v m = Some l" "listener_of v n = Some l'" "m \<noteq> n"
  shows "ls_id l \<noteq> ls_id l'"
  using assms listener_of_Some [OF assms(2)] listener_of_Some [OF assms(3)]
  unfolding view_ok_def distinct_map inj_on_def by blast

text \<open>The effect of each mutation of a pass on the cost of the ports.\<close>

definition improves :: "lb_view \<Rightarrow> lb_view \<Rightarrow> string list \<Rightarrow> string \<Rightarrow> svc_port \<Rightarrow> bool" where
  "improves v v' ips subnet p \<longleftrightarrow> view_ok v' \<and>
     port_cost v' ips subnet p < port_cost v ips subnet p \<and>
     (\<forall>p'. listener_name p' \<noteq> listener_name p \<longrightarrow> port_cost v' ips subnet p' = port_cost v ips subnet p') \<and>
     (\<forall>keep. listener_name p \<in> keep \<longrightarrow> stale_cost v' keep = stale_cost v keep)"

lemma improve_listener:
  assumes "view_ok v" and new: "listener_of v (listener_name p) = None"
    and "ls_name l = listener_name p" "ls_id l \<notin> ls_id ` set (vw_listeners v)"
    and fresh: "ls_id l \<notin> \<Union> ((\<lambda>q. set (pl_listeners q)) ` set (vw_pools v))"
  shows "improves v (v\<lparr>vw_listeners := vw_listeners v @ [l]\<rparr>) ips subnet p"
proof -
  from fresh have "pool_of v (ls_id l) = None" by (auto simp: pool_of_None)
  with assms show ?thesis
    by (auto simp: improves_def view_ok_def port_cost_def listener_of_append stale_cost_def cong: option.case_cong)
qed

lemma improve_pool:
  assumes ok: "view_ok v" and l: "listener_of v (listener_name p) = Some l" and none: "pool_of v (ls_id l) = None"
    and q: "pl_listeners q = [ls_id l]" "pl_id q \<notin> pl_id ` set (vw_pools v)"
  shows "improves v (v\<lparr>vw_pools := vw_pools v @ [q]\<rparr>) ips subnet p"
proof -
  have "port_cost (v\<lparr>vw_pools := vw_pools v @ [q]\<rparr>) ips subnet p' = port_cost v ips subnet p'"
    if "listener_name p' \<noteq> listener_name p" for p'
    using other_listener [OF ok l] that q(1)
    by (auto simp: port_cost_def pool_of_append split: option.splits; metis)
  with assms show ?thesis
    by (auto simp: improves_def view_ok_def port_cost_def pool_of_append stale_cost_def)
qed

lemma improve_members:
  assumes ok: "view_ok v" and l: "listener_of v (listener_name p) = Some l" and q: "pool_of v (ls_id l) = Some q"
    and drift: "member_drift (vw_members v (pl_id q)) (p_nodeport p) ips subnet"
    and ms: "\<not> member_drift ms (p_nodeport p) ips subnet"
  shows "improves v (v\<lparr>vw_members := (vw_members v)(pl_id q := ms)\<rparr>) ips subnet p"
proof -
  have "port_cost (v\<lparr>vw_members := (vw_members v)(pl_id q := ms)\<rparr>) ips subnet p' = port_cost v ips subnet p'"
    if "listener_name p' \<noteq> listener_name p" for p'
    using other_listener [OF ok l] other_pool [OF ok q] that
    by (auto simp: port_cost_def split: option.splits; metis)
  with assms show ?thesis
    by (auto simp: improves_def view_ok_def port_cost_def stale_cost_def)
qed

lemma wp_find_pool:
  assumes "octavia_view E c lbid V W R M"
    and "\<And>s'. V (world s') = V (world s) \<Longrightarrow> W (world s') = W (world s) \<Longrightarrow> Q (Inr (pool_of (V (world s)) i)) s'"
    and "\<And>e s'. \<not> octavia_ready E c lbid V W R \<Longrightarrow> Q (Inl e) s'"
  shows "wp (find_pool_for_listener E c lbid i) Q s"
proof -
  obtain pg w where r: "o_list_pools (octavia E) c lbid (world s) = (pg, w)" by fastforce
  let ?P = "\<lambda>q. list_ex (\<lambda>l. l = i) (pl_listeners q)"
  have "V w = V (world s)" "W w = W (world s)" and "\<And>x. pages_find ?P pg = Inr x \<Longrightarrow> x = pool_of (V (world s)) i"
    using assms(1) r unfolding octavia_view_def view_reads_def pool_of_def by (metis fst_conv snd_conv)+
  moreover have "pages_find ?P pg = Inl e \<Longrightarrow> \<not> octavia_ready E c lbid V W R" for e
    using r unfolding octavia_ready_def by (metis Inl_Inr_False fst_conv)
  ultimately show ?thesis
    using assms(2,3) by (auto simp: find_pool_for_listener_def wp_call_find r split: sum.splits)
qed

lemma wp_list_members:
  assumes "octavia_view E c lbid V W R M"
    and "\<And>s'. V (world s') = V (world s) \<Longrightarrow> W (world s') = W (world s) \<Longrightarrow> Q (Inr (vw_members (V (world s)) i)) s'"
    and "\<And>e s'. \<not> octavia_ready E c lbid V W R \<Longrightarrow> Q (Inl e) s'"
  shows "wp (list_members_items E c i) Q s"
proof -
  obtain pg w where r: "o_list_members (octavia E) c i (world s) = (pg, w)" by fastforce
  have "V w = V (world s)" "W w = W (world s)" and "\<And>x. pages_items pg = Inr x \<Longrightarrow> x = vw_members (V (world s)) i"
    using assms(1) r unfolding octavia_view_def view_reads_def by (metis fst_conv snd_conv)+
  moreover have "pages_items pg = Inl e \<Longrightarrow> \<not> octavia_ready E c lbid V W R" for e
    using r unfolding octavia_ready_def by (metis Inl_Inr_False fst_conv)
  ultimately show ?thesis
    using assms(2,3) by (auto simp: wp_call_items r split: sum.splits)
qed

lemma wp_post_listener:
  fixes E :: "'w env"
  assumes "octavia_view E c lbid V W R M" "lso_lb opts = lbid" "R (W (world s))"
    and "\<And>s' l. V (world s') = (V (world s))\<lparr>vw_listeners := vw_listeners (V (world s)) @ [l]\<rparr> \<Longrightarrow>
        ls_name l = lso_name opts \<Longrightarrow> ls_id l \<notin> ls_id ` set (vw_listeners (V (world s))) \<Longrightarrow>
        ls_id l \<notin> \<Union> ((\<lambda>q. set (pl_listeners q)) ` set (vw_pools (V (world s)))) \<Longrightarrow>
        M (W (world s)) (W (world s')) \<Longrightarrow> Q (Inr l) s'"
    and "\<And>e s'. \<not> octavia_ready E c lbid V W R \<Longrightarrow> Q (Inl e) s'"
  shows "wp (post_listener E c opts) Q s"
proof -
  obtain x w where r: "o_create_listener (octavia E) c opts (world s) = (x, w)" by fastforce
  show ?thesis
  proof (cases x)
    case (Inl a)
    then have "\<not> octavia_ready E c lbid V W R"
      using r assms(2,3) unfolding octavia_ready_def by (metis Inl_Inr_False fst_conv)
    with assms(5) show ?thesis by (simp add: wp_call_val r Inl)
  next
    case (Inr l)
    from assms(1) have "view_creates E c lbid V (\<lambda>w. R (W w)) (\<lambda>w w'. M (W w) (W w'))" by (simp add: octavia_view_def)
    from this [unfolded view_creates_def, THEN conjunct1, THEN spec, THEN spec, THEN spec, of "world s" opts l] r Inr
      assms(2,3) have
      "V w = (V (world s))\<lparr>vw_listeners := vw_listeners (V (world s)) @ [l]\<rparr> \<and> ls_name l = lso_name opts \<and>
       ls_id l \<notin> ls_id ` set (vw_listeners (V (world s))) \<and>
       ls_id l \<notin> \<Union> ((\<lambda>q. set (pl_listeners q)) ` set (vw_pools (V (world s)))) \<and> M (W (world s)) (W w)"
      by simp
    with assms(4) show ?thesis by (simp add: wp_call_val r Inr)
  qed
qed

lemma wp_create_pool:
  fixes E :: "'w env"
  assumes "octavia_view E c lbid V W R M" "R (W (world s))" "po_listener opts \<in> ls_id ` set (vw_listeners (V (world s)))"
    and "\<And>s' q. V (world s') = (V (world s))\<lparr>vw_pools := vw_pools (V (world s)) @ [q]\<rparr> \<Longrightarrow>
        pl_listeners q = [po_listener opts] \<Longrightarrow> pl_id q \<notin> pl_id ` set (vw_pools (V (world s))) \<Longrightarrow>
        M (W (world s)) (W (world s')) \<Longrightarrow> Q (Inr q) s'"
    and "\<And>e s'. \<not> octavia_ready E c lbid V W R \<Longrightarrow> Q (Inl e) s'"
  shows "wp (create_pool E c opts) Q s"
proof -
  obtain x w where r: "o_create_pool (octavia E) c opts (world s) = (x, w)" by fastforce
  show ?thesis
  proof (cases x)
    case (Inl a)
    then have "\<not> octavia_ready E c lbid V W R"
      using r assms(2,3) unfolding octavia_ready_def by (metis Inl_Inr_False fst_conv)
    with assms(5) show ?thesis by (simp add: wp_call_val r Inl)
  next
    case (Inr q)
    from assms(1) have "view_creates E c lbid V (\<lambda>w. R (W w)) (\<lambda>w w'. M (W w) (W w'))" by (simp add: octavia_view_def)
    from this [unfolded view_creates_def, THEN conjunct2, THEN spec, THEN spec, THEN spec, of "world s" opts q] r Inr
      assms(2,3) have "V w = (V (world s))\<lparr>vw_pools := vw_pools (V (world s)) @ [q]\<rparr> \<and>
       pl_listeners q = [po_listener opts] \<and> pl_id q \<notin> pl_id ` set (vw_pools (V (world s))) \<and> M (W (world s)) (W w)"
      by simp
    with assms(4) show ?thesis by (simp add: wp_call_val r Inr)
  qed
qed

lemma wp_set_members:
  fixes E :: "'w env"
  assumes "octavia_view E c lbid V W R M" "R (W (world s))" "i \<in> pl_id ` set (vw_pools (V (world s)))"
    and "\<And>s' ms'. V (world s') = (V (world s))\<lparr>vw_members := (vw_members (V (world s)))(i := ms')\<rparr> \<Longrightarrow>
        set ms' = (\<lambda>m. \<lparr>mb_addr = mo_addr m, mb_port = mo_port m, mb_subnet = mo_subnet m\<rparr>) ` set ms \<Longrightarrow>
        M (W (world s)) (W (world s')) \<Longrightarrow> Q (Inr ()) s'"
    and "\<And>e s'. \<not> octavia_ready E c lbid V W R \<Longrightarrow> Q (Inl e) s'"
  shows "wp (set_members E c i ms) Q s"
proof -
  obtain x w where r: "o_set_members (octavia E) c i ms (world s) = (x, w)" by fastforce
  show ?thesis
  proof (cases x)
    case (Some a)
    then have "\<not> octavia_ready E c lbid V W R"
      using r assms(2,3) unfolding octavia_ready_def by (metis option.distinct(1) fst_conv)
    with assms(5) show ?thesis by (simp add: wp_call_unit r Some)
  next
    case None
    from assms(1) have "view_changes E c V (\<lambda>w. R (W w)) (\<lambda>w w'. M (W w) (W w'))" by (simp add: octavia_view_def)
    from this [unfolded view_changes_def, THEN conjunct2, THEN spec, THEN spec, THEN spec, of "world s" i ms] r
      None assms(2,3)
    have "\<exists>ms'. V w = (V (world s))\<lparr>vw_members := (vw_members (V (world s)))(i := ms')\<rparr> \<and>
        set ms' = (\<lambda>m. \<lparr>mb_addr = mo_addr m, mb_port = mo_port m, mb_subnet = mo_subnet m\<rparr>) ` set ms"
      "M (W (world s)) (W w)"
      by simp_all
    with assms(4) show ?thesis by (auto simp: wp_call_unit r None)
  qed
qed

definition port_step ::
  "'w env \<Rightarrow> clients \<Rightarrow> string \<Rightarrow> ('w \<Rightarrow> lb_view) \<Rightarrow> ('w \<Rightarrow> 'x) \<Rightarrow> ('x \<Rightarrow> bool) \<Rightarrow>
     ('x \<Rightarrow> 'x \<Rightarrow> bool) \<Rightarrow> lb_view \<Rightarrow> 'x \<Rightarrow>
     string list \<Rightarrow> string \<Rightarrow> svc_port \<Rightarrow> err + bool option \<Rightarrow> ('w, event) st \<Rightarrow> bool" where
  "port_step E c lbid V W R M v z ips subnet p r s' =
     (case r of
        Inl e \<Rightarrow> \<not> octavia_ready E c lbid V W R
      | Inr None \<Rightarrow> V (world s') = v \<and> W (world s') = z \<and> port_cost v ips subnet p = 0
      | Inr (Some y) \<Rightarrow> y \<and> improves v (V (world s')) ips subnet p \<and> M z (W (world s')))"

lemma wp_sync_members:
  fixes E :: "'w env"
  assumes law: "octavia_view E c lbid V W R M" and ok: "view_ok v" and s: "V (world s) = v" "W (world s) = z" and z: "R z"
    and l: "listener_of v (listener_name p) = Some l" and q: "pool_of v (ls_id l) = Some q"
  shows "wp (check m1 (sync_members E c (pl_id q) (p_nodeport p) ips subnet)
      (\<lambda>changed. ret (if changed then Some True else None))) (port_step E c lbid V W R M v z ips subnet p) s"
  (is "wp _ ?Q s")
  unfolding sync_members_def wp_check
proof (rule wp_list_members [OF law])
  fix s2 :: "('w, event) st" assume "V (world s2) = V (world s)" "W (world s2) = W (world s)"
  with s have s2: "V (world s2) = v" "W (world s2) = z" by simp_all
  let ?set = "set_members E c (pl_id q) (map (member_update (p_nodeport p) subnet) ips)"
  have upd: "\<not> member_drift ms' (p_nodeport p) ips subnet"
    if "set ms' = (\<lambda>m. \<lparr>mb_addr = mo_addr m, mb_port = mo_port m, mb_subnet = mo_subnet m\<rparr>) `
        set (map (member_update (p_nodeport p) subnet) ips)" for ms'
    by (rule drift_update) (use that in \<open>simp add: member_update_def image_image\<close>)
  have go: "wp ?set (\<lambda>r s'. case r of Inl e \<Rightarrow> ?Q (Inl (Wrap m1 (Wrap m2 e))) s' | Inr _ \<Rightarrow> ?Q (Inr (Some True)) s') s2"
    if d: "member_drift (vw_members v (pl_id q)) (p_nodeport p) ips subnet" for m2
    by (rule wp_set_members [OF law])
       (use z pool_of_Some [OF q] in \<open>simp_all add: port_step_def s2 improve_members [OF ok l q d] upd\<close>)
  show "case Inr (vw_members (V (world s)) (pl_id q)) of
      Inl e \<Rightarrow> (case Inl (Wrap ''listing pool members'' e) of
          Inl e \<Rightarrow> ?Q (Inl (Wrap m1 e)) s2
        | Inr x \<Rightarrow> wp (ret (if x then Some True else None)) ?Q s2)
    | Inr x \<Rightarrow> wp (if \<not> member_drift x (p_nodeport p) ips subnet then ret False
           else check (''batch-updating pool '' @ pl_id q @ '' members'') ?set (\<lambda>_. ret True))
        (\<lambda>r s'. case r of Inl e \<Rightarrow> ?Q (Inl (Wrap m1 e)) s'
           | Inr x \<Rightarrow> wp (ret (if x then Some True else None)) ?Q s') s2"
    using s2 q l unfolding s(1)
    by (auto simp: wp_ret wp_check port_step_def port_cost_def intro: wp_mono [OF go] split: sum.splits)
qed (simp add: port_step_def)

definition pool_step ::
  "'w env \<Rightarrow> clients \<Rightarrow> string \<Rightarrow> ('w \<Rightarrow> lb_view) \<Rightarrow> ('w \<Rightarrow> 'x) \<Rightarrow> ('x \<Rightarrow> bool) \<Rightarrow>
     ('x \<Rightarrow> 'x \<Rightarrow> bool) \<Rightarrow> lb_view \<Rightarrow> 'x \<Rightarrow> string list \<Rightarrow> string \<Rightarrow> svc_port \<Rightarrow> listener \<Rightarrow>
     err + pool \<times> bool \<Rightarrow> ('w, event) st \<Rightarrow> bool" where
  "pool_step E c lbid V W R M v z ips subnet p l r s' =
     (case r of
        Inl e \<Rightarrow> \<not> octavia_ready E c lbid V W R
      | Inr (q, True) \<Rightarrow> improves v (V (world s')) ips subnet p \<and> M z (W (world s'))
      | Inr (q, False) \<Rightarrow> V (world s') = v \<and> W (world s') = z \<and> pool_of v (ls_id l) = Some q)"

lemma wp_ensure_pool:
  fixes E :: "'w env"
  assumes law: "octavia_view E c lbid V W R M" and ok: "view_ok v" and s: "V (world s) = v" "W (world s) = z" and z: "R z"
    and l: "listener_of v (listener_name p) = Some l"
  shows "wp (ensure_pool E c lbid (ls_id l) p) (pool_step E c lbid V W R M v z ips subnet p l) s"
    (is "wp _ ?Q s")
  unfolding ensure_pool_def wp_bind
proof (rule wp_find_pool [OF law])
  fix s2 :: "('w, event) st" assume "V (world s2) = V (world s)" "W (world s2) = W (world s)"
  with s have s2: "V (world s2) = v" "W (world s2) = z" by simp_all
  show "case Inr (pool_of (V (world s)) (ls_id l)) of
     Inl e \<Rightarrow> ?Q (Inl e) s2
   | Inr x \<Rightarrow> wp (case x of None \<Rightarrow> check ''creating pool'' (create_pool E c
             \<lparr>po_name = ''pool-'' @ ls_id l, po_method = ''SOURCE_IP_PORT'', po_proto = p_proto p,
              po_listener = ls_id l, po_desc = ''Managed by Cozystack loadbalancer-controller''\<rparr>)
           (\<lambda>q. ret (q, True)) | Some q \<Rightarrow> ret (q, False)) ?Q s2"
  proof (cases "pool_of v (ls_id l)")
    case None
    show ?thesis
      by (simp add: s None wp_check, rule wp_create_pool [OF law])
         (use z listener_of_Some [OF l] in \<open>simp_all add: pool_step_def s2 wp_ret improve_pool [OF ok l None]\<close>)
  qed (simp add: pool_step_def s wp_ret s2)
qed (simp add: pool_step_def)

lemma wp_sync_port:
  fixes E :: "'w env"
  assumes law: "octavia_view E c (lb_id b) V W R M" and v: "V (world s) = v" and ok: "view_ok v"
    and z: "W (world s) = z" "R z"
  shows "wp (sync_port E c b (fold (\<lambda>l. AList.update (ls_name l) l) (vw_listeners v) []) ips subnet p)
    (port_step E c (lb_id b) V W R M v z ips subnet p) s"
    (is "wp _ ?Q s")
proof (cases "listener_of v (listener_name p)")
  case None
  then show ?thesis
    unfolding sync_port_def create_listener_def listener_of_def
    by (simp add: wp_check)
       (rule wp_post_listener [OF law],
        use v ok z in \<open>auto simp: port_step_def wp_ret listener_of_def intro!: improve_listener\<close>)
next
  case (Some l)
  have ls: "map_of (fold (\<lambda>l. AList.update (ls_name l) l) (vw_listeners v) []) (listener_name p) = Some l"
    using Some by (simp add: listener_of_def)
  show ?thesis
    unfolding sync_port_def ls option.case wp_check
  proof (rule wp_mono [OF wp_ensure_pool [OF law ok v z Some, of ips subnet]])
    fix r and s' :: "('w, event) st" assume step: "pool_step E c (lb_id b) V W R M v z ips subnet p l r s'"
    show "case r of
        Inl e \<Rightarrow> ?Q (Inl (Wrap (''ensuring pool for listener '' @ listener_name p) e)) s'
      | Inr x \<Rightarrow> wp (case x of (pool, created) \<Rightarrow>
            if created then ret (Some True)
            else check (''syncing members for pool '' @ pl_id pool)
                   (sync_members E c (pl_id pool) (p_nodeport p) ips subnet)
                   (\<lambda>changed. ret (if changed then Some True else None))) ?Q s'"
    proof (cases "\<exists>q. r = Inr (q, False)")
      case True
      then obtain q where r: "r = Inr (q, False)" by blast
      with step have "V (world s') = v" "W (world s') = z" "pool_of v (ls_id l) = Some q" by (simp_all add: pool_step_def)
      from wp_sync_members [OF law ok this(1,2) z(2) Some this(3)] show ?thesis by (simp only: r sum.case prod.case if_False)
    qed (use step in \<open>auto simp: pool_step_def port_step_def wp_ret split: sum.splits bool.splits\<close>)
  qed
qed

section \<open>Stale listeners\<close>

lemma listener_of_last:
  "listener_of v n = (let xs = filter (\<lambda>l. ls_name l = n) (vw_listeners v) in if xs = [] then None else Some (last xs))"
proof -
  have "map_of (fold (\<lambda>l. AList.update (ls_name l) l) ls []) n =
      (let xs = filter (\<lambda>l. ls_name l = n) ls in if xs = [] then None else Some (last xs))" for ls
    by (induction ls rule: rev_induct) (auto simp: Let_def)
  then show ?thesis by (simp add: listener_of_def)
qed

lemma find_filter: "(\<And>x. x \<in> set xs \<Longrightarrow> P x \<Longrightarrow> K x) \<Longrightarrow> find P (filter K xs) = find P xs"
  by (induction xs) auto

lemma drop_keeps_ports:
  assumes ok: "view_ok v" and l: "l \<in> set (vw_listeners v)" "ls_name l \<notin> keep"
    and K: "\<And>q j. j \<in> set (pl_listeners q) \<Longrightarrow> j \<noteq> ls_id l \<Longrightarrow> K q"
    and v': "v' = v\<lparr>vw_listeners := filter (\<lambda>x. ls_id x \<noteq> ls_id l) (vw_listeners v), vw_pools := filter K (vw_pools v)\<rparr>"
  shows "view_ok v' \<and> stale_cost v' keep < stale_cost v keep \<and>
    (\<forall>p. listener_name p \<in> keep \<longrightarrow> port_cost v' ips subnet p = port_cost v ips subnet p)"
proof (intro conjI allI impI)
  show "view_ok v'"
    using ok by (auto simp: v' view_ok_def distinct_map_filter)
  have "stale_cost v' keep = length (filter (\<lambda>x. ls_id x \<noteq> ls_id l) (filter (\<lambda>x. ls_name x \<notin> keep) (vw_listeners v)))"
    unfolding stale_cost_def v' filter_filter by (auto intro!: arg_cong [where f = length] filter_cong)
  also have "\<dots> < stale_cost v keep"
    unfolding stale_cost_def by (rule length_filter_less [of l]) (use l in auto)
  finally show "stale_cost v' keep < stale_cost v keep" .
next
  fix p assume p: "listener_name p \<in> keep"
  have other: "ls_id x \<noteq> ls_id l" if "x \<in> set (vw_listeners v)" "ls_name x = listener_name p" for x
  proof
    assume "ls_id x = ls_id l"
    moreover have "inj_on ls_id (set (vw_listeners v))" using ok by (simp add: view_ok_def distinct_map)
    ultimately have "x = l" using that(1) l(1) by (simp add: inj_onD)
    with that(2) l(2) p show False by simp
  qed
  have "filter (\<lambda>x. ls_name x = listener_name p) (vw_listeners v') = filter (\<lambda>x. ls_name x = listener_name p) (vw_listeners v)"
    using other by (auto simp: v' intro!: filter_cong)
  then have ls: "listener_of v' (listener_name p) = listener_of v (listener_name p)"
    by (simp add: listener_of_last)
  have ps: "pool_of v' (ls_id x) = pool_of v (ls_id x)" if "listener_of v (listener_name p) = Some x" for x
  proof -
    have "ls_id x \<noteq> ls_id l" using listener_of_Some [OF that] other by blast
    then show ?thesis
      unfolding pool_of_def v' by (auto intro!: find_filter K simp: list_ex_iff)
  qed
  have "vw_members v' = vw_members v" by (simp add: v')
  with ls ps show "port_cost v' ips subnet p = port_cost v ips subnet p"
    by (simp add: port_cost_def split: option.splits)
qed

definition drop_step ::
  "'w env \<Rightarrow> clients \<Rightarrow> string \<Rightarrow> ('w \<Rightarrow> lb_view) \<Rightarrow> ('w \<Rightarrow> 'x) \<Rightarrow> ('x \<Rightarrow> bool) \<Rightarrow>
     ('x \<Rightarrow> 'x \<Rightarrow> bool) \<Rightarrow> lb_view \<Rightarrow> 'x \<Rightarrow>
     string list \<Rightarrow> string \<Rightarrow> string set \<Rightarrow> (string \<times> listener) list \<Rightarrow>
     err + bool option \<Rightarrow> ('w, event) st \<Rightarrow> bool" where
  "drop_step E c lbid V W R M v z ips subnet keep nls r s' =
     (case r of
        Inl e \<Rightarrow> \<not> octavia_ready E c lbid V W R
      | Inr None \<Rightarrow> V (world s') = v \<and> W (world s') = z \<and> fst ` set nls \<subseteq> keep
      | Inr (Some x) \<Rightarrow> x \<and> M z (W (world s')) \<and> view_ok (V (world s')) \<and> stale_cost (V (world s')) keep < stale_cost v keep \<and>
          (\<forall>p. listener_name p \<in> keep \<longrightarrow> port_cost (V (world s')) ips subnet p = port_cost v ips subnet p))"

lemma wp_del_listener:
  fixes E :: "'w env"
  assumes "octavia_view E c lbid V W R M" "R (W (world s))" "i \<in> ls_id ` set (vw_listeners (V (world s)))"
    and "\<And>s' K. V (world s') = (V (world s))\<lparr>vw_listeners := filter (\<lambda>l. ls_id l \<noteq> i) (vw_listeners (V (world s))),
                    vw_pools := filter K (vw_pools (V (world s)))\<rparr> \<Longrightarrow>
        (\<And>q l. l \<in> set (pl_listeners q) \<Longrightarrow> l \<noteq> i \<Longrightarrow> K q) \<Longrightarrow>
        M (W (world s)) (W (world s')) \<Longrightarrow> Q (Inr ()) s'"
    and "\<And>e s'. \<not> octavia_ready E c lbid V W R \<Longrightarrow> Q (Inl e) s'"
  shows "wp (del_listener E c i) Q s"
proof -
  obtain x w where r: "o_del_listener (octavia E) c i (world s) = (x, w)" by fastforce
  show ?thesis
  proof (cases x)
    case (Some a)
    then have "\<not> octavia_ready E c lbid V W R"
      using r assms(2,3) unfolding octavia_ready_def by (metis option.distinct(1) fst_conv)
    with assms(5) show ?thesis by (simp add: wp_call_unit r Some)
  next
    case None
    from assms(1) have "view_changes E c V (\<lambda>w. R (W w)) (\<lambda>w w'. M (W w) (W w'))" by (simp add: octavia_view_def)
    from this [unfolded view_changes_def, THEN conjunct1, THEN spec, THEN spec, of "world s" i] r None assms(2,3)
    obtain K where "V w = (V (world s))\<lparr>vw_listeners := filter (\<lambda>l. ls_id l \<noteq> i) (vw_listeners (V (world s))),
                    vw_pools := filter K (vw_pools (V (world s)))\<rparr>"
      "\<forall>q l. l \<in> set (pl_listeners q) \<and> l \<noteq> i \<longrightarrow> K q" "M (W (world s)) (W w)" by auto
    then show ?thesis
      by (simp only: wp_call_unit r None prod.case option.case) (rule assms(4) [of _ K], auto)
  qed
qed

lemma wp_drop_stale:
  fixes E :: "'w env"
  assumes law: "octavia_view E c lbid V W R M" and ok: "view_ok v" and v: "V (world s) = v" "W (world s) = z"
    and rz: "R z"
    and nls: "\<And>n l. (n, l) \<in> set nls \<Longrightarrow> l \<in> set (vw_listeners v) \<and> ls_name l = n"
  shows "wp (foreach_until nls (drop_listener E c keep)) (drop_step E c lbid V W R M v z ips subnet (set keep) nls) s"
  using nls v
proof (induction nls arbitrary: s)
  case Nil
  then show ?case by (simp add: wp_ret drop_step_def)
next
  case (Cons nl nls)
  obtain n l where nl: "nl = (n, l)" by fastforce
  with Cons.prems have l: "l \<in> set (vw_listeners v)" "ls_name l = n" and s: "V (world s) = v" "W (world s) = z"
    by auto
  show ?case
  proof (cases "n \<in> set keep")
    case True
    have "wp (foreach_until nls (drop_listener E c keep)) (drop_step E c lbid V W R M v z ips subnet (set keep) nls) s"
      by (rule Cons.IH) (use Cons.prems in auto)
    moreover have "drop_listener E c keep (n, l) = ret None"
      by (simp add: drop_listener_def True)
    ultimately show ?thesis
      by (simp add: nl wp_bind wp_ret)
         (erule wp_mono, use True in \<open>auto simp: drop_step_def split: sum.splits option.splits\<close>)
  next
    case False
    with l have n: "ls_name l \<notin> set keep" by simp
    let ?msg = "''deleting stale listener '' @ ls_id l"
    let ?Q = "drop_step E c lbid V W R M v z ips subnet (set keep) ((n, l) # nls)"
    let ?rest = "\<lambda>(r :: err + bool option) (s' :: ('w, event) st). case r of
        Inl e \<Rightarrow> ?Q (Inl e) s'
      | Inr x \<Rightarrow> wp (case x of None \<Rightarrow> foreach_until nls (drop_listener E c keep) | Some y \<Rightarrow> ret (Some y)) ?Q s'"
    let ?after = "\<lambda>(r :: err + unit) (s' :: ('w, event) st). case r of
        Inl e \<Rightarrow> ?rest (Inl (Wrap ?msg e)) s' | Inr x \<Rightarrow> wp (ret (Some True)) ?rest s'"
    have dl: "drop_listener E c keep (n, l) = check ?msg (del_listener E c (ls_id l)) (\<lambda>_. ret (Some True))"
      using False by (simp add: drop_listener_def)
    show ?thesis
      unfolding nl foreach_until.simps wp_bind dl wp_check
    proof (rule wp_del_listener [OF law])
      show "R (W (world s))" "ls_id l \<in> ls_id ` set (vw_listeners (V (world s)))" using rz s l(1) by auto
    next
      fix s' :: "('w, event) st" and K
      assume s': "V (world s') = (V (world s))\<lparr>vw_listeners := filter (\<lambda>x. ls_id x \<noteq> ls_id l) (vw_listeners (V (world s))),
          vw_pools := filter K (vw_pools (V (world s)))\<rparr>"
        and K: "\<And>q j. j \<in> set (pl_listeners q) \<Longrightarrow> j \<noteq> ls_id l \<Longrightarrow> K q"
      assume "M (W (world s)) (W (world s'))"
      with drop_keeps_ports [OF ok l(1) n K s' [unfolded s(1)]] s(2)
      have "drop_step E c lbid V W R M v z ips subnet (set keep) ((n, l) # nls) (Inr (Some True)) s'"
        by (simp add: drop_step_def)
      then show "?after (Inr ()) s'" by (simp add: wp_ret)
    next
      fix e and s' :: "('w, event) st"
      assume "\<not> octavia_ready E c lbid V W R"
      then show "?after (Inl e) s'" by (simp add: drop_step_def)
    qed
  qed
qed

section \<open>A pass, and repeated passes\<close>

lemma wp_sync_ports:
  fixes E :: "'w env"
  assumes law: "octavia_view E c (lb_id b) V W R M" and ok: "view_ok v" and v: "V (world s) = v" "W (world s) = z"
    and rz: "R z"
  shows "wp (foreach_until ports
      (sync_port E c b (fold (\<lambda>l. AList.update (ls_name l) l) (vw_listeners v) []) ips subnet))
    (\<lambda>r s'. case r of
       Inl e \<Rightarrow> \<not> octavia_ready E c (lb_id b) V W R
     | Inr None \<Rightarrow> V (world s') = v \<and> W (world s') = z \<and> list_all (\<lambda>p. port_cost v ips subnet p = 0) ports
     | Inr (Some y) \<Rightarrow> y \<and> M z (W (world s')) \<and> list_ex (\<lambda>p. improves v (V (world s')) ips subnet p) ports) s"
  using v
proof (induction ports arbitrary: s)
  case Nil
  then show ?case by (simp add: wp_ret)
next
  case (Cons p ports)
  let ?f = "sync_port E c b (fold (\<lambda>l. AList.update (ls_name l) l) (vw_listeners v) []) ips subnet"
  let ?Q = "\<lambda>ps (r :: err + bool option) (s' :: ('w, event) st). case r of
       Inl e \<Rightarrow> \<not> octavia_ready E c (lb_id b) V W R
     | Inr None \<Rightarrow> V (world s') = v \<and> W (world s') = z \<and> list_all (\<lambda>p. port_cost v ips subnet p = 0) ps
     | Inr (Some y) \<Rightarrow> y \<and> M z (W (world s')) \<and> list_ex (\<lambda>p. improves v (V (world s')) ips subnet p) ps"
  show ?case
    unfolding foreach_until.simps wp_bind
  proof (rule wp_mono [OF wp_sync_port [OF law Cons.prems(1) ok Cons.prems(2) rz, of ips subnet p]])
    fix r and s' :: "('w, event) st"
    assume step: "port_step E c (lb_id b) V W R M v z ips subnet p r s'"
    show "case r of Inl e \<Rightarrow> ?Q (p # ports) (Inl e) s'
      | Inr y \<Rightarrow> wp (case y of None \<Rightarrow> foreach_until ports ?f | Some z \<Rightarrow> ret (Some z)) (?Q (p # ports)) s'"
    proof (cases "r = Inr None")
      case True
      with step have s': "V (world s') = v" "W (world s') = z" "port_cost v ips subnet p = 0"
        by (simp_all add: port_step_def)
      from Cons.IH [OF s'(1,2)]
      have "wp (foreach_until ports ?f) (?Q (p # ports)) s'"
        by (rule wp_mono) (simp add: s'(3) split: sum.splits option.splits)
      with True show ?thesis by simp
    next
      case False
      with step show ?thesis by (simp add: port_step_def wp_ret split: sum.splits option.splits)
    qed
  qed
qed

lemma desired_ports_all: "desired_ports ps = Inr qs \<Longrightarrow> qs = ps"
  by (induction ps arbitrary: qs) (auto split: if_splits sum.splits)

lemma improves_cost:
  assumes "distinct (map listener_name ports)" and p: "p \<in> set ports" and imp: "improves v v' ips subnet p"
  shows "cost v' ips subnet ports < cost v ips subnet ports"
proof -
  have "sum_list (map (port_cost v' ips subnet) ports) < sum_list (map (port_cost v ips subnet) ports)"
  proof -
    from p obtain xs ys where ports: "ports = xs @ p # ys" by (metis split_list)
    with assms(1) have "listener_name p \<notin> listener_name ` (set xs \<union> set ys)" by auto
    then have "listener_name q \<noteq> listener_name p" if "q \<in> set xs \<union> set ys" for q
      using that by (metis imageI)
    then have "map (port_cost v' ips subnet) xs = map (port_cost v ips subnet) xs"
      and "map (port_cost v' ips subnet) ys = map (port_cost v ips subnet) ys"
      using imp by (auto simp: improves_def)
    moreover have "port_cost v' ips subnet p < port_cost v ips subnet p" using imp by (simp add: improves_def)
    ultimately show ?thesis by (simp only: ports map_append sum_list_append list.map sum_list.Cons)
  qed
  moreover have "stale_cost v' (listener_name ` set ports) = stale_cost v (listener_name ` set ports)"
    using imp p by (simp add: improves_def)
  ultimately show ?thesis by (simp add: cost_def)
qed

definition pass_result ::
  "'w env \<Rightarrow> clients \<Rightarrow> string \<Rightarrow> ('w \<Rightarrow> lb_view) \<Rightarrow> ('w \<Rightarrow> 'x) \<Rightarrow> ('x \<Rightarrow> bool) \<Rightarrow>
     ('x \<Rightarrow> 'x \<Rightarrow> bool) \<Rightarrow> service \<Rightarrow>
     string list \<Rightarrow> string \<Rightarrow> lb_view \<Rightarrow> 'x \<Rightarrow> err + bool \<Rightarrow> ('w, event) st \<Rightarrow> bool" where
  "pass_result E c lbid V W R M svc ips subnet v z r s' =
     (case r of
        Inl e \<Rightarrow> desired_ports (s_ports svc) = Inl e \<or> \<not> octavia_ready E c lbid V W R
      | Inr False \<Rightarrow> V (world s') = v \<and> W (world s') = z \<and> cost v ips subnet (s_ports svc) = 0
      | Inr True \<Rightarrow> M z (W (world s')) \<and> view_ok (V (world s')) \<and> cost (V (world s')) ips subnet (s_ports svc) < cost v ips subnet (s_ports svc))"

lemma wp_stale_phase:
  fixes E :: "'w env"
  assumes law: "octavia_view E c lbid V W R M" and ok: "view_ok v" and v: "V (world s) = v" "W (world s) = z"
    and rz: "R z" and zero: "list_all (\<lambda>p. port_cost v ips subnet p = 0) (s_ports svc)"
  shows "wp (bind (go_range E (fold (\<lambda>l. AList.update (ls_name l) l) (vw_listeners v) [])) (\<lambda>order.
        bind (foreach_until order (drop_listener E c (map listener_name (s_ports svc)))) (\<lambda>done2.
          case done2 of Some r \<Rightarrow> ret r | None \<Rightarrow> ret False)))
    (pass_result E c lbid V W R M svc ips subnet v z) s"
proof -
  let ?bn = "fold (\<lambda>l. AList.update (ls_name l) l) (vw_listeners v) []"
  let ?keep = "map listener_name (s_ports svc)"
  obtain ns w where seed: "map_seed E (world s) = (ns, w)" by fastforce
  with law v have w: "V w = v" "W w = z" unfolding octavia_view_def view_reads_def by (metis snd_conv)+
  have bn: "?bn = map_build (\<lambda>_. True) ls_name (\<lambda>l. l) (vw_listeners v)" by (simp add: map_build_def)
  have entries: "l \<in> set (vw_listeners v) \<and> ls_name l = n" if "(n, l) \<in> set (pick_order ns ?bn)" for n l
    using that by (auto simp: bn dest: map_build_mem)
  have names: "fst ` set (pick_order ns ?bn) = ls_name ` set (vw_listeners v)"
    unfolding set_pick_order bn dom_map_of_conv_image_fst [symmetric] map_build_dom by simp
  have ports0: "sum_list (map (port_cost v' ips subnet) (s_ports svc)) = 0"
    if "\<forall>p. listener_name p \<in> set ?keep \<longrightarrow> port_cost v' ips subnet p = port_cost v ips subnet p" for v'
    using that zero by (auto simp: list_all_iff)
  have zero0: "sum_list (map (port_cost v ips subnet) (s_ports svc)) = 0"
    using zero by (auto simp: list_all_iff)
  have done0: "pass_result E c lbid V W R M svc ips subnet v z (Inr False) s'"
    if "V (world s') = v" "fst ` set (pick_order ns ?bn) \<subseteq> set ?keep" "W (world s') = z" for s' :: "('w, event) st"
  proof -
    from that(2) have "ls_name ` set (vw_listeners v) \<subseteq> listener_name ` set (s_ports svc)"
      unfolding names by simp
    then have "filter (\<lambda>l. ls_name l \<notin> listener_name ` set (s_ports svc)) (vw_listeners v) = []"
      by (auto simp: filter_empty_conv)
    then have "stale_cost v (listener_name ` set (s_ports svc)) = 0" by (simp add: stale_cost_def)
    with that(1,3) zero0 show ?thesis by (simp add: pass_result_def cost_def)
  qed
  show ?thesis
    unfolding wp_bind wp_go_range seed prod.case sum.case
  proof (rule wp_mono [OF wp_drop_stale [OF law ok _ _ rz entries, where ips = ips and subnet = subnet]])
    fix r and s' :: "('w, event) st"
    assume step: "drop_step E c lbid V W R M v z ips subnet (set ?keep) (pick_order ns ?bn) r s'"
    then consider e where "r = Inl e" "\<not> octavia_ready E c lbid V W R"
      | "r = Inr None" "V (world s') = v" "W (world s') = z" "fst ` set (pick_order ns ?bn) \<subseteq> set ?keep"
      | "r = Inr (Some True)" "view_ok (V (world s'))" "M z (W (world s'))"
        "stale_cost (V (world s')) (set ?keep) < stale_cost v (set ?keep)"
        "\<forall>p. listener_name p \<in> set ?keep \<longrightarrow> port_cost (V (world s')) ips subnet p = port_cost v ips subnet p"
      by (auto simp: drop_step_def split: sum.splits option.splits)
    then show "case r of Inl e \<Rightarrow> pass_result E c lbid V W R M svc ips subnet v z (Inl e) s'
      | Inr y \<Rightarrow> wp (case y of None \<Rightarrow> ret False | Some z \<Rightarrow> ret z) (pass_result E c lbid V W R M svc ips subnet v z) s'"
    proof cases
      case 3
      have "cost (V (world s')) ips subnet (s_ports svc) < cost v ips subnet (s_ports svc)"
        unfolding cost_def using 3(4) by (simp only: ports0 [OF 3(5)] zero0 set_map add_0)
      with 3(1-3) show ?thesis by (simp add: wp_ret pass_result_def)
    qed (use done0 in \<open>simp_all add: wp_ret pass_result_def\<close>)
  qed (use w in simp_all)
qed

lemma wp_sync_body:
  fixes E :: "'w env"
  assumes law: "octavia_view E c (lb_id b) V W R M" and ok: "view_ok v" and v: "V (world s) = v" "W (world s) = z"
    and rz: "R z" and dist: "distinct (map listener_name (s_ports svc))"
  shows "wp (bind (foreach_until (s_ports svc)
        (sync_port E c b (fold (\<lambda>l. AList.update (ls_name l) l) (vw_listeners v) []) ips subnet)) (\<lambda>done1.
        case done1 of
          Some r \<Rightarrow> ret r
        | None \<Rightarrow> bind (go_range E (fold (\<lambda>l. AList.update (ls_name l) l) (vw_listeners v) [])) (\<lambda>order.
            bind (foreach_until order (drop_listener E c (map listener_name (s_ports svc)))) (\<lambda>done2.
              case done2 of Some r \<Rightarrow> ret r | None \<Rightarrow> ret False))))
      (pass_result E c (lb_id b) V W R M svc ips subnet v z) s"
  unfolding wp_bind [of "foreach_until (s_ports svc) _"]
proof (rule wp_mono [OF wp_sync_ports [OF law ok v rz]])
  fix r :: "err + bool option" and s2 :: "('w, event) st"
  assume step: "case r of
     Inl e \<Rightarrow> \<not> octavia_ready E c (lb_id b) V W R
   | Inr None \<Rightarrow> V (world s2) = v \<and> W (world s2) = z \<and> list_all (\<lambda>p. port_cost v ips subnet p = 0) (s_ports svc)
   | Inr (Some y) \<Rightarrow> y \<and> M z (W (world s2)) \<and> list_ex (\<lambda>p. improves v (V (world s2)) ips subnet p) (s_ports svc)"
  consider "\<exists>e. r = Inl e" | "r = Inr None" | x where "r = Inr (Some x)"
    by (cases r; cases "projr r"; auto)
  then show "case r of Inl e \<Rightarrow> pass_result E c (lb_id b) V W R M svc ips subnet v z (Inl e) s2
    | Inr y \<Rightarrow> wp (case y of None \<Rightarrow> bind (go_range E (fold (\<lambda>l. AList.update (ls_name l) l) (vw_listeners v) [])) (\<lambda>order.
          bind (foreach_until order (drop_listener E c (map listener_name (s_ports svc)))) (\<lambda>done2.
            case done2 of Some r \<Rightarrow> ret r | None \<Rightarrow> ret False)) | Some z \<Rightarrow> ret z)
        (pass_result E c (lb_id b) V W R M svc ips subnet v z) s2"
  proof cases
    case 2
    with step rz wp_stale_phase [OF law ok, of s2 z ips subnet svc] show ?thesis by simp
  next
    case 3
    with step obtain p where x: "x" "p \<in> set (s_ports svc)" "improves v (V (world s2)) ips subnet p" "M z (W (world s2))"
      by (auto simp: list_ex_iff)
    with improves_cost [OF dist x(2,3)] have "pass_result E c (lb_id b) V W R M svc ips subnet v z (Inr True) s2"
      using x(4) by (simp add: pass_result_def improves_def)
    with 3 x(1) show ?thesis by (simp add: wp_ret)
  qed (use step in \<open>auto simp: pass_result_def\<close>)
qed

lemma wp_pass:
  fixes E :: "'w env"
  assumes law: "octavia_view E c (lb_id b) V W R M" and ok: "view_ok v" and v: "V (world s) = v" "W (world s) = z"
    and rz: "R z" and active: "lb_status b = status_active" and dist: "distinct (map listener_name (s_ports svc))"
  shows "wp (sync_listeners_and_members E c b svc ips subnet) (pass_result E c (lb_id b) V W R M svc ips subnet v z) s"
proof (cases "desired_ports (s_ports svc)")
  case (Inl e)
  then show ?thesis
    by (simp add: sync_listeners_and_members_def active wp_throw pass_result_def)
next
  case (Inr ports)
  then have ports: "ports = s_ports svc" by (rule desired_ports_all)
  obtain pg w where r: "o_list_listeners (octavia E) c (lb_id b) (world s) = (pg, w)" by fastforce
  have w: "V w = v" "W w = z" and xs: "\<And>x. pages_items pg = Inr x \<Longrightarrow> x = vw_listeners v"
    using law v r unfolding octavia_view_def view_reads_def by (metis fst_conv snd_conv)+
  have bad: "pages_items pg = Inl e \<Longrightarrow> \<not> octavia_ready E c (lb_id b) V W R" for e
    using r unfolding octavia_ready_def by (metis Inl_Inr_False fst_conv)
  show ?thesis
  proof (cases "pages_items pg")
    case (Inl e)
    then show ?thesis
      using bad by (simp add: sync_listeners_and_members_def Inr active wp_check wp_call_items r pass_result_def)
  next
    case (Inr x)
    with xs have x: "x = vw_listeners v" by simp
    show ?thesis
      unfolding sync_listeners_and_members_def Let_def \<open>desired_ports (s_ports svc) = Inr ports\<close> sum.case ports active
      by (simp only: not_True_eq_False if_False wp_check wp_call_items r prod.case Inr x sum.case refl)
         (rule wp_sync_body [OF law ok _ _ rz dist], simp_all add: w)
  qed
qed

fun rounds :: "nat \<Rightarrow> ('w, bool) lbc \<Rightarrow> ('w, bool) lbc" where
  "rounds 0 m = ret True"
| "rounds (Suc n) m = bind m (\<lambda>pending. if pending then rounds n m else ret False)"

definition members_cover :: "member list \<Rightarrow> int \<Rightarrow> string list \<Rightarrow> string \<Rightarrow> bool" where
  "members_cover ms nodeport ips subnet \<longleftrightarrow> mb_addr ` set ms = set ips \<and>
     (\<lambda>ip. \<lparr>mb_addr = ip, mb_port = nodeport, mb_subnet = subnet\<rparr>) ` set ips \<subseteq> set ms"

definition balancer_in_place :: "lb_view \<Rightarrow> svc_port list \<Rightarrow> string list \<Rightarrow> string \<Rightarrow> bool" where
  "balancer_in_place v ports ips subnet \<longleftrightarrow>
     ls_name ` set (vw_listeners v) = listener_name ` set ports \<and>
     list_all (\<lambda>p. \<exists>l q. l \<in> set (vw_listeners v) \<and> ls_name l = listener_name p \<and>
        q \<in> set (vw_pools v) \<and> ls_id l \<in> set (pl_listeners q) \<and>
        members_cover (vw_members v (pl_id q)) (p_nodeport p) ips subnet) ports"

lemma no_drift_cover: "\<not> member_drift ms nodeport ips subnet \<Longrightarrow> members_cover ms nodeport ips subnet"
  unfolding no_drift_iff members_cover_def
proof (intro conjI subsetI)
  assume nd: "mb_addr ` set ms = set ips \<and> (\<forall>ip m. map_of (map_build (\<lambda>_. True) mb_addr (\<lambda>m. m) ms) ip = Some m \<longrightarrow>
        mb_port m = nodeport \<and> mb_subnet m = subnet)"
  fix x assume "x \<in> (\<lambda>ip. \<lparr>mb_addr = ip, mb_port = nodeport, mb_subnet = subnet\<rparr>) ` set ips"
  then obtain ip where x: "x = \<lparr>mb_addr = ip, mb_port = nodeport, mb_subnet = subnet\<rparr>" "ip \<in> set ips" by auto
  with nd have "ip \<in> dom (map_of (map_build (\<lambda>_. True) mb_addr (\<lambda>m. m) ms))"
    unfolding map_build_dom by auto
  then obtain m where m: "map_of (map_build (\<lambda>_. True) mb_addr (\<lambda>m. m) ms) ip = Some m" by blast
  with nd map_build_Some [OF m] have "m \<in> set ms" "mb_addr m = ip" "mb_port m = nodeport" "mb_subnet m = subnet"
    by auto
  moreover from this(2-) x have "m = x" by (metis (full_types) member.surjective member.select_convs old.unit.exhaust)
  ultimately show "x \<in> set ms" by simp
qed simp

lemma cost_zero:
  assumes "cost v ips subnet ports = 0"
  shows "balancer_in_place v ports ips subnet"
proof -
  from assms have ports: "port_cost v ips subnet p = 0" if "p \<in> set ports" for p
    using that by (simp add: cost_def)
  have each: "\<exists>l q. l \<in> set (vw_listeners v) \<and> ls_name l = listener_name p \<and>
        q \<in> set (vw_pools v) \<and> ls_id l \<in> set (pl_listeners q) \<and>
        members_cover (vw_members v (pl_id q)) (p_nodeport p) ips subnet" if "p \<in> set ports" for p
    using ports [OF that]
    by (auto simp: port_cost_def split: option.splits if_splits
        dest!: listener_of_Some pool_of_Some no_drift_cover)
  from assms have "filter (\<lambda>l. ls_name l \<notin> listener_name ` set ports) (vw_listeners v) = []"
    by (simp add: cost_def stale_cost_def)
  then have "ls_name ` set (vw_listeners v) \<subseteq> listener_name ` set ports"
    by (auto simp: filter_empty_conv)
  moreover have "listener_name ` set ports \<subseteq> ls_name ` set (vw_listeners v)"
    using each by force
  ultimately show ?thesis using each by (auto simp: balancer_in_place_def list_all_iff)
qed

lemma rounds_converge:
  fixes E :: "'w env"
  assumes law: "octavia_view E c (lb_id b) V W (\<lambda>_. True) M" and rel: "octavia_ready E c (lb_id b) V W (\<lambda>_. True)"
    and active: "lb_status b = status_active" and dist: "distinct (map listener_name (s_ports svc))"
    and sup: "desired_ports (s_ports svc) = Inr ports"
    and ok: "view_ok (V (world s))" and n: "cost (V (world s)) ips subnet (s_ports svc) < n"
  shows "wp (rounds n (sync_listeners_and_members E c b svc ips subnet))
    (\<lambda>r s'. r = Inr False \<and> balancer_in_place (V (world s')) (s_ports svc) ips subnet) s"
  using ok n
proof (induction n arbitrary: s)
  case (Suc n)
  show ?case
    unfolding rounds.simps wp_bind
  proof (rule wp_mono [OF wp_pass [OF law Suc.prems(1) refl refl _ active dist]])
    fix r and s' :: "('w, event) st"
    assume p: "pass_result E c (lb_id b) V W (\<lambda>_. True) M svc ips subnet (V (world s)) (W (world s)) r s'"
    show "case r of Inl e \<Rightarrow> Inl e = Inr False \<and> balancer_in_place (V (world s')) (s_ports svc) ips subnet
      | Inr x \<Rightarrow> wp (if x then rounds n (sync_listeners_and_members E c b svc ips subnet) else ret False)
          (\<lambda>r s'. r = Inr False \<and> balancer_in_place (V (world s')) (s_ports svc) ips subnet) s'"
      using p rel sup Suc.prems Suc.IH [of s'] cost_zero [of "V (world s)" ips subnet "s_ports svc"]
      by (auto simp: pass_result_def wp_ret split: sum.splits bool.splits)
  qed simp
qed simp

end
