(* ===== verification/CloudLaws.thy ===== *)
theory CloudLaws
  imports ServiceController Converge
begin

text \<open>
  What the clusters and OpenStack promise to one Service of a tenant, as the effect of each
  call on a view of the world: the Service, its balancer with listeners, pools and members,
  its floating IPs, and the project's security groups and ports. The view carries, as its
  last part, whatever else stands still while the controller works. Octavia works in the
  background: after a change of a balancer, which it answers 409 to until it is active again,
  \<open>lf_busy\<close> rounds of its own work are to come. Rules to run programs under these laws follow.
\<close>

record life =
  lf_svc :: "service option"
  lf_lb :: "lb option"
  lf_busy :: nat
  lf_listeners :: "string \<Rightarrow> listener list"
  lf_pools :: "string \<Rightarrow> pool list"
  lf_members :: "string \<Rightarrow> member list"
  lf_fips :: "string \<Rightarrow> fip list"
  lf_groups :: "sgroup list"
  lf_rules :: "string \<Rightarrow> rule list"
  lf_ports :: "nport list"

definition bal :: "'x life_scheme \<Rightarrow> string \<Rightarrow> lb_view" where
  "bal v i = \<lparr>vw_listeners = lf_listeners v i, vw_pools = lf_pools v i, vw_members = lf_members v\<rparr>"

definition accepts :: "'x life_scheme \<Rightarrow> string \<Rightarrow> bool" where
  "accepts v i \<longleftrightarrow> (\<exists>b. lf_lb v = Some b \<and> lb_id b = i \<and> lb_status b = status_active)"

text \<open>
  After a change Octavia is busy for at most \<open>K\<close> rounds, and the balancer is active exactly when
  it is not.
\<close>

definition settling :: "nat \<Rightarrow> string \<Rightarrow> bool" where
  "settling k st \<longleftrightarrow> st \<noteq> status_error \<and> st \<noteq> status_pending_delete \<and> (st = status_active \<longleftrightarrow> k = 0)"

definition busy_with :: "nat \<Rightarrow> 'x life_scheme \<Rightarrow> 'x life_scheme \<Rightarrow> bool" where
  "busy_with K v v' \<longleftrightarrow> (\<exists>st k. k \<le> K \<and> settling k st \<and>
     v' = v\<lparr>lf_lb := map_option (lb_status_update (\<lambda>_. st)) (lf_lb v), lf_busy := k\<rparr>)"

section \<open>The laws\<close>

definition tenant_laws :: "'w env \<Rightarrow> string \<Rightarrow> string \<Rightarrow> string \<Rightarrow> ('w \<Rightarrow> 'x life_scheme) \<Rightarrow> bool" where
  "tenant_laws E tenant ns name V \<longleftrightarrow> (\<forall>w.
     case lf_svc (V w) of
       None \<Rightarrow> \<exists>a w'. t_get_svc (tenants E) tenant ns name w = (Inl a, w') \<and> ae_not_found a \<and> V w' = V w
     | Some svc \<Rightarrow>
         (\<exists>w'. t_get_svc (tenants E) tenant ns name w = (Inr svc, w') \<and> V w' = V w) \<and>
         (\<forall>fs. \<exists>w'. t_patch_finalizers (tenants E) tenant ns name fs w = (None, w') \<and>
            V w' = (V w)\<lparr>lf_svc := if s_deleting svc \<and> fs = [] then None else Some (svc\<lparr>s_finalizers := fs\<rparr>)\<rparr>) \<and>
         (\<forall>ips. \<exists>w'. t_patch_ingress (tenants E) tenant ns name ips w = (None, w') \<and>
            V w' = (V w)\<lparr>lf_svc := Some (svc\<lparr>s_ingress := ips\<rparr>)\<rparr>))"

definition octavia_reads :: "'w env \<Rightarrow> clients \<Rightarrow> string \<Rightarrow> ('w \<Rightarrow> 'x life_scheme) \<Rightarrow> bool" where
  "octavia_reads E c n V \<longleftrightarrow>
     (\<forall>w. \<exists>pg w'. o_list_lbs (octavia E) c (Some n) w = (pg, w') \<and> V w' = V w \<and>
        pages_find (\<lambda>b. lb_name b = n) pg = Inr (lf_lb (V w))) \<and>
     (\<forall>i w. \<exists>pg w'. o_list_listeners (octavia E) c i w = (pg, w') \<and> V w' = V w \<and>
        pages_items pg = Inr (lf_listeners (V w) i)) \<and>
     (\<forall>i w. \<exists>pg w'. o_list_pools (octavia E) c i w = (pg, w') \<and> V w' = V w \<and>
        (\<forall>P. pages_find P pg = Inr (find P (lf_pools (V w) i)))) \<and>
     (\<forall>i w. \<exists>pg w'. o_list_members (octavia E) c i w = (pg, w') \<and> V w' = V w \<and>
        pages_items pg = Inr (lf_members (V w) i)) \<and>
     (\<forall>w. V (snd (map_seed E w)) = V w)"

definition octavia_lb_laws :: "'w env \<Rightarrow> clients \<Rightarrow> string \<Rightarrow> nat \<Rightarrow> ('w \<Rightarrow> 'x life_scheme) \<Rightarrow> bool" where
  "octavia_lb_laws E c n K V \<longleftrightarrow>
     (\<forall>opts w. lo_name opts = n \<and> lf_lb (V w) = None \<longrightarrow>
        (\<exists>b k w'. o_create_lb (octavia E) c opts w = (Inr b, w') \<and> lb_name b = n \<and> lb_vip b \<noteq> '''' \<and>
           lb_vip_port b \<noteq> '''' \<and> lf_fips (V w) (lb_vip_port b) = [] \<and> k \<le> K \<and> settling k (lb_status b) \<and>
           V w' = (V w)\<lparr>lf_lb := Some b, lf_busy := k, lf_listeners := (lf_listeners (V w))(lb_id b := []),
             lf_pools := (lf_pools (V w))(lb_id b := [])\<rparr>)) \<and>
     (\<forall>b w. lf_lb (V w) = Some b \<and> lb_status b = status_active \<longrightarrow>
        (\<exists>r k w'. o_del_lb (octavia E) c (lb_id b) w = (None, w') \<and> k \<le> K \<and>
           (r = None \<or> r = Some (b\<lparr>lb_status := status_pending_delete\<rparr>) \<and> 0 < k) \<and>
           V w' = (V w)\<lparr>lf_lb := r, lf_busy := k\<rparr>)) \<and>
     (\<forall>b w. lf_lb (V w) = Some b \<and> lb_status b \<noteq> status_active \<and> lb_status b \<noteq> status_error \<longrightarrow>
        (\<exists>a w'. o_del_lb (octavia E) c (lb_id b) w = (Some a, w') \<and> V w' = V w))"

definition octavia_changes :: "'w env \<Rightarrow> clients \<Rightarrow> nat \<Rightarrow> ('w \<Rightarrow> 'x life_scheme) \<Rightarrow> bool" where
  "octavia_changes E c K V \<longleftrightarrow>
     (\<forall>opts i w. accepts (V w) i \<and> lso_lb opts = i \<longrightarrow>
        (\<exists>l w'. o_create_listener (octavia E) c opts w = (Inr l, w') \<and> ls_name l = lso_name opts \<and>
           ls_id l \<notin> ls_id ` set (lf_listeners (V w) i) \<and>
           ls_id l \<notin> \<Union> ((\<lambda>q. set (pl_listeners q)) ` set (lf_pools (V w) i)) \<and>
           busy_with K ((V w)\<lparr>lf_listeners := (lf_listeners (V w))(i := lf_listeners (V w) i @ [l])\<rparr>) (V w'))) \<and>
     (\<forall>opts i w. accepts (V w) i \<and> po_listener opts \<in> ls_id ` set (lf_listeners (V w) i) \<longrightarrow>
        (\<exists>q w'. o_create_pool (octavia E) c opts w = (Inr q, w') \<and> pl_listeners q = [po_listener opts] \<and>
           pl_id q \<notin> pl_id ` set (lf_pools (V w) i) \<and>
           busy_with K ((V w)\<lparr>lf_pools := (lf_pools (V w))(i := lf_pools (V w) i @ [q])\<rparr>) (V w'))) \<and>
     (\<forall>i j w. accepts (V w) i \<and> j \<in> ls_id ` set (lf_listeners (V w) i) \<longrightarrow>
        (\<exists>keep w'. o_del_listener (octavia E) c j w = (None, w') \<and>
           (\<forall>q l. l \<in> set (pl_listeners q) \<and> l \<noteq> j \<longrightarrow> keep q) \<and>
           busy_with K ((V w)\<lparr>lf_listeners := (lf_listeners (V w))(i := filter (\<lambda>l. ls_id l \<noteq> j) (lf_listeners (V w) i)),
             lf_pools := (lf_pools (V w))(i := filter keep (lf_pools (V w) i))\<rparr>) (V w'))) \<and>
     (\<forall>i j ms w. accepts (V w) i \<and> j \<in> pl_id ` set (lf_pools (V w) i) \<longrightarrow>
        (\<exists>ms' w'. o_set_members (octavia E) c j ms w = (None, w') \<and>
           set ms' = (\<lambda>m. \<lparr>mb_addr = mo_addr m, mb_port = mo_port m, mb_subnet = mo_subnet m\<rparr>) ` set ms \<and>
           busy_with K ((V w)\<lparr>lf_members := (lf_members (V w))(j := ms')\<rparr>) (V w')))"

definition fip_laws :: "'w env \<Rightarrow> clients \<Rightarrow> ('w \<Rightarrow> 'x life_scheme) \<Rightarrow> bool" where
  "fip_laws E c V \<longleftrightarrow>
     (\<forall>port w. \<exists>pg w'. n_list_fips (neutron E) c (Some port) w = (pg, w') \<and> V w' = V w \<and>
        pages_find (\<lambda>_. True) pg = Inr (find (\<lambda>_. True) (lf_fips (V w) port))) \<and>
     (\<forall>opts w. lf_fips (V w) (fo_port opts) = [] \<longrightarrow> (\<exists>f w'. n_create_fip (neutron E) c opts w = (Inr f, w') \<and> fp_addr f \<noteq> '''' \<and>
        fp_desc f = fo_desc opts \<and> (\<forall>port. fp_id f \<notin> fp_id ` set (lf_fips (V w) port)) \<and>
        V w' = (V w)\<lparr>lf_fips := (lf_fips (V w))(fo_port opts := [f])\<rparr>)) \<and>
     (\<forall>i w. (\<exists>port. i \<in> fp_id ` set (lf_fips (V w) port)) \<longrightarrow> (\<exists>w'. n_del_fip (neutron E) c i w = (None, w') \<and>
        V w' = (V w)\<lparr>lf_fips := (\<lambda>port. filter (\<lambda>f. fp_id f \<noteq> i) (lf_fips (V w) port))\<rparr>))"

definition rule_laws :: "'w env \<Rightarrow> clients \<Rightarrow> ('w \<Rightarrow> 'x life_scheme) \<Rightarrow> bool" where
  "rule_laws E c V \<longleftrightarrow>
     (\<forall>g w. \<exists>pg w'. n_list_rules (neutron E) c g w = (pg, w') \<and> V w' = V w \<and> pages_items pg = Inr (lf_rules (V w) g)) \<and>
     (\<forall>i w. if \<exists>g. i \<in> ru_id ` set (lf_rules (V w) g)
        then \<exists>w'. n_del_rule (neutron E) c i w = (None, w') \<and>
          V w' = (V w)\<lparr>lf_rules := (\<lambda>g. filter (\<lambda>r. ru_id r \<noteq> i) (lf_rules (V w) g))\<rparr>
        else \<exists>a w'. n_del_rule (neutron E) c i w = (Some a, w') \<and> V w' = V w) \<and>
     (\<forall>opts w. if list_ex (rule_match opts) (lf_rules (V w) (ro_sg opts))
        then \<exists>a w'. n_create_rule (neutron E) c opts w = (Inl a, w') \<and> V w' = V w
        else \<exists>r w'. n_create_rule (neutron E) c opts w = (Inr r, w') \<and> rule_of_opts opts r \<and>
           ru_id r \<notin> ru_id ` set (lf_rules (V w) (ro_sg opts)) \<and>
           V w' = (V w)\<lparr>lf_rules := (lf_rules (V w))(ro_sg opts := lf_rules (V w) (ro_sg opts) @ [r])\<rparr>)"

definition group_laws :: "'w env \<Rightarrow> clients \<Rightarrow> ('w \<Rightarrow> 'x life_scheme) \<Rightarrow> bool" where
  "group_laws E c V \<longleftrightarrow>
     (\<forall>n w. \<exists>pg w'. n_list_sgs (neutron E) c (Some n) w = (pg, w') \<and> V w' = V w \<and>
        pages_find (\<lambda>g. sg_name g = n) pg = Inr (find (\<lambda>g. sg_name g = n) (lf_groups (V w)))) \<and>
     (\<forall>n d w. \<exists>g rs w'. n_create_sg (neutron E) c n d w = (Inr g, w') \<and> sg_name g = n \<and> sg_id g \<noteq> '''' \<and>
        sg_id g \<notin> sg_id ` set (lf_groups (V w)) \<and> distinct (map ru_id rs) \<and> list_all (\<lambda>r. ru_dir r \<noteq> ''ingress'') rs \<and>
        V w' = (V w)\<lparr>lf_groups := lf_groups (V w) @ [g], lf_rules := (lf_rules (V w))(sg_id g := rs)\<rparr>)"

definition set_port_sgs :: "string \<Rightarrow> string list \<Rightarrow> nport list \<Rightarrow> nport list" where
  "set_port_sgs i sgs = map (\<lambda>p. if pt_id p = i then p\<lparr>pt_sgs := sgs\<rparr> else p)"

definition port_laws :: "'w env \<Rightarrow> clients \<Rightarrow> string \<Rightarrow> ('w \<Rightarrow> 'x life_scheme) \<Rightarrow> bool" where
  "port_laws E c net V \<longleftrightarrow>
     (\<forall>ip w. \<exists>pg w'. n_list_ports (neutron E) c net None (Some ip) w = (pg, w') \<and> V w' = V w \<and>
        pages_find (\<lambda>_. True) pg = Inr (find (\<lambda>p. ip \<in> set (pt_ips p)) (lf_ports (V w)))) \<and>
     (\<forall>i sgs w. i \<in> pt_id ` set (lf_ports (V w)) \<longrightarrow> (\<exists>p w'. n_update_port (neutron E) c i sgs w = (Inr p, w') \<and>
        V w' = (V w)\<lparr>lf_ports := set_port_sgs i sgs (lf_ports (V w))\<rparr>))"

text \<open>What Octavia does in a round of its own: it ends a deletion or a change, or comes closer to it.\<close>

definition lb_sound :: "'x life_scheme \<Rightarrow> bool" where
  "lb_sound v \<longleftrightarrow> (\<forall>b. lf_lb v = Some b \<longrightarrow>
     lb_status b \<noteq> status_error \<and> (lb_status b = status_active \<longleftrightarrow> lf_busy v = 0))"

definition octavia_works :: "('w \<Rightarrow> 'w) \<Rightarrow> ('w \<Rightarrow> 'x life_scheme) \<Rightarrow> bool" where
  "octavia_works tick V \<longleftrightarrow> (\<forall>w. lb_sound (V w) \<longrightarrow> (\<exists>r k. V (tick w) = (V w)\<lparr>lf_lb := r, lf_busy := k\<rparr> \<and>
     (if lf_busy (V w) = 0 then k = 0 \<and> r = lf_lb (V w) else k < lf_busy (V w)) \<and>
     (case lf_lb (V w) of
        None \<Rightarrow> r = None
      | Some b \<Rightarrow>
          if lb_status b = status_pending_delete then r = None \<or> r = Some b \<and> 0 < k
          else \<exists>st. r = Some (b\<lparr>lb_status := st\<rparr>) \<and> settling k st)))"

text \<open>A part of the program that only reads what stands still: it answers \<open>y\<close> and changes nothing.\<close>

definition steady :: "('w \<Rightarrow> 'x life_scheme) \<Rightarrow> 'x \<Rightarrow> ('w, 'a) lbc \<Rightarrow> 'a \<Rightarrow> bool" where
  "steady V x m y \<longleftrightarrow>
     (\<forall>s. life.more (V (world s)) = x \<longrightarrow> wp m (\<lambda>r s'. r = Inr y \<and> V (world s') = V (world s)) s)"

section \<open>Running programs under the laws\<close>

definition lb_changed :: "nat \<Rightarrow> 'x life_scheme \<Rightarrow> 'x life_scheme \<Rightarrow> bool" where
  "lb_changed K v v' \<longleftrightarrow> (\<exists>ls ps ms. busy_with K (v\<lparr>lf_listeners := ls, lf_pools := ps, lf_members := ms\<rparr>) v')"

lemma busy_with_bal:
  "busy_with K v v' \<Longrightarrow> lf_listeners v' = lf_listeners v \<and> lf_pools v' = lf_pools v \<and> lf_members v' = lf_members v"
  by (auto simp: busy_with_def)

lemma bal_simps [simp]:
  "vw_listeners (bal v i) = lf_listeners v i" "vw_pools (bal v i) = lf_pools v i" "vw_members (bal v i) = lf_members v"
  by (simp_all add: bal_def)

lemma lb_changedI:
  "busy_with K (v\<lparr>lf_listeners := ls\<rparr>) v' \<Longrightarrow> lb_changed K v v'"
  "busy_with K (v\<lparr>lf_pools := ps\<rparr>) v' \<Longrightarrow> lb_changed K v v'"
  "busy_with K (v\<lparr>lf_listeners := ls, lf_pools := ps\<rparr>) v' \<Longrightarrow> lb_changed K v v'"
  "busy_with K (v\<lparr>lf_members := ms\<rparr>) v' \<Longrightarrow> lb_changed K v v'"
proof -
  have "v\<lparr>lf_listeners := ls\<rparr> = v\<lparr>lf_listeners := ls, lf_pools := lf_pools v, lf_members := lf_members v\<rparr>"
    "v\<lparr>lf_pools := ps\<rparr> = v\<lparr>lf_listeners := lf_listeners v, lf_pools := ps, lf_members := lf_members v\<rparr>"
    "v\<lparr>lf_listeners := ls, lf_pools := ps\<rparr> = v\<lparr>lf_listeners := ls, lf_pools := ps, lf_members := lf_members v\<rparr>"
    "v\<lparr>lf_members := ms\<rparr> = v\<lparr>lf_listeners := lf_listeners v, lf_pools := lf_pools v, lf_members := ms\<rparr>"
    by simp_all
  then show "busy_with K (v\<lparr>lf_listeners := ls\<rparr>) v' \<Longrightarrow> lb_changed K v v'"
    "busy_with K (v\<lparr>lf_pools := ps\<rparr>) v' \<Longrightarrow> lb_changed K v v'"
    "busy_with K (v\<lparr>lf_listeners := ls, lf_pools := ps\<rparr>) v' \<Longrightarrow> lb_changed K v v'"
    "busy_with K (v\<lparr>lf_members := ms\<rparr>) v' \<Longrightarrow> lb_changed K v v'"
    unfolding lb_changed_def by metis+
qed

text \<open>The listeners, pools and members of an accepting balancer are a view that its calls act on.\<close>

lemma bal_reads:
  assumes "octavia_reads E c n V"
  shows "view_reads E c i (\<lambda>w. bal (V w) i) V"
proof -
  from assms have l: "\<exists>pg w'. o_list_listeners (octavia E) c i w = (pg, w') \<and> V w' = V w \<and> pages_items pg = Inr (lf_listeners (V w) i)"
    and p: "\<exists>pg w'. o_list_pools (octavia E) c i w = (pg, w') \<and> V w' = V w \<and> (\<forall>P. pages_find P pg = Inr (find P (lf_pools (V w) i)))"
    and m: "\<exists>pg w'. o_list_members (octavia E) c j w = (pg, w') \<and> V w' = V w \<and> pages_items pg = Inr (lf_members (V w) j)"
    and s: "V (snd (map_seed E w)) = V w" for w j
    by (auto simp: octavia_reads_def)
  show ?thesis
    unfolding view_reads_def
  proof (intro conjI allI)
    fix w
    from l [of w] show "bal (V (snd (o_list_listeners (octavia E) c i w))) i = bal (V w) i"
      "V (snd (o_list_listeners (octavia E) c i w)) = V w" by auto
    from p [of w] show "bal (V (snd (o_list_pools (octavia E) c i w))) i = bal (V w) i"
      "V (snd (o_list_pools (octavia E) c i w)) = V w" by auto
    from s [of w] show "bal (V (snd (map_seed E w))) i = bal (V w) i" "V (snd (map_seed E w)) = V w" by auto
    fix j
    from m [of j w] show "bal (V (snd (o_list_members (octavia E) c j w))) i = bal (V w) i"
      "V (snd (o_list_members (octavia E) c j w)) = V w" by auto
  next
    fix w xs
    from l [of w] show "pages_items (fst (o_list_listeners (octavia E) c i w)) = Inr xs \<longrightarrow> xs = vw_listeners (bal (V w) i)"
      by auto
  next
    fix w P r
    from p [of w] show "pages_find P (fst (o_list_pools (octavia E) c i w)) = Inr r \<longrightarrow> r = find P (vw_pools (bal (V w) i))"
      by auto
  next
    fix j w xs
    from m [of j w] show "pages_items (fst (o_list_members (octavia E) c j w)) = Inr xs \<longrightarrow> xs = vw_members (bal (V w) i) j"
      by auto
  qed
qed

lemma bal_creates:
  assumes "octavia_changes E c K V"
  shows "view_creates E c i (\<lambda>w. bal (V w) i) (\<lambda>w. accepts (V w) i) (\<lambda>w w'. lb_changed K (V w) (V w'))"
proof -
  have l: "\<exists>l w'. o_create_listener (octavia E) c opts w = (Inr l, w') \<and> ls_name l = lso_name opts \<and>
      ls_id l \<notin> ls_id ` set (lf_listeners (V w) i) \<and> ls_id l \<notin> \<Union> ((\<lambda>q. set (pl_listeners q)) ` set (lf_pools (V w) i)) \<and>
      busy_with K ((V w)\<lparr>lf_listeners := (lf_listeners (V w))(i := lf_listeners (V w) i @ [l])\<rparr>) (V w')"
    if "accepts (V w) i" "lso_lb opts = i" for opts w
    by (rule assms [unfolded octavia_changes_def, THEN conjunct1, rule_format]) (simp add: that)
  have q: "\<exists>q w'. o_create_pool (octavia E) c opts w = (Inr q, w') \<and> pl_listeners q = [po_listener opts] \<and>
      pl_id q \<notin> pl_id ` set (lf_pools (V w) i) \<and>
      busy_with K ((V w)\<lparr>lf_pools := (lf_pools (V w))(i := lf_pools (V w) i @ [q])\<rparr>) (V w')"
    if "accepts (V w) i" "po_listener opts \<in> ls_id ` set (lf_listeners (V w) i)" for opts w
    by (rule assms [unfolded octavia_changes_def, THEN conjunct2, THEN conjunct1, rule_format]) (simp add: that)
  show ?thesis
    unfolding view_creates_def
  proof (intro conjI [where P = "\<forall>opts w l. _ opts w l"] allI impI)
    fix opts w l
    assume a: "accepts (V w) i \<and> lso_lb opts = i \<and> fst (o_create_listener (octavia E) c opts w) = Inr l"
    with l [of w opts] show "bal (V (snd (o_create_listener (octavia E) c opts w))) i =
        (bal (V w) i)\<lparr>vw_listeners := vw_listeners (bal (V w) i) @ [l]\<rparr> \<and>
       ls_name l = lso_name opts \<and> ls_id l \<notin> ls_id ` set (vw_listeners (bal (V w) i)) \<and>
       ls_id l \<notin> \<Union> ((\<lambda>q. set (pl_listeners q)) ` set (vw_pools (bal (V w) i))) \<and>
       lb_changed K (V w) (V (snd (o_create_listener (octavia E) c opts w)))"
      by (auto dest: busy_with_bal lb_changedI(1) simp: bal_def)
  next
    fix opts w q'
    assume a: "accepts (V w) i \<and> po_listener opts \<in> ls_id ` set (vw_listeners (bal (V w) i)) \<and>
      fst (o_create_pool (octavia E) c opts w) = Inr q'"
    with q [of w opts] show "bal (V (snd (o_create_pool (octavia E) c opts w))) i =
        (bal (V w) i)\<lparr>vw_pools := vw_pools (bal (V w) i) @ [q']\<rparr> \<and>
       pl_listeners q' = [po_listener opts] \<and> pl_id q' \<notin> pl_id ` set (vw_pools (bal (V w) i)) \<and>
       lb_changed K (V w) (V (snd (o_create_pool (octavia E) c opts w)))"
      by (auto dest: busy_with_bal lb_changedI(2) simp: bal_def)
  qed
qed

lemma bal_changes:
  assumes "octavia_changes E c K V"
  shows "view_changes E c (\<lambda>w. bal (V w) i) (\<lambda>w. accepts (V w) i) (\<lambda>w w'. lb_changed K (V w) (V w'))"
proof -
  have l: "\<exists>keep w'. o_del_listener (octavia E) c j w = (None, w') \<and>
      (\<forall>q l. l \<in> set (pl_listeners q) \<and> l \<noteq> j \<longrightarrow> keep q) \<and>
      busy_with K ((V w)\<lparr>lf_listeners := (lf_listeners (V w))(i := filter (\<lambda>l. ls_id l \<noteq> j) (lf_listeners (V w) i)),
        lf_pools := (lf_pools (V w))(i := filter keep (lf_pools (V w) i))\<rparr>) (V w')"
    if "accepts (V w) i" "j \<in> ls_id ` set (lf_listeners (V w) i)" for j w
    by (rule assms [unfolded octavia_changes_def, THEN conjunct2, THEN conjunct2, THEN conjunct1, rule_format]) (simp add: that)
  have m: "\<exists>ms' w'. o_set_members (octavia E) c j ms w = (None, w') \<and>
      set ms' = (\<lambda>m. \<lparr>mb_addr = mo_addr m, mb_port = mo_port m, mb_subnet = mo_subnet m\<rparr>) ` set ms \<and>
      busy_with K ((V w)\<lparr>lf_members := (lf_members (V w))(j := ms')\<rparr>) (V w')"
    if "accepts (V w) i" "j \<in> pl_id ` set (lf_pools (V w) i)" for j ms w
    using assms [unfolded octavia_changes_def, THEN conjunct2, THEN conjunct2, THEN conjunct2, rule_format, of w i j ms] that
    by auto
  show ?thesis
    unfolding view_changes_def
  proof (intro conjI [where P = "\<forall>j w. _ j w"] allI impI)
    fix j w
    assume a: "accepts (V w) i \<and> j \<in> ls_id ` set (vw_listeners (bal (V w) i)) \<and>
      fst (o_del_listener (octavia E) c j w) = None"
    with l [of w j] obtain keep w' where k: "o_del_listener (octavia E) c j w = (None, w')"
      "\<forall>q l. l \<in> set (pl_listeners q) \<and> l \<noteq> j \<longrightarrow> keep q"
      "busy_with K ((V w)\<lparr>lf_listeners := (lf_listeners (V w))(i := filter (\<lambda>l. ls_id l \<noteq> j) (lf_listeners (V w) i)),
        lf_pools := (lf_pools (V w))(i := filter keep (lf_pools (V w) i))\<rparr>) (V w')" by auto
    show "(\<exists>keep. bal (V (snd (o_del_listener (octavia E) c j w))) i =
          (bal (V w) i)\<lparr>vw_listeners := filter (\<lambda>l. ls_id l \<noteq> j) (vw_listeners (bal (V w) i)),
            vw_pools := filter keep (vw_pools (bal (V w) i))\<rparr> \<and>
          (\<forall>q l. l \<in> set (pl_listeners q) \<and> l \<noteq> j \<longrightarrow> keep q)) \<and>
       lb_changed K (V w) (V (snd (o_del_listener (octavia E) c j w)))"
      using k(1,2) busy_with_bal [OF k(3)] lb_changedI(3) [OF k(3)] by (auto simp: bal_def intro!: exI [of _ keep])
  next
    fix j ms w
    assume a: "accepts (V w) i \<and> j \<in> pl_id ` set (vw_pools (bal (V w) i)) \<and>
      fst (o_set_members (octavia E) c j ms w) = None"
    with m [of w j ms] obtain ms' w' where k: "o_set_members (octavia E) c j ms w = (None, w')"
      "set ms' = (\<lambda>m. \<lparr>mb_addr = mo_addr m, mb_port = mo_port m, mb_subnet = mo_subnet m\<rparr>) ` set ms"
      "busy_with K ((V w)\<lparr>lf_members := (lf_members (V w))(j := ms')\<rparr>) (V w')" by auto
    show "(\<exists>ms'. bal (V (snd (o_set_members (octavia E) c j ms w))) i =
          (bal (V w) i)\<lparr>vw_members := (vw_members (bal (V w) i))(j := ms')\<rparr> \<and>
          set ms' = (\<lambda>m. \<lparr>mb_addr = mo_addr m, mb_port = mo_port m, mb_subnet = mo_subnet m\<rparr>) ` set ms) \<and>
       lb_changed K (V w) (V (snd (o_set_members (octavia E) c j ms w)))"
      using k(1,2) busy_with_bal [OF k(3)] lb_changedI(4) [OF k(3)] by (auto simp: bal_def intro!: exI [of _ ms'])
  qed
qed

lemma bal_view:
  assumes "octavia_reads E c n V" "octavia_changes E c K V"
  shows "octavia_view E c i (\<lambda>w. bal (V w) i) V (\<lambda>v. accepts v i) (lb_changed K)"
  using bal_reads [OF assms(1)] bal_creates [OF assms(2)] bal_changes [OF assms(2)] by (simp add: octavia_view_def)

lemma bal_ready:
  assumes r: "octavia_reads E c n V" and u: "octavia_changes E c K V"
  shows "octavia_ready E c i (\<lambda>w. bal (V w) i) V (\<lambda>v. accepts v i)"
proof -
  from r have "\<exists>xs. pages_items (fst (o_list_listeners (octavia E) c i w)) = Inr xs"
    "\<exists>r. pages_find P (fst (o_list_pools (octavia E) c i w)) = Inr r"
    "\<exists>xs. pages_items (fst (o_list_members (octavia E) c j w)) = Inr xs" for w P j
    unfolding octavia_reads_def by (metis fst_conv)+
  moreover have "\<exists>l. fst (o_create_listener (octavia E) c opts w) = Inr l" if "accepts (V w) i" "lso_lb opts = i" for w opts
    using u [unfolded octavia_changes_def, THEN conjunct1, rule_format, of w i opts] that by auto
  moreover have "\<exists>q. fst (o_create_pool (octavia E) c opts w) = Inr q"
    if "accepts (V w) i" "po_listener opts \<in> ls_id ` set (lf_listeners (V w) i)" for w opts
    using u [unfolded octavia_changes_def, THEN conjunct2, THEN conjunct1, rule_format, of w i opts] that by auto
  moreover have "fst (o_del_listener (octavia E) c j w) = None"
    if "accepts (V w) i" "j \<in> ls_id ` set (lf_listeners (V w) i)" for w j
    using u [unfolded octavia_changes_def, THEN conjunct2, THEN conjunct2, THEN conjunct1, rule_format, of w i j] that
    by auto
  moreover have "fst (o_set_members (octavia E) c j ms w) = None"
    if "accepts (V w) i" "j \<in> pl_id ` set (lf_pools (V w) i)" for w j ms
    using u [unfolded octavia_changes_def, THEN conjunct2, THEN conjunct2, THEN conjunct2, rule_format, of w i j ms] that
    by auto
  ultimately show ?thesis by (simp add: octavia_ready_def)
qed

text \<open>One rule per call.\<close>

lemma run_steady:
  assumes "steady V x m y" "life.more (V (world s)) = x" "\<And>s'. V (world s') = V (world s) \<Longrightarrow> Q (Inr y) s'"
  shows "wp m Q s"
proof -
  from assms(1,2) have "wp m (\<lambda>r s'. r = Inr y \<and> V (world s') = V (world s)) s" by (simp add: steady_def)
  then show ?thesis by (rule wp_mono) (use assms(3) in auto)
qed

lemma run_get_svc:
  assumes "tenant_laws E tenant ns name V" "lf_svc (V (world s)) = Some svc"
    "\<And>s'. V (world s') = V (world s) \<Longrightarrow> Q (Inr svc) s'"
  shows "wp (get_svc E tenant ns name) Q s"
proof -
  from assms(1) [unfolded tenant_laws_def, rule_format, of "world s"] assms(2)
  obtain w' where "t_get_svc (tenants E) tenant ns name (world s) = (Inr svc, w')" "V w' = V (world s)" by auto
  with assms(3) show ?thesis by (simp add: wp_call_val)
qed

lemma run_get_svc_gone:
  assumes "tenant_laws E tenant ns name V" "lf_svc (V (world s)) = None"
    "\<And>a s'. V (world s') = V (world s) \<Longrightarrow> ae_not_found a \<Longrightarrow> Q (Inl (Api a)) s'"
  shows "wp (get_svc E tenant ns name) Q s"
proof -
  from assms(1) [unfolded tenant_laws_def, rule_format, of "world s"] assms(2)
  obtain a w' where "t_get_svc (tenants E) tenant ns name (world s) = (Inl a, w')" "ae_not_found a" "V w' = V (world s)"
    by auto
  with assms(3) show ?thesis by (simp add: wp_call_val)
qed

lemma run_patch_finalizers:
  assumes "tenant_laws E tenant ns name V" "lf_svc (V (world s)) = Some svc"
    "\<And>s'. V (world s') = (V (world s))\<lparr>lf_svc := if s_deleting svc \<and> fs = [] then None else Some (svc\<lparr>s_finalizers := fs\<rparr>)\<rparr> \<Longrightarrow>
       Q (Inr ()) s'"
  shows "wp (patch_finalizers E tenant ns name fs) Q s"
proof -
  from assms(1) [unfolded tenant_laws_def, rule_format, of "world s"] assms(2)
  obtain w' where "t_patch_finalizers (tenants E) tenant ns name fs (world s) = (None, w')"
    "V w' = (V (world s))\<lparr>lf_svc := if s_deleting svc \<and> fs = [] then None else Some (svc\<lparr>s_finalizers := fs\<rparr>)\<rparr>"
    by (simp split: option.splits) blast
  with assms(3) show ?thesis by (simp add: wp_call_unit)
qed

lemma run_patch_ingress:
  assumes "tenant_laws E tenant ns name V" "lf_svc (V (world s)) = Some svc"
    "\<And>s'. V (world s') = (V (world s))\<lparr>lf_svc := Some (svc\<lparr>s_ingress := ips\<rparr>)\<rparr> \<Longrightarrow> Q (Inr ()) s'"
  shows "wp (patch_ingress E tenant ns name ips) Q s"
proof -
  from assms(1) [unfolded tenant_laws_def, rule_format, of "world s"] assms(2)
  obtain w' where "t_patch_ingress (tenants E) tenant ns name ips (world s) = (None, w')"
    "V w' = (V (world s))\<lparr>lf_svc := Some (svc\<lparr>s_ingress := ips\<rparr>)\<rparr>"
    by (simp split: option.splits) blast
  with assms(3) show ?thesis by (simp add: wp_call_unit)
qed

lemma run_find_lb:
  assumes "octavia_reads E c n V" "\<And>s'. V (world s') = V (world s) \<Longrightarrow> Q (Inr (lf_lb (V (world s)))) s'"
  shows "wp (find_lb_by_name E c n) Q s"
proof -
  from assms(1) obtain pg w' where "o_list_lbs (octavia E) c (Some n) (world s) = (pg, w')" "V w' = V (world s)"
    "pages_find (\<lambda>b. lb_name b = n) pg = Inr (lf_lb (V (world s)))"
    unfolding octavia_reads_def by blast
  with assms(2) show ?thesis by (simp add: find_lb_by_name_def wp_call_find)
qed

lemma run_find_fip:
  assumes "fip_laws E c V"
    "\<And>s'. V (world s') = V (world s) \<Longrightarrow> Q (Inr (find (\<lambda>_. True) (lf_fips (V (world s)) port))) s'"
  shows "wp (find_fip_by_port E c port) Q s"
proof -
  from assms(1) obtain pg w' where "n_list_fips (neutron E) c (Some port) (world s) = (pg, w')" "V w' = V (world s)"
    "pages_find (\<lambda>_. True) pg = Inr (find (\<lambda>_. True) (lf_fips (V (world s)) port))"
    unfolding fip_laws_def by blast
  with assms(2) show ?thesis by (simp add: find_fip_by_port_def wp_call_find)
qed

lemma run_find_sg:
  assumes "group_laws E c V"
    "\<And>s'. V (world s') = V (world s) \<Longrightarrow> Q (Inr (find (\<lambda>g. sg_name g = n) (lf_groups (V (world s))))) s'"
  shows "wp (find_sg_by_name E c n) Q s"
proof -
  from assms(1) obtain pg w' where "n_list_sgs (neutron E) c (Some n) (world s) = (pg, w')" "V w' = V (world s)"
    "pages_find (\<lambda>g. sg_name g = n) pg = Inr (find (\<lambda>g. sg_name g = n) (lf_groups (V (world s))))"
    unfolding group_laws_def by blast
  with assms(2) show ?thesis by (simp add: find_sg_by_name_def wp_call_find)
qed

lemma run_find_port:
  assumes "port_laws E c net V"
    "\<And>s'. V (world s') = V (world s) \<Longrightarrow> Q (Inr (find (\<lambda>p. ip \<in> set (pt_ips p)) (lf_ports (V (world s))))) s'"
  shows "wp (find_port_by_ip E c net ip) Q s"
proof -
  from assms(1) obtain pg w' where "n_list_ports (neutron E) c net None (Some ip) (world s) = (pg, w')"
    "V w' = V (world s)" "pages_find (\<lambda>_. True) pg = Inr (find (\<lambda>p. ip \<in> set (pt_ips p)) (lf_ports (V (world s))))"
    unfolding port_laws_def by blast
  with assms(2) show ?thesis by (simp add: find_port_by_ip_def wp_call_find)
qed

lemma run_update_port:
  assumes "port_laws E c net V" "i \<in> pt_id ` set (lf_ports (V (world s)))"
    "\<And>p s'. V (world s') = (V (world s))\<lparr>lf_ports := set_port_sgs i sgs (lf_ports (V (world s)))\<rparr> \<Longrightarrow> Q (Inr p) s'"
  shows "wp (update_port E c i sgs) Q s"
proof -
  from assms(1) [unfolded port_laws_def, THEN conjunct2, rule_format, OF assms(2)]
  obtain p w' where "n_update_port (neutron E) c i sgs (world s) = (Inr p, w')"
    "V w' = (V (world s))\<lparr>lf_ports := set_port_sgs i sgs (lf_ports (V (world s)))\<rparr>" by blast
  with assms(3) show ?thesis by (simp add: wp_call_val)
qed

text \<open>The rules of one group, as the security group code sees them.\<close>

lemma group_rules:
  assumes law: "rule_laws E c V" and reads: "octavia_reads E c' n V"
  shows "neutron_rules E c g (\<lambda>w. lf_rules (V w) g)" and "rules_reliable E c g (\<lambda>w. lf_rules (V w) g)"
    and "rules_atomic E c g (\<lambda>w. lf_rules (V w) g)"
proof -
  from law have l: "\<exists>pg w'. n_list_rules (neutron E) c g w = (pg, w') \<and> V w' = V w \<and> pages_items pg = Inr (lf_rules (V w) g)"
    for w by (simp add: rule_laws_def)
  have d: "\<exists>w'. n_del_rule (neutron E) c i w = (None, w') \<and>
      V w' = (V w)\<lparr>lf_rules := (\<lambda>g. filter (\<lambda>r. ru_id r \<noteq> i) (lf_rules (V w) g))\<rparr>"
    if "i \<in> ru_id ` set (lf_rules (V w) g)" for i w
    using law [unfolded rule_laws_def, THEN conjunct2, THEN conjunct1, rule_format, of i w] that
    by (auto split: if_splits)
  have a: "if list_ex (rule_match opts) (lf_rules (V w) (ro_sg opts))
      then \<exists>a w'. n_create_rule (neutron E) c opts w = (Inl a, w') \<and> V w' = V w
      else \<exists>r w'. n_create_rule (neutron E) c opts w = (Inr r, w') \<and> rule_of_opts opts r \<and>
         ru_id r \<notin> ru_id ` set (lf_rules (V w) (ro_sg opts)) \<and>
         V w' = (V w)\<lparr>lf_rules := (lf_rules (V w))(ro_sg opts := lf_rules (V w) (ro_sg opts) @ [r])\<rparr>" for opts w
    using law by (simp add: rule_laws_def)
  have s: "V (snd (map_seed E w)) = V w" for w using reads by (simp add: octavia_reads_def)
  show "neutron_rules E c g (\<lambda>w. lf_rules (V w) g)"
    unfolding neutron_rules_def
  proof (intro conjI allI impI)
    fix w xs
    from l [of w] show "lf_rules (V (snd (n_list_rules (neutron E) c g w))) g = lf_rules (V w) g" by auto
    assume "pages_items (fst (n_list_rules (neutron E) c g w)) = Inr xs"
    with l [of w] show "xs = lf_rules (V w) g" by auto
  next
    fix i w assume "i \<in> ru_id ` set (lf_rules (V w) g) \<and> fst (n_del_rule (neutron E) c i w) = None"
    with d [of i w] show "lf_rules (V (snd (n_del_rule (neutron E) c i w))) g = filter (\<lambda>r. ru_id r \<noteq> i) (lf_rules (V w) g)"
      by auto
  next
    fix opts w r assume "ro_sg opts = g \<and> fst (n_create_rule (neutron E) c opts w) = Inr r"
    with a [of opts w] show "lf_rules (V (snd (n_create_rule (neutron E) c opts w))) g = lf_rules (V w) g @ [r]"
      "rule_of_opts opts r" "ru_id r \<notin> ru_id ` set (lf_rules (V w) g)"
      by (auto split: if_splits)
  qed (simp add: s)
  show "rules_reliable E c g (\<lambda>w. lf_rules (V w) g)"
    unfolding rules_reliable_def
  proof (intro conjI allI impI)
    fix w from l [of w] show "\<exists>xs. pages_items (fst (n_list_rules (neutron E) c g w)) = Inr xs" by auto
  next
    fix i w assume "i \<in> ru_id ` set (lf_rules (V w) g)"
    from d [OF this] show "fst (n_del_rule (neutron E) c i w) = None" by auto
  next
    fix opts w assume "ro_sg opts = g \<and> list_all (\<lambda>r. \<not> rule_match opts r) (lf_rules (V w) g)"
    with a [of opts w] show "\<exists>r. fst (n_create_rule (neutron E) c opts w) = Inr r"
      by (auto simp: list_ex_iff list_all_iff)
  qed
  show "rules_atomic E c g (\<lambda>w. lf_rules (V w) g)"
    unfolding rules_atomic_def
  proof (intro allI impI)
    fix opts w e assume "ro_sg opts = g \<and> fst (n_create_rule (neutron E) c opts w) = Inl e"
    with a [of opts w] show "lf_rules (V (snd (n_create_rule (neutron E) c opts w))) g = lf_rules (V w) g"
      by (auto split: if_splits)
  qed
qed

text \<open>Whatever a program on rules does, it does to rules only.\<close>

lemma rules_only:
  assumes law: "rule_laws E c V" and reads: "octavia_reads E c' n V"
  shows "maintains (\<lambda>w. \<exists>rs. V w = v\<lparr>lf_rules := rs\<rparr>) (ensure_node_port_rules E c g tenant svc cidrs)"
    and "maintains (\<lambda>w. \<exists>rs. V w = v\<lparr>lf_rules := rs\<rparr>) (delete_node_port_rules E c g tenant svc)"
    and "maintains (\<lambda>w. \<exists>rs. V w = v\<lparr>lf_rules := rs\<rparr>) (ensure_baseline_rules E c g)"
proof -
  have l: "\<exists>rs. V (snd (n_list_rules (neutron E) c g w)) = v\<lparr>lf_rules := rs\<rparr>" if "\<exists>rs. V w = v\<lparr>lf_rules := rs\<rparr>" for g w
    using law [unfolded rule_laws_def, THEN conjunct1, rule_format, of g w] that by auto
  have d: "\<exists>rs. V (snd (n_del_rule (neutron E) c i w)) = v\<lparr>lf_rules := rs\<rparr>" if "\<exists>rs. V w = v\<lparr>lf_rules := rs\<rparr>" for i w
    using law [unfolded rule_laws_def, THEN conjunct2, THEN conjunct1, rule_format, of i w] that
    by (auto split: if_splits)
  have a: "\<exists>rs. V (snd (n_create_rule (neutron E) c opts w)) = v\<lparr>lf_rules := rs\<rparr>" if "\<exists>rs. V w = v\<lparr>lf_rules := rs\<rparr>" for opts w
    using law [unfolded rule_laws_def, THEN conjunct2, THEN conjunct2, rule_format, of opts w] that
    by (auto split: if_splits)
  have s: "\<exists>rs. V (snd (map_seed E w)) = v\<lparr>lf_rules := rs\<rparr>" if "\<exists>rs. V w = v\<lparr>lf_rules := rs\<rparr>" for w
    using reads that by (simp add: octavia_reads_def)
  show "maintains (\<lambda>w. \<exists>rs. V w = v\<lparr>lf_rules := rs\<rparr>) (ensure_node_port_rules E c g tenant svc cidrs)"
    "maintains (\<lambda>w. \<exists>rs. V w = v\<lparr>lf_rules := rs\<rparr>) (delete_node_port_rules E c g tenant svc)"
    "maintains (\<lambda>w. \<exists>rs. V w = v\<lparr>lf_rules := rs\<rparr>) (ensure_baseline_rules E c g)"
    unfolding ensure_node_port_rules_def delete_node_port_rules_def list_owned_rules_def ensure_baseline_rules_def
    by (intro maintain_rules l d a s; assumption)+
qed

end
