(* ===== verification/Wiring.thy ===== *)
theory Wiring
  imports CloudLaws
begin

text \<open>
  Giving the worker ports their security group, under the laws of Neutron: the cluster's group
  exists with its baseline rules afterwards, every worker port carries it, and detaching the
  default group never fails, since a port keeps the cluster's.
\<close>

definition cluster_group :: "string \<Rightarrow> 'x life_scheme \<Rightarrow> string" where
  "cluster_group tenant v =
     (case find (\<lambda>g. sg_name g = cluster_sg_name tenant) (lf_groups v) of None \<Rightarrow> '''' | Some g \<Rightarrow> sg_id g)"

definition worker_group :: "string \<Rightarrow> lb_config \<Rightarrow> 'x life_scheme \<Rightarrow> string" where
  "worker_group tenant cfg v = (if cf_worker_sg cfg \<noteq> '''' then cf_worker_sg cfg else cluster_group tenant v)"

definition carries :: "string \<Rightarrow> nport list \<Rightarrow> string \<Rightarrow> bool" where
  "carries g ps ip = (case find (\<lambda>p. ip \<in> set (pt_ips p)) ps of None \<Rightarrow> True | Some p \<Rightarrow> g \<in> set (pt_sgs p))"

definition groups_ok :: "'x life_scheme \<Rightarrow> bool" where
  "groups_ok v \<longleftrightarrow> distinct (map sg_id (lf_groups v)) \<and> '''' \<notin> sg_id ` set (lf_groups v)"

section \<open>Ports\<close>

lemma find_map_same: "(\<And>x. P (f x) = P x) \<Longrightarrow> find P (map f xs) = map_option f (find P xs)"
  by (induction xs) auto

lemma find_ports:
  "find (\<lambda>p. ip \<in> set (pt_ips p)) (set_port_sgs i sgs ps) =
     map_option (\<lambda>p. if pt_id p = i then p\<lparr>pt_sgs := sgs\<rparr> else p) (find (\<lambda>p. ip \<in> set (pt_ips p)) ps)"
  unfolding set_port_sgs_def by (rule find_map_same) simp

lemma carries_set: "g \<in> set sgs \<Longrightarrow> carries g ps ip \<Longrightarrow> carries g (set_port_sgs i sgs ps) ip"
  by (auto simp: carries_def find_ports split: option.splits)

lemma carries_found:
  "find (\<lambda>p. ip \<in> set (pt_ips p)) ps = Some p \<Longrightarrow> g \<in> set sgs \<Longrightarrow> carries g (set_port_sgs (pt_id p) sgs ps) ip"
  by (simp add: carries_def find_ports)

lemma find_port_id: "find P ps = Some p \<Longrightarrow> pt_id p \<in> pt_id ` set ps"
  by (auto simp: find_Some_iff)

text \<open>Attaching and detaching may only change ports, and a port that carried the group still does.\<close>

definition wired :: "string \<Rightarrow> 'x life_scheme \<Rightarrow> 'x life_scheme \<Rightarrow> bool" where
  "wired g v v' \<longleftrightarrow> (\<exists>ps. v' = v\<lparr>lf_ports := ps\<rparr> \<and> (\<forall>ip. carries g (lf_ports v) ip \<longrightarrow> carries g ps ip))"

lemma wired_refl: "wired g v v"
  unfolding wired_def by (rule exI [of _ "lf_ports v"]) simp

lemma wired_trans: "wired g u v \<Longrightarrow> wired g v w \<Longrightarrow> wired g u w"
  by (auto simp: wired_def)

lemma wired_set: "g \<in> set sgs \<Longrightarrow> wired g v (v\<lparr>lf_ports := set_port_sgs i sgs (lf_ports v)\<rparr>)"
  unfolding wired_def by (rule exI [of _ "set_port_sgs i sgs (lf_ports v)"]) (simp add: carries_set)

lemma run_attach:
  fixes E :: "'w env"
  assumes law: "port_laws E c net V"
    and Q: "\<And>s'. wired g (V (world s)) (V (world s')) \<Longrightarrow> carries g (lf_ports (V (world s'))) ip \<Longrightarrow> Q (Inr ()) s'"
  shows "wp (attach_worker E c g net ip) Q s"
  unfolding attach_worker_def wp_check
proof (rule run_find_port [OF law])
  fix s1 :: "('w, event) st" assume s1: "V (world s1) = V (world s)"
  let ?ps = "lf_ports (V (world s))"
  let ?find = "find (\<lambda>p. ip \<in> set (pt_ips p)) ?ps"
  have same: "Q (Inr ()) s1" if "carries g ?ps ip" using Q [of s1] that s1 wired_refl by metis
  show "case Inr ?find of Inl e \<Rightarrow> Q (Inl (Wrap (''looking up port for member '' @ ip) e)) s1
    | Inr port \<Rightarrow> wp (case port of None \<Rightarrow> ret ()
       | Some p \<Rightarrow>
           if has_sg (pt_sgs p) g then ret ()
           else check (''attaching SG '' @ g @ '' to worker port '' @ pt_id p)
                  (update_port E c (pt_id p) (pt_sgs p @ [g])) (\<lambda>_. ret ())) Q s1"
  proof (cases ?find)
    case None
    with same show ?thesis by (simp add: wp_ret carries_def)
  next
    case (Some p)
    show ?thesis
    proof (cases "g \<in> set (pt_sgs p)")
      case True
      with Some same show ?thesis by (simp add: wp_ret carries_def)
    next
      case False
      have "wp (check (''attaching SG '' @ g @ '' to worker port '' @ pt_id p)
         (update_port E c (pt_id p) (pt_sgs p @ [g])) (\<lambda>_. ret ())) Q s1"
        unfolding wp_check
      proof (rule run_update_port [OF law])
        show "pt_id p \<in> pt_id ` set (lf_ports (V (world s1)))" using find_port_id [OF Some] by (simp add: s1)
      next
        fix x and s' :: "('w, event) st"
        assume s': "V (world s') = (V (world s1))\<lparr>lf_ports := set_port_sgs (pt_id p) (pt_sgs p @ [g]) (lf_ports (V (world s1)))\<rparr>"
        have "Q (Inr ()) s'"
          by (rule Q) (simp_all add: s' s1 wired_set carries_found [OF Some])
        then show "case Inr x of Inl e \<Rightarrow> Q (Inl (Wrap (''attaching SG '' @ g @ '' to worker port '' @ pt_id p) e)) s'
          | Inr x \<Rightarrow> wp (ret ()) Q s'" by (simp add: wp_ret)
      qed
      then show ?thesis by (simp only: Some False has_sg_iff if_False option.case sum.case)
    qed
  qed
qed

lemma run_detach:
  fixes E :: "'w env"
  assumes law: "port_laws E c net V" and d: "d \<noteq> g" and car: "carries g (lf_ports (V (world s))) ip"
    and Q: "\<And>s'. wired g (V (world s)) (V (world s')) \<Longrightarrow> Q (Inr ()) s'"
  shows "wp (detach_worker E c d net ip) Q s"
  unfolding detach_worker_def wp_check Let_def
proof (rule run_find_port [OF law])
  fix s1 :: "('w, event) st" assume s1: "V (world s1) = V (world s)"
  let ?ps = "lf_ports (V (world s))"
  let ?find = "find (\<lambda>p. ip \<in> set (pt_ips p)) ?ps"
  let ?sgs = "\<lambda>p. filter (\<lambda>s. s \<noteq> d) (pt_sgs p)"
  have same: "Q (Inr ()) s1" using Q [of s1] s1 wired_refl by metis
  show "case Inr ?find of Inl e \<Rightarrow> Q (Inl (Wrap (''looking up port for member '' @ ip) e)) s1
    | Inr port \<Rightarrow> wp (case port of None \<Rightarrow> ret ()
       | Some p \<Rightarrow>
           if \<not> has_sg (pt_sgs p) d then ret ()
           else if ?sgs p = [] then
               throw (Msg (''refusing to detach default SG from port '' @ pt_id p @
                 '': it would leave the port with no SG at all (cluster SG attach must run first)''))
             else check (''detaching default SG from worker port '' @ pt_id p)
                    (update_port E c (pt_id p) (?sgs p)) (\<lambda>_. ret ())) Q s1"
  proof (cases ?find)
    case None
    with same show ?thesis by (simp add: wp_ret)
  next
    case (Some p)
    with car have g: "g \<in> set (pt_sgs p)" by (simp add: carries_def)
    show ?thesis
    proof (cases "d \<in> set (pt_sgs p)")
      case False
      with Some same show ?thesis by (simp add: wp_ret)
    next
      case True
      from g d have ne: "?sgs p \<noteq> []" "g \<in> set (?sgs p)" by (auto simp: filter_empty_conv)
      have "wp (check (''detaching default SG from worker port '' @ pt_id p)
         (update_port E c (pt_id p) (?sgs p)) (\<lambda>_. ret ())) Q s1"
        unfolding wp_check
      proof (rule run_update_port [OF law])
        show "pt_id p \<in> pt_id ` set (lf_ports (V (world s1)))" using find_port_id [OF Some] by (simp add: s1)
      next
        fix x and s' :: "('w, event) st" assume s': "V (world s') = (V (world s1))\<lparr>lf_ports := set_port_sgs (pt_id p) (?sgs p) (lf_ports (V (world s1)))\<rparr>"
        have "Q (Inr ()) s'"
          by (rule Q) (use wired_set [OF ne(2)] in \<open>simp add: s' s1\<close>)
        then show "case Inr x of Inl e \<Rightarrow> Q (Inl (Wrap (''detaching default SG from worker port '' @ pt_id p) e)) s'
          | Inr x \<Rightarrow> wp (ret ()) Q s'" by (simp add: wp_ret)
      qed
      then show ?thesis by (simp only: Some True ne(1) has_sg_iff simp_thms if_False option.case sum.case)
    qed
  qed
qed

lemma wp_foreach_ok:
  assumes "I [] s"
    and "\<And>xs1 x xs2 s P. xs = xs1 @ x # xs2 \<Longrightarrow> I xs1 s \<Longrightarrow> (\<And>s'. I (xs1 @ [x]) s' \<Longrightarrow> P (Inr ()) s') \<Longrightarrow> wp (f x) P s"
    and "\<And>s. I xs s \<Longrightarrow> Q (Inr ()) s"
  shows "wp (foreach xs f) Q s"
  by (rule wp_foreach [where I = I]) (use assms in \<open>auto\<close>)

lemma run_attach_all:
  fixes E :: "'w env"
  assumes law: "port_laws E c net V"
    and Q: "\<And>s'. wired i (V (world s)) (V (world s')) \<Longrightarrow> list_all (carries i (lf_ports (V (world s')))) ips \<Longrightarrow> Q (Inr ()) s'"
  shows "wp (foreach ips (attach_worker E c i net)) Q s"
proof (rule wp_foreach_ok [where I = "\<lambda>xs s'. wired i (V (world s)) (V (world s')) \<and>
    list_all (carries i (lf_ports (V (world s')))) xs"])
  fix xs1 x xs2 and s1 :: "('w, event) st" and P :: "err + unit \<Rightarrow> ('w, event) st \<Rightarrow> bool"
  assume s1: "wired i (V (world s)) (V (world s1)) \<and> list_all (carries i (lf_ports (V (world s1)))) xs1"
    and P: "\<And>s' :: ('w, event) st. wired i (V (world s)) (V (world s')) \<and>
      list_all (carries i (lf_ports (V (world s')))) (xs1 @ [x]) \<Longrightarrow> P (Inr ()) s'"
  show "wp (attach_worker E c i net x) P s1"
  proof (rule run_attach [OF law])
    fix s' :: "('w, event) st"
    assume s': "wired i (V (world s1)) (V (world s'))" "carries i (lf_ports (V (world s'))) x"
    with s1 have "wired i (V (world s)) (V (world s'))" by (blast intro: wired_trans)
    with s1 s' show "P (Inr ()) s'" by (intro P) (auto simp: wired_def list_all_iff)
  qed
qed (use Q in \<open>simp_all add: wired_refl\<close>)

lemma run_detach_all:
  fixes E :: "'w env"
  assumes law: "port_laws E c net V" and d: "d \<noteq> i" and car: "list_all (carries i (lf_ports (V (world s)))) ips"
    and Q: "\<And>s'. wired i (V (world s)) (V (world s')) \<Longrightarrow> Q (Inr ()) s'"
  shows "wp (foreach ips (detach_worker E c d net)) Q s"
proof (rule wp_foreach_ok [where I = "\<lambda>_ s'. wired i (V (world s)) (V (world s'))"])
  fix xs1 x xs2 and s1 :: "('w, event) st" and P :: "err + unit \<Rightarrow> ('w, event) st \<Rightarrow> bool"
  assume "ips = xs1 @ x # xs2" and s1: "wired i (V (world s)) (V (world s1))"
    and P: "\<And>s' :: ('w, event) st. wired i (V (world s)) (V (world s')) \<Longrightarrow> P (Inr ()) s'"
  with car have "carries i (lf_ports (V (world s1))) x" by (auto simp: wired_def)
  then show "wp (detach_worker E c d net x) P s1"
    by (rule run_detach [OF law d]) (rule P [OF wired_trans [OF s1]])
qed (use Q in \<open>simp_all add: wired_refl\<close>)

lemma run_detach_default:
  fixes E :: "'w env"
  assumes law: "port_laws E c net V" and g: "group_laws E c V"
    and d: "\<And>d. find (\<lambda>g. sg_name g = ''default'') (lf_groups (V (world s))) = Some d \<Longrightarrow> sg_id d \<noteq> i"
    and car: "list_all (carries i (lf_ports (V (world s)))) ips"
    and Q: "\<And>s'. wired i (V (world s)) (V (world s')) \<Longrightarrow> Q (Inr ()) s'"
  shows "wp (detach_default_sg E c ips net) Q s"
proof -
  let ?d = "find (\<lambda>g. sg_name g = ''default'') (lf_groups (V (world s)))"
  have look: "wp (check m (find_sg_by_name E c ''default'') (\<lambda>g. case g of None \<Rightarrow> ret ()
     | Some d \<Rightarrow> foreach ips (detach_worker E c (sg_id d) net))) Q s" for m :: string
    unfolding wp_check
  proof (rule run_find_sg [OF g])
    fix s1 :: "('w, event) st" assume s1: "V (world s1) = V (world s)"
    have "wp (case ?d of None \<Rightarrow> ret () | Some d \<Rightarrow> foreach ips (detach_worker E c (sg_id d) net)) Q s1"
    proof (cases ?d)
      case None
      with Q [of s1] show ?thesis by (simp add: wp_ret s1 wired_refl)
    next
      case (Some e)
      with d have "sg_id e \<noteq> i" by simp
      with Some show ?thesis using run_detach_all [OF law _ car [folded s1]] Q s1 by simp
    qed
    then show "case Inr ?d of Inl e \<Rightarrow> Q (Inl (Wrap m e)) s1
      | Inr g \<Rightarrow> wp (case g of None \<Rightarrow> ret () | Some d \<Rightarrow> foreach ips (detach_worker E c (sg_id d) net)) Q s1" by simp
  qed
  show ?thesis
    unfolding detach_default_sg_def using look Q [of s] by (simp add: wp_ret wired_refl)
qed

lemma run_wire_ports:
  fixes E :: "'w env"
  assumes law: "port_laws E c net V" and g: "group_laws E c V" and net: "net \<noteq> ''''" and i: "i \<noteq> ''''"
    and d: "\<And>d. find (\<lambda>g. sg_name g = ''default'') (lf_groups (V (world s))) = Some d \<Longrightarrow> sg_id d \<noteq> i"
    and Q: "\<And>s'. wired i (V (world s)) (V (world s')) \<Longrightarrow> list_all (carries i (lf_ports (V (world s')))) ips \<Longrightarrow> Q (Inr x) s'"
  shows "wp (check m1 (ensure_sg_attached E c i ips net) (\<lambda>_. check m2 (detach_default_sg E c ips net) (\<lambda>_. ret x))) Q s"
proof -
  have detach: "wp (check m2 (detach_default_sg E c ips net) (\<lambda>_. ret x)) Q s1"
    if w: "wired i (V (world s)) (V (world s1))" and car: "list_all (carries i (lf_ports (V (world s1)))) ips" for s1
    unfolding wp_check
  proof (rule run_detach_default [OF law g _ car])
    from w show "sg_id e \<noteq> i" if "find (\<lambda>g. sg_name g = ''default'') (lf_groups (V (world s1))) = Some e" for e
      using that d by (auto simp: wired_def)
  next
    fix s' :: "('w, event) st" assume s': "wired i (V (world s1)) (V (world s'))"
    with car have "list_all (carries i (lf_ports (V (world s')))) ips" by (auto simp: wired_def list_all_iff)
    with Q [OF wired_trans [OF w s']] show "case Inr () of Inl e \<Rightarrow> Q (Inl (Wrap m2 e)) s' | Inr _ \<Rightarrow> wp (ret x) Q s'"
      by (simp add: wp_ret)
  qed
  show ?thesis
  proof (cases "ips = []")
    case True
    then show ?thesis using detach [OF wired_refl] by (simp add: ensure_sg_attached_def wp_check [of m1] wp_ret)
  next
    case False
    have "wp (foreach ips (attach_worker E c i net)) (\<lambda>r s'. case r of Inl e \<Rightarrow> Q (Inl (Wrap m1 e)) s'
       | Inr _ \<Rightarrow> wp (check m2 (detach_default_sg E c ips net) (\<lambda>_. ret x)) Q s') s"
      by (rule run_attach_all [OF law]) (use detach in simp)
    with False net i show ?thesis by (simp add: ensure_sg_attached_def wp_check [of m1])
  qed
qed

section \<open>The cluster's group\<close>

text \<open>What the baseline rules leave alone: every rule with a port, hence the rules of Services.\<close>

definition ports_quiet :: "string \<Rightarrow> 'x life_scheme \<Rightarrow> 'x life_scheme \<Rightarrow> bool" where
  "ports_quiet g v v' \<longleftrightarrow> (\<exists>rs. v' = v\<lparr>lf_rules := (lf_rules v)(g := rs)\<rparr> \<and>
     (distinct (map ru_id (lf_rules v g)) \<longrightarrow> distinct (map ru_id rs)) \<and>
     filter (\<lambda>r. ru_pmin r \<noteq> 0) rs = filter (\<lambda>r. ru_pmin r \<noteq> 0) (lf_rules v g))"

lemma ports_quiet_refl: "ports_quiet g v v"
  by (simp add: ports_quiet_def exI [of _ "lf_rules v g"])

lemma ports_quiet_trans: "ports_quiet g u v \<Longrightarrow> ports_quiet g v w \<Longrightarrow> ports_quiet g u w"
  by (auto simp: ports_quiet_def)

lemma ported_rules:
  assumes same: "filter (\<lambda>r. ru_pmin r \<noteq> 0) rs = filter (\<lambda>r. ru_pmin r \<noteq> 0) rs'"
  shows "{r \<in> set rs. rule_owned tenant svc r} = {r \<in> set rs'. rule_owned tenant svc r}"
    and "rules_clash tenant svc cidrs rs = rules_clash tenant svc cidrs rs'"
proof -
  have mem: "r \<in> set rs \<longleftrightarrow> r \<in> set rs'" if "ru_pmin r \<noteq> 0" for r
    using arg_cong [OF same, of set] that by auto
  then show "{r \<in> set rs. rule_owned tenant svc r} = {r \<in> set rs'. rule_owned tenant svc r}"
    by (auto simp: rule_owned_def)
  have "ru_pmin r \<noteq> 0" if "k \<in> set (desired_keys svc cidrs)" "rule_match (desired_rule tenant svc k) r" for k r
    using desired_port_nonzero [OF that(1)] that(2) by (simp add: rule_match_def desired_rule_def)
  with mem show "rules_clash tenant svc cidrs rs = rules_clash tenant svc cidrs rs'"
    unfolding rules_clash_def list_ex_iff by blast
qed

lemma run_baseline:
  assumes law: "rule_laws E c V" and e: "ether \<in> {''IPv4'', ''IPv6''}"
    and listed: "\<forall>r \<in> set (lf_rules (V (world s)) g). ru_dir r = ''ingress'' \<and> ru_group r = g \<and> ru_proto r = '''' \<and>
       ru_ether r = ether \<longrightarrow> ether \<in> set have_ether"
    and Q: "\<And>s'. ports_quiet g (V (world s)) (V (world s')) \<Longrightarrow>
       (\<forall>r \<in> set (lf_rules (V (world s')) g). r \<in> set (lf_rules (V (world s)) g) \<or> ru_ether r = ether) \<Longrightarrow> Q (Inr ()) s'"
  shows "wp (if ro_ether (baseline_rule g ether) \<in> set have_ether then ret ()
    else check (m (ro_ether (baseline_rule g ether))) (create_rule E c (baseline_rule g ether)) (\<lambda>_. ret ())) Q s"
proof (cases "ether \<in> set have_ether")
  case True
  with Q [of s] show ?thesis by (simp add: baseline_rule_def wp_ret ports_quiet_refl)
next
  case False
  let ?v = "V (world s)"
  let ?o = "baseline_rule g ether"
  from False listed have "\<not> list_ex (rule_match ?o) (lf_rules ?v g)"
    by (auto simp: list_ex_iff rule_match_def baseline_rule_def)
  with law [unfolded rule_laws_def, THEN conjunct2, THEN conjunct2, rule_format, of ?o "world s"]
  obtain r w' where r: "n_create_rule (neutron E) c ?o (world s) = (Inr r, w')" "rule_of_opts ?o r"
    "ru_id r \<notin> ru_id ` set (lf_rules ?v g)" "V w' = ?v\<lparr>lf_rules := (lf_rules ?v)(g := lf_rules ?v g @ [r])\<rparr>"
    by (auto simp: baseline_rule_def)
  have "Q (Inr ()) s'" if "world s' = w'" for s'
    by (rule Q) (use r that in \<open>auto simp: ports_quiet_def rule_of_opts_def baseline_rule_def image_iff\<close>)
  with False r(1) show ?thesis by (simp add: baseline_rule_def wp_simps)
qed

lemma run_baseline_rules:
  assumes law: "rule_laws E c V" and Q: "\<And>s'. ports_quiet g (V (world s)) (V (world s')) \<Longrightarrow> Q (Inr ()) s'"
  shows "wp (ensure_baseline_rules E c g) Q s"
proof -
  from law [unfolded rule_laws_def, THEN conjunct1, rule_format, of g "world s"]
  obtain pg w' where l: "n_list_rules (neutron E) c g (world s) = (pg, w')" "V w' = V (world s)"
    "pages_items pg = Inr (lf_rules (V (world s)) g)" by blast
  let ?have = "map ru_ether (filter (\<lambda>r. ru_dir r = ''ingress'' \<and> ru_group r = g \<and> ru_proto r = '''') (lf_rules (V (world s)) g))"
  show ?thesis
    unfolding ensure_baseline_rules_def Let_def wp_check
    apply (simp only: wp_call_items l prod.case sum.case foreach.simps wp_bind)
    apply (rule run_baseline [OF law, where have_ether = ?have])
      apply simp
     apply (force simp: l)
    apply (simp only: sum.case)
    apply (rule run_baseline [OF law, where have_ether = ?have])
      apply simp
     apply (force simp: l)
    apply (simp only: sum.case wp_ret)
    apply (rule Q)
    apply (simp add: l)
    apply (erule (1) ports_quiet_trans)
    done
qed

text \<open>
  What ensuring the group leaves: the group of the cluster's name, new with a fresh id when
  there was none, and baseline rules in it.
\<close>

definition new_group :: "string \<Rightarrow> 'x life_scheme \<Rightarrow> 'x life_scheme \<Rightarrow> bool" where
  "new_group n v v' \<longleftrightarrow> (\<exists>g rs. v' = v\<lparr>lf_groups := lf_groups v @ [g], lf_rules := (lf_rules v)(sg_id g := rs)\<rparr> \<and>
     sg_name g = n \<and> sg_id g \<noteq> '''' \<and> sg_id g \<notin> sg_id ` set (lf_groups v) \<and> distinct (map ru_id rs) \<and>
     list_all (\<lambda>r. ru_dir r \<noteq> ''ingress'') rs)"

definition grouped :: "string \<Rightarrow> 'x life_scheme \<Rightarrow> 'x life_scheme \<Rightarrow> bool" where
  "grouped tenant v v' \<longleftrightarrow> (\<exists>v1. ports_quiet (cluster_group tenant v1) v1 v' \<and> cluster_group tenant v1 \<noteq> '''' \<and>
     (v1 = v \<or> cluster_group tenant v = '''' \<and> new_group (cluster_sg_name tenant) v v1))"

lemma find_in: "find P xs = Some x \<Longrightarrow> P x \<and> x \<in> set xs"
  by (auto simp: find_Some_iff)

lemma cluster_group_found:
  "find (\<lambda>g. sg_name g = cluster_sg_name tenant) (lf_groups v) = Some g \<Longrightarrow> cluster_group tenant v = sg_id g"
  by (simp add: cluster_group_def)

lemma run_ensure_group:
  fixes E :: "'w env"
  assumes law: "rule_laws E c V" "group_laws E c V" and ok: "groups_ok (V (world s))"
    and Q: "\<And>s'. grouped tenant (V (world s)) (V (world s')) \<Longrightarrow> Q (Inr (cluster_group tenant (V (world s')))) s'"
  shows "wp (ensure_cluster_security_group E c tenant) Q s"
proof -
  let ?n = "cluster_sg_name tenant"
  let ?old = "find (\<lambda>g. sg_name g = ?n) (lf_groups (V (world s)))"
  have base: "wp (check m (ensure_baseline_rules E c (sg_id g)) (\<lambda>_. ret (sg_id g))) Q s1"
    if g: "cluster_group tenant (V (world s1)) = sg_id g" "sg_id g \<noteq> ''''"
      "V (world s1) = V (world s) \<or> cluster_group tenant (V (world s)) = '''' \<and> new_group ?n (V (world s)) (V (world s1))"
    for m :: string and g s1
    unfolding wp_check
  proof (rule run_baseline_rules [OF law(1)])
    fix s' :: "('w, event) st" assume q: "ports_quiet (sg_id g) (V (world s1)) (V (world s'))"
    then have "cluster_group tenant (V (world s')) = sg_id g" using g(1) by (auto simp: ports_quiet_def cluster_group_def)
    moreover have "grouped tenant (V (world s)) (V (world s'))"
      unfolding grouped_def by (rule exI [of _ "V (world s1)"]) (use g q in simp)
    ultimately show "case Inr () of Inl e \<Rightarrow> Q (Inl (Wrap m e)) s' | Inr _ \<Rightarrow> wp (ret (sg_id g)) Q s'"
      using Q [of s'] by (simp add: wp_ret)
  qed
  show ?thesis
    unfolding ensure_cluster_security_group_def Let_def wp_check [of _ "find_sg_by_name E c ?n"]
  proof (rule run_find_sg [OF law(2)])
    fix s1 :: "('w, event) st" assume s1: "V (world s1) = V (world s)"
    show "case Inr ?old of Inl e \<Rightarrow> Q (Inl (Wrap ''looking up cluster SG'' e)) s1
      | Inr existing \<Rightarrow> wp (case existing of
          Some g \<Rightarrow>
            check ''ensuring baseline rules on existing SG'' (ensure_baseline_rules E c (sg_id g))
              (\<lambda>_. ret (sg_id g))
        | None \<Rightarrow>
            check ''creating cluster SG''
              (create_sg E c ?n (''Managed by Cozystack loadbalancer-controller; cluster='' @ tenant))
              (\<lambda>g. check ''ensuring baseline rules on new SG'' (ensure_baseline_rules E c (sg_id g))
                     (\<lambda>_. ret (sg_id g)))) Q s1"
    proof (cases ?old)
      case (Some g)
      then have "sg_id g \<noteq> ''''" using ok find_in [OF Some] by (auto simp: groups_ok_def image_iff)
      with base [of s1 g] Some show ?thesis by (simp only: s1 cluster_group_found [OF Some] simp_thms sum.case option.case)
    next
      case None
      then have none: "cluster_group tenant (V (world s)) = ''''" by (simp add: cluster_group_def)
      let ?d = "''Managed by Cozystack loadbalancer-controller; cluster='' @ tenant"
      from law(2) [unfolded group_laws_def, THEN conjunct2, rule_format, of ?n ?d "world s1"]
      obtain g rs w' where g: "n_create_sg (neutron E) c ?n ?d (world s1) = (Inr g, w')" "sg_name g = ?n" "sg_id g \<noteq> ''''"
        "sg_id g \<notin> sg_id ` set (lf_groups (V (world s1)))" "distinct (map ru_id rs)" "list_all (\<lambda>r. ru_dir r \<noteq> ''ingress'') rs"
        "V w' = (V (world s1))\<lparr>lf_groups := lf_groups (V (world s1)) @ [g], lf_rules := (lf_rules (V (world s1)))(sg_id g := rs)\<rparr>"
        by blast
      have new: "new_group ?n (V (world s)) (V w')"
        unfolding new_group_def by (rule exI [of _ g], rule exI [of _ rs]) (use g s1 in simp)
      have cg: "cluster_group tenant (V w') = sg_id g"
        using g(2,7) None s1 by (simp add: cluster_group_def find_append)
      show ?thesis
        by (simp only: None sum.case option.case wp_check [of "''creating cluster SG''"] wp_call_val g(1) prod.case)
           (rule base; simp add: cg g(3) new none)
    qed
  qed
qed

text \<open>Wiring the workers: the group the rules go to, carried by every worker port.\<close>

definition rules_fine :: "string \<Rightarrow> service \<Rightarrow> lb_config \<Rightarrow> 'x life_scheme \<Rightarrow> bool" where
  "rules_fine tenant svc cfg v \<longleftrightarrow> (let g = worker_group tenant cfg v in g \<noteq> '''' \<longrightarrow>
     group_ok tenant svc (lf_rules v g) \<and> \<not> rules_clash tenant svc (cf_cidrs cfg) (lf_rules v g))"

definition wired_up :: "string \<Rightarrow> lb_config \<Rightarrow> string list \<Rightarrow> 'x life_scheme \<Rightarrow> bool" where
  "wired_up tenant cfg ips v \<longleftrightarrow> worker_group tenant cfg v \<noteq> '''' \<and>
     (cf_worker_sg cfg = '''' \<longrightarrow> list_all (carries (worker_group tenant cfg v) (lf_ports v)) ips)"

lemma ingress_none:
  assumes "list_all (\<lambda>r. ru_dir r \<noteq> ''ingress'') rs"
  shows "{r \<in> set rs. rule_owned tenant svc r} = {}" and "\<not> rules_clash tenant svc cidrs rs"
  using assms by (auto simp: list_all_iff rule_owned_def rules_clash_def list_ex_iff rule_match_def desired_rule_def)

lemma grouped_fine:
  assumes g: "grouped tenant v v'" and cf: "cf_worker_sg cfg = ''''" and ok: "groups_ok v" and fine: "rules_fine tenant svc cfg v"
  shows "groups_ok v'" and "rules_fine tenant svc cfg v'" and "cluster_group tenant v' \<noteq> ''''"
    and "\<exists>gs rs. v' = v\<lparr>lf_groups := gs, lf_rules := rs\<rparr>"
proof -
  from g obtain v1 where q: "ports_quiet (cluster_group tenant v1) v1 v'" "cluster_group tenant v1 \<noteq> ''''"
    and v1: "v1 = v \<or> cluster_group tenant v = '''' \<and> new_group (cluster_sg_name tenant) v v1"
    by (auto simp: grouped_def)
  have gs: "lf_groups v' = lf_groups v1" using q(1) by (auto simp: ports_quiet_def)
  have new: "cluster_group tenant v1 = sg_id g"
    if "v1 = v\<lparr>lf_groups := lf_groups v @ [g], lf_rules := rs\<rparr>" "sg_name g = cluster_sg_name tenant"
      "cluster_group tenant v = ''''" for g rs
    using that ok by (auto simp: cluster_group_def find_append groups_ok_def image_iff split: option.splits dest!: find_in)
  have v1_ok: "groups_ok v1 \<and> rules_fine tenant svc cfg v1"
    using v1
  proof
    assume "cluster_group tenant v = '''' \<and> new_group (cluster_sg_name tenant) v v1"
    then obtain g rs where n: "cluster_group tenant v = ''''" "sg_name g = cluster_sg_name tenant" "sg_id g \<noteq> ''''"
      "sg_id g \<notin> sg_id ` set (lf_groups v)" "distinct (map ru_id rs)" "list_all (\<lambda>r. ru_dir r \<noteq> ''ingress'') rs"
      "v1 = v\<lparr>lf_groups := lf_groups v @ [g], lf_rules := (lf_rules v)(sg_id g := rs)\<rparr>"
      by (auto simp: new_group_def)
    from new [OF n(7,2,1)] n ingress_none [OF n(6), of tenant svc] ok show ?thesis
      by (auto simp: groups_ok_def rules_fine_def worker_group_def cf group_ok_def inj_on_def)
  qed (use ok fine in simp)
  have cg: "cluster_group tenant v' = cluster_group tenant v1" by (simp add: cluster_group_def gs)
  then show "cluster_group tenant v' \<noteq> ''''" using q(2) by simp
  show "groups_ok v'" using v1_ok by (simp add: groups_ok_def gs)
  from q(1) obtain rs where rs: "v' = v1\<lparr>lf_rules := (lf_rules v1)(cluster_group tenant v1 := rs)\<rparr>"
    "distinct (map ru_id (lf_rules v1 (cluster_group tenant v1))) \<longrightarrow> distinct (map ru_id rs)"
    "filter (\<lambda>r. ru_pmin r \<noteq> 0) rs = filter (\<lambda>r. ru_pmin r \<noteq> 0) (lf_rules v1 (cluster_group tenant v1))"
    by (auto simp: ports_quiet_def)
  have lr: "lf_rules v' (cluster_group tenant v1) = rs" by (simp add: rs(1))
  show "rules_fine tenant svc cfg v'"
    using v1_ok q(2) rs(2) ported_rules [OF rs(3), of tenant svc]
    by (simp add: rules_fine_def worker_group_def cf cg lr group_ok_def Let_def)
  show "\<exists>gs rs. v' = v\<lparr>lf_groups := gs, lf_rules := rs\<rparr>"
    using v1
  proof
    assume "v1 = v"
    then have "v' = v\<lparr>lf_groups := lf_groups v, lf_rules := (lf_rules v1)(cluster_group tenant v1 := rs)\<rparr>" using rs(1) by simp
    then show ?thesis by blast
  next
    assume "cluster_group tenant v = '''' \<and> new_group (cluster_sg_name tenant) v v1"
    then obtain gs rs0 where "v1 = v\<lparr>lf_groups := gs, lf_rules := rs0\<rparr>" by (auto simp: new_group_def)
    then have "v' = v\<lparr>lf_groups := gs, lf_rules := (lf_rules v1)(cluster_group tenant v1 := rs)\<rparr>" using rs(1) by simp
    then show ?thesis by blast
  qed
qed

lemma run_wire_workers:
  fixes E :: "'w env"
  assumes law: "rule_laws E c V" "group_laws E c V" "port_laws E c (cf_vip_net cfg) V" and net: "cf_vip_net cfg \<noteq> ''''"
    and names: "cluster_sg_name tenant \<noteq> ''default''"
    and ok: "groups_ok (V (world s))" and fine: "rules_fine tenant svc cfg (V (world s))"
    and Q: "\<And>s'. \<exists>gs rs ps. V (world s') = (V (world s))\<lparr>lf_groups := gs, lf_rules := rs, lf_ports := ps\<rparr> \<Longrightarrow>
      groups_ok (V (world s')) \<Longrightarrow> rules_fine tenant svc cfg (V (world s')) \<Longrightarrow> wired_up tenant cfg ips (V (world s')) \<Longrightarrow>
      Q (Inr (worker_group tenant cfg (V (world s')))) s'"
  shows "wp (wire_workers E tenant cfg c ips) Q s"
proof (cases "cf_worker_sg cfg = ''''")
  case False
  have "\<exists>gs rs ps. V (world s) = (V (world s))\<lparr>lf_groups := gs, lf_rules := rs, lf_ports := ps\<rparr>"
    by (intro exI [of _ "lf_groups (V (world s))"] exI [of _ "lf_rules (V (world s))"] exI [of _ "lf_ports (V (world s))"]) simp
  from Q [OF this ok fine] False show ?thesis by (simp add: wire_workers_def wp_ret wired_up_def worker_group_def)
next
  case True
  have "wp (check m0 (ensure_cluster_security_group E c tenant) (\<lambda>sgid.
      check m1 (ensure_sg_attached E c sgid ips (cf_vip_net cfg)) (\<lambda>_.
      check m2 (detach_default_sg E c ips (cf_vip_net cfg)) (\<lambda>_. ret sgid)))) Q s" for m0 m1 m2 :: string
    unfolding wp_check [of m0]
  proof (rule run_ensure_group [OF law(1,2) ok])
    fix s1 :: "('w, event) st" assume g: "grouped tenant (V (world s)) (V (world s1))"
    note f = grouped_fine [OF g True ok fine]
    let ?i = "cluster_group tenant (V (world s1))"
    have "wp (check m1 (ensure_sg_attached E c ?i ips (cf_vip_net cfg)) (\<lambda>_.
       check m2 (detach_default_sg E c ips (cf_vip_net cfg)) (\<lambda>_. ret ?i))) Q s1"
    proof (rule run_wire_ports [OF law(3,2) net f(3)])
      fix d assume d: "find (\<lambda>g. sg_name g = ''default'') (lf_groups (V (world s1))) = Some d"
      from f(3) obtain g where g: "find (\<lambda>g. sg_name g = cluster_sg_name tenant) (lf_groups (V (world s1))) = Some g" "?i = sg_id g"
        by (auto simp: cluster_group_def split: option.splits)
      from d g(1) have "d \<in> set (lf_groups (V (world s1)))" "g \<in> set (lf_groups (V (world s1)))" "sg_name d \<noteq> sg_name g"
        using names by (auto simp: find_Some_iff)
      with f(1) g(2) show "sg_id d \<noteq> ?i" by (auto simp: groups_ok_def distinct_map inj_on_def)
    next
      fix s' :: "('w, event) st"
      assume w: "wired ?i (V (world s1)) (V (world s'))" and car: "list_all (carries ?i (lf_ports (V (world s')))) ips"
      from w obtain ps where ps: "V (world s') = (V (world s1))\<lparr>lf_ports := ps\<rparr>" by (auto simp: wired_def)
      from f(4) obtain gs rs where "V (world s1) = (V (world s))\<lparr>lf_groups := gs, lf_rules := rs\<rparr>" by auto
      then have same: "V (world s') = (V (world s))\<lparr>lf_groups := gs, lf_rules := rs, lf_ports := ps\<rparr>" by (simp add: ps)
      have "Q (Inr (worker_group tenant cfg (V (world s')))) s'"
      proof (rule Q)
        show "\<exists>gs rs ps. V (world s') = (V (world s))\<lparr>lf_groups := gs, lf_rules := rs, lf_ports := ps\<rparr>"
          using same by blast
      qed (use f car True in \<open>simp_all add: ps groups_ok_def rules_fine_def wired_up_def worker_group_def cluster_group_def\<close>)
      then show "Q (Inr ?i) s'" by (simp add: worker_group_def True ps cluster_group_def)
    qed
    then show "case Inr ?i of Inl e \<Rightarrow> Q (Inl (Wrap m0 e)) s1
      | Inr sgid \<Rightarrow> wp (check m1 (ensure_sg_attached E c sgid ips (cf_vip_net cfg)) (\<lambda>_.
          check m2 (detach_default_sg E c ips (cf_vip_net cfg)) (\<lambda>_. ret sgid))) Q s1" by simp
  qed
  with True show ?thesis by (simp only: wire_workers_def simp_thms if_False)
qed

end
