(* ===== verification/Passes.thy ===== *)
theory Passes
  imports Wiring
begin

text \<open>
  Repeated passes of a reconciler with Octavia at work in between, and the rules of the larger
  steps of a pass, under the laws: the balancer, its floating IP, the NodePort rules and the
  Service's status.
\<close>

section \<open>Passes\<close>

text \<open>
  The requests a Service gets: each one a run to its end, with whatever outcome, and Octavia
  works on before the next.
\<close>

fun passes :: "nat \<Rightarrow> ('w \<Rightarrow> 'w) \<Rightarrow> ('w, 'a) lbc \<Rightarrow> ('w, unit) lbc" where
  "passes 0 tick m = ret ()"
| "passes (Suc n) tick m = attempt m (\<lambda>_. bind (draw (\<lambda>w. ((), tick w))) (\<lambda>_. passes n tick m))"

text \<open>
  The rule of a variant: an invariant that every pass keeps, a number that every pass brings
  down until the goal is reached, and a goal that every pass keeps.
\<close>

lemma passes_reach:
  fixes f :: "'x \<Rightarrow> nat" and m :: "('w, 'a) lbc"
  assumes step: "\<And>s. J (V (world s)) \<Longrightarrow>
      wp m (\<lambda>_ s'. J (V (tick (world s'))) \<and> (U (V (tick (world s'))) \<or> f (V (tick (world s'))) < f (V (world s)))) s"
    and stay: "\<And>s. J (V (world s)) \<Longrightarrow> U (V (world s)) \<Longrightarrow> wp m (\<lambda>_ s'. U (V (tick (world s')))) s"
    and start: "J (V (world s))" "U (V (world s)) \<or> f (V (world s)) < n"
  shows "wp (passes n tick m) (\<lambda>_ s'. J (V (world s')) \<and> U (V (world s'))) s"
  using start
proof (induction n arbitrary: s)
  case 0
  then show ?case by (simp add: wp_ret)
next
  case (Suc n)
  have next_pass: "wp (bind (draw (\<lambda>w. ((), tick w))) (\<lambda>_. passes n tick m)) (\<lambda>_ s'. J (V (world s')) \<and> U (V (world s'))) s'"
    if "J (V (tick (world s')))" "U (V (tick (world s'))) \<or> f (V (tick (world s'))) < n" for s'
    using Suc.IH [of "s'\<lparr>world := tick (world s')\<rparr>"] that by (simp add: wp_bind wp_draw)
  have "wp m (\<lambda>_ s'. J (V (tick (world s'))) \<and> (U (V (tick (world s'))) \<or> f (V (tick (world s'))) < n)) s"
  proof (cases "U (V (world s))")
    case True
    have "wp m (\<lambda>_ s'. (J (V (tick (world s'))) \<and> (U (V (tick (world s'))) \<or> f (V (tick (world s'))) < f (V (world s)))) \<and>
        U (V (tick (world s')))) s"
      using step [OF Suc.prems(1)] stay [OF Suc.prems(1) True] by (auto simp: wp_def split: prod.splits)
    then show ?thesis by (rule wp_mono) auto
  next
    case False
    with Suc.prems have "f (V (world s)) \<le> n" by simp
    then show ?thesis by (intro wp_mono [OF step [OF Suc.prems(1)]]) auto
  qed
  then show ?case
    unfolding passes.simps wp_attempt by (rule wp_mono) (use next_pass in blast)
qed

section \<open>Chaining runs that answer a value\<close>

lemma run_check:
  assumes "\<And>P. (\<And>x s'. A x s' \<Longrightarrow> P (Inr x) s') \<Longrightarrow> wp m P s" and "\<And>x s'. A x s' \<Longrightarrow> wp (f x) Q s'"
  shows "wp (check msg m f) Q s"
  unfolding wp_check by (rule assms(1)) (simp add: assms(2))

lemma run_bind:
  assumes "\<And>P. (\<And>x s'. A x s' \<Longrightarrow> P (Inr x) s') \<Longrightarrow> wp m P s" and "\<And>x s'. A x s' \<Longrightarrow> wp (f x) Q s'"
  shows "wp (bind m f) Q s"
  unfolding wp_bind by (rule assms(1)) (simp add: assms(2))

lemma steady_check:
  assumes "steady V x m y" "life.more v = x" "V (world s) = v" "\<And>s'. V (world s') = v \<Longrightarrow> wp (f y) Q s'"
  shows "wp (check msg m f) Q s"
  by (rule run_check [where A = "\<lambda>z s'. z = y \<and> V (world s') = v"]) (auto intro: run_steady [OF assms(1)] simp: assms)

section \<open>All the laws of one Service\<close>

definition cloud_laws ::
  "'w env \<Rightarrow> clients \<Rightarrow> string \<Rightarrow> string \<Rightarrow> string \<Rightarrow> string \<Rightarrow> nat \<Rightarrow> ('w \<Rightarrow> 'w) \<Rightarrow> ('w \<Rightarrow> 'x life_scheme) \<Rightarrow> bool" where
  "cloud_laws E c tenant ns name net K tick V \<longleftrightarrow> (let n = service_lb_name tenant ns name in
     tenant_laws E tenant ns name V \<and> octavia_reads E c n V \<and> octavia_lb_laws E c n K V \<and> octavia_changes E c K V \<and>
     octavia_works tick V \<and> fip_laws E c V \<and> rule_laws E c V \<and> group_laws E c V \<and> port_laws E c net V)"

lemma cloud_lawsD:
  assumes "cloud_laws E c tenant ns name net K tick V"
  shows "tenant_laws E tenant ns name V" "octavia_reads E c (service_lb_name tenant ns name) V"
    "octavia_lb_laws E c (service_lb_name tenant ns name) K V" "octavia_changes E c K V" "octavia_works tick V"
    "fip_laws E c V" "rule_laws E c V" "group_laws E c V" "port_laws E c net V"
  using assms by (simp_all add: cloud_laws_def Let_def)

section \<open>The steps of a pass\<close>

lemma run_ensure_lb:
  fixes E :: "'w env"
  assumes laws: "octavia_reads E c n V" "octavia_lb_laws E c n K V" and n: "n = service_lb_name tenant (s_ns svc) (s_name svc)"
    and net: "net \<noteq> ''''" and sound: "lb_sound (V (world s))"
    and found: "\<And>b s'. lf_lb (V (world s)) = Some b \<Longrightarrow> V (world s') = V (world s) \<Longrightarrow>
       Q (Inr (b, lb_status b \<noteq> status_active)) s'"
    and created: "\<And>b k s'. lf_lb (V (world s)) = None \<Longrightarrow> lb_vip b \<noteq> '''' \<Longrightarrow> lb_vip_port b \<noteq> '''' \<Longrightarrow> lb_name b = n \<Longrightarrow>
       lf_fips (V (world s)) (lb_vip_port b) = [] \<Longrightarrow> k \<le> K \<Longrightarrow> settling k (lb_status b) \<Longrightarrow>
       V (world s') = (V (world s))\<lparr>lf_lb := Some b, lf_busy := k, lf_listeners := (lf_listeners (V (world s)))(lb_id b := []),
             lf_pools := (lf_pools (V (world s)))(lb_id b := [])\<rparr> \<Longrightarrow> Q (Inr (b, True)) s'"
  shows "wp (ensure_lb E c tenant svc net prov) Q s"
proof -
  let ?v = "V (world s)"
  let ?o = "\<lparr>lo_name = n, lo_desc = ''Managed by Cozystack loadbalancer-controller; tenant='' @ tenant @
     '' ns='' @ s_ns svc @ '' svc='' @ s_name svc, lo_provider = (if prov = '''' then ''ovn'' else prov), lo_network = net\<rparr>"
  have create: "wp (check m (create_lb E c ?o) (\<lambda>b. ret (b, True))) Q s1"
    if none: "lf_lb ?v = None" and s1: "V (world s1) = ?v" for m :: string and s1
  proof -
    have "lo_name ?o = n \<and> lf_lb (V (world s1)) = None" using none s1 by simp
    from laws(2) [unfolded octavia_lb_laws_def, THEN conjunct1, rule_format, OF this]
    obtain b k w' where b: "o_create_lb (octavia E) c ?o (world s1) = (Inr b, w')" "lb_name b = n" "lb_vip b \<noteq> ''''"
      "lb_vip_port b \<noteq> ''''" "lf_fips (V (world s1)) (lb_vip_port b) = []" "k \<le> K" "settling k (lb_status b)"
      "V w' = (V (world s1))\<lparr>lf_lb := Some b, lf_busy := k, lf_listeners := (lf_listeners (V (world s1)))(lb_id b := []),
             lf_pools := (lf_pools (V (world s1)))(lb_id b := [])\<rparr>" by blast
    from created [OF none b(3,4,2) b(5) [unfolded s1] b(6,7)] b(8) s1 show ?thesis
      by (simp only: wp_check wp_call_val wp_ret b(1) prod.case sum.case st.select_convs)
  qed
  have look: "wp (case lf_lb ?v of
      Some b \<Rightarrow> if lb_status b = status_active then ret (b, False)
        else if lb_status b = status_error then throw (e b) else ret (b, True)
    | None \<Rightarrow> check m (create_lb E c ?o) (\<lambda>b. ret (b, True))) Q s1"
    if s1: "V (world s1) = ?v" for m :: string and e s1
  proof (cases "lf_lb ?v")
    case None
    with create [OF None s1] show ?thesis by simp
  next
    case (Some b)
    with sound have "lb_status b \<noteq> status_error" by (simp add: lb_sound_def)
    with found [OF Some s1] Some show ?thesis by (auto simp: wp_ret)
  qed
  show ?thesis
    unfolding ensure_lb_def Let_def n [symmetric] using net look
    by (simp only: if_False wp_check [of "''looking up existing LB''"]) (rule run_find_lb [OF laws(1)], simp only: sum.case)
qed

text \<open>A pass over a balancer that is active: done, or one change further and busy again.\<close>

lemma run_sync:
  fixes E :: "'w env"
  assumes laws: "octavia_reads E c n V" "octavia_changes E c K V"
    and lb: "lf_lb (V (world s)) = Some b" "lb_status b = status_active" and ok: "view_ok (bal (V (world s)) (lb_id b))"
    and dist: "distinct (map listener_name (s_ports svc))" and sup: "desired_ports (s_ports svc) = Inr ports"
    and settled: "\<And>s'. V (world s') = V (world s) \<Longrightarrow> cost (bal (V (world s)) (lb_id b)) ips subnet (s_ports svc) = 0 \<Longrightarrow>
       Q (Inr False) s'"
    and closer: "\<And>s'. lb_changed K (V (world s)) (V (world s')) \<Longrightarrow> view_ok (bal (V (world s')) (lb_id b)) \<Longrightarrow>
       cost (bal (V (world s')) (lb_id b)) ips subnet (s_ports svc) < cost (bal (V (world s)) (lb_id b)) ips subnet (s_ports svc) \<Longrightarrow>
       Q (Inr True) s'"
  shows "wp (sync_listeners_and_members E c b svc ips subnet) Q s"
proof (rule wp_mono [OF wp_pass [OF bal_view [OF laws] ok refl refl _ lb(2) dist]])
  show "accepts (V (world s)) (lb_id b)" using lb by (simp add: accepts_def)
next
  fix r and s' :: "('w, event) st"
  assume "pass_result E c (lb_id b) (\<lambda>w. bal (V w) (lb_id b)) V (\<lambda>v. accepts v (lb_id b)) (lb_changed K) svc ips subnet
    (bal (V (world s)) (lb_id b)) (V (world s)) r s'"
  then show "Q r s'"
    using settled closer sup bal_ready [OF laws] by (auto simp: pass_result_def split: sum.splits bool.splits)
qed

text \<open>The address of the Service: that of the balancer, or of the floating IP of its port.\<close>

definition addressed :: "string \<Rightarrow> lb \<Rightarrow> 'x life_scheme \<Rightarrow> string \<Rightarrow> bool" where
  "addressed fnet b v a \<longleftrightarrow>
     (if fnet = '''' then a = lb_vip b else \<exists>f fs. lf_fips v (lb_vip_port b) = f # fs \<and> a = fp_addr f)"

definition addresses_ok :: "'x life_scheme \<Rightarrow> bool" where
  "addresses_ok v \<longleftrightarrow> (\<forall>port. list_all (\<lambda>f. fp_addr f \<noteq> '''') (lf_fips v port))"

text \<open>
  The floating IPs of a port are this port's alone, and carry the tag they were made with: how
  the sweeper knows whose they are.
\<close>

definition tagged_at :: "string \<Rightarrow> string \<Rightarrow> 'x life_scheme \<Rightarrow> bool" where
  "tagged_at port tag v \<longleftrightarrow> (\<forall>f\<in>set (lf_fips v port). \<forall>p. \<forall>g\<in>set (lf_fips v p).
     fp_id g = fp_id f \<longrightarrow> p = port \<and> fp_desc g = tag)"

lemma tagged_at_new:
  assumes "fp_desc f = tag" "\<forall>p. fp_id f \<notin> fp_id ` set (lf_fips v p)"
  shows "tagged_at port tag (v\<lparr>lf_fips := (lf_fips v)(port := [f])\<rparr>)"
  using assms by (force simp: tagged_at_def image_iff split: if_splits)

lemma find_hd: "find (\<lambda>_. True) xs = (case xs of [] \<Rightarrow> None | x # _ \<Rightarrow> Some x)"
  by (cases xs) auto

lemma run_ensure_fip:
  fixes E :: "'w env"
  assumes law: "fip_laws E c V" and p: "lb_vip_port b \<noteq> ''''" "net \<noteq> ''''" and ok: "addresses_ok (V (world s))"
    and tag: "tagged_at (lb_vip_port b) desc (V (world s))"
    and Q: "\<And>a s'. \<exists>fs. V (world s') = (V (world s))\<lparr>lf_fips := fs\<rparr> \<Longrightarrow> addresses_ok (V (world s')) \<Longrightarrow>
       tagged_at (lb_vip_port b) desc (V (world s')) \<Longrightarrow> addressed net b (V (world s')) a \<Longrightarrow> a \<noteq> '''' \<Longrightarrow> Q (Inr a) s'"
  shows "wp (ensure_floating_ip E c (lb_vip_port b) net sub desc) Q s"
proof -
  let ?p = "lb_vip_port b" let ?v = "V (world s)"
  let ?o = "\<lparr>fo_desc = desc, fo_network = net, fo_subnet = sub, fo_port = ?p\<rparr>"
  have create: "wp (check m (create_fip E c ?o) (\<lambda>f. ret (fp_addr f))) Q s1"
    if none: "lf_fips ?v ?p = []" and s1: "V (world s1) = ?v" for m :: string and s1
  proof -
    have "lf_fips (V (world s1)) (fo_port ?o) = []" using none s1 by simp
    from law [unfolded fip_laws_def, THEN conjunct2, THEN conjunct1, rule_format, OF this]
    obtain f w' where f: "n_create_fip (neutron E) c ?o (world s1) = (Inr f, w')" "fp_addr f \<noteq> ''''"
      "V w' = (V (world s1))\<lparr>lf_fips := (lf_fips (V (world s1)))(?p := [f])\<rparr>" "fp_desc f = desc"
      "\<forall>p. fp_id f \<notin> fp_id ` set (lf_fips (V (world s1)) p)" by auto
    have "Q (Inr (fp_addr f)) s'" if w: "world s' = w'" for s'
    proof (rule Q)
      show "\<exists>fs. V (world s') = ?v\<lparr>lf_fips := fs\<rparr>" using f(3) s1 w by auto
      show "addresses_ok (V (world s'))" "addressed net b (V (world s')) (fp_addr f)"
        using f(2,3) s1 w ok p by (simp_all add: addresses_ok_def addressed_def)
      show "tagged_at ?p desc (V (world s'))" unfolding w f(3) by (rule tagged_at_new [OF f(4,5)])
    qed (rule f(2))
    then show ?thesis by (simp only: wp_check wp_call_val wp_ret f(1) prod.case sum.case st.select_convs)
  qed
  have look: "wp (case find (\<lambda>_. True) (lf_fips ?v ?p) of Some f \<Rightarrow> ret (fp_addr f)
     | None \<Rightarrow> check m (create_fip E c ?o) (\<lambda>f. ret (fp_addr f))) Q s1"
    if s1: "V (world s1) = ?v" for m :: string and s1
  proof (cases "lf_fips ?v ?p")
    case Nil
    with create [OF Nil s1] show ?thesis by simp
  next
    case (Cons f fs)
    have "Q (Inr (fp_addr f)) s1"
    proof (rule Q)
      show "\<exists>fs. V (world s1) = ?v\<lparr>lf_fips := fs\<rparr>" using s1 by (intro exI [of _ "lf_fips ?v"]) simp
      show "addresses_ok (V (world s1))" "addressed net b (V (world s1)) (fp_addr f)" using ok s1 Cons p by (simp_all add: addressed_def)
      show "fp_addr f \<noteq> ''''" using ok [unfolded addresses_ok_def, rule_format, of ?p] Cons by simp
      show "tagged_at ?p desc (V (world s1))" using tag s1 by simp
    qed
    with Cons show ?thesis by (simp add: wp_ret)
  qed
  show ?thesis
    unfolding ensure_floating_ip_def using p look
    by (simp only: if_False wp_check [of "''looking up existing FIP for VIP port''"]) (rule run_find_fip [OF law], simp only: sum.case)
qed

lemma run_publish:
  fixes E :: "'w env"
  assumes law: "fip_laws E c V" and disco: "cf_fip_net cfg = '''' \<Longrightarrow> steady V x (find_first_external_network E c) net"
    and fnet: "fnet = (if cf_fip_net cfg = '''' then net else cf_fip_net cfg)" and x: "life.more (V (world s)) = x"
    and b: "lb_vip b \<noteq> ''''" "lb_vip_port b \<noteq> ''''" and ok: "addresses_ok (V (world s))"
    and tag: "tagged_at (lb_vip_port b) (service_lb_name tenant (s_ns svc) (s_name svc)) (V (world s))"
    and Q: "\<And>a s'. \<exists>fs. V (world s') = (V (world s))\<lparr>lf_fips := fs\<rparr> \<Longrightarrow> addresses_ok (V (world s')) \<Longrightarrow>
       tagged_at (lb_vip_port b) (service_lb_name tenant (s_ns svc) (s_name svc)) (V (world s')) \<Longrightarrow> addressed fnet b (V (world s')) a \<Longrightarrow> a \<noteq> '''' \<Longrightarrow> Q (Inr a) s'"
  shows "wp (publish_address E tenant svc cfg c b) Q s"
proof -
  have same: "\<exists>fs. V (world s1) = v\<lparr>lf_fips := fs\<rparr>" if "V (world s1) = v" for v and s1 :: "('w, event) st"
    using that by (intro exI [of _ "lf_fips v"]) simp
  let ?tag = "service_lb_name tenant (s_ns svc) (s_name svc)"
  have rest: "wp (if fnet = '''' then ret (lb_vip b) else check m (ensure_floating_ip E c (lb_vip_port b) fnet sub ?tag) ret) Q s1"
    if s1: "V (world s1) = V (world s)" for m sub :: string and s1
  proof (cases "fnet = ''''")
    case True
    then show ?thesis using Q [OF same [OF s1], of "lb_vip b"] ok tag s1 b by (simp add: wp_ret addressed_def)
  next
    case False
    have "wp (ensure_floating_ip E c (lb_vip_port b) fnet sub ?tag)
       (\<lambda>r s'. case r of Inl e \<Rightarrow> Q (Inl (Wrap m e)) s' | Inr x \<Rightarrow> wp (ret x) Q s') s1"
      by (rule run_ensure_fip [OF law b(2) False]) (use ok tag s1 Q in \<open>simp_all add: wp_ret\<close>)
    with False show ?thesis by (simp only: wp_check if_False)
  qed
  show ?thesis
  proof (cases "cf_fip_net cfg = ''''")
    case True
    show ?thesis
      unfolding publish_address_def if_P [OF True] wp_bind wp_check [of "''auto-discovering floating network''"]
      by (rule run_steady [OF disco [OF True] x]) (simp only: sum.case wp_ret, rule rest [unfolded fnet if_P [OF True]])
  next
    case False
    then show ?thesis
      unfolding publish_address_def using rest [OF refl] fnet by (simp add: wp_bind wp_ret)
  qed
qed

text \<open>The rules of one Service in one group, ensured and deleted.\<close>

lemma run_ensure_rules:
  fixes E :: "'w env"
  assumes law: "rule_laws E c V" "octavia_reads E c' n V" and g: "g \<noteq> ''''" "cidrs \<noteq> []"
    and ok: "group_ok tenant svc (lf_rules (V (world s)) g)" "\<not> rules_clash tenant svc cidrs (lf_rules (V (world s)) g)"
    and Q: "\<And>rs s'. V (world s') = (V (world s))\<lparr>lf_rules := rs\<rparr> \<Longrightarrow> group_ok tenant svc (rs g) \<Longrightarrow>
       \<not> rules_clash tenant svc cidrs (rs g) \<Longrightarrow> owned_keys tenant svc (rs g) = set (desired_keys svc cidrs) \<Longrightarrow> Q (Inr ()) s'"
  shows "wp (ensure_node_port_rules E c g tenant svc cidrs) Q s"
proof -
  let ?v = "V (world s)"
  have start: "\<exists>rs. V (world s) = ?v\<lparr>lf_rules := rs\<rparr>" by (intro exI [of _ "lf_rules ?v"]) simp
  show ?thesis
  proof (rule wp_mono [OF wp_maintains [where Q = "\<lambda>(r :: err + unit) s'. case r of
        Inr _ \<Rightarrow> rules_settled tenant svc cidrs (lf_rules ?v g) (lf_rules (V (world s')) g) \<and> group_ok tenant svc (lf_rules (V (world s')) g)
      | Inl e \<Rightarrow> g = '''' \<or> cidrs = [] \<or> rules_clash tenant svc cidrs (lf_rules ?v g) \<or>
          \<not> rules_reliable E c g (\<lambda>w. lf_rules (V w) g)", OF rules_only(1) [OF law, of ?v] start]])
    show "wp (ensure_node_port_rules E c g tenant svc cidrs) (\<lambda>r s'. case r of
        Inr _ \<Rightarrow> rules_settled tenant svc cidrs (lf_rules ?v g) (lf_rules (V (world s')) g) \<and> group_ok tenant svc (lf_rules (V (world s')) g)
      | Inl e \<Rightarrow> g = '''' \<or> cidrs = [] \<or> rules_clash tenant svc cidrs (lf_rules ?v g) \<or>
          \<not> rules_reliable E c g (\<lambda>w. lf_rules (V w) g)) s"
      by (rule ensure_rules_settle [OF group_rules(1) [OF law], of tenant svc s g]) (rule ok(1))
  next
    fix r :: "err + unit" and s' :: "('w, event) st"
    assume post: "(case r of
        Inr _ \<Rightarrow> rules_settled tenant svc cidrs (lf_rules ?v g) (lf_rules (V (world s')) g) \<and> group_ok tenant svc (lf_rules (V (world s')) g)
      | Inl e \<Rightarrow> g = '''' \<or> cidrs = [] \<or> rules_clash tenant svc cidrs (lf_rules ?v g) \<or>
          \<not> rules_reliable E c g (\<lambda>w. lf_rules (V w) g)) \<and> (\<exists>rs. V (world s') = ?v\<lparr>lf_rules := rs\<rparr>)"
    then obtain rs where rs: "V (world s') = ?v\<lparr>lf_rules := rs\<rparr>" by blast
    from post g ok(2) group_rules(2) [OF law, of g] obtain u where r: "r = Inr u" by (cases r) auto
    with post rs have settled: "rules_settled tenant svc cidrs (lf_rules ?v g) (rs g)" "group_ok tenant svc (rs g)" by simp_all
    have "rules_clash tenant svc cidrs (rs g) = rules_clash tenant svc cidrs (lf_rules ?v g)"
      using settled(1) unfolding rules_settled_def rules_clash_def list_ex_iff by blast
    with settled ok(2) Q [OF rs] r show "Q r s'" by (simp add: rules_settled_def)
  qed
qed

lemma run_delete_rules:
  fixes E :: "'w env"
  assumes law: "rule_laws E c V" "octavia_reads E c' n V"
    and ok: "group_ok tenant svc (lf_rules (V (world s)) g)" and g: "g \<noteq> ''''"
    and Q: "\<And>rs s'. V (world s') = (V (world s))\<lparr>lf_rules := rs\<rparr> \<Longrightarrow>
       rs g = filter (\<lambda>r. \<not> rule_owned tenant svc r) (lf_rules (V (world s)) g) \<Longrightarrow> Q (Inr ()) s'"
  shows "wp (delete_node_port_rules E c g tenant svc) Q s"
proof -
  let ?v = "V (world s)"
  have start: "\<exists>rs. V (world s) = ?v\<lparr>lf_rules := rs\<rparr>" by (intro exI [of _ "lf_rules ?v"]) simp
  show ?thesis
  proof (rule wp_mono [OF wp_maintains [OF rules_only(2) [OF law, of ?v] start
        delete_rules_settle [OF group_rules(1) [OF law], of tenant svc s g]]])
    fix r :: "err + unit" and s' :: "('w, event) st"
    assume post: "(case r of
        Inr _ \<Rightarrow> lf_rules (V (world s')) g = (if g = '''' then lf_rules ?v g else filter (\<lambda>r. \<not> rule_owned tenant svc r) (lf_rules ?v g))
      | Inl e \<Rightarrow> \<not> rules_reliable E c g (\<lambda>w. lf_rules (V w) g)) \<and> (\<exists>rs. V (world s') = ?v\<lparr>lf_rules := rs\<rparr>)"
    then obtain rs where rs: "V (world s') = ?v\<lparr>lf_rules := rs\<rparr>" by blast
    from post group_rules(2) [OF law, of g] obtain u where "r = Inr u" by (cases r) auto
    with post g rs Q [OF rs] show "Q r s'" by simp
  qed (rule ok)
qed

lemma run_patch_status:
  assumes law: "tenant_laws E tenant (s_ns svc) (s_name svc) V" and svc: "lf_svc (V (world s)) = Some svc" and a: "a \<noteq> ''''"
    and Q: "\<And>is s'. V (world s') = (V (world s))\<lparr>lf_svc := Some (svc\<lparr>s_ingress := is\<rparr>)\<rparr> \<Longrightarrow> a \<in> set is \<Longrightarrow> Q (Inr ()) s'"
  shows "wp (patch_status E tenant svc a) Q s"
proof (cases "a \<in> set (s_ingress svc)")
  case True
  have "Q (Inr ()) s" by (rule Q [OF _ True]) (simp add: svc [symmetric])
  with True a show ?thesis by (simp add: patch_status_def list_ex_iff wp_ret)
next
  case False
  have "wp (check m1 (get_svc E tenant (s_ns svc) (s_name svc)) (\<lambda>fresh.
      check m2 (patch_ingress E tenant (s_ns svc) (s_name svc) [a]) ret)) Q s" for m1 m2 :: string
    unfolding wp_check
    by (rule run_get_svc [OF law svc], simp only: sum.case, rule run_patch_ingress [OF law])
       (use svc Q [of _ "[a]"] in \<open>simp_all add: wp_ret\<close>)
  with False a show ?thesis by (simp add: patch_status_def list_ex_iff)
qed

end
