(* ===== verification/Provision.thy ===== *)
theory Provision
  imports Passes
begin

text \<open>
  A Service that wants a balancer gets one: under the laws of the clusters and of OpenStack,
  repeated passes of the reconciler bring every part of it in place. The variant counts the
  passes that are left, rounds in which Octavia is busy included.
\<close>

section \<open>What is asked for, and what is promised\<close>

text \<open>The tenant's configuration, its clients and its networks stand still.\<close>

definition config_stands ::
  "'w env \<Rightarrow> ksc_lib \<Rightarrow> string \<Rightarrow> lb_config \<Rightarrow> clients \<Rightarrow> 'x \<Rightarrow> ('w \<Rightarrow> 'x life_scheme) \<Rightarrow> bool" where
  "config_stands E L tenant cfg c x V \<longleftrightarrow>
     steady V x (resolve E L tenant) cfg \<and> steady V x (is_helm_release_deleting E tenant) False \<and>
     steady V x (new_clients E (cf_creds cfg)) c"

definition networks_stand ::
  "'w env \<Rightarrow> lb_config \<Rightarrow> clients \<Rightarrow> string \<Rightarrow> string list \<Rightarrow> string \<Rightarrow> 'x \<Rightarrow> ('w \<Rightarrow> 'x life_scheme) \<Rightarrow> bool" where
  "networks_stand E cfg c subnet ips enet x V \<longleftrightarrow>
     steady V x (resolve_member_subnet E c (cf_vip_net cfg)) subnet \<and>
     steady V x (list_worker_ips E c (cf_vip_net cfg)) ips \<and>
     (cf_fip_net cfg = '''' \<longrightarrow> steady V x (find_first_external_network E c) enet)"

definition wants_lb :: "string \<Rightarrow> string \<Rightarrow> lb_config \<Rightarrow> service \<Rightarrow> bool" where
  "wants_lb ns name cfg svc \<longleftrightarrow>
     s_ns svc = ns \<and> s_name svc = name \<and> s_type svc = ''LoadBalancer'' \<and> \<not> s_deleting svc \<and>
     desired_ports (s_ports svc) = Inr (s_ports svc) \<and> distinct (map listener_name (s_ports svc)) \<and>
     cf_enabled cfg \<and> cf_vip_net cfg \<noteq> '''' \<and> cf_cidrs cfg \<noteq> []"

text \<open>
  What every pass keeps: the Service but for its finalizers and its ingress, a balancer that is
  intact, security groups that hold nothing in the way of the Service's rules, and floating IPs
  that carry its tag.
\<close>

definition is_service :: "service \<Rightarrow> 'x life_scheme \<Rightarrow> bool" where
  "is_service svc v \<longleftrightarrow> (\<exists>fs ings. lf_svc v = Some (svc\<lparr>s_finalizers := fs, s_ingress := ings\<rparr>))"

definition intact :: "'x life_scheme \<Rightarrow> bool" where
  "intact v \<longleftrightarrow> lb_sound v \<and> addresses_ok v \<and> groups_ok v \<and>
     (\<forall>b. lf_lb v = Some b \<longrightarrow> lb_vip b \<noteq> '''' \<and> lb_vip_port b \<noteq> '''' \<and> view_ok (bal v (lb_id b)))"

definition svc_tag :: "string \<Rightarrow> service \<Rightarrow> string" where
  "svc_tag tenant svc = service_lb_name tenant (s_ns svc) (s_name svc)"

definition tagged :: "string \<Rightarrow> 'x life_scheme \<Rightarrow> bool" where
  "tagged tag v \<longleftrightarrow> (\<forall>b. lf_lb v = Some b \<longrightarrow> tagged_at (lb_vip_port b) tag v)"

definition tended :: "string \<Rightarrow> lb_config \<Rightarrow> service \<Rightarrow> 'x \<Rightarrow> 'x life_scheme \<Rightarrow> bool" where
  "tended tenant cfg svc x v \<longleftrightarrow> life.more v = x \<and> is_service svc v \<and> intact v \<and> rules_fine tenant svc cfg v \<and>
     tagged (svc_tag tenant svc) v"

text \<open>The Service is served: everything it asks for is there, and its address is published.\<close>

definition public_net :: "lb_config \<Rightarrow> string \<Rightarrow> string" where
  "public_net cfg enet = (if cf_fip_net cfg = '''' then enet else cf_fip_net cfg)"

definition opened :: "string \<Rightarrow> lb_config \<Rightarrow> service \<Rightarrow> string list \<Rightarrow> 'x life_scheme \<Rightarrow> bool" where
  "opened tenant cfg svc ips v \<longleftrightarrow> wired_up tenant cfg ips v \<and>
     owned_keys tenant svc (lf_rules v (worker_group tenant cfg v)) = set (desired_keys svc (cf_cidrs cfg))"

definition served ::
  "string \<Rightarrow> lb_config \<Rightarrow> service \<Rightarrow> string \<Rightarrow> string list \<Rightarrow> string \<Rightarrow> 'x life_scheme \<Rightarrow> bool" where
  "served tenant cfg svc subnet ips enet v \<longleftrightarrow>
     (\<exists>b cur a. lf_lb v = Some b \<and> lb_status b = status_active \<and>
        balancer_in_place (bal v (lb_id b)) (s_ports svc) ips subnet \<and> opened tenant cfg svc ips v \<and>
        lf_svc v = Some cur \<and> finalizer_name \<in> set (s_finalizers cur) \<and>
        addressed (public_net cfg enet) b v a \<and> a \<noteq> '''' \<and> a \<in> set (s_ingress cur))"

text \<open>
  The passes left: one for the finalizer, one to create the balancer, one for each change of
  the balancer, and those in which Octavia is busy, at most \<open>K\<close> after each change.
\<close>

definition build_cost :: "nat \<Rightarrow> service \<Rightarrow> nat" where
  "build_cost K svc = (3 * length (s_ports svc) + 1) * (K + 1)"

definition lb_budget :: "nat \<Rightarrow> service \<Rightarrow> string list \<Rightarrow> string \<Rightarrow> 'x life_scheme \<Rightarrow> nat" where
  "lb_budget K svc ips subnet v =
     (case lf_lb v of
        None \<Rightarrow> build_cost K svc
      | Some b \<Rightarrow> lf_busy v +
          (if lb_status b = status_pending_delete then build_cost K svc
           else cost (bal v (lb_id b)) ips subnet (s_ports svc) * (K + 1)))"

definition claimed :: "'x life_scheme \<Rightarrow> bool" where
  "claimed v \<longleftrightarrow> (\<exists>cur. lf_svc v = Some cur \<and> finalizer_name \<in> set (s_finalizers cur))"

definition budget :: "nat \<Rightarrow> service \<Rightarrow> string list \<Rightarrow> string \<Rightarrow> 'x life_scheme \<Rightarrow> nat" where
  "budget K svc ips subnet v = lb_budget K svc ips subnet v + (if claimed v then 0 else 1)"

definition complete :: "service \<Rightarrow> string list \<Rightarrow> string \<Rightarrow> 'x life_scheme \<Rightarrow> bool" where
  "complete svc ips subnet v \<longleftrightarrow> claimed v \<and> (\<exists>b. lf_lb v = Some b \<and> lb_status b = status_active \<and>
     cost (bal v (lb_id b)) ips subnet (s_ports svc) = 0)"

section \<open>Finalizers and ingress do not matter to the rules\<close>

lemma svc_frame [simp]:
  "rule_owned tenant (svc\<lparr>s_finalizers := fs\<rparr>) = rule_owned tenant svc"
  "rule_owned tenant (svc\<lparr>s_ingress := ings\<rparr>) = rule_owned tenant svc"
  "desired_keys (svc\<lparr>s_finalizers := fs\<rparr>) = desired_keys svc"
  "desired_keys (svc\<lparr>s_ingress := ings\<rparr>) = desired_keys svc"
  "desired_rule tenant (svc\<lparr>s_finalizers := fs\<rparr>) = desired_rule tenant svc"
  "desired_rule tenant (svc\<lparr>s_ingress := ings\<rparr>) = desired_rule tenant svc"
  by (simp_all add: fun_eq_iff rule_owned_def rule_description_prefix_def desired_keys_def desired_rule_def
      rule_description_def)

lemma same_service:
  assumes "cur = svc\<lparr>s_finalizers := fs, s_ingress := ings\<rparr>"
  shows "s_ns cur = s_ns svc" "s_name cur = s_name svc" "s_type cur = s_type svc" "s_deleting cur = s_deleting svc"
    "s_ports cur = s_ports svc" "rules_fine tenant cur cfg = rules_fine tenant svc cfg"
    "opened tenant cfg cur ips = opened tenant cfg svc ips" "wants_lb ns name cfg cur = wants_lb ns name cfg svc"
    "owned_keys tenant cur = owned_keys tenant svc" "group_ok tenant cur = group_ok tenant svc"
    "rules_clash tenant cur = rules_clash tenant svc" "desired_keys cur = desired_keys svc"
    "svc_tag tenant cur = svc_tag tenant svc"
  by (simp_all add: assms fun_eq_iff rules_fine_def opened_def wants_lb_def owned_keys_def group_ok_def rules_clash_def
      svc_tag_def)

lemma view_cong:
  "lf_svc v' = lf_svc v \<Longrightarrow> is_service svc v' = is_service svc v"
  "lf_svc v' = lf_svc v \<Longrightarrow> claimed v' = claimed v"
  "lf_groups v' = lf_groups v \<Longrightarrow> worker_group tenant cfg v' = worker_group tenant cfg v"
  "lf_groups v' = lf_groups v \<Longrightarrow> lf_rules v' = lf_rules v \<Longrightarrow> rules_fine tenant svc cfg v' = rules_fine tenant svc cfg v"
  "lf_listeners v' = lf_listeners v \<Longrightarrow> lf_pools v' = lf_pools v \<Longrightarrow> lf_members v' = lf_members v \<Longrightarrow> bal v' i = bal v i"
  by (simp_all add: is_service_def claimed_def worker_group_def cluster_group_def rules_fine_def bal_def)

lemma tagged_keep:
  assumes "tagged tag v" "lf_fips v' = lf_fips v"
    and "\<And>b'. lf_lb v' = Some b' \<Longrightarrow> \<exists>b. lf_lb v = Some b \<and> lb_vip_port b' = lb_vip_port b"
  shows "tagged tag v'"
  using assms by (fastforce simp: tagged_def tagged_at_def)

lemma is_serviceI:
  "lf_svc v = Some (svc\<lparr>s_finalizers := fs\<rparr>) \<Longrightarrow> is_service svc v"
  "lf_svc v = Some (svc\<lparr>s_ingress := ings\<rparr>) \<Longrightarrow> is_service svc v"
  "lf_svc v = Some svc \<Longrightarrow> is_service svc v"
proof -
  have "svc\<lparr>s_finalizers := fs\<rparr> = svc\<lparr>s_finalizers := fs, s_ingress := s_ingress svc\<rparr>"
    "svc\<lparr>s_ingress := ings\<rparr> = svc\<lparr>s_finalizers := s_finalizers svc, s_ingress := ings\<rparr>"
    "svc = svc\<lparr>s_finalizers := s_finalizers svc, s_ingress := s_ingress svc\<rparr>" by simp_all
  then show "lf_svc v = Some (svc\<lparr>s_finalizers := fs\<rparr>) \<Longrightarrow> is_service svc v"
    "lf_svc v = Some (svc\<lparr>s_ingress := ings\<rparr>) \<Longrightarrow> is_service svc v"
    "lf_svc v = Some svc \<Longrightarrow> is_service svc v"
    unfolding is_service_def by metis+
qed

section \<open>Octavia at work between passes\<close>

lemma tick_effect:
  assumes "octavia_works tick V" "lb_sound (V w)"
  obtains r k where "V (tick w) = (V w)\<lparr>lf_lb := r, lf_busy := k\<rparr>"
    "if lf_busy (V w) = 0 then k = 0 \<and> r = lf_lb (V w) else k < lf_busy (V w)"
    "case lf_lb (V w) of
        None \<Rightarrow> r = None
      | Some b \<Rightarrow>
          if lb_status b = status_pending_delete then r = None \<or> r = Some b \<and> 0 < k
          else \<exists>st. r = Some (b\<lparr>lb_status := st\<rparr>) \<and> settling k st"
  using assms unfolding octavia_works_def by blast

lemma tick_whole:
  assumes tick: "octavia_works tick V" and w: "intact (V w)"
  shows "intact (V (tick w))" and "lf_busy (V w) = 0 \<Longrightarrow> V (tick w) = V w"
    and "\<exists>r k. V (tick w) = (V w)\<lparr>lf_lb := r, lf_busy := k\<rparr>" and "tagged tag (V w) \<Longrightarrow> tagged tag (V (tick w))"
proof -
  from w have s: "lb_sound (V w)" by (simp add: intact_def)
  from tick_effect [OF tick s] obtain r k where e: "V (tick w) = (V w)\<lparr>lf_lb := r, lf_busy := k\<rparr>"
    "if lf_busy (V w) = 0 then k = 0 \<and> r = lf_lb (V w) else k < lf_busy (V w)"
    "case lf_lb (V w) of
        None \<Rightarrow> r = None
      | Some b \<Rightarrow>
          if lb_status b = status_pending_delete then r = None \<or> r = Some b \<and> 0 < k
          else \<exists>st. r = Some (b\<lparr>lb_status := st\<rparr>) \<and> settling k st" .
  show "intact (V (tick w))"
    using w e(3) unfolding e(1)
    by (auto simp: intact_def lb_sound_def addresses_ok_def groups_ok_def bal_def settling_def split: option.splits if_splits)
  show "lf_busy (V w) = 0 \<Longrightarrow> V (tick w) = V w" using e(1,2) by simp
  show "\<exists>r k. V (tick w) = (V w)\<lparr>lf_lb := r, lf_busy := k\<rparr>" using e(1) by blast
  show "tagged tag (V w) \<Longrightarrow> tagged tag (V (tick w))"
    by (erule tagged_keep) (use e(1,3) in \<open>auto split: option.splits if_splits\<close>)
qed

lemma tick_tended:
  assumes tick: "octavia_works tick V" and t: "tended tenant cfg svc x (V w)"
  shows "tended tenant cfg svc x (V (tick w))"
proof -
  from t have w: "intact (V w)" by (simp add: tended_def)
  from tick_whole(3) [OF tick w] obtain r k where e: "V (tick w) = (V w)\<lparr>lf_lb := r, lf_busy := k\<rparr>" by blast
  then show ?thesis using t tick_whole(1,4) [OF tick w] view_cong(1,4) [of "V (tick w)" "V w"] by (simp add: tended_def)
qed

lemma tick_budget:
  assumes tick: "octavia_works tick V" and s: "lb_sound (V w)"
  shows "budget K svc ips subnet (V (tick w)) \<le> budget K svc ips subnet (V w)"
    and "lf_lb (V w) \<noteq> None \<Longrightarrow> 0 < lf_busy (V w) \<Longrightarrow> budget K svc ips subnet (V (tick w)) < budget K svc ips subnet (V w)"
proof -
  from tick_effect [OF tick s] obtain r k where e: "V (tick w) = (V w)\<lparr>lf_lb := r, lf_busy := k\<rparr>"
    "if lf_busy (V w) = 0 then k = 0 \<and> r = lf_lb (V w) else k < lf_busy (V w)"
    "case lf_lb (V w) of
        None \<Rightarrow> r = None
      | Some b \<Rightarrow>
          if lb_status b = status_pending_delete then r = None \<or> r = Some b \<and> 0 < k
          else \<exists>st. r = Some (b\<lparr>lb_status := st\<rparr>) \<and> settling k st" .
  have c: "claimed (V (tick w)) = claimed (V w)" by (simp add: claimed_def e(1))
  have less: "lb_budget K svc ips subnet (V (tick w)) < lb_budget K svc ips subnet (V w)" if "0 < lf_busy (V w)" "lf_lb (V w) \<noteq> None"
    using that e(2,3) by (auto simp: lb_budget_def e(1) bal_def settling_def split: if_splits)
  have same: "lb_budget K svc ips subnet (V (tick w)) = lb_budget K svc ips subnet (V w)" if "lf_busy (V w) = 0 \<or> lf_lb (V w) = None"
    using that e(2,3) by (auto simp: lb_budget_def e(1) bal_def split: option.split)
  show "budget K svc ips subnet (V (tick w)) \<le> budget K svc ips subnet (V w)"
    using less same c by (cases "0 < lf_busy (V w) \<and> lf_lb (V w) \<noteq> None") (auto simp: budget_def)
  show "lf_lb (V w) \<noteq> None \<Longrightarrow> 0 < lf_busy (V w) \<Longrightarrow> budget K svc ips subnet (V (tick w)) < budget K svc ips subnet (V w)"
    using less c by (simp add: budget_def)
qed

section \<open>One pass\<close>

text \<open>A step that leaves the balancer alone and keeps the other parts sound keeps the Service tended.\<close>

definition same_lb :: "'x life_scheme \<Rightarrow> 'x life_scheme \<Rightarrow> bool" where
  "same_lb v v' \<longleftrightarrow> life.more v' = life.more v \<and> lf_lb v' = lf_lb v \<and> lf_busy v' = lf_busy v \<and>
     lf_listeners v' = lf_listeners v \<and> lf_pools v' = lf_pools v \<and> lf_members v' = lf_members v"

lemma same_lb_trans: "same_lb u v \<Longrightarrow> same_lb v w \<Longrightarrow> same_lb u w"
  by (simp add: same_lb_def)

lemma same_lb_bal: "same_lb v v' \<Longrightarrow> bal v' i = bal v i"
  by (rule view_cong) (simp_all add: same_lb_def)

lemma tended_frame:
  assumes "tended tenant cfg svc x v" "same_lb v v'"
    and "is_service svc v'" "addresses_ok v'" "groups_ok v'" "rules_fine tenant svc cfg v'" "tagged (svc_tag tenant svc) v'"
  shows "tended tenant cfg svc x v'"
proof -
  have "bal v' i = bal v i" for i using assms(2) by (rule same_lb_bal)
  with assms show ?thesis by (simp add: tended_def intact_def) (simp add: lb_sound_def same_lb_def)
qed

text \<open>The rules of the Service, and its status.\<close>

lemma run_open:
  fixes E :: "'w env"
  assumes law: "rule_laws E c V" "octavia_reads E c' n V" "tenant_laws E tenant (s_ns svc) (s_name svc) V"
    and svc: "lf_svc v = Some svc" and a: "a \<noteq> ''''" and cidrs: "cf_cidrs cfg \<noteq> []" and v: "V (world s) = v"
    and t: "tended tenant cfg svc x v" and w: "wired_up tenant cfg ips v"
    and Q: "\<And>ings s'. same_lb v (V (world s')) \<Longrightarrow> lf_fips (V (world s')) = lf_fips v \<Longrightarrow> a \<in> set ings \<Longrightarrow>
       lf_svc (V (world s')) = Some (svc\<lparr>s_ingress := ings\<rparr>) \<Longrightarrow> tended tenant cfg svc x (V (world s')) \<Longrightarrow>
       opened tenant cfg svc ips (V (world s')) \<Longrightarrow> Q (Inr member_resync_after) s'"
  shows "wp (check m1 (ensure_node_port_rules E c (worker_group tenant cfg v) tenant svc (cf_cidrs cfg)) (\<lambda>_.
     check m2 (patch_status E tenant svc a) (\<lambda>_. ret member_resync_after))) Q s"
proof -
  let ?g = "worker_group tenant cfg v"
  let ?A = "\<lambda>_ s'. \<exists>rs. V (world s') = v\<lparr>lf_rules := rs\<rparr> \<and> group_ok tenant svc (rs ?g) \<and>
     \<not> rules_clash tenant svc (cf_cidrs cfg) (rs ?g) \<and> owned_keys tenant svc (rs ?g) = set (desired_keys svc (cf_cidrs cfg))"
  from t have i: "addresses_ok v" "groups_ok v" "tagged (svc_tag tenant svc) v" by (simp_all add: tended_def intact_def)
  from t w have g: "?g \<noteq> ''''" "group_ok tenant svc (lf_rules v ?g)" "\<not> rules_clash tenant svc (cf_cidrs cfg) (lf_rules v ?g)"
    by (simp_all add: tended_def rules_fine_def wired_up_def Let_def)
  show ?thesis
  proof (rule run_check [where A = ?A], rule run_ensure_rules [OF law(1,2) g(1) cidrs])
    fix z and s1 :: "('w, event) st" assume "?A z s1"
    then obtain rs where s1: "V (world s1) = v\<lparr>lf_rules := rs\<rparr>" and r: "group_ok tenant svc (rs ?g)"
      "\<not> rules_clash tenant svc (cf_cidrs cfg) (rs ?g)" "owned_keys tenant svc (rs ?g) = set (desired_keys svc (cf_cidrs cfg))"
      by blast
    have l1: "lf_svc (V (world s1)) = Some svc" using svc by (simp add: s1)
    show "wp (check m2 (patch_status E tenant svc a) (\<lambda>_. ret member_resync_after)) Q s1"
    proof (rule run_check [where A = "\<lambda>_ s'. \<exists>ings. V (world s') = v\<lparr>lf_rules := rs, lf_svc := Some (svc\<lparr>s_ingress := ings\<rparr>)\<rparr> \<and>
        a \<in> set ings"], rule run_patch_status [OF law(3) l1 a])
      fix z and s2 :: "('w, event) st"
      assume "\<exists>ings. V (world s2) = v\<lparr>lf_rules := rs, lf_svc := Some (svc\<lparr>s_ingress := ings\<rparr>)\<rparr> \<and> a \<in> set ings"
      then obtain ings where s2: "V (world s2) = v\<lparr>lf_rules := rs, lf_svc := Some (svc\<lparr>s_ingress := ings\<rparr>)\<rparr>" and a: "a \<in> set ings"
        by blast
      have wg: "worker_group tenant cfg (V (world s2)) = ?g" using view_cong(3) [of "V (world s2)" v] by (simp add: s2)
      have same: "same_lb v (V (world s2))" by (simp add: same_lb_def s2)
      have "tended tenant cfg svc x (V (world s2))"
      proof (rule tended_frame [OF t same])
        show "is_service svc (V (world s2))" by (rule is_serviceI(2)) (simp add: s2)
        show "rules_fine tenant svc cfg (V (world s2))" using r by (simp add: rules_fine_def wg) (simp add: s2)
        show "tagged (svc_tag tenant svc) (V (world s2))" by (rule tagged_keep [OF i(3)]) (simp_all add: s2)
      qed (use i in \<open>simp_all add: s2 addresses_ok_def groups_ok_def\<close>)
      moreover have "opened tenant cfg svc ips (V (world s2))"
        using w r(3) by (simp add: opened_def wired_up_def wg) (simp add: s2)
      ultimately show "wp (ret member_resync_after) Q s2" using Q [OF same _ a] by (simp add: wp_ret s2)
    qed (auto simp: s1)
  qed (use g v in auto)
qed

text \<open>The workers in the group of the cluster, and the rules and the status over it.\<close>

lemma run_wire_open:
  fixes E :: "'w env"
  assumes laws: "cloud_laws E c tenant ns name (cf_vip_net cfg) K tick V" and svc: "wants_lb ns name cfg svc" "lf_svc v = Some svc"
    and a: "a \<noteq> ''''" and v: "V (world s) = v" and t: "tended tenant cfg svc x v"
    and Q: "\<And>ings s'. same_lb v (V (world s')) \<Longrightarrow> lf_fips (V (world s')) = lf_fips v \<Longrightarrow> a \<in> set ings \<Longrightarrow>
       lf_svc (V (world s')) = Some (svc\<lparr>s_ingress := ings\<rparr>) \<Longrightarrow> tended tenant cfg svc x (V (world s')) \<Longrightarrow>
       opened tenant cfg svc ips (V (world s')) \<Longrightarrow> Q (Inr member_resync_after) s'"
  shows "wp (bind (wire_workers E tenant cfg c ips) (\<lambda>sgid.
     check m1 (ensure_node_port_rules E c sgid tenant svc (cf_cidrs cfg)) (\<lambda>_.
     check m2 (patch_status E tenant svc a) (\<lambda>_. ret member_resync_after)))) Q s"
proof -
  note law = cloud_lawsD [OF laws]
  from svc(1) have ns: "s_ns svc = ns" "s_name svc = name" "cf_vip_net cfg \<noteq> ''''" "cf_cidrs cfg \<noteq> []"
    by (simp_all add: wants_lb_def)
  from t have ok: "addresses_ok v" "groups_ok v" "rules_fine tenant svc cfg v" "tagged (svc_tag tenant svc) v"
    by (simp_all add: tended_def intact_def)
  have names: "cluster_sg_name tenant \<noteq> ''default''" by (simp add: cluster_sg_name_def cluster_sg_name_prefix_def)
  let ?A = "\<lambda>g s'. same_lb v (V (world s')) \<and> lf_fips (V (world s')) = lf_fips v \<and> lf_svc (V (world s')) = Some svc \<and>
     tended tenant cfg svc x (V (world s')) \<and> wired_up tenant cfg ips (V (world s')) \<and> g = worker_group tenant cfg (V (world s'))"
  show ?thesis
  proof (rule run_bind [where A = ?A], rule run_wire_workers [OF law(7,8,9) ns(3) names])
    fix P :: "err + string \<Rightarrow> ('w, event) st \<Rightarrow> bool" and s1 :: "('w, event) st"
    assume P: "\<And>g s'. ?A g s' \<Longrightarrow> P (Inr g) s'" and w: "wired_up tenant cfg ips (V (world s1))"
      and ok1: "groups_ok (V (world s1))" "rules_fine tenant svc cfg (V (world s1))"
      and "\<exists>gs rs ps. V (world s1) = (V (world s))\<lparr>lf_groups := gs, lf_rules := rs, lf_ports := ps\<rparr>"
    then obtain gs rs ps where s1: "V (world s1) = v\<lparr>lf_groups := gs, lf_rules := rs, lf_ports := ps\<rparr>" using v by blast
    have same: "same_lb v (V (world s1))" by (simp add: same_lb_def s1)
    have "is_service svc (V (world s1))" using svc(2) by (intro is_serviceI(3)) (simp add: s1)
    moreover have "addresses_ok (V (world s1))" using ok(1) by (simp add: s1 addresses_ok_def)
    moreover have "tagged (svc_tag tenant svc) (V (world s1))" by (rule tagged_keep [OF ok(4)]) (simp_all add: s1)
    ultimately have "tended tenant cfg svc x (V (world s1))" by (intro tended_frame [OF t same _ _ ok1])
    with w same svc(2) show "P (Inr (worker_group tenant cfg (V (world s1)))) s1" by (intro P) (simp add: s1)
  next
    fix g and s1 :: "('w, event) st" assume A: "?A g s1"
    then have g: "g = worker_group tenant cfg (V (world s1))" and s1: "lf_svc (V (world s1)) = Some svc"
      "tended tenant cfg svc x (V (world s1))" "wired_up tenant cfg ips (V (world s1))" by simp_all
    show "wp (check m1 (ensure_node_port_rules E c g tenant svc (cf_cidrs cfg)) (\<lambda>_.
       check m2 (patch_status E tenant svc a) (\<lambda>_. ret member_resync_after))) Q s1"
      unfolding g
      by (rule run_open [OF law(7,2) law(1) [folded ns(1,2)] s1(1) a ns(4) refl s1(2,3)], rule Q)
         (use A in \<open>auto intro: same_lb_trans\<close>)
  qed (use ok v in simp_all)
qed

text \<open>The last part of a pass, over a balancer that is complete.\<close>

definition finish_pass ::
  "'w env \<Rightarrow> string \<Rightarrow> service \<Rightarrow> lb_config \<Rightarrow> clients \<Rightarrow> lb \<Rightarrow> string list \<Rightarrow> ('w, int) lbc" where
  "finish_pass E tenant svc cfg c b ips =
     bind (publish_address E tenant svc cfg c b) (\<lambda>public_addr.
     bind (wire_workers E tenant cfg c ips) (\<lambda>sgid.
     check ''ensuring nodePort SG rules'' (ensure_node_port_rules E c sgid tenant svc (cf_cidrs cfg)) (\<lambda>_.
     check ''patching Service status'' (patch_status E tenant svc public_addr) (\<lambda>_.
     ret member_resync_after))))"

lemma run_finish:
  fixes E :: "'w env"
  assumes laws: "cloud_laws E c tenant ns name (cf_vip_net cfg) K tick V"
    and disco: "cf_fip_net cfg = '''' \<Longrightarrow> steady V x (find_first_external_network E c) enet"
    and svc: "wants_lb ns name cfg svc" "lf_svc v = Some svc" "finalizer_name \<in> set (s_finalizers svc)"
    and b: "lf_lb v = Some b" "lb_status b = status_active" "cost (bal v (lb_id b)) ips subnet (s_ports svc) = 0"
    and t: "tended tenant cfg svc x v" and v: "V (world s) = v"
    and Q: "\<And>s'. tended tenant cfg svc x (V (world s')) \<Longrightarrow> complete svc ips subnet (V (world s')) \<Longrightarrow>
       served tenant cfg svc subnet ips enet (V (world s')) \<Longrightarrow> Q (Inr member_resync_after) s'"
  shows "wp (finish_pass E tenant svc cfg c b ips) Q s"
proof -
  note law = cloud_lawsD [OF laws]
  from svc(1) have ns: "s_ns svc = ns" "s_name svc = name" "cf_vip_net cfg \<noteq> ''''" "cf_cidrs cfg \<noteq> []"
    by (simp_all add: wants_lb_def)
  from t b(1) have i: "lb_vip b \<noteq> ''''" "lb_vip_port b \<noteq> ''''" "addresses_ok v" "groups_ok v" "rules_fine tenant svc cfg v" "life.more v = x"
    by (simp_all add: tended_def intact_def)
  have tag: "tagged_at (lb_vip_port b) (svc_tag tenant svc) v" using t b(1) by (simp add: tended_def tagged_def)
  let ?A = "\<lambda>a s'. same_lb v (V (world s')) \<and> lf_svc (V (world s')) = Some svc \<and> tended tenant cfg svc x (V (world s')) \<and>
     addressed (public_net cfg enet) b (V (world s')) a \<and> a \<noteq> ''''"
  show ?thesis
    unfolding finish_pass_def
  proof (rule run_bind [where A = ?A],
      rule run_publish [OF law(6) disco public_net_def [of cfg enet] _ i(1,2)])
    fix P :: "err + string \<Rightarrow> ('w, event) st \<Rightarrow> bool" and a and s1 :: "('w, event) st"
    assume P: "\<And>a s'. ?A a s' \<Longrightarrow> P (Inr a) s'" and "\<exists>fs. V (world s1) = (V (world s))\<lparr>lf_fips := fs\<rparr>"
      and ok: "addresses_ok (V (world s1))" and a: "addressed (public_net cfg enet) b (V (world s1)) a" "a \<noteq> ''''"
      and tagged: "tagged_at (lb_vip_port b) (service_lb_name tenant (s_ns svc) (s_name svc)) (V (world s1))"
    then obtain fs where s1: "V (world s1) = v\<lparr>lf_fips := fs\<rparr>" using v by blast
    have same: "same_lb v (V (world s1))" by (simp add: same_lb_def s1)
    have "is_service svc (V (world s1))" using svc(2) by (intro is_serviceI(3)) (simp add: s1)
    moreover have "rules_fine tenant svc cfg (V (world s1))"
      using i(5) view_cong(4) [of "V (world s1)" v tenant svc cfg] by (simp add: s1)
    moreover have "tagged (svc_tag tenant svc) (V (world s1))"
      using tagged b(1) same by (simp add: tagged_def svc_tag_def same_lb_def)
    ultimately have "tended tenant cfg svc x (V (world s1))"
      using i(4) by (intro tended_frame [OF t same _ ok]) (simp_all add: s1 groups_ok_def)
    with same a svc(2) show "P (Inr a) s1" by (intro P) (simp add: s1)
  next
    fix a and s1 :: "('w, event) st" assume A: "?A a s1"
    then have l1: "lf_svc (V (world s1)) = Some svc" "tended tenant cfg svc x (V (world s1))" and an: "a \<noteq> ''''" by simp_all
    show "wp (bind (wire_workers E tenant cfg c ips) (\<lambda>sgid.
        check ''ensuring nodePort SG rules'' (ensure_node_port_rules E c sgid tenant svc (cf_cidrs cfg)) (\<lambda>_.
        check ''patching Service status'' (patch_status E tenant svc a) (\<lambda>_. ret member_resync_after)))) Q s1"
    proof (rule run_wire_open [OF laws svc(1) l1(1) an refl l1(2)])
      fix ings and s3 :: "('w, event) st"
      assume s3: "same_lb (V (world s1)) (V (world s3))" "lf_fips (V (world s3)) = lf_fips (V (world s1))" "a \<in> set ings"
        "lf_svc (V (world s3)) = Some (svc\<lparr>s_ingress := ings\<rparr>)" and t3: "tended tenant cfg svc x (V (world s3))"
        and o3: "opened tenant cfg svc ips (V (world s3))"
      have same: "same_lb v (V (world s3))" using A s3(1) by (blast intro: same_lb_trans)
      then have lb: "lf_lb (V (world s3)) = Some b" using b(1) by (simp add: same_lb_def)
      have "addressed (public_net cfg enet) b (V (world s3)) a" using A s3(2) by (auto simp: addressed_def split: if_splits)
      then have "served tenant cfg svc subnet ips enet (V (world s3))"
        unfolding served_def
        by (intro exI [of _ b] exI [of _ "svc\<lparr>s_ingress := ings\<rparr>"] exI [of _ a])
           (use lb b(2) cost_zero [OF b(3)] same_lb_bal [OF same] svc(3) s3(3,4) o3 an in simp)
      moreover have "complete svc ips subnet (V (world s3))"
        using lb b(2,3) same_lb_bal [OF same] s3(4) svc(3) by (simp add: complete_def claimed_def)
      ultimately show "Q (Inr member_resync_after) s3" using Q [OF t3] by blast
    qed
  qed (use i v tag in \<open>simp_all add: svc_tag_def\<close>)
qed

text \<open>The outcome of a pass: nothing left to do, or the budget smaller, or Octavia to wait for.\<close>

definition up_step ::
  "nat \<Rightarrow> string \<Rightarrow> lb_config \<Rightarrow> service \<Rightarrow> string \<Rightarrow> string list \<Rightarrow> string \<Rightarrow> 'x \<Rightarrow> 'x life_scheme \<Rightarrow> err + int \<Rightarrow>
     'x life_scheme \<Rightarrow> bool" where
  "up_step K tenant cfg svc subnet ips enet x v r v' \<longleftrightarrow> tended tenant cfg svc x v' \<and>
     (if complete svc ips subnet v
      then r = Inr member_resync_after \<and> complete svc ips subnet v' \<and> served tenant cfg svc subnet ips enet v'
      else budget K svc ips subnet v' < budget K svc ips subnet v \<or> v' = v \<and> lf_lb v \<noteq> None \<and> 0 < lf_busy v)"

lemma cost_empty: "vw_listeners v = [] \<Longrightarrow> cost v ips subnet ports = 3 * length ports"
  by (induction ports) (simp_all add: cost_def stale_cost_def port_cost_def listener_of_def)

lemma created_step:
  assumes t: "tended tenant cfg svc x v" and c: "claimed v" and none: "lf_lb v = None"
    and b: "lb_vip b \<noteq> ''''" "lb_vip_port b \<noteq> ''''" "k \<le> K" "settling k (lb_status b)" "lf_fips v (lb_vip_port b) = []"
    and v': "v' = v\<lparr>lf_lb := Some b, lf_busy := k, lf_listeners := (lf_listeners v)(lb_id b := []),
      lf_pools := (lf_pools v)(lb_id b := [])\<rparr>"
  shows "up_step K tenant cfg svc subnet ips enet x v r v'"
proof -
  have bal: "vw_listeners (bal v' (lb_id b)) = []" "vw_pools (bal v' (lb_id b)) = []" by (simp_all add: v')
  have "intact v'"
    using t b bal by (simp add: tended_def intact_def view_ok_def) (simp add: v' lb_sound_def addresses_ok_def groups_ok_def settling_def)
  moreover have "is_service svc v' = is_service svc v" "claimed v' = claimed v"
    "rules_fine tenant svc cfg v' = rules_fine tenant svc cfg v" by (rule view_cong; simp add: v')+
  moreover have "lb_budget K svc ips subnet v' < lb_budget K svc ips subnet v"
    using b(3,4) cost_empty [OF bal(1)]
    by (simp add: lb_budget_def none) (simp add: v' settling_def build_cost_def algebra_simps)
  moreover have "tagged (svc_tag tenant svc) v'" using b(5) by (simp add: tagged_def tagged_at_def v')
  ultimately show ?thesis
    using t c by (simp add: up_step_def budget_def tended_def complete_def none) (simp add: v')
qed

lemma changed_step:
  assumes t: "tended tenant cfg svc x v" and b: "lf_lb v = Some b" "lb_status b = status_active"
    and ch: "lb_changed K v v'" "view_ok (bal v' (lb_id b))"
    and less: "cost (bal v' (lb_id b)) ips subnet (s_ports svc) < cost (bal v (lb_id b)) ips subnet (s_ports svc)"
  shows "up_step K tenant cfg svc subnet ips enet x v r v'"
proof -
  from ch(1) b(1) obtain ls ps ms st k where k: "k \<le> K" "settling k st"
    and v': "v' = v\<lparr>lf_listeners := ls, lf_pools := ps, lf_members := ms, lf_lb := Some (b\<lparr>lb_status := st\<rparr>), lf_busy := k\<rparr>"
    by (auto simp: lb_changed_def busy_with_def)
  have "intact v'"
    using t b ch(2) k by (simp add: tended_def intact_def) (simp add: v' lb_sound_def addresses_ok_def groups_ok_def settling_def)
  moreover have "is_service svc v' = is_service svc v" "claimed v' = claimed v"
    "rules_fine tenant svc cfg v' = rules_fine tenant svc cfg v" by (rule view_cong; simp add: v')+
  moreover have "lb_budget K svc ips subnet v' < lb_budget K svc ips subnet v"
  proof -
    let ?c = "cost (bal v (lb_id b)) ips subnet (s_ports svc)" and ?c' = "cost (bal v' (lb_id b)) ips subnet (s_ports svc)"
    have "lb_budget K svc ips subnet v' = k + ?c' * (K + 1)"
      using k(2) by (simp add: lb_budget_def) (simp add: v' settling_def bal_def)
    also have "\<dots> \<le> K + ?c' * (K + 1)" using k(1) by simp
    also have "\<dots> < (?c' + 1) * (K + 1)" by simp
    also have "\<dots> \<le> ?c * (K + 1)" using less by (intro mult_le_mono1) simp
    also have "\<dots> \<le> lb_budget K svc ips subnet v" using b by (simp add: lb_budget_def)
    finally show ?thesis .
  qed
  moreover have "\<not> complete svc ips subnet v" using b less by (simp add: complete_def)
  moreover have "tagged (svc_tag tenant svc) v'"
    by (rule tagged_keep [of _ v]) (use t b in \<open>simp_all add: v' tended_def\<close>)
  ultimately show ?thesis using t by (simp add: up_step_def budget_def tended_def) (simp add: v')
qed

text \<open>The part of a pass after the balancer is found active.\<close>

definition advance_pass ::
  "'w env \<Rightarrow> string \<Rightarrow> service \<Rightarrow> lb_config \<Rightarrow> clients \<Rightarrow> string \<Rightarrow> lb \<Rightarrow> ('w, int) lbc" where
  "advance_pass E tenant svc cfg c subnet b =
     check ''listing worker IPs from OpenStack'' (list_worker_ips E c (cf_vip_net cfg)) (\<lambda>ips.
     check ''syncing listeners and members'' (sync_listeners_and_members E c b svc ips subnet) (\<lambda>pending.
       if pending then ret pending_requeue else finish_pass E tenant svc cfg c b ips))"

lemma provision_parts:
  "provision E tenant svc cfg =
     check ''building OpenStack clients'' (new_clients E (cf_creds cfg)) (\<lambda>c.
     check ''resolving member subnet'' (resolve_member_subnet E c (cf_vip_net cfg)) (\<lambda>subnet.
     check ''ensuring Octavia LB'' (ensure_lb E c tenant svc (cf_vip_net cfg) (cf_provider cfg)) (\<lambda>(b, pending).
       if pending then ret pending_requeue else advance_pass E tenant svc cfg c subnet b)))"
  unfolding provision_def advance_pass_def finish_pass_def ..

lemma run_advance:
  fixes E :: "'w env"
  assumes laws: "cloud_laws E c tenant ns name (cf_vip_net cfg) K tick V" and networks: "networks_stand E cfg c subnet ips enet x V"
    and svc: "wants_lb ns name cfg svc" "lf_svc v = Some svc" "finalizer_name \<in> set (s_finalizers svc)"
    and t: "tended tenant cfg svc x v" and b: "lf_lb v = Some b" "lb_status b = status_active" and v: "V (world s) = v"
  shows "wp (advance_pass E tenant svc cfg c subnet b) (\<lambda>r s'. up_step K tenant cfg svc subnet ips enet x v r (V (world s'))) s"
    (is "wp _ ?Q _")
proof -
  note law = cloud_lawsD [OF laws]
  from t have w: "intact v" "life.more v = x" by (simp_all add: tended_def)
  from svc(1) have ports: "desired_ports (s_ports svc) = Inr (s_ports svc)" "distinct (map listener_name (s_ports svc))"
    by (simp_all add: wants_lb_def)
  have workers: "steady V x (list_worker_ips E c (cf_vip_net cfg)) ips" using networks by (simp add: networks_stand_def)
  let ?cost = "\<lambda>v. cost (bal v (lb_id b)) ips subnet (s_ports svc)"
  let ?A = "\<lambda>pending s'. if pending then lb_changed K v (V (world s')) \<and> view_ok (bal (V (world s')) (lb_id b)) \<and>
      ?cost (V (world s')) < ?cost v else V (world s') = v \<and> ?cost v = 0"
  show ?thesis
    unfolding advance_pass_def
  proof (rule steady_check [OF workers w(2) v], rule run_check [where A = ?A])
    fix s1 :: "('w, event) st" and P :: "err + bool \<Rightarrow> ('w, event) st \<Rightarrow> bool"
    assume s1: "V (world s1) = v" and P: "\<And>p s'. ?A p s' \<Longrightarrow> P (Inr p) s'"
    show "wp (sync_listeners_and_members E c b svc ips subnet) P s1"
      by (rule run_sync [OF law(2,4) _ b(2) _ ports(2,1)])
         (use w(1) b(1) P [of False] P [of True] in \<open>simp_all add: s1 intact_def\<close>)
  next
    fix p and s2 :: "('w, event) st" assume A: "?A p s2"
    show "wp (if p then ret pending_requeue else finish_pass E tenant svc cfg c b ips) ?Q s2"
    proof (cases p)
      case True
      with A show ?thesis using changed_step [OF t b, of K "V (world s2)"] by (simp add: wp_ret)
    next
      case False
      with A have s2: "V (world s2) = v" and zero: "?cost v = 0" by simp_all
      have "complete svc ips subnet v" using b svc zero by (auto simp: complete_def claimed_def)
      moreover have "cf_fip_net cfg = '''' \<Longrightarrow> steady V x (find_first_external_network E c) enet"
        using networks by (simp add: networks_stand_def)
      ultimately have "wp (finish_pass E tenant svc cfg c b ips) ?Q s2"
        by (intro run_finish [OF laws _ svc b zero t s2]) (simp_all add: up_step_def)
      with False show ?thesis by simp
    qed
  qed
qed

lemma run_provision:
  fixes E :: "'w env"
  assumes laws: "cloud_laws E c tenant ns name (cf_vip_net cfg) K tick V"
    and config: "config_stands E L tenant cfg c x V" and networks: "networks_stand E cfg c subnet ips enet x V"
    and svc: "wants_lb ns name cfg svc" "lf_svc v = Some svc" "finalizer_name \<in> set (s_finalizers svc)"
    and t: "tended tenant cfg svc x v" and v: "V (world s) = v"
  shows "wp (provision E tenant svc cfg) (\<lambda>r s'. up_step K tenant cfg svc subnet ips enet x v r (V (world s'))) s"
    (is "wp _ ?Q _")
proof -
  note law = cloud_lawsD [OF laws]
  from t have w: "intact v" "life.more v = x" by (simp_all add: tended_def)
  then have sound: "lb_sound v" by (simp add: intact_def)
  from svc(1) have ns: "s_ns svc = ns" "s_name svc = name" "cf_vip_net cfg \<noteq> ''''" by (simp_all add: wants_lb_def)
  have cl: "claimed v" using svc by (simp add: claimed_def)
  have clients: "steady V x (new_clients E (cf_creds cfg)) c" using config by (simp add: config_stands_def)
  have sub: "steady V x (resolve_member_subnet E c (cf_vip_net cfg)) subnet" using networks by (simp add: networks_stand_def)
  let ?A = "\<lambda>(b, pending) s'. if pending then ?Q (Inr pending_requeue) s'
     else V (world s') = v \<and> lf_lb v = Some b \<and> lb_status b = status_active"
  show ?thesis
    unfolding provision_parts
  proof (rule steady_check [OF clients w(2) v], rule steady_check [OF sub w(2)], assumption, rule run_check [where A = ?A])
    fix s1 :: "('w, event) st" and P :: "err + lb \<times> bool \<Rightarrow> ('w, event) st \<Rightarrow> bool"
    assume s1: "V (world s1) = v" and P: "\<And>p s'. ?A p s' \<Longrightarrow> P (Inr p) s'"
    show "wp (ensure_lb E c tenant svc (cf_vip_net cfg) (cf_provider cfg)) P s1"
    proof (rule run_ensure_lb [OF law(2,3) _ ns(3)], simp only: ns, simp only: s1 sound)
      fix b and s' :: "('w, event) st" assume "lf_lb (V (world s1)) = Some b" "V (world s') = V (world s1)"
      then show "P (Inr (b, lb_status b \<noteq> status_active)) s'"
        using P [of "(b, lb_status b \<noteq> status_active)" s'] t sound
        by (auto simp: s1 up_step_def complete_def lb_sound_def)
    next
      fix b k and s' :: "('w, event) st"
      assume "lf_lb (V (world s1)) = None" "lb_vip b \<noteq> ''''" "lb_vip_port b \<noteq> ''''"
        "lf_fips (V (world s1)) (lb_vip_port b) = []" "k \<le> K" "settling k (lb_status b)"
        "V (world s') = (V (world s1))\<lparr>lf_lb := Some b, lf_busy := k, lf_listeners := (lf_listeners (V (world s1)))(lb_id b := []),
             lf_pools := (lf_pools (V (world s1)))(lb_id b := [])\<rparr>"
      with created_step [OF t cl] show "P (Inr (b, True)) s'" by (intro P) (simp add: s1)
    qed
  next
    fix p and s2 :: "('w, event) st" assume "?A p s2"
    then show "wp (case p of (b, pending) \<Rightarrow> if pending then ret pending_requeue else advance_pass E tenant svc cfg c subnet b) ?Q s2"
      using run_advance [OF laws networks svc t] by (auto simp: wp_ret split: prod.splits)
  qed
qed

lemma same_steps:
  fixes v :: "'x life_scheme"
  assumes cur: "cur = svc\<lparr>s_finalizers := fs, s_ingress := ings\<rparr>" and up: "up_step K tenant cfg cur subnet ips enet x v r v'"
  shows "up_step K tenant cfg svc subnet ips enet x v r v'"
proof -
  have "is_service cur v' \<Longrightarrow> is_service svc v'" by (auto simp: is_service_def cur)
  moreover have "complete cur ips subnet u = complete svc ips subnet u" "budget K cur ips subnet u = budget K svc ips subnet u"
    "served tenant cfg cur subnet ips enet u = served tenant cfg svc subnet ips enet u"
    "rules_fine tenant cur cfg u = rules_fine tenant svc cfg u" for u :: "'x life_scheme"
    by (simp_all add: complete_def served_def budget_def lb_budget_def build_cost_def same_service [OF cur] cong: option.case_cong if_cong)
  ultimately show ?thesis using up by (auto simp: up_step_def tended_def same_service [OF cur])
qed

lemma claimed_step:
  assumes t: "tended tenant cfg svc x v" and new: "\<not> claimed v" and f: "finalizer_name \<in> set fs"
    and v': "v' = v\<lparr>lf_svc := Some (svc\<lparr>s_finalizers := fs\<rparr>)\<rparr>"
  shows "up_step K tenant cfg svc subnet ips enet x v r v'"
proof -
  have "is_service svc v'" by (rule is_serviceI(1)) (simp add: v')
  moreover have "rules_fine tenant svc cfg v' = rules_fine tenant svc cfg v" "\<And>i. bal v' i = bal v i"
    by (rule view_cong; simp add: v')+
  moreover have "lb_budget K svc ips subnet v' = lb_budget K svc ips subnet v"
  proof -
    have "lf_lb v' = lf_lb v" "lf_busy v' = lf_busy v" by (simp_all add: v')
    with calculation(3) show ?thesis by (cases "lf_lb v") (simp_all add: lb_budget_def)
  qed
  moreover have "intact v' = intact v"
    by (simp add: intact_def calculation(3)) (simp add: v' lb_sound_def addresses_ok_def groups_ok_def)
  moreover have "tagged (svc_tag tenant svc) v'"
    by (rule tagged_keep [of _ v]) (use t in \<open>simp_all add: v' tended_def\<close>)
  ultimately show ?thesis
    using t new f by (simp add: up_step_def tended_def complete_def budget_def) (simp add: v' claimed_def)
qed

lemma run_config_up:
  fixes E :: "'w env"
  assumes laws: "cloud_laws E c tenant ns name (cf_vip_net cfg) K tick V"
    and config: "config_stands E L tenant cfg c x V" and networks: "networks_stand E cfg c subnet ips enet x V"
    and svc: "wants_lb ns name cfg svc" "lf_svc v = Some svc" and t: "tended tenant cfg svc x v" and v: "V (world s) = v"
  shows "wp (reconcile_config E tenant svc cfg) (\<lambda>r s'. up_step K tenant cfg svc subnet ips enet x v r (V (world s'))) s"
    (is "wp _ ?Q _")
proof -
  have hr: "steady V x (is_helm_release_deleting E tenant) False" using config by (simp add: config_stands_def)
  from t have x: "life.more v = x" by (simp add: tended_def)
  from svc(1) have wants: "s_ns svc = ns" "s_name svc = name" "s_type svc = ''LoadBalancer''" "\<not> s_deleting svc" "cf_enabled cfg"
    by (simp_all add: wants_lb_def)
  have pass: "wp (if finalizer_name \<notin> set (s_finalizers svc) then check m (patch_finalizers E tenant (s_ns svc) (s_name svc)
      (s_finalizers svc @ [finalizer_name])) (\<lambda>_. ret 0) else provision E tenant svc cfg) ?Q s1" if s1: "V (world s1) = v"
    for m :: string and s1
  proof (cases "finalizer_name \<in> set (s_finalizers svc)")
    case True
    with run_provision [OF laws config networks svc True t s1] show ?thesis by simp
  next
    case False
    let ?fs = "s_finalizers svc @ [finalizer_name]"
    have new: "\<not> claimed v" using False svc(2) by (simp add: claimed_def)
    have "wp (check m (patch_finalizers E tenant ns name ?fs) (\<lambda>_. ret 0)) ?Q s1"
      by (rule run_check [where A = "\<lambda>_ s'. V (world s') = v\<lparr>lf_svc := Some (svc\<lparr>s_finalizers := ?fs\<rparr>)\<rparr>"],
          rule run_patch_finalizers [OF cloud_lawsD(1) [OF laws]])
         (use svc(2) wants s1 claimed_step [OF t new, of ?fs] in \<open>simp_all add: wp_ret\<close>)
    with False wants show ?thesis by simp
  qed
  show ?thesis
    unfolding reconcile_config_def
    by (rule steady_check [OF hr x v]) (use pass wants in \<open>simp add: Let_def\<close>)
qed

lemma run_reconcile_up:
  fixes E :: "'w env"
  assumes laws: "cloud_laws E c tenant ns name (cf_vip_net cfg) K tick V"
    and config: "config_stands E L tenant cfg c x V" and networks: "networks_stand E cfg c subnet ips enet x V"
    and svc: "wants_lb ns name cfg svc" and t: "tended tenant cfg svc x v" and v: "V (world s) = v"
  shows "wp (reconcile E L tenant ns name) (\<lambda>r s'. up_step K tenant cfg svc subnet ips enet x v r (V (world s'))) s"
    (is "wp _ ?Q _")
proof -
  from t obtain fs ings where lf: "lf_svc v = Some (svc\<lparr>s_finalizers := fs, s_ingress := ings\<rparr>)"
    by (auto simp: tended_def is_service_def)
  define cur where cur: "cur = svc\<lparr>s_finalizers := fs, s_ingress := ings\<rparr>"
  have lf: "lf_svc v = Some cur" using lf by (simp add: cur)
  from t have x: "life.more v = x" by (simp add: tended_def)
  have t': "tended tenant cfg cur x v"
    using t is_serviceI(3) [OF lf] by (simp add: tended_def same_service [OF cur])
  have w: "wants_lb ns name cfg cur" using svc by (simp add: same_service [OF cur])
  have type: "s_type cur = ''LoadBalancer''" using w by (simp add: wants_lb_def)
  have res: "steady V x (resolve E L tenant) cfg" using config by (simp add: config_stands_def)
  have config_pass: "wp (reconcile_config E tenant cur cfg) ?Q s2" if "V (world s2) = v" for s2
    by (rule wp_mono [OF run_config_up [OF laws config networks w lf t' that]]) (rule same_steps [OF cur])
  have "wp (attempt (resolve E L tenant) (\<lambda>r. case r of
     Inl e \<Rightarrow> if is_not_found e then drop_finalizer E tenant cur else throw (Wrap m e)
   | Inr cfg \<Rightarrow> reconcile_config E tenant cur cfg)) ?Q s1" if s1: "V (world s1) = v" for m :: string and s1
    unfolding wp_attempt
    by (rule run_steady [OF res]) (use x s1 config_pass in simp_all)
  then show ?thesis
    unfolding reconcile_def wp_attempt [of "get_svc E tenant ns name"]
    by (intro run_get_svc [OF cloud_lawsD(1) [OF laws]]) (use lf v type in \<open>simp_all only: sum.case, simp_all\<close>)
qed

text \<open>
  Enough passes serve the Service, and from then on every pass is the last one there is to make:
  it answers the resync delay and the Service stays served. Between the passes others are at
  work: Octavia, and whoever does not undo what is built.
\<close>

definition background ::
  "nat \<Rightarrow> string \<Rightarrow> lb_config \<Rightarrow> service \<Rightarrow> string \<Rightarrow> string list \<Rightarrow> string \<Rightarrow> 'x \<Rightarrow> ('w \<Rightarrow> 'x life_scheme) \<Rightarrow> ('w \<Rightarrow> 'w) \<Rightarrow> bool"
  where
  "background K tenant cfg svc subnet ips enet x V tick \<longleftrightarrow> (\<forall>w. tended tenant cfg svc x (V w) \<longrightarrow>
     tended tenant cfg svc x (V (tick w)) \<and>
     budget K svc ips subnet (V (tick w)) \<le> budget K svc ips subnet (V w) \<and>
     (lf_lb (V w) \<noteq> None \<and> 0 < lf_busy (V w) \<longrightarrow> budget K svc ips subnet (V (tick w)) < budget K svc ips subnet (V w)) \<and>
     (complete svc ips subnet (V w) \<longrightarrow> complete svc ips subnet (V (tick w)) \<and>
        (served tenant cfg svc subnet ips enet (V w) \<longrightarrow> served tenant cfg svc subnet ips enet (V (tick w)))))"

lemma octavia_background:
  assumes tick: "octavia_works tick V"
  shows "background K tenant cfg svc subnet ips enet x V tick"
  unfolding background_def
proof (intro allI impI)
  fix w assume t: "tended tenant cfg svc x (V w)"
  then have w: "intact (V w)" "lb_sound (V w)" by (simp_all add: tended_def intact_def)
  have "V (tick w) = V w" if "complete svc ips subnet (V w)"
    by (rule tick_whole(2) [OF tick w(1)]) (use that w(2) in \<open>auto simp: complete_def lb_sound_def\<close>)
  with tick_tended [OF tick t] tick_budget [OF tick w(2), of K svc ips subnet]
  show "tended tenant cfg svc x (V (tick w)) \<and>
     budget K svc ips subnet (V (tick w)) \<le> budget K svc ips subnet (V w) \<and>
     (lf_lb (V w) \<noteq> None \<and> 0 < lf_busy (V w) \<longrightarrow> budget K svc ips subnet (V (tick w)) < budget K svc ips subnet (V w)) \<and>
     (complete svc ips subnet (V w) \<longrightarrow> complete svc ips subnet (V (tick w)) \<and>
        (served tenant cfg svc subnet ips enet (V w) \<longrightarrow> served tenant cfg svc subnet ips enet (V (tick w))))" by simp
qed

lemma provisioning_with:
  fixes E :: "'w env"
  assumes laws: "cloud_laws E c tenant ns name (cf_vip_net cfg) K octavia_tick V"
    and bg: "background K tenant cfg svc subnet ips enet x V tick"
    and config: "config_stands E L tenant cfg c x V" and networks: "networks_stand E cfg c subnet ips enet x V"
    and svc: "wants_lb ns name cfg svc" and t: "tended tenant cfg svc x (V (world s))"
    and n: "budget K svc ips subnet (V (world s)) + 1 < n"
  shows "wp (passes n tick (reconcile E L tenant ns name)) (\<lambda>_ s'.
     served tenant cfg svc subnet ips enet (V (world s')) \<and>
     wp (reconcile E L tenant ns name) (\<lambda>r s''. r = Inr member_resync_after \<and>
        served tenant cfg svc subnet ips enet (V (world s''))) s') s"
proof -
  note bg = bg [unfolded background_def, rule_format]
  let ?J = "tended tenant cfg svc x" and ?m = "reconcile E L tenant ns name"
  let ?U = "\<lambda>v. complete svc ips subnet v \<and> served tenant cfg svc subnet ips enet v"
  let ?f = "\<lambda>v. if complete svc ips subnet v then 0 else budget K svc ips subnet v + 1"
  note pass = run_reconcile_up [OF laws config networks svc _ refl]
  have rest: "?U (V (tick w))" if "?J (V w)" "?U (V w)" for w using bg that by simp
  have "wp (passes n tick ?m) (\<lambda>_ s'. ?J (V (world s')) \<and> ?U (V (world s'))) s"
  proof (rule passes_reach [where f = ?f])
    fix s :: "('w, event) st" assume J: "?J (V (world s))"
    show "wp ?m (\<lambda>_ s'. ?J (V (tick (world s'))) \<and> (?U (V (tick (world s'))) \<or> ?f (V (tick (world s'))) < ?f (V (world s)))) s"
    proof (rule wp_mono [OF pass [OF J]])
      fix r and s' :: "('w, event) st"
      assume up: "up_step K tenant cfg svc subnet ips enet x (V (world s)) r (V (world s'))"
      then have J': "?J (V (world s'))" by (simp add: up_step_def)
      have "?U (V (tick (world s'))) \<or> ?f (V (tick (world s'))) < ?f (V (world s))"
      proof (cases "complete svc ips subnet (V (world s))")
        case True
        with up have "?U (V (world s'))" by (simp add: up_step_def)
        with rest [OF J'] show ?thesis by blast
      next
        case False
        have "budget K svc ips subnet (V (tick (world s'))) < budget K svc ips subnet (V (world s))"
          using up False bg [OF J'] by (auto simp: up_step_def)
        with False show ?thesis by simp
      qed
      with bg [OF J'] show "?J (V (tick (world s'))) \<and> (?U (V (tick (world s'))) \<or> ?f (V (tick (world s'))) < ?f (V (world s)))"
        by simp
    qed
  next
    fix s :: "('w, event) st" assume J: "?J (V (world s))" and U: "?U (V (world s))"
    show "wp ?m (\<lambda>_ s'. ?U (V (tick (world s')))) s"
      by (rule wp_mono [OF pass [OF J]]) (use U rest in \<open>auto simp: up_step_def\<close>)
  qed (use t n in auto)
  then show ?thesis
  proof (rule wp_mono)
    fix r and s' :: "('w, event) st" assume s': "?J (V (world s')) \<and> ?U (V (world s'))"
    have "wp ?m (\<lambda>r s''. r = Inr member_resync_after \<and> served tenant cfg svc subnet ips enet (V (world s''))) s'"
      by (rule wp_mono [OF pass]) (use s' in \<open>auto simp: up_step_def\<close>)
    with s' show "served tenant cfg svc subnet ips enet (V (world s')) \<and>
      wp ?m (\<lambda>r s''. r = Inr member_resync_after \<and> served tenant cfg svc subnet ips enet (V (world s''))) s'" by simp
  qed
qed

lemma provisioning:
  fixes E :: "'w env"
  assumes laws: "cloud_laws E c tenant ns name (cf_vip_net cfg) K tick V"
    and config: "config_stands E L tenant cfg c x V" and networks: "networks_stand E cfg c subnet ips enet x V"
    and svc: "wants_lb ns name cfg svc" and t: "tended tenant cfg svc x (V (world s))"
    and n: "budget K svc ips subnet (V (world s)) + 1 < n"
  shows "wp (passes n tick (reconcile E L tenant ns name)) (\<lambda>_ s'.
     served tenant cfg svc subnet ips enet (V (world s')) \<and>
     wp (reconcile E L tenant ns name) (\<lambda>r s''. r = Inr member_resync_after \<and>
        served tenant cfg svc subnet ips enet (V (world s''))) s') s"
  by (rule provisioning_with [OF laws octavia_background [OF cloud_lawsD(5) [OF laws]] config networks svc t n])

end
