(* ===== verification/Teardown.thy ===== *)
theory Teardown
  imports Provision
begin

text \<open>
  A claimed Service that no longer wants its balancer, deleted or not, is taken down: under the
  same laws repeated passes remove its rules, its floating IP, the balancer, its ingress and at
  last the finalizer. A pass that Octavia answers with a conflict, since the balancer is busy,
  fails and is made again.
\<close>

definition leaving :: "string \<Rightarrow> string \<Rightarrow> lb_config \<Rightarrow> service \<Rightarrow> bool" where
  "leaving ns name cfg svc \<longleftrightarrow> s_ns svc = ns \<and> s_name svc = name \<and>
     (s_deleting svc \<or> s_type svc \<noteq> ''LoadBalancer'' \<or> \<not> cf_enabled cfg)"

definition closed :: "string \<Rightarrow> lb_config \<Rightarrow> service \<Rightarrow> 'x life_scheme \<Rightarrow> bool" where
  "closed tenant cfg svc v \<longleftrightarrow> (let g = worker_group tenant cfg v in g \<noteq> '''' \<longrightarrow> owned_keys tenant svc (lf_rules v g) = {})"

definition torn_down :: "string \<Rightarrow> lb_config \<Rightarrow> service \<Rightarrow> string \<Rightarrow> 'x life_scheme \<Rightarrow> bool" where
  "torn_down tenant cfg svc vip_port v \<longleftrightarrow>
     lf_lb v = None \<and> lf_fips v vip_port = [] \<and> closed tenant cfg svc v \<and>
     (case lf_svc v of
        None \<Rightarrow> s_deleting svc
      | Some cur \<Rightarrow> finalizer_name \<notin> set (s_finalizers cur) \<and> s_ingress cur = [] \<and> is_service svc v)"

text \<open>What every pass keeps, and how many passes are left.\<close>

definition sound_parts :: "string \<Rightarrow> lb_config \<Rightarrow> service \<Rightarrow> string \<Rightarrow> 'x life_scheme \<Rightarrow> bool" where
  "sound_parts tenant cfg svc vip_port v \<longleftrightarrow> lb_sound v \<and> groups_ok v \<and> vip_port \<noteq> '''' \<and> length (lf_fips v vip_port) \<le> 1 \<and>
     (let g = worker_group tenant cfg v in g \<noteq> '''' \<longrightarrow> group_ok tenant svc (lf_rules v g)) \<and>
     (case lf_lb v of None \<Rightarrow> lf_fips v vip_port = [] | Some b \<Rightarrow> lb_vip_port b = vip_port)"

definition falling :: "string \<Rightarrow> lb_config \<Rightarrow> service \<Rightarrow> string \<Rightarrow> 'x \<Rightarrow> 'x life_scheme \<Rightarrow> bool" where
  "falling tenant cfg svc vip_port x v \<longleftrightarrow> life.more v = x \<and> sound_parts tenant cfg svc vip_port v \<and>
     (is_service svc v \<and> claimed v \<or> torn_down tenant cfg svc vip_port v)"

definition down_budget :: "nat \<Rightarrow> 'x life_scheme \<Rightarrow> nat" where
  "down_budget K v =
     (case lf_lb v of
        None \<Rightarrow> 0
      | Some b \<Rightarrow>
          if lb_status b = status_pending_delete then lf_busy v
          else if lb_status b = status_active then K + 1
          else lf_busy v + K + 2)"

lemma closed_cong:
  "lf_groups v' = lf_groups v \<Longrightarrow> lf_rules v' = lf_rules v \<Longrightarrow> closed tenant cfg svc v' = closed tenant cfg svc v"
  by (simp add: closed_def worker_group_def cluster_group_def)

section \<open>Octavia at work between passes\<close>

lemma tick_falling:
  assumes tick: "octavia_works tick V" and f: "falling tenant cfg svc p x (V w)" and none: "lf_fips (V w) p = []"
  shows "falling tenant cfg svc p x (V (tick w))"
    and "torn_down tenant cfg svc p (V w) \<Longrightarrow> torn_down tenant cfg svc p (V (tick w))"
    and "down_budget K (V (tick w)) \<le> down_budget K (V w)"
    and "lf_lb (V w) \<noteq> None \<Longrightarrow> 0 < lf_busy (V w) \<Longrightarrow> down_budget K (V (tick w)) < down_budget K (V w)"
proof -
  from f have s: "lb_sound (V w)" by (simp add: falling_def sound_parts_def)
  from tick_effect [OF tick s] obtain r k where e: "V (tick w) = (V w)\<lparr>lf_lb := r, lf_busy := k\<rparr>"
    "if lf_busy (V w) = 0 then k = 0 \<and> r = lf_lb (V w) else k < lf_busy (V w)"
    "case lf_lb (V w) of
        None \<Rightarrow> r = None
      | Some b \<Rightarrow>
          if lb_status b = status_pending_delete then r = None \<or> r = Some b \<and> 0 < k
          else \<exists>st. r = Some (b\<lparr>lb_status := st\<rparr>) \<and> settling k st" .
  let ?v = "V (tick w)"
  have cong: "is_service svc ?v = is_service svc (V w)" "claimed ?v = claimed (V w)"
    "worker_group tenant cfg ?v = worker_group tenant cfg (V w)" "closed tenant cfg svc ?v = closed tenant cfg svc (V w)"
    by (rule view_cong closed_cong; simp add: e(1))+
  have down: "torn_down tenant cfg svc p ?v = torn_down tenant cfg svc p (V w)" if "lf_lb (V w) = None"
  proof -
    have "lf_svc ?v = lf_svc (V w)" "lf_fips ?v = lf_fips (V w)" "lf_lb ?v = None" using e(3) that by (simp_all add: e(1))
    with that show ?thesis by (cases "lf_svc (V w)") (simp_all add: torn_down_def cong)
  qed
  have stays: "torn_down tenant cfg svc p (V w) \<Longrightarrow> lf_lb (V w) = None" by (simp add: torn_down_def)
  then show "torn_down tenant cfg svc p (V w) \<Longrightarrow> torn_down tenant cfg svc p ?v" using down by simp
  have "lb_sound ?v"
    using s e(2,3) by (auto simp: e(1) lb_sound_def settling_def split: option.splits if_splits)
  moreover have "case lf_lb ?v of None \<Rightarrow> lf_fips ?v p = [] | Some b \<Rightarrow> lb_vip_port b = p"
    using f none e(3) by (auto simp: e(1) falling_def sound_parts_def split: option.splits if_splits)
  ultimately have "sound_parts tenant cfg svc p ?v"
    using f by (simp add: falling_def sound_parts_def cong) (simp add: e(1) groups_ok_def)
  then show "falling tenant cfg svc p x ?v"
    using f down stays by (auto simp: falling_def cong) (simp_all add: e(1))
  have less: "down_budget K ?v < down_budget K (V w)" if "lf_lb (V w) \<noteq> None" "0 < lf_busy (V w)"
    using s e(2,3) that by (auto simp: e(1) down_budget_def lb_sound_def settling_def split: option.splits if_splits)
  then show "lf_lb (V w) \<noteq> None \<Longrightarrow> 0 < lf_busy (V w) \<Longrightarrow> down_budget K ?v < down_budget K (V w)" .
  have "down_budget K ?v = down_budget K (V w)" if "lf_lb (V w) = None \<or> lf_busy (V w) = 0"
    using e(2,3) that by (auto simp: e(1) down_budget_def split: option.splits)
  with less show "down_budget K ?v \<le> down_budget K (V w)"
    by (cases "lf_lb (V w) \<noteq> None \<and> 0 < lf_busy (V w)") (auto intro: less_imp_le)
qed

section \<open>The steps of a removal\<close>

lemma run_delete_fip:
  fixes E :: "'w env"
  assumes law: "fip_laws E c V" and p: "p \<noteq> ''''" and one: "length (lf_fips (V (world s)) p) \<le> 1"
    and Q: "\<And>fs s'. V (world s') = (V (world s))\<lparr>lf_fips := fs\<rparr> \<Longrightarrow> fs p = [] \<Longrightarrow> Q (Inr ()) s'"
  shows "wp (delete_floating_ip E c p) Q s"
proof -
  let ?v = "V (world s)"
  have look: "wp (case find (\<lambda>_. True) (lf_fips ?v p) of None \<Rightarrow> ret ()
     | Some f \<Rightarrow> check (m f) (del_fip E c (fp_id f)) ret) Q s1" if s1: "V (world s1) = ?v" for m :: "fip \<Rightarrow> string" and s1
  proof (cases "lf_fips ?v p")
    case Nil
    have "V (world s1) = ?v\<lparr>lf_fips := lf_fips ?v\<rparr>" using s1 by simp
    from Q [OF this] Nil show ?thesis by (simp add: wp_ret)
  next
    case (Cons f fs)
    with one have fs: "lf_fips ?v p = [f]" by simp
    have "\<exists>port. fp_id f \<in> fp_id ` set (lf_fips (V (world s1)) port)" using fs s1 by (intro exI [of _ p]) simp
    from law [unfolded fip_laws_def, THEN conjunct2, THEN conjunct2, rule_format, OF this]
    obtain w' where w': "n_del_fip (neutron E) c (fp_id f) (world s1) = (None, w')"
      "V w' = (V (world s1))\<lparr>lf_fips := (\<lambda>port. filter (\<lambda>g. fp_id g \<noteq> fp_id f) (lf_fips (V (world s1)) port))\<rparr>" by blast
    have "Q (Inr ()) s'" if "world s' = w'" for s'
    proof -
      have "V (world s') = ?v\<lparr>lf_fips := (\<lambda>port. filter (\<lambda>g. fp_id g \<noteq> fp_id f) (lf_fips ?v port))\<rparr>" using w'(2) that s1 by simp
      from Q [OF this] fs show ?thesis by simp
    qed
    with Cons w'(1) show ?thesis by (simp add: wp_simps)
  qed
  show ?thesis
    unfolding delete_floating_ip_def using p look
    by (simp only: if_False wp_check [of "''looking up FIP for delete''"]) (rule run_find_fip [OF law], simp only: sum.case)
qed

text \<open>
  Deleting the balancer: nothing to delete, or its floating IP goes first, and then the
  balancer if Octavia is ready for it.
\<close>

lemma run_delete_lb:
  fixes E :: "'w env"
  assumes laws: "octavia_reads E c (service_lb_name tenant (s_ns svc) (s_name svc)) V"
      "octavia_lb_laws E c (service_lb_name tenant (s_ns svc) (s_name svc)) K V" "fip_laws E c V"
    and p: "p \<noteq> ''''" "length (lf_fips (V (world s)) p) \<le> 1" "\<And>b. lf_lb (V (world s)) = Some b \<Longrightarrow> lb_vip_port b = p"
    and sound: "lb_sound (V (world s))"
    and none: "\<And>s'. lf_lb (V (world s)) = None \<Longrightarrow> V (world s') = V (world s) \<Longrightarrow> Q (Inr False) s'"
    and some: "\<And>b fs l k r s'. lf_lb (V (world s)) = Some b \<Longrightarrow> fs p = [] \<Longrightarrow>
       V (world s') = (V (world s))\<lparr>lf_fips := fs, lf_lb := l, lf_busy := k\<rparr> \<Longrightarrow>
       (if lb_status b = status_active then k \<le> K \<and> (l = None \<or> l = Some (b\<lparr>lb_status := status_pending_delete\<rparr>) \<and> 0 < k)
        else l = Some b \<and> k = lf_busy (V (world s))) \<Longrightarrow> r \<noteq> Inr False \<Longrightarrow> Q r s'"
  shows "wp (delete_lb E c tenant svc) Q s"
proof -
  let ?v = "V (world s)" let ?n = "service_lb_name tenant (s_ns svc) (s_name svc)"
  have managed: "is_managed b" if lb: "lf_lb ?v = Some b" for b
  proof -
    from laws(1) obtain pg where "pages_find (\<lambda>b. lb_name b = ?n) pg = Inr (Some b)"
      using laws(1) [unfolded octavia_reads_def, THEN conjunct1, rule_format, of "world s"] lb by auto
    from pages_find_Some [OF this] show ?thesis by (simp add: is_managed_def service_lb_name_def)
  qed
  have del: "wp (if lb_status b = status_pending_delete then ret True
      else check m (del_lb_cascade E c (lb_id b)) (\<lambda>_. ret True)) Q s2"
    if b: "lf_lb ?v = Some b" and s2: "V (world s2) = ?v\<lparr>lf_fips := fs\<rparr>" "fs p = []" for m :: string and b fs s2
  proof -
    have lb2: "lf_lb (V (world s2)) = Some b" using b s2 by simp
    have keep: "Q r s'" if "V (world s') = V (world s2)" "r \<noteq> Inr False" "lb_status b \<noteq> status_active" for r s'
      by (rule some [OF b, where fs = fs and l = "Some b" and k = "lf_busy ?v"]) (use that s2 b in simp_all)
    show ?thesis
    proof (cases "lb_status b = status_active")
      case True
      with laws(2) [unfolded octavia_lb_laws_def, THEN conjunct2, THEN conjunct1, rule_format, of "world s2" b] lb2
      obtain l k w' where d: "o_del_lb (octavia E) c (lb_id b) (world s2) = (None, w')" "k \<le> K"
        "l = None \<or> l = Some (b\<lparr>lb_status := status_pending_delete\<rparr>) \<and> 0 < k"
        "V w' = (V (world s2))\<lparr>lf_lb := l, lf_busy := k\<rparr>" by blast
      have "Q (Inr True) s'" if "world s' = w'" for s'
        by (rule some [OF b, where fs = fs and l = l and k = k]) (use d that s2 True in simp_all)
      with d(1) True show ?thesis by (simp add: wp_simps)
    next
      case False
      from sound b have "lb_status b \<noteq> status_error" by (simp add: lb_sound_def)
      with False laws(2) [unfolded octavia_lb_laws_def, THEN conjunct2, THEN conjunct2, rule_format, of "world s2" b] lb2
      obtain a w' where d: "o_del_lb (octavia E) c (lb_id b) (world s2) = (Some a, w')" "V w' = V (world s2)" by blast
      then show ?thesis using keep [OF _ _ False] by (simp add: wp_simps)
    qed
  qed
  show ?thesis
    unfolding delete_lb_def Let_def
  proof (rule run_check [where A = "\<lambda>y s'. y = lf_lb ?v \<and> V (world s') = ?v"])
    fix P :: "err + lb option \<Rightarrow> ('w, event) st \<Rightarrow> bool" assume "\<And>x s'. x = lf_lb ?v \<and> V (world s') = ?v \<Longrightarrow> P (Inr x) s'"
    then show "wp (find_lb_by_name E c ?n) P s" by (intro run_find_lb [OF laws(1)]) simp
  next
    fix y and s1 :: "('w, event) st" assume y: "y = lf_lb ?v \<and> V (world s1) = ?v"
    have "wp (check m1 (delete_floating_ip E c (lb_vip_port b)) (\<lambda>_. if lb_status b = status_pending_delete then ret True
      else check m (del_lb_cascade E c (lb_id b)) (\<lambda>_. ret True))) Q s1" if b: "lf_lb ?v = Some b" for m m1 :: string and b
      by (rule run_check [where A = "\<lambda>_ s'. \<exists>fs. V (world s') = ?v\<lparr>lf_fips := fs\<rparr> \<and> fs p = []"],
          simp only: p(3) [OF b], rule run_delete_fip [OF laws(3) p(1)])
         (use y p(2) del [OF b] in auto)
    with none y managed show "wp (case y of None \<Rightarrow> ret False | Some b \<Rightarrow>
            if \<not> is_managed b then
              throw (Msg (''refusing to delete LB '' @ lb_id b @ '': name does not carry the '' @
                managed_name_prefix @ '' prefix''))
            else check ''detaching FIP before LB delete'' (delete_floating_ip E c (lb_vip_port b)) (\<lambda>_.
              if lb_status b = status_pending_delete then ret True
              else check (''deleting LB '' @ lb_id b) (del_lb_cascade E c (lb_id b)) (\<lambda>_. ret True))) Q s1"
      by (auto simp: wp_ret split: option.split)
  qed
qed

lemma run_clear_status:
  assumes law: "tenant_laws E tenant (s_ns svc) (s_name svc) V" and svc: "lf_svc (V (world s)) = Some svc"
    and Q: "\<And>s'. V (world s') = (V (world s))\<lparr>lf_svc := Some (svc\<lparr>s_ingress := []\<rparr>)\<rparr> \<Longrightarrow> Q (Inr ()) s'"
  shows "wp (clear_status_ingress E tenant svc) Q s"
proof (cases "s_ingress svc = []")
  case True
  then have "svc\<lparr>s_ingress := []\<rparr> = svc" by simp
  then have "V (world s) = (V (world s))\<lparr>lf_svc := Some (svc\<lparr>s_ingress := []\<rparr>)\<rparr>" by (simp add: svc [symmetric])
  from Q [OF this] True show ?thesis by (simp add: clear_status_ingress_def wp_ret)
next
  case False
  have "wp (check m (patch_ingress E tenant (s_ns svc) (s_name svc) []) ret) Q s1" if "V (world s1) = V (world s)"
    for m :: string and s1
    unfolding wp_check by (rule run_patch_ingress [OF law]) (use that svc Q in \<open>simp_all add: wp_ret\<close>)
  with False show ?thesis
    unfolding clear_status_ingress_def wp_attempt [of "get_svc E tenant (s_ns svc) (s_name svc)"] if_not_P [OF False]
    by (intro run_get_svc [OF law svc]) simp
qed

lemma run_drop_finalizer:
  assumes law: "tenant_laws E tenant (s_ns svc) (s_name svc) V" and svc: "lf_svc (V (world s)) = Some cur"
    and claimed: "finalizer_name \<in> set (s_finalizers svc)"
    and Q: "\<And>fs s'. finalizer_name \<notin> set fs \<Longrightarrow>
      V (world s') = (V (world s))\<lparr>lf_svc := if s_deleting cur \<and> fs = [] then None else Some (cur\<lparr>s_finalizers := fs\<rparr>)\<rparr> \<Longrightarrow>
      Q (Inr 0) s'"
  shows "wp (drop_finalizer E tenant svc) Q s"
proof -
  let ?fs = "remove_string (s_finalizers svc) finalizer_name"
  have "wp (check m (patch_finalizers E tenant (s_ns svc) (s_name svc) ?fs) (\<lambda>_. ret 0)) Q s" for m :: string
    unfolding wp_check by (rule run_patch_finalizers [OF law svc]) (use Q [of ?fs] in \<open>simp add: wp_ret\<close>)
  with claimed show ?thesis by (simp add: drop_finalizer_def)
qed

lemma run_cleanup_group:
  fixes E :: "'w env"
  assumes law: "group_laws E c V" and Q: "\<And>s'. V (world s') = V (world s) \<Longrightarrow> Q (Inr (worker_group tenant cfg (V (world s)))) s'"
  shows "wp (resolve_cleanup_sgid E tenant c cfg) Q s"
proof (cases "cf_worker_sg cfg = ''''")
  case False
  with Q [of s] show ?thesis by (simp add: resolve_cleanup_sgid_def worker_group_def wp_ret)
next
  case True
  have "wp (lookup_cluster_security_group E c tenant) Q s"
    unfolding lookup_cluster_security_group_def wp_check
    by (rule run_find_sg [OF law]) (use Q in \<open>auto simp: worker_group_def cluster_group_def True wp_ret split: option.split\<close>)
  with True show ?thesis by (simp add: resolve_cleanup_sgid_def)
qed

lemma group_ok_filter: "group_ok tenant svc rs \<Longrightarrow> group_ok tenant svc (filter P rs)"
  by (auto simp: group_ok_def distinct_map_filter intro: inj_on_subset)

text \<open>The rules of the Service are gone, and nothing else of the group.\<close>

lemma run_close:
  fixes E :: "'w env"
  assumes law: "rule_laws E c V" "octavia_reads E c n V" and parts: "sound_parts tenant cfg svc p v" and v: "V (world s) = v"
    and Q: "\<And>rs s'. V (world s') = v\<lparr>lf_rules := rs\<rparr> \<Longrightarrow> closed tenant cfg svc (V (world s')) \<Longrightarrow>
       sound_parts tenant cfg svc p (V (world s')) \<Longrightarrow> Q (Inr ()) s'"
  shows "wp (if worker_group tenant cfg v = '''' then ret ()
    else check m (delete_node_port_rules E c (worker_group tenant cfg v) tenant svc) ret) Q s"
proof -
  let ?g = "worker_group tenant cfg v"
  show ?thesis
  proof (cases "?g = ''''")
    case True
    have "V (world s) = v\<lparr>lf_rules := lf_rules v\<rparr>" using v by simp
    from Q [OF this] True parts v show ?thesis by (simp add: closed_def wp_ret)
  next
    case False
    have "wp (check m (delete_node_port_rules E c ?g tenant svc) ret) Q s"
      unfolding wp_check
    proof (rule run_delete_rules [OF law _ False])
      show "group_ok tenant svc (lf_rules (V (world s)) ?g)" using parts False by (simp add: v sound_parts_def Let_def)
    next
      fix rs and s' :: "('w, event) st"
      assume "V (world s') = (V (world s))\<lparr>lf_rules := rs\<rparr>" and rs: "rs ?g = filter (\<lambda>r. \<not> rule_owned tenant svc r) (lf_rules (V (world s)) ?g)"
      then have s': "V (world s') = v\<lparr>lf_rules := rs\<rparr>" by (simp add: v)
      have wg: "worker_group tenant cfg (V (world s')) = ?g" using view_cong(3) [of "V (world s')" v] by (simp add: s')
      have "closed tenant cfg svc (V (world s'))" by (simp add: closed_def wg) (simp add: s' rs owned_keys_def)
      moreover have "sound_parts tenant cfg svc p (V (world s'))"
        using parts False group_ok_filter
        by (simp add: sound_parts_def wg) (simp add: s' rs v lb_sound_def groups_ok_def cong: option.case_cong)
      ultimately have "Q (Inr ()) s'" by (rule Q [OF s'])
      then show "case Inr () of Inl e \<Rightarrow> Q (Inl (Wrap m e)) s' | Inr x \<Rightarrow> wp (ret x) Q s'" by (simp add: wp_ret)
    qed
    with False show ?thesis by simp
  qed
qed

section \<open>One pass\<close>

definition down_step ::
  "nat \<Rightarrow> string \<Rightarrow> lb_config \<Rightarrow> service \<Rightarrow> string \<Rightarrow> 'x \<Rightarrow> 'x life_scheme \<Rightarrow> 'x life_scheme \<Rightarrow> bool" where
  "down_step K tenant cfg svc p x v v' \<longleftrightarrow> falling tenant cfg svc p x v' \<and> lf_fips v' p = [] \<and>
     (torn_down tenant cfg svc p v' \<or> \<not> torn_down tenant cfg svc p v \<and>
        (down_budget K v' < down_budget K v \<or>
         down_budget K v' \<le> down_budget K v \<and> lf_lb v' \<noteq> None \<and> 0 < lf_busy v'))"

lemma removed_step:
  assumes parts: "sound_parts tenant cfg svc p v1" "closed tenant cfg svc v1" and none: "lf_lb v1 = None"
    and x: "life.more v1 = x" and fs: "finalizer_name \<notin> set fs"
    and v': "v' = v1\<lparr>lf_svc := if s_deleting svc \<and> fs = [] then None else Some (svc\<lparr>s_ingress := [], s_finalizers := fs\<rparr>)\<rparr>"
  shows "down_step K tenant cfg svc p x v v'"
proof -
  have "is_service svc v'" if "lf_svc v' = Some cur" for cur
    unfolding is_service_def
    by (intro exI [of _ fs] exI [of _ "[]"]) (use that in \<open>auto simp: v' split: if_splits\<close>)
  moreover have "closed tenant cfg svc v' = closed tenant cfg svc v1" "worker_group tenant cfg v' = worker_group tenant cfg v1"
    by (rule closed_cong view_cong; simp add: v')+
  moreover have "sound_parts tenant cfg svc p v'"
    using parts(1) calculation(3) by (simp add: sound_parts_def) (simp add: v' lb_sound_def groups_ok_def cong: option.case_cong)
  moreover have "torn_down tenant cfg svc p v'"
    unfolding torn_down_def
  proof (intro conjI)
    show "case lf_svc v' of None \<Rightarrow> s_deleting svc
      | Some cur \<Rightarrow> finalizer_name \<notin> set (s_finalizers cur) \<and> s_ingress cur = [] \<and> is_service svc v'"
      using calculation(1) fs by (cases "lf_svc v'") (auto simp: v' split: if_splits)
    show "lf_fips v' p = []" "lf_lb v' = None" using parts(1) none by (simp_all add: sound_parts_def v')
    show "closed tenant cfg svc v'" using calculation(2) parts(2) by simp
  qed
  ultimately show ?thesis using parts(1) none x by (simp add: down_step_def falling_def) (simp add: v' sound_parts_def)
qed

lemma dropped_step:
  assumes parts: "sound_parts tenant cfg svc p v1" and v1: "v1 = v\<lparr>lf_rules := rs\<rparr>" and c: "claimed v" "is_service svc v"
    and x: "life.more v = x" and b: "lf_lb v = Some b" and fs: "fs p = []"
    and v': "v' = v1\<lparr>lf_fips := fs, lf_lb := l, lf_busy := k\<rparr>"
    and change: "if lb_status b = status_active then k \<le> K \<and> (l = None \<or> l = Some (b\<lparr>lb_status := status_pending_delete\<rparr>) \<and> 0 < k)
        else l = Some b \<and> k = lf_busy v1"
  shows "down_step K tenant cfg svc p x v v'"
proof -
  have sound: "lb_sound v" using parts by (simp add: sound_parts_def v1 lb_sound_def)
  have cong: "is_service svc v' = is_service svc v" "claimed v' = claimed v" "worker_group tenant cfg v' = worker_group tenant cfg v1"
    by (rule view_cong; simp add: v' v1)+
  have "lb_sound v'" using sound change b by (auto simp: v' v1 lb_sound_def split: if_splits)
  moreover have "case lf_lb v' of None \<Rightarrow> lf_fips v' p = [] | Some b \<Rightarrow> lb_vip_port b = p"
    using parts change b fs by (auto simp: sound_parts_def v' v1 split: if_splits option.splits)
  ultimately have "sound_parts tenant cfg svc p v'"
    using parts by (simp add: sound_parts_def cong) (simp add: v' fs groups_ok_def)
  moreover have "down_budget K v' < down_budget K v \<or> down_budget K v' \<le> down_budget K v \<and> lf_lb v' \<noteq> None \<and> 0 < lf_busy v'"
    using sound change b by (auto simp: down_budget_def v' v1 lb_sound_def split: if_splits)
  moreover have "\<not> torn_down tenant cfg svc p v" using b by (simp add: torn_down_def)
  ultimately show ?thesis using c x by (simp add: down_step_def falling_def cong) (simp add: v' v1 fs)
qed

definition removable :: "string \<Rightarrow> lb_config \<Rightarrow> service \<Rightarrow> string \<Rightarrow> 'x life_scheme \<Rightarrow> 'x life_scheme \<Rightarrow> bool" where
  "removable tenant cfg svc p v v1 \<longleftrightarrow> (\<exists>rs. v1 = v\<lparr>lf_rules := rs\<rparr>) \<and> closed tenant cfg svc v1 \<and> sound_parts tenant cfg svc p v1"

text \<open>The second half of a cleanup, over a group that holds no rule of the Service.\<close>

lemma run_remove:
  fixes E :: "'w env"
  assumes laws: "cloud_laws E c tenant ns name net K tick V"
    and svc: "s_ns svc = ns" "s_name svc = name" "lf_svc v = Some svc" "finalizer_name \<in> set (s_finalizers svc)"
    and x: "life.more v = x" and rem: "removable tenant cfg svc p v (V (world s))"
  shows "wp (check m1 (delete_lb E c tenant svc) (\<lambda>pending. if pending then ret pending_requeue
      else check m2 (clear_status_ingress E tenant svc) (\<lambda>_. drop_finalizer E tenant svc)))
    (\<lambda>_ s'. down_step K tenant cfg svc p x v (V (world s'))) s"
    (is "wp _ ?Q _")
proof -
  note law = cloud_lawsD [OF laws]
  have c: "claimed v" "is_service svc v" using svc is_serviceI(3) by (auto simp: claimed_def)
  from rem obtain rs where v1: "V (world s) = v\<lparr>lf_rules := rs\<rparr>" and cl: "closed tenant cfg svc (V (world s))"
    and p1: "sound_parts tenant cfg svc p (V (world s))" unfolding removable_def by blast
  show ?thesis
    unfolding wp_check [of m1]
  proof (rule run_delete_lb [OF law(2,3,6) [folded svc(1,2)]])
    show "p \<noteq> ''''" "length (lf_fips (V (world s)) p) \<le> 1" "\<And>b. lf_lb (V (world s)) = Some b \<Longrightarrow> lb_vip_port b = p"
      "lb_sound (V (world s))" using p1 by (auto simp: sound_parts_def)
  next
    fix s2 :: "('w, event) st" assume none: "lf_lb (V (world s)) = None" and s2: "V (world s2) = V (world s)"
    have "wp (check m2 (clear_status_ingress E tenant svc) (\<lambda>_. drop_finalizer E tenant svc)) ?Q s2"
    proof (rule run_check [where A = "\<lambda>_ s'. V (world s') = (V (world s))\<lparr>lf_svc := Some (svc\<lparr>s_ingress := []\<rparr>)\<rparr>"])
      fix P :: "err + unit \<Rightarrow> ('w, event) st \<Rightarrow> bool"
      assume "\<And>z s'. V (world s') = (V (world s))\<lparr>lf_svc := Some (svc\<lparr>s_ingress := []\<rparr>)\<rparr> \<Longrightarrow> P (Inr z) s'"
      then show "wp (clear_status_ingress E tenant svc) P s2"
        by (intro run_clear_status [OF law(1) [folded svc(1,2)]]) (use svc in \<open>simp_all add: s2 v1\<close>)
    next
      fix z and s3 :: "('w, event) st"
      assume s3: "V (world s3) = (V (world s))\<lparr>lf_svc := Some (svc\<lparr>s_ingress := []\<rparr>)\<rparr>"
      have lf: "lf_svc (V (world s3)) = Some (svc\<lparr>s_ingress := []\<rparr>)" by (simp add: s3)
      show "wp (drop_finalizer E tenant svc) ?Q s3"
        by (rule run_drop_finalizer [OF law(1) [folded svc(1,2)] lf svc(4)], rule removed_step [OF p1 cl none])
           (use x in \<open>simp_all add: s3 v1\<close>)
    qed
    then show "case Inr False of Inl e \<Rightarrow> ?Q (Inl (Wrap m1 e)) s2 | Inr pending \<Rightarrow> wp (if pending then ret pending_requeue
      else check m2 (clear_status_ingress E tenant svc) (\<lambda>_. drop_finalizer E tenant svc)) ?Q s2" by simp
  next
    fix b fs l k and r :: "err + bool" and s2 :: "('w, event) st"
    assume b: "lf_lb (V (world s)) = Some b" "fs p = []" and s2: "V (world s2) = (V (world s))\<lparr>lf_fips := fs, lf_lb := l, lf_busy := k\<rparr>"
      and ch: "if lb_status b = status_active then k \<le> K \<and> (l = None \<or> l = Some (b\<lparr>lb_status := status_pending_delete\<rparr>) \<and> 0 < k)
        else l = Some b \<and> k = lf_busy (V (world s))" and r: "r \<noteq> Inr False"
    have "lf_lb v = Some b" using b by (simp add: v1)
    from dropped_step [OF p1 v1 c x this b(2) s2 ch] r
    show "case r of Inl e \<Rightarrow> ?Q (Inl (Wrap m1 e)) s2 | Inr pending \<Rightarrow> wp (if pending then ret pending_requeue
      else check m2 (clear_status_ingress E tenant svc) (\<lambda>_. drop_finalizer E tenant svc)) ?Q s2"
      by (cases r) (auto simp: wp_ret)
  qed
qed

lemma run_cleanup:
  fixes E :: "'w env"
  assumes laws: "cloud_laws E c tenant ns name net K tick V" and clients: "steady V x (new_clients E (cf_creds cfg)) c"
    and svc: "s_ns svc = ns" "s_name svc = name" "lf_svc v = Some svc" "finalizer_name \<in> set (s_finalizers svc)"
    and parts: "sound_parts tenant cfg svc p v" and x: "life.more v = x" and v: "V (world s) = v"
  shows "wp (cleanup E tenant svc cfg) (\<lambda>_ s'. down_step K tenant cfg svc p x v (V (world s'))) s"
    (is "wp _ ?Q _")
proof -
  note law = cloud_lawsD [OF laws]
  let ?g = "worker_group tenant cfg v"
  have close: "wp (bind (if ?g = '''' then ret () else check m (delete_node_port_rules E c ?g tenant svc) ret) (\<lambda>_.
      check m1 (delete_lb E c tenant svc) (\<lambda>pending. if pending then ret pending_requeue
      else check m2 (clear_status_ingress E tenant svc) (\<lambda>_. drop_finalizer E tenant svc)))) ?Q s1"
    if s1: "V (world s1) = v" for m m1 m2 :: string and s1
    by (rule run_bind [where A = "\<lambda>_ s'. removable tenant cfg svc p v (V (world s'))"], rule run_close [OF law(7,2) parts s1])
       (blast intro: removable_def [THEN iffD2], rule run_remove [OF laws svc x])
  have "wp (check m0 (resolve_cleanup_sgid E tenant c cfg) (\<lambda>sgid.
      bind (if sgid = '''' then ret () else check m (delete_node_port_rules E c sgid tenant svc) ret) (\<lambda>_.
      check m1 (delete_lb E c tenant svc) (\<lambda>pending. if pending then ret pending_requeue
      else check m2 (clear_status_ingress E tenant svc) (\<lambda>_. drop_finalizer E tenant svc))))) ?Q s1"
    if s1: "V (world s1) = v" for m0 m m1 m2 :: string and s1
    by (rule run_check [where A = "\<lambda>g s'. g = ?g \<and> V (world s') = v"], rule run_cleanup_group [OF law(8)])
       (use s1 close in auto)
  then show ?thesis
    unfolding cleanup_def using svc(4) by (simp only: contains_string_iff simp_thms if_False) (rule steady_check [OF clients x v])
qed

section \<open>All passes\<close>

lemma torn_down_rest:
  assumes t: "torn_down tenant cfg svc p v" and f: "falling tenant cfg svc p x v"
  shows "down_step K tenant cfg svc p x v v"
  using assms by (simp add: down_step_def torn_down_def)

lemma same_down:
  fixes v :: "'x life_scheme"
  assumes cur: "cur = svc\<lparr>s_finalizers := fs, s_ingress := ings\<rparr>"
  shows "sound_parts tenant cfg cur p v = sound_parts tenant cfg svc p v"
    and "down_step K tenant cfg cur p x v v' \<Longrightarrow> lf_svc v = Some cur \<Longrightarrow> down_step K tenant cfg svc p x v v'"
proof -
  have parts: "sound_parts tenant cfg cur p u = sound_parts tenant cfg svc p u"
    and closed: "closed tenant cfg cur u = closed tenant cfg svc u" for u :: "'x life_scheme"
    by (simp_all add: sound_parts_def closed_def same_service [OF cur])
  from parts show "sound_parts tenant cfg cur p v = sound_parts tenant cfg svc p v" .
  have is_svc: "is_service cur u = is_service svc u" for u :: "'x life_scheme" by (auto simp: is_service_def cur)
  have "torn_down tenant cfg cur p u = torn_down tenant cfg svc p u" for u :: "'x life_scheme"
    by (cases "lf_svc u") (simp_all add: torn_down_def closed is_svc same_service(4) [OF cur])
  then show "down_step K tenant cfg cur p x v v' \<Longrightarrow> lf_svc v = Some cur \<Longrightarrow> down_step K tenant cfg svc p x v v'"
    by (simp add: down_step_def falling_def parts is_svc)
qed

lemma run_reconcile_down:
  fixes E :: "'w env"
  assumes laws: "cloud_laws E c tenant ns name net K tick V" and config: "config_stands E L tenant cfg c x V"
    and svc: "leaving ns name cfg svc" and f: "falling tenant cfg svc p x v" and v: "V (world s) = v"
  shows "wp (reconcile E L tenant ns name) (\<lambda>_ s'. down_step K tenant cfg svc p x v (V (world s'))) s"
    (is "wp _ ?Q _")
proof (cases "lf_svc v")
  case None
  then have t: "torn_down tenant cfg svc p v" using f by (auto simp: falling_def is_service_def)
  have "?Q (Inr 0) s'" if "V (world s') = v" for s' using torn_down_rest [OF t f] that by simp
  then show ?thesis
    unfolding reconcile_def wp_attempt [of "get_svc E tenant ns name"]
    by (intro run_get_svc_gone [OF cloud_lawsD(1) [OF laws]]) (use None v in \<open>simp_all add: wp_ret\<close>)
next
  case (Some cur)
  from f have x: "life.more v = x" and parts: "sound_parts tenant cfg svc p v" by (simp_all add: falling_def)
  from f Some have "is_service svc v" by (auto simp: falling_def torn_down_def)
  with Some obtain fs ings where cur: "cur = svc\<lparr>s_finalizers := fs, s_ingress := ings\<rparr>" by (auto simp: is_service_def)
  from svc have w: "s_ns cur = ns" "s_name cur = name" "s_deleting cur \<or> s_type cur \<noteq> ''LoadBalancer'' \<or> \<not> cf_enabled cfg"
    by (auto simp: leaving_def cur)
  have rest: "?Q r s'" if "V (world s') = v" "finalizer_name \<notin> set (s_finalizers cur)" for r s'
  proof -
    have "torn_down tenant cfg svc p v" using f that Some by (auto simp: falling_def claimed_def)
    with torn_down_rest [OF this f] that show ?thesis by simp
  qed
  have clean: "wp (cleanup E tenant cur cfg) ?Q s2" if s2: "V (world s2) = v" for s2
  proof (cases "finalizer_name \<in> set (s_finalizers cur)")
    case True
    have "steady V x (new_clients E (cf_creds cfg)) c" using config by (simp add: config_stands_def)
    moreover have "sound_parts tenant cfg cur p v" using parts by (simp add: same_down(1) [OF cur])
    ultimately show ?thesis
      by (intro wp_mono [OF run_cleanup [OF laws _ w(1,2) Some True _ x s2, of cfg p]] same_down(2) [OF cur _ Some])
  next
    case False
    with rest [OF s2] show ?thesis by (simp add: cleanup_def wp_ret)
  qed
  have hr: "steady V x (is_helm_release_deleting E tenant) False" using config by (simp add: config_stands_def)
  have conf: "wp (reconcile_config E tenant cur cfg) ?Q s2" if s2: "V (world s2) = v" for s2
    unfolding reconcile_config_def
    by (rule steady_check [OF hr x s2]) (use w clean rest in \<open>auto simp: Let_def wp_ret\<close>)
  have res: "steady V x (resolve E L tenant) cfg" using config by (simp add: config_stands_def)
  have "wp (attempt (resolve E L tenant) (\<lambda>r. case r of
     Inl e \<Rightarrow> if is_not_found e then drop_finalizer E tenant cur else throw (Wrap m e)
   | Inr cfg \<Rightarrow> reconcile_config E tenant cur cfg)) ?Q s1" if s1: "V (world s1) = v" for m :: string and s1
    unfolding wp_attempt
    by (rule run_steady [OF res]) (use x s1 conf in simp_all)
  then show ?thesis
    unfolding reconcile_def wp_attempt [of "get_svc E tenant ns name"]
    by (intro run_get_svc [OF cloud_lawsD(1) [OF laws]]) (use Some v rest in \<open>auto simp: wp_ret\<close>)
qed

lemma tearing_down:
  fixes E :: "'w env"
  assumes laws: "cloud_laws E c tenant ns name net K tick V" and config: "config_stands E L tenant cfg c x V"
    and svc: "leaving ns name cfg svc" and f: "falling tenant cfg svc p x (V (world s))"
    and n: "down_budget K (V (world s)) < n"
  shows "wp (passes n tick (reconcile E L tenant ns name)) (\<lambda>_ s'. torn_down tenant cfg svc p (V (world s'))) s"
proof -
  note tick = cloud_lawsD(5) [OF laws]
  let ?m = "reconcile E L tenant ns name" and ?J = "falling tenant cfg svc p x" and ?U = "torn_down tenant cfg svc p"
  note pass = run_reconcile_down [OF laws config svc _ refl]
  have "wp (passes n tick ?m) (\<lambda>_ s'. ?J (V (world s')) \<and> ?U (V (world s'))) s"
  proof (rule passes_reach [where f = "down_budget K"])
    fix s :: "('w, event) st" assume J: "?J (V (world s))"
    show "wp ?m (\<lambda>_ s'. ?J (V (tick (world s'))) \<and>
       (?U (V (tick (world s'))) \<or> down_budget K (V (tick (world s'))) < down_budget K (V (world s)))) s"
    proof (rule wp_mono [OF pass [OF J]])
      fix r and s' :: "('w, event) st" assume d: "down_step K tenant cfg svc p x (V (world s)) (V (world s'))"
      then have J': "?J (V (world s'))" and none: "lf_fips (V (world s')) p = []" by (simp_all add: down_step_def)
      note t = tick_falling [OF tick J' none]
      from d t(1) t(2) t(3,4) [of K] show "?J (V (tick (world s'))) \<and>
        (?U (V (tick (world s'))) \<or> down_budget K (V (tick (world s'))) < down_budget K (V (world s)))"
        by (auto simp: down_step_def)
    qed
  next
    fix s :: "('w, event) st" assume J: "?J (V (world s))" and U: "?U (V (world s))"
    show "wp ?m (\<lambda>_ s'. ?U (V (tick (world s')))) s"
      by (rule wp_mono [OF pass [OF J]]) (use U tick_falling(2) [OF tick] in \<open>auto simp: down_step_def\<close>)
  qed (use f n in auto)
  then show ?thesis by (rule wp_mono) simp
qed

end
