(* ===== verification/SimLaws.thy ===== *)
theory SimLaws
  imports Sim Teardown
begin

text \<open>
  The simulated clouds keep the laws, all at once: what the convergence of a Service assumes of
  OpenStack and the API servers can hold together.
\<close>

definition sim_life :: "string \<Rightarrow> sim \<Rightarrow> site life_scheme" where
  "sim_life n w = \<lparr>lf_svc = sim_svc w,
     lf_lb = (case sim_lb w of None \<Rightarrow> None | Some b \<Rightarrow> if lb_name b = n then Some b else None),
     lf_busy = sim_busy w, lf_listeners = sim_listeners w, lf_pools = sim_pools w, lf_members = sim_members w,
     lf_fips = (\<lambda>p. of_key p (sim_fips w)), lf_groups = sim_groups w, lf_rules = (\<lambda>g. of_key g (sim_rules w)),
     lf_ports = sim_ports w, \<dots> = sim_site w\<rparr>"

lemmas sim_life_defs = sim_life_def sim_ports_def

lemma of_key_append: "of_key k (xs @ ys) = of_key k xs @ of_key k ys"
  by (simp add: of_key_def)

lemma of_key_single: "of_key k [(i, x)] = (if i = k then [x] else [])"
  by (simp add: of_key_def)

lemma of_key_filter: "of_key k (filter (\<lambda>(_, x). P x) xs) = filter P (of_key k xs)"
  by (induction xs) (auto simp: of_key_def)

lemma of_key_drop: "of_key k (filter (\<lambda>(i, _). i \<noteq> j) xs) = (if k = j then [] else of_key k xs)"
  by (induction xs) (auto simp: of_key_def)

lemma of_key_set: "(\<exists>k. x \<in> set (of_key k xs)) \<longleftrightarrow> x \<in> snd ` set xs"
  by (force simp: of_key_def)

lemma of_key_none: "k \<notin> fst ` set xs \<Longrightarrow> of_key k xs = []"
  by (force simp: of_key_def filter_empty_conv)

lemma of_key_ids: "set (of_key k xs) \<subseteq> snd ` set xs"
  by (auto simp: of_key_def)

lemma ready_lbD: "ready_lb w = Some i \<Longrightarrow> \<exists>b. sim_lb w = Some b \<and> lb_status b = status_active \<and> lb_id b = i"
  by (auto simp: ready_lb_def status_active_def split: option.splits if_splits)

lemma ready_if: "accepts (sim_life n w) i \<Longrightarrow> ready_lb w = Some i"
  by (auto simp: accepts_def sim_life_defs ready_lb_def status_active_def split: option.splits if_splits)

section \<open>One law after the other\<close>

lemma sim_tenant: "tenant_laws sim_env tenant ns name (sim_life n)"
  by (auto simp: tenant_laws_def sim_env_def sim_life_defs sim_patch_finalizers_def sim_patch_ingress_def not_found_def
      split: option.split)

lemma sim_reads: "octavia_reads sim_env c n (sim_life n)"
  by (auto simp: octavia_reads_def sim_env_defs sim_life_defs split: option.split)

lemma sim_lb_laws: "octavia_lb_laws sim_env c n 1 (sim_life n)"
  unfolding octavia_lb_laws_def
proof (intro conjI allI impI, goal_cases)
  case (1 opts w)
  have "of_key (fresh_id (map fst (sim_fips w))) (sim_fips w) = []"
    using fresh_id [of "map fst (sim_fips w)"] by (intro of_key_none) simp
  moreover have "fresh_id (map fst (sim_fips w)) \<noteq> ''''" by (simp add: fresh_id_def)
  ultimately show ?case using 1
    by (intro exI [of _ "sim_new_lb opts w"] exI [of _ 1])
       (auto simp: sim_env_defs sim_life_defs sim_new_lb_def settling_def status_error_def status_pending_delete_def
          status_active_def)
next
  case (2 b w)
  then have "ready_lb w = Some (lb_id b)" using ready_if [of n w "lb_id b"] by (auto simp: accepts_def)
  with 2 show ?case
    by (intro exI [of _ "Some (b\<lparr>lb_status := status_pending_delete\<rparr>)"] exI [of _ 1])
       (auto simp: sim_env_defs sim_del_lb_def sim_life_defs status_pending_delete_def split: option.splits if_splits)
next
  case (3 b w)
  then have "\<not> (ready_lb w = Some (lb_id b) \<or> map_option (\<lambda>b. (lb_id b, lb_status b)) (sim_lb w) = Some (lb_id b, ''ERROR''))"
    by (auto simp: sim_life_defs ready_lb_def status_active_def status_error_def split: option.splits if_splits)
  then show ?case by (auto simp: sim_env_defs sim_del_lb_def)
qed

lemma touch_busy: "busy_with 1 (sim_life n w) (sim_life n (touch w))"
  unfolding busy_with_def
  by (intro exI [of _ "''PENDING_UPDATE''"] exI [of _ 1])
     (auto simp: settling_def status_error_def status_pending_delete_def status_active_def sim_life_defs touch_def
        sim_ports_def split: option.split)

lemma sim_changes: "octavia_changes sim_env c 1 (sim_life n)"
  unfolding octavia_changes_def
proof (intro conjI allI impI, goal_cases)
  case (1 opts i w)
  then have r: "ready_lb w = Some (lso_lb opts)" and i: "lso_lb opts = i" using ready_if by auto
  have f: "ls_id (sim_listener opts w) \<notin> ls_id ` set (sim_listeners w i)"
    "ls_id (sim_listener opts w) \<notin> \<Union> ((\<lambda>q. set (pl_listeners q)) ` set (sim_pools w i))"
    using fresh_id [of "map ls_id (sim_listeners w i) @ concat (map pl_listeners (sim_pools w i))"]
    by (auto simp: sim_listener_def i)
  have "busy_with 1 (sim_life n (w\<lparr>sim_listeners := (sim_listeners w)(i := sim_listeners w i @ [sim_listener opts w])\<rparr>))
     (sim_life n (touch (w\<lparr>sim_listeners := (sim_listeners w)(i := sim_listeners w i @ [sim_listener opts w])\<rparr>)))"
    by (rule touch_busy)
  then show ?case
    using r f by (auto simp: sim_env_defs sim_create_listener_def i sim_life_defs sim_listener_def)
next
  case (2 opts i w)
  then have r: "ready_lb w = Some i" using ready_if by auto
  have f: "pl_id (sim_pool opts i w) \<notin> pl_id ` set (sim_pools w i)"
    using fresh_id [of "map pl_id (sim_pools w i)"] by (auto simp: sim_pool_def)
  have "busy_with 1 (sim_life n (w\<lparr>sim_pools := (sim_pools w)(i := sim_pools w i @ [sim_pool opts i w])\<rparr>))
     (sim_life n (touch (w\<lparr>sim_pools := (sim_pools w)(i := sim_pools w i @ [sim_pool opts i w])\<rparr>)))"
    by (rule touch_busy)
  then show ?case
    using r f by (auto simp: sim_env_defs sim_create_pool_def sim_life_defs sim_pool_def)
next
  case (3 i j w)
  then have r: "ready_lb w = Some i" using ready_if by auto
  have "busy_with 1 (sim_life n (w\<lparr>sim_listeners := (sim_listeners w)(i := filter (\<lambda>l. ls_id l \<noteq> j) (sim_listeners w i))\<rparr>))
     (sim_life n (touch (w\<lparr>sim_listeners := (sim_listeners w)(i := filter (\<lambda>l. ls_id l \<noteq> j) (sim_listeners w i))\<rparr>)))"
    by (rule touch_busy)
  then show ?case
    using r by (auto simp: sim_env_defs sim_del_listener_def sim_life_defs intro!: exI [of _ "\<lambda>_. True"])
next
  case (4 i j ms w)
  then have r: "ready_lb w = Some i" using ready_if by auto
  have "busy_with 1 (sim_life n (w\<lparr>sim_members := (sim_members w)(j := map sim_member ms)\<rparr>))
     (sim_life n (touch (w\<lparr>sim_members := (sim_members w)(j := map sim_member ms)\<rparr>)))"
    by (rule touch_busy)
  then show ?case
    using r by (auto simp: sim_env_defs sim_set_members_def sim_life_defs sim_member_def
        intro!: exI [of _ "map sim_member ms"])
qed

lemma sim_works: "octavia_works sim_tick (sim_life n)"
  unfolding octavia_works_def
proof (intro allI impI)
  fix w assume s: "lb_sound (sim_life n w)"
  show "\<exists>r k. sim_life n (sim_tick w) = (sim_life n w)\<lparr>lf_lb := r, lf_busy := k\<rparr> \<and>
     (if lf_busy (sim_life n w) = 0 then k = 0 \<and> r = lf_lb (sim_life n w) else k < lf_busy (sim_life n w)) \<and>
     (case lf_lb (sim_life n w) of
        None \<Rightarrow> r = None
      | Some b \<Rightarrow>
          if lb_status b = status_pending_delete then r = None \<or> r = Some b \<and> 0 < k
          else \<exists>st. r = Some (b\<lparr>lb_status := st\<rparr>) \<and> settling k st)"
    by (intro exI [of _ "lf_lb (sim_life n (sim_tick w))"] exI [of _ "sim_busy (sim_tick w)"])
       (use s in \<open>auto simp: sim_life_defs sim_tick_def sim_ports_def lb_sound_def settling_def status_error_def
          status_pending_delete_def status_active_def intro!: exI [of _ "lb_status (the (sim_lb (sim_tick w)))"]
          split: option.splits if_splits\<close>)
qed

lemma sim_fip_laws: "fip_laws sim_env c (sim_life n)"
  unfolding fip_laws_def
proof (intro conjI allI impI, goal_cases)
  case (1 port w)
  show ?case by (auto simp: sim_env_defs split: option.split) (auto simp: sim_life_defs)
next
  case (2 opts w)
  then have e: "of_key (fo_port opts) (sim_fips w) = []" by (simp add: sim_life_def)
  have "(\<lambda>p. of_key p (sim_fips w @ [(fo_port opts, sim_fip opts w)])) =
     (\<lambda>p. of_key p (sim_fips w))(fo_port opts := [sim_fip opts w])"
    using e by (auto simp: fun_eq_iff of_key_append of_key_single)
  moreover have "fp_id (sim_fip opts w) \<notin> fp_id ` set (of_key port (sim_fips w))" for port
    using fresh_id [of "map (fp_id \<circ> snd) (sim_fips w)"] of_key_ids [of port "sim_fips w"]
    by (force simp: sim_fip_def)
  ultimately show ?case by (auto simp: sim_env_defs sim_life_defs sim_fip_def)
next
  case (3 i w)
  show ?case by (auto simp: sim_env_defs sim_life_defs of_key_filter)
qed

lemma sim_rule_laws: "rule_laws sim_env c (sim_life n)"
  unfolding rule_laws_def
proof (intro conjI allI, goal_cases)
  case (1 g w)
  show ?case by (auto simp: sim_env_defs sim_life_def)
next
  case (2 i w)
  have "(\<exists>g. i \<in> ru_id ` set (lf_rules (sim_life n w) g)) \<longleftrightarrow> list_ex (\<lambda>(_, r). ru_id r = i) (sim_rules w)"
  proof -
    have "(\<exists>g. i \<in> ru_id ` set (of_key g (sim_rules w))) \<longleftrightarrow> (\<exists>r. ru_id r = i \<and> (\<exists>g. r \<in> set (of_key g (sim_rules w))))" by blast
    also have "\<dots> \<longleftrightarrow> (\<exists>r. ru_id r = i \<and> r \<in> snd ` set (sim_rules w))" by (simp only: of_key_set)
    also have "\<dots> \<longleftrightarrow> list_ex (\<lambda>(_, r). ru_id r = i) (sim_rules w)" by (force simp: list_ex_iff)
    finally show ?thesis by (simp add: sim_life_def)
  qed
  then show ?case by (auto simp: sim_env_defs sim_life_defs of_key_filter)
next
  case (3 opts w)
  have same: "same_match = rule_match" by (simp add: fun_eq_iff same_match_def rule_match_def)
  have "rule_of_opts opts (sim_rule opts w)" by (simp add: rule_of_opts_def sim_rule_def)
  moreover have "ru_id (sim_rule opts w) \<notin> ru_id ` set (of_key (ro_sg opts) (sim_rules w))"
    using fresh_id [of "map (ru_id \<circ> snd) (sim_rules w)"] of_key_ids [of "ro_sg opts" "sim_rules w"]
    by (auto simp: sim_rule_def)
  moreover have "(\<lambda>g. of_key g (sim_rules w @ [(ro_sg opts, sim_rule opts w)])) =
     (\<lambda>g. of_key g (sim_rules w))(ro_sg opts := of_key (ro_sg opts) (sim_rules w) @ [sim_rule opts w])"
    by (auto simp: fun_eq_iff of_key_append of_key_single)
  ultimately show ?case by (auto simp: sim_env_defs sim_life_defs same)
qed

lemma sim_group_laws: "group_laws sim_env c (sim_life n)"
  unfolding group_laws_def
proof (intro conjI allI, goal_cases)
  case (1 m w)
  have "find (\<lambda>g. sg_name g = m) (filter (\<lambda>g. m = sg_name g) gs) = find (\<lambda>g. sg_name g = m) gs" for gs :: "sgroup list"
    by (induction gs) auto
  then show ?case by (auto simp: sim_env_defs sim_life_def split: option.split)
next
  case (2 m d w)
  let ?g = "\<lparr>sg_id = fresh_id (map sg_id (sim_groups w)), sg_name = m\<rparr>"
  have "(\<lambda>g. of_key g (filter (\<lambda>(i, _). i \<noteq> sg_id ?g) (sim_rules w))) = (\<lambda>g. of_key g (sim_rules w))(sg_id ?g := [])"
    by (auto simp: fun_eq_iff of_key_drop)
  moreover have "sg_id ?g \<notin> sg_id ` set (sim_groups w)" using fresh_id [of "map sg_id (sim_groups w)"] by simp
  moreover have "sg_id ?g \<noteq> ''''" by (simp add: fresh_id_def)
  ultimately show ?case
    by (intro exI [of _ ?g] exI [of _ "[]"]) (simp add: sim_env_defs sim_life_defs Let_def)
qed

lemma sim_port_laws: "port_laws sim_env c net (sim_life n)"
  unfolding port_laws_def
proof (intro conjI allI impI, goal_cases)
  case (1 ip w)
  have "find (\<lambda>_. True) (filter (\<lambda>p. ip \<in> set (pt_ips p)) ps) = find (\<lambda>p. ip \<in> set (pt_ips p)) ps" for ps :: "nport list"
    by (induction ps) auto
  then show ?case by (auto simp: sim_env_defs sim_life_def split: option.split)
next
  case (2 i sgs w)
  show ?case by (auto simp: sim_env_defs sim_life_defs set_port_sgs_def)
qed

lemma sim_laws: "cloud_laws sim_env c tenant ns name net 1 sim_tick (sim_life (service_lb_name tenant ns name))"
  unfolding cloud_laws_def Let_def
  by (intro conjI sim_tenant sim_reads sim_lb_laws sim_changes sim_works sim_fip_laws sim_rule_laws sim_group_laws
      sim_port_laws)

section \<open>A tenant's site\<close>

text \<open>The object of the tenant asks for a balancer with the given network and worker group.\<close>

definition sim_ksc :: "string \<Rightarrow> string \<Rightarrow> kobj" where
  "sim_ksc fip_net worker_sg = \<lparr>ko_ns = tenant_namespace,
     ko_str = (\<lambda>p. if p = os_field ''authURL'' then ''https://keystone'' else if p = os_field ''regionName'' then ''r1''
        else if p = os_field ''applicationCredentialID'' then ''id''
        else if p = os_field ''applicationCredentialSecret'' then ''s''
        else if p = lb_field ''vipNetworkID'' then ''net'' else if p = lb_field ''floatingNetworkID'' then fip_net
        else if p = lb_field ''workerSecurityGroupID'' then worker_sg else ''''),
     ko_bool = (\<lambda>p. p = lb_field ''enabled''), ko_strs = (\<lambda>_. [''10.0.0.0/24''])\<rparr>"

definition sim_tenant_site :: "string \<Rightarrow> string \<Rightarrow> site" where
  "sim_tenant_site fip_net worker_sg = \<lparr>si_ksc = Some (sim_ksc fip_net worker_sg), si_secrets = [],
     si_hrs = [\<lparr>hr_ns = tenant_namespace, hr_name = ''kubernetes-switchcloud-t1'',
        hr_labels = [''apps.cozystack.io/application.name'' \<mapsto> ''t1''], hr_finalizers = [], hr_deleting = False\<rparr>], si_nics = [(''nic'', [''10.0.0.11''])]\<rparr>"

definition sim_config :: "string \<Rightarrow> string \<Rightarrow> lb_config" where
  "sim_config fip_net worker_sg = \<lparr>cf_enabled = True, cf_provider = '''', cf_vip_net = ''net'', cf_fip_net = fip_net,
     cf_fip_subnet = '''', cf_worker_sg = worker_sg, cf_cidrs = [''10.0.0.0/24''], cf_creds = sim_creds,
     cf_misconfigured = ''''\<rparr>"

definition sim_lib :: ksc_lib where
  "sim_lib = \<lparr>kl_clouds = (\<lambda>_. Inl ''no clouds'')\<rparr>"

lemma sim_cidr: "canon_cidr ''10.0.0.0/24'' = Some ''10.0.0.0/24''"
  by code_simp

lemma sim_resolve:
  "steady (sim_life n) (sim_tenant_site fip_net worker_sg) (resolve sim_env sim_lib tenant) (sim_config fip_net worker_sg)"
  unfolding steady_def
  by (auto simp: resolve_def resolve_credentials_def resolve_vip_network_def raw_cidrs_def Let_def wp_simps sim_env_defs
      sim_life_def sim_tenant_site_def sim_ksc_def os_field_def lb_field_def sim_cidr sim_config_def sim_creds_def)

lemma sim_hr:
  "steady (sim_life n) (sim_tenant_site fip_net worker_sg) (is_helm_release_deleting sim_env ''t1'') False"
  unfolding steady_def
  by (auto simp: is_helm_release_deleting_def helm_release_name_def wp_simps sim_env_defs sim_life_def sim_tenant_site_def)

lemma sim_new_clients: "steady (sim_life n) x (new_clients sim_env sim_creds) sim_clients"
  unfolding steady_def
  by (auto simp: new_clients_def wp_simps
      sim_env_defs sim_creds_def sim_clients_def)

lemma sim_stands:
  "config_stands sim_env sim_lib ''t1'' (sim_config fip_net worker_sg) sim_clients (sim_tenant_site fip_net worker_sg) (sim_life n)"
  "networks_stand sim_env (sim_config fip_net worker_sg) sim_clients ''sub4'' [''10.0.0.11''] ''ext'' (sim_tenant_site fip_net worker_sg) (sim_life n)"
proof -
  have c: "cf_creds (sim_config fip_net worker_sg) = sim_creds" by (simp add: sim_config_def)
  show "config_stands sim_env sim_lib ''t1'' (sim_config fip_net worker_sg) sim_clients (sim_tenant_site fip_net worker_sg) (sim_life n)"
    by (simp add: config_stands_def c sim_resolve sim_hr sim_new_clients)
  have n: "cf_vip_net (sim_config fip_net worker_sg) = ''net''" by (simp add: sim_config_def)
  have "steady (sim_life n) x (resolve_member_subnet sim_env sim_clients ''net'') ''sub4''" for x
    unfolding steady_def by (auto simp: resolve_member_subnet_def wp_simps sim_env_defs Let_def)
  moreover have "steady (sim_life n) (sim_tenant_site fip_net worker_sg) (list_worker_ips sim_env sim_clients ''net'') [''10.0.0.11'']"
    unfolding steady_def by (auto simp: list_worker_ips_def wp_simps sim_env_defs sim_life_def sim_ports_def sim_tenant_site_def)
  moreover have "steady (sim_life n) x (find_first_external_network sim_env sim_clients) ''ext''" for x
    unfolding steady_def by (auto simp: find_first_external_network_def wp_simps sim_env_defs)
  ultimately show "networks_stand sim_env (sim_config fip_net worker_sg) sim_clients ''sub4'' [''10.0.0.11''] ''ext''
      (sim_tenant_site fip_net worker_sg) (sim_life n)"
    by (simp add: networks_stand_def n)
qed

end
