(* ===== verification/Tracks.thy ===== *)
theory Tracks
  imports Calls
begin

text \<open>
  From evidence to the world. A property of the trace says that a program acts on evidence; this
  theory says what that is worth when the answers it gets are true. \<open>tracks T H I m\<close>: as long as no
  event of \<open>m\<close> does harm (\<open>H\<close>), every event tells the truth (\<open>T\<close>) and the invariant \<open>I\<close> of the
  world stands. A program that tracks, and whose every harmful event would need a lie before it,
  maintains \<open>I\<close>. The other actors of the world are part of its calls: \<open>I\<close> is what they rely on
  each other to keep.
\<close>

fun upto_harm :: "('e \<Rightarrow> bool) \<Rightarrow> ('e \<Rightarrow> bool) \<Rightarrow> 'e list \<Rightarrow> bool" where
  "upto_harm T H [] = True"
| "upto_harm T H (e # es) = (T e \<and> (H e \<or> upto_harm T H es))"

lemma upto_harm_append [simp]:
  "upto_harm T H (xs @ ys) \<longleftrightarrow> upto_harm T H xs \<and> (list_ex H xs \<or> upto_harm T H ys)"
  by (induction xs) auto

text \<open>Justified by what came before, all of it true: then there is no harm.\<close>

lemma no_harm:
  assumes "\<And>p e. list_all T p \<Longrightarrow> J p e \<Longrightarrow> T e \<Longrightarrow> \<not> H e"
    and "just J pre evs" "upto_harm T H evs" "list_all T pre"
  shows "\<not> list_ex H evs"
  using assms(2-4)
proof (induction evs arbitrary: pre)
  case (Cons e evs)
  then have "\<not> H e" using assms(1) [of pre e] by simp
  with Cons.IH [of "pre @ [e]"] Cons.prems show ?case by simp
qed simp

definition tracks ::
  "('e \<Rightarrow> bool) \<Rightarrow> ('e \<Rightarrow> bool) \<Rightarrow> ('w \<Rightarrow> bool) \<Rightarrow> ('w, 'e, 'a) io \<Rightarrow> bool" where
  "tracks T H I m \<longleftrightarrow> (\<forall>s. wp m (\<lambda>_ s'. \<exists>evs. trace s' = trace s @ evs \<and>
     (I (world s) \<longrightarrow> upto_harm T H evs \<and> (list_ex H evs \<or> I (world s')))) s)"

named_theorems track_rules \<open>rules for tracks, one per combinator\<close>

lemma tracks_ret [track_rules]: "tracks T H I (ret x)"
  by (simp add: tracks_def wp_ret)

lemma tracks_throw [track_rules]: "tracks T H I (throw e)"
  by (simp add: tracks_def wp_throw)

lemma tracks_attempt [track_rules]:
  fixes m :: "('w, 'e, 'a) io"
  assumes "tracks T H I m" and "\<And>r. tracks T H I (f r)"
  shows "tracks T H I (attempt m f)"
  unfolding tracks_def wp_attempt
proof
  fix s :: "('w, 'e) st"
  have "wp m (\<lambda>_ s'. \<exists>evs. trace s' = trace s @ evs \<and>
      (I (world s) \<longrightarrow> upto_harm T H evs \<and> (list_ex H evs \<or> I (world s')))) s"
    using assms(1) by (simp add: tracks_def)
  then show "wp m (\<lambda>r. wp (f r) (\<lambda>_ s'. \<exists>evs. trace s' = trace s @ evs \<and>
      (I (world s) \<longrightarrow> upto_harm T H evs \<and> (list_ex H evs \<or> I (world s'))))) s"
  proof (rule wp_mono, elim exE conjE)
    fix r and s' :: "('w, 'e) st" and evs
    assume s': "trace s' = trace s @ evs" "I (world s) \<longrightarrow> upto_harm T H evs \<and> (list_ex H evs \<or> I (world s'))"
    have "wp (f r) (\<lambda>_ s''. \<exists>evs. trace s'' = trace s' @ evs \<and>
      (I (world s') \<longrightarrow> upto_harm T H evs \<and> (list_ex H evs \<or> I (world s'')))) s'"
      using assms(2) by (simp add: tracks_def)
    then show "wp (f r) (\<lambda>_ s''. \<exists>evs. trace s'' = trace s @ evs \<and>
      (I (world s) \<longrightarrow> upto_harm T H evs \<and> (list_ex H evs \<or> I (world s'')))) s'"
    proof (rule wp_mono, elim exE conjE)
      fix r' and s'' :: "('w, 'e) st" and evs'
      assume "trace s'' = trace s' @ evs'"
        "I (world s') \<longrightarrow> upto_harm T H evs' \<and> (list_ex H evs' \<or> I (world s''))"
      with s' show "\<exists>evs. trace s'' = trace s @ evs \<and>
          (I (world s) \<longrightarrow> upto_harm T H evs \<and> (list_ex H evs \<or> I (world s'')))"
        by (intro exI [of _ "evs @ evs'"]) auto
    qed
  qed
qed

lemma tracks_bind [track_rules]:
  assumes "tracks T H I m" and "\<And>x. tracks T H I (f x)"
  shows "tracks T H I (bind m f)"
  unfolding bind_def using assms by (intro tracks_attempt) (auto intro: tracks_throw split: sum.splits)

lemma tracks_check [track_rules]:
  assumes "tracks T H I m" and "\<And>x. tracks T H I (f x)"
  shows "tracks T H I (check msg m f)"
  unfolding check_def using assms by (intro tracks_attempt) (auto intro: tracks_throw split: sum.splits)

text \<open>A call is honest when its answer is true and it keeps the invariant, or does harm.\<close>

definition honest ::
  "('e \<Rightarrow> bool) \<Rightarrow> ('e \<Rightarrow> bool) \<Rightarrow> ('w \<Rightarrow> bool) \<Rightarrow> ('r \<Rightarrow> 'e) \<Rightarrow> ('w \<Rightarrow> 'r \<times> 'w) \<Rightarrow> bool" where
  "honest T H I ev f \<longleftrightarrow> (\<forall>w. I w \<longrightarrow> T (ev (fst (f w))) \<and> (H (ev (fst (f w))) \<or> I (snd (f w))))"

lemma tracks_call [track_rules]: "honest T H I ev f \<Longrightarrow> tracks T H I (call f ev)"
  by (auto simp: tracks_def wp_call honest_def)

lemma tracks_draw [track_rules]: "(\<And>w. I w \<Longrightarrow> I (snd (f w))) \<Longrightarrow> tracks T H I (draw f)"
  by (simp add: tracks_def wp_draw)

lemma tracks_lift [track_rules]: "tracks T H I (lift_sum r)" "tracks T H I (lift_opt q)"
  by (auto simp: lift_sum_def lift_opt_def intro!: track_rules split: sum.split option.split)

lemma tracks_calls [track_rules]:
  "honest T H I evv fv \<Longrightarrow> tracks T H I (call_val fv evv)"
  "honest T H I evu fu \<Longrightarrow> tracks T H I (call_unit fu evu)"
  "honest T H I evi fi \<Longrightarrow> tracks T H I (call_items fi evi)"
  "honest T H I evi fi \<Longrightarrow> tracks T H I (call_find P fi evi)"
  unfolding call_val_def call_unit_def call_items_def call_find_def by (intro track_rules; assumption)+

lemma tracks_foreach [track_rules]: "(\<And>x. x \<in> set xs \<Longrightarrow> tracks T H I (f x)) \<Longrightarrow> tracks T H I (foreach xs f)"
  by (induction xs) (auto intro!: track_rules)

lemma tracks_fold_io [track_rules]:
  "(\<And>x a. x \<in> set xs \<Longrightarrow> tracks T H I (f x a)) \<Longrightarrow> tracks T H I (fold_io xs f a)"
  by (induction xs arbitrary: a) (auto intro!: track_rules)

lemma tracks_each_page [track_rules]: "(\<And>xs b. tracks T H I (f xs b)) \<Longrightarrow> tracks T H I (each_page p f b)"
  by (induction p f b rule: each_page.induct) (auto intro!: track_rules)

lemma tracks_if [track_rules]:
  "(b \<Longrightarrow> tracks T H I m) \<Longrightarrow> (\<not> b \<Longrightarrow> tracks T H I n) \<Longrightarrow> tracks T H I (if b then m else n)"
  by simp

lemma tracks_case_option [track_rules]:
  "tracks T H I m \<Longrightarrow> (\<And>x. tracks T H I (f x)) \<Longrightarrow> tracks T H I (case r of None \<Rightarrow> m | Some x \<Rightarrow> f x)"
  by (cases r) auto

lemma tracks_case_sum [track_rules]:
  "(\<And>e. tracks T H I (g e)) \<Longrightarrow> (\<And>x. tracks T H I (f x)) \<Longrightarrow> tracks T H I (case r of Inl e \<Rightarrow> g e | Inr x \<Rightarrow> f x)"
  by (cases r) auto

lemma tracks_case_prod [track_rules]:
  "(\<And>x y. tracks T H I (f x y)) \<Longrightarrow> tracks T H I (case r of (x, y) \<Rightarrow> f x y)"
  by (cases r) auto

lemma tracks_go_range [track_rules]: "(\<And>w. I w \<Longrightarrow> I (snd (map_seed E w))) \<Longrightarrow> tracks T H I (go_range E xs)"
  unfolding go_range_def by (intro track_rules)

text \<open>A program that acts on evidence only maintains what the evidence protects.\<close>

lemma tracks_maintains:
  fixes m :: "('w, 'e, 'a) io"
  assumes "tracks T H I m" and "every_run m Q"
    and "\<And>evs r. Q evs r \<Longrightarrow> upto_harm T H evs \<Longrightarrow> \<not> list_ex H evs"
  shows "maintains I m"
  unfolding maintains_wp
proof (intro allI impI)
  fix s :: "('w, 'e) st" assume I: "I (world s)"
  obtain r s' where m: "m s = (r, s')" by fastforce
  from assms(1) have "wp m (\<lambda>_ s'. \<exists>evs. trace s' = trace s @ evs \<and>
     (I (world s) \<longrightarrow> upto_harm T H evs \<and> (list_ex H evs \<or> I (world s')))) s" by (simp add: tracks_def)
  with I m obtain evs where "trace s' = trace s @ evs" "upto_harm T H evs" "list_ex H evs \<or> I (world s')"
    by (auto simp: wp_def)
  moreover from m every_runD [OF assms(2), of s] obtain evs' where "trace s' = trace s @ evs'" "Q evs' r" by auto
  ultimately show "wp m (\<lambda>r s'. I (world s')) s" using assms(3) m by (auto simp: wp_def)
qed

end
