(* ===== verification/Sparing.thy ===== *)
theory Sparing
  imports Tracks ClusterController
begin

text \<open>
  The sweeper against a world that tells the truth. What a live Service of a live cluster holds
  in OpenStack is named by the sweeper's own schemes; if listings show it under its name and the
  API servers do not deny it, a tick of the sweeper leaves it alone, whatever else it deletes and
  whatever other actors do meanwhile.
\<close>

section \<open>What a live Service holds\<close>

text \<open>
  The ids of the Service's balancers, of the ports of their VIPs, of its floating IPs, and of the
  security groups and servers of its cluster.
\<close>

record holding =
  ho_cluster :: string
  ho_ns :: string
  ho_name :: string
  ho_lbs :: "string set"
  ho_ports :: "string set"
  ho_fips :: "string set"
  ho_groups :: "string set"
  ho_servers :: "string set"

definition ho_tag :: "holding \<Rightarrow> string" where
  "ho_tag h = service_lb_name (ho_cluster h) (ho_ns h) (ho_name h)"

definition holding_ok :: "holding \<Rightarrow> bool" where
  "holding_ok h \<longleftrightarrow> tag_ok (ho_cluster h, ho_ns h, ho_name h)"

text \<open>
  What is true of an answer: a balancer of these ids or VIP ports carries the Service's name, a
  floating IP its tag and no port but the balancer's, a group and a server the cluster's name (or,
  a group that the configuration names, no name of the controller's); the cluster's HelmRelease
  is listed alive, and its API server knows the Service.
\<close>

definition truthful :: "holding \<Rightarrow> event \<Rightarrow> bool" where
  "truthful h e =
     (case e of
        Octavia _ (ListLBs _ p) \<Rightarrow> \<forall>b\<in>set (pages_seen p).
          lb_id b \<in> ho_lbs h \<or> lb_vip_port b \<in> ho_ports h \<longrightarrow> lb_name b = ho_tag h
      | Neutron _ (ListFIPs f p) \<Rightarrow> \<forall>x\<in>set (pages_seen p).
          fp_id x \<in> ho_fips h \<longrightarrow> fp_desc x = ho_tag h \<and> (\<forall>q. f = Some q \<longrightarrow> q \<in> ho_ports h)
      | Neutron _ (ListSGs _ p) \<Rightarrow> \<forall>g\<in>set (pages_seen p).
          sg_id g \<in> ho_groups h \<longrightarrow> sg_name g = cluster_sg_name (ho_cluster h) \<or> \<not> has_prefix (sg_name g) cluster_sg_name_prefix
      | Nova _ (ListServers p) \<Rightarrow> \<forall>v\<in>set (pages_seen p).
          sv_id v \<in> ho_servers h \<longrightarrow> has_prefix (sv_name v) (ksc_server_name_prefix @ ho_cluster h @ ''-'')
      | Mgmt (ListHRs ns (Inr hrs)) \<Rightarrow> ns = tenant_namespace \<longrightarrow> ho_cluster h \<in> set (live_clusters hrs)
      | Tenant t (GetSvc ns n (Inl a)) \<Rightarrow> (t, ns, n) = (ho_cluster h, ho_ns h, ho_name h) \<longrightarrow> \<not> ae_not_found a
      | _ \<Rightarrow> True)"

definition harms :: "holding \<Rightarrow> event \<Rightarrow> bool" where
  "harms h e =
     (case e of
        Octavia _ (DelLB i _) \<Rightarrow> i \<in> ho_lbs h
      | Neutron _ (DelFIP i _) \<Rightarrow> i \<in> ho_fips h
      | Neutron _ (DelSG i _) \<Rightarrow> i \<in> ho_groups h
      | Nova _ (DelServer i _) \<Rightarrow> i \<in> ho_servers h
      | Mgmt (DelSecret _ n _) \<Rightarrow> n = secret_name_of (ho_cluster h)
      | _ \<Rightarrow> False)"

abbreviation honest_call :: "holding \<Rightarrow> ('w \<Rightarrow> bool) \<Rightarrow> ('r \<Rightarrow> event) \<Rightarrow> ('w \<Rightarrow> 'r \<times> 'w) \<Rightarrow> bool" where
  "honest_call h \<equiv> honest (truthful h) (harms h)"

text \<open>
  The laws for the calls of a tick, over an invariant of the world that stands for all that is
  to be kept: while it holds, answers are true, and only a delete of what the Service holds may
  break it.
\<close>

definition sweep_laws ::
  "'w env \<Rightarrow> (string \<Rightarrow> 'w \<Rightarrow> bool \<times> 'w) \<Rightarrow> holding \<Rightarrow> ('w \<Rightarrow> bool) \<Rightarrow> bool" where
  "sweep_laws E live h I \<longleftrightarrow>
     (\<forall>c f. honest_call h I (\<lambda>r. Octavia c (ListLBs f r)) (o_list_lbs (octavia E) c f)) \<and>
     (\<forall>c i. honest_call h I (\<lambda>r. Octavia c (DelLB i r)) (o_del_lb (octavia E) c i)) \<and>
     (\<forall>c f. honest_call h I (\<lambda>r. Neutron c (ListFIPs f r)) (n_list_fips (neutron E) c f)) \<and>
     (\<forall>c i. honest_call h I (\<lambda>r. Neutron c (DelFIP i r)) (n_del_fip (neutron E) c i)) \<and>
     (\<forall>c f. honest_call h I (\<lambda>r. Neutron c (ListSGs f r)) (n_list_sgs (neutron E) c f)) \<and>
     (\<forall>c i. honest_call h I (\<lambda>r. Neutron c (DelSG i r)) (n_del_sg (neutron E) c i)) \<and>
     (\<forall>c. honest_call h I (\<lambda>r. Nova c (ListServers r)) (v_list_servers (nova E) c)) \<and>
     (\<forall>c i. honest_call h I (\<lambda>r. Nova c (DelServer i r)) (v_del_server (nova E) c i)) \<and>
     (\<forall>cr. honest_call h I (\<lambda>r. Keystone (Authenticate cr r)) (k_authenticate (keystone E) cr)) \<and>
     (\<forall>g. honest_call h I (\<lambda>r. Keystone (OctaviaClient g r)) (k_octavia (keystone E) g)) \<and>
     (\<forall>g. honest_call h I (\<lambda>r. Keystone (NeutronClient g r)) (k_neutron (keystone E) g)) \<and>
     (\<forall>g. honest_call h I (\<lambda>r. Keystone (NovaClient g r)) (k_nova (keystone E) g)) \<and>
     (\<forall>n. honest_call h I (\<lambda>r. Mgmt (ListHRs n r)) (m_list_hrs (mgmt E) n)) \<and>
     (\<forall>n x. honest_call h I (\<lambda>r. Mgmt (GetKSC n x r)) (m_get_ksc (mgmt E) n x)) \<and>
     (\<forall>n x. honest_call h I (\<lambda>r. Mgmt (GetSecret n x r)) (m_get_secret (mgmt E) n x)) \<and>
     (\<forall>n x. honest_call h I (\<lambda>r. Mgmt (GetOSC n x r)) (m_get_osc (mgmt E) n x)) \<and>
     (\<forall>n. honest_call h I (\<lambda>r. Mgmt (ListSecrets n r)) (m_list_secrets (mgmt E) n)) \<and>
     (\<forall>n x. honest_call h I (\<lambda>r. Mgmt (DelSecret n x r)) (m_del_secret (mgmt E) n x)) \<and>
     (\<forall>t n x. honest_call h I (\<lambda>r. Tenant t (GetSvc n x r)) (t_get_svc (tenants E) t n x)) \<and>
     (\<forall>w. I w \<longrightarrow> I (snd (map_seed E w))) \<and> (\<forall>t w. I w \<longrightarrow> I (snd (live t w)))"

section \<open>Evidence against a live Service would be a lie\<close>

lemma listed_true:
  assumes "list_all (truthful h) pre"
  shows "lb_listed pre c b \<Longrightarrow> lb_id b \<in> ho_lbs h \<or> lb_vip_port b \<in> ho_ports h \<Longrightarrow> lb_name b = ho_tag h"
    and "fip_listed pre c f x \<Longrightarrow> fp_id x \<in> ho_fips h \<Longrightarrow> fp_desc x = ho_tag h"
    and "fip_listed pre c (Some q) x \<Longrightarrow> fp_id x \<in> ho_fips h \<Longrightarrow> q \<in> ho_ports h"
    and "sg_listed pre c g \<Longrightarrow> sg_id g \<in> ho_groups h \<Longrightarrow>
      sg_name g = cluster_sg_name (ho_cluster h) \<or> \<not> has_prefix (sg_name g) cluster_sg_name_prefix"
    and "server_listed pre c v \<Longrightarrow> sv_id v \<in> ho_servers h \<Longrightarrow>
      has_prefix (sv_name v) (ksc_server_name_prefix @ ho_cluster h @ ''-'')"
    and "\<not> tenant_denies pre (ho_cluster h, ho_ns h, ho_name h)"
  using assms by (fastforce simp: listed_defs tenant_denies_def list_all_iff truthful_def)+

lemma tag_reads:
  assumes "holding_ok h"
  shows "parse_service_from_tag (ho_tag h) = Some (ho_cluster h, ho_ns h, ho_name h)"
    and "CHR ''/'' \<notin> set cl \<Longrightarrow> has_prefix (ho_tag h) (managed_name_prefix @ cl @ ''/'') \<Longrightarrow> cl = ho_cluster h"
proof -
  show "parse_service_from_tag (ho_tag h) = Some (ho_cluster h, ho_ns h, ho_name h)"
    using parse_service_enc [of "(ho_cluster h, ho_ns h, ho_name h)"] assms
    by (simp add: holding_ok_def ho_tag_def lb_name_of_def)
  assume cl: "CHR ''/'' \<notin> set cl" and "has_prefix (ho_tag h) (managed_name_prefix @ cl @ ''/'')"
  then have "prefix (cl @ CHR ''/'' # []) (ho_cluster h @ CHR ''/'' # ho_ns h @ CHR ''/'' # ho_name h)"
    by (simp add: has_prefix_def ho_tag_def service_lb_name_def)
  from sep_prefix [OF cl _ this] assms show "cl = ho_cluster h" by (simp add: holding_ok_def tag_ok_def)
qed

lemma sweep_spares:
  assumes ok: "holding_ok h" and known: "ho_cluster h \<in> set known" and true: "list_all (truthful h) pre"
  shows "sweep_just c known pre e \<Longrightarrow> cloud_mutation e \<Longrightarrow> \<not> harms h e"
    and "server_just c known pre e \<Longrightarrow> \<not> harms h e"
proof -
  note t = listed_true [OF true] and tag = tag_reads [OF ok]
  have "ho_cluster h \<noteq> ''''" using ok by (simp add: holding_ok_def tag_ok_def)
  with known t(5) show "server_just c known pre e \<Longrightarrow> \<not> harms h e"
    by (auto simp: server_just_def harms_def split: event.splits nova_event.splits)
  have one: "\<not> harms h e" if "orphan_delete c known pre e" for e
    using that t(1,2,4,6) tag(1) known
    by (fastforce simp: orphan_delete_def harms_def cluster_sg_name_def
        split: event.splits octavia_event.splits neutron_event.splits)
  have all: "\<not> harms h e" if "cluster_delete c cl pre e" "CHR ''/'' \<notin> set cl" "cl \<notin> set known" for cl e
    using that t(1,3,4) tag(2) [OF that(2)] known
    by (fastforce simp: cluster_delete_def harms_def cluster_sg_name_def
        split: event.splits octavia_event.splits neutron_event.splits)
  show "sweep_just c known pre e \<Longrightarrow> cloud_mutation e \<Longrightarrow> \<not> harms h e"
    using one all by (auto simp: sweep_just_def)
qed

lemma tick_spares:
  assumes "holding_ok h" and "ho_cluster h \<in> set known" and "list_all (truthful h) pre" and just: "tick_just known pre e"
  shows "\<not> harms h e"
proof (cases "cloud_mutation e")
  case True
  with just obtain c where "sweep_just c known pre e \<or> server_just c known pre e" by (auto simp: tick_just_def)
  with sweep_spares [OF assms(1-3)] True show ?thesis by blast
next
  case False
  with just assms(2) show ?thesis
    by (auto simp: tick_just_def harms_def split: event.splits octavia_event.splits neutron_event.splits
        nova_event.splits mgmt_event.splits)
qed

section \<open>A tick tracks the world\<close>

lemma tracks_sweeps:
  assumes laws: "sweep_laws E live h I"
  shows "tracks (truthful h) (harms h) I (resolve E L t)"
    and "tracks (truthful h) (harms h) I (new_clients E creds)"
    and "tracks (truthful h) (harms h) I (sweep_orphan_nova_servers E c known)"
    and "tracks (truthful h) (harms h) I (sweep_orphans E c known (Some (service_exists E live)))"
    and "tracks (truthful h) (harms h) I (sweep_orphan_kubeconfig_secrets E known)"
proof -
  note law = laws [unfolded sweep_laws_def]
  have draws: "\<And>w. I w \<Longrightarrow> I (snd (map_seed E w))" "\<And>t w. I w \<Longrightarrow> I (snd (live t w))" using law by blast+
  note rules = track_rules draws
  show "tracks (truthful h) (harms h) I (resolve E L t)"
    unfolding resolve_def resolve_credentials_def resolve_vip_network_def read_clouds_yaml_def auto_discover_network_def Let_def
    by (intro rules; simp add: law)
  show "tracks (truthful h) (harms h) I (new_clients E creds)"
    unfolding new_clients_def by (intro rules; simp add: law)
  show "tracks (truthful h) (harms h) I (sweep_orphan_nova_servers E c known)"
    unfolding sweep_orphan_nova_servers_def by (intro rules; simp add: law)
  show "tracks (truthful h) (harms h) I (sweep_orphan_kubeconfig_secrets E known)"
    unfolding sweep_orphan_kubeconfig_secrets_def sweep_secret_def Let_def by (intro rules; simp add: law)
  have ex: "tracks (truthful h) (harms h) I (service_exists E live a b d)" for a b d
    unfolding service_exists_def by (intro rules; simp add: law draws)
  then have gone: "tracks (truthful h) (harms h) I (service_gone (service_exists E live) t cache)" for t cache
    unfolding service_gone_def Let_def by (intro rules; simp)
  have scans: "tracks (truthful h) (harms h) I (scan_lb known (Some (service_exists E live)) b acc)"
    "tracks (truthful h) (harms h) I (scan_fip known (service_exists E live) f facc)" for b acc f facc
    unfolding scan_lb_def scan_fip_def option.case by (intro rules gone)+
  show "tracks (truthful h) (harms h) I (sweep_orphans E c known (Some (service_exists E live)))"
    unfolding sweep_orphans_def delete_orphan_lb_def sweep_orphan_fips_def option.case
      delete_orphan_fip_def sweep_orphan_cluster_def sweep_orphan_sg_def sweep_cluster_resources_def
      sweep_lb_def sweep_sg_def find_sg_by_name_def delete_floating_ip_def find_fip_by_port_def Let_def
    by (intro rules scans; simp add: law)
qed

lemma tracks_tick:
  assumes laws: "sweep_laws E live h I"
  shows "tracks (truthful h) (harms h) I (sweep_tick E L live)"
proof -
  note law = laws [unfolded sweep_laws_def]
  have draw: "\<And>w. I w \<Longrightarrow> I (snd (map_seed E w))" using law by blast
  show ?thesis
    unfolding sweep_tick_def sweep_cycle_def or_skip_def list_known_clusters_def
    by (intro track_rules draw tracks_sweeps [OF laws]; simp add: law)
qed

text \<open>
  A tick of the sweeper keeps every invariant under which the world tells the truth about a live
  Service.
\<close>

lemma tick_maintains:
  assumes laws: "sweep_laws E live h I" and ok: "holding_ok h"
  shows "maintains I (sweep_tick E L live)"
proof (rule tracks_maintains [OF tracks_tick [OF laws] sweep_tick_runs])
  fix evs and r :: "err + unit" assume run: "tick_run evs r" and up: "upto_harm (truthful h) (harms h) evs"
  from run obtain x evs' where evs: "evs = Mgmt (ListHRs tenant_namespace x) # evs'"
    and x: "case x of Inl _ \<Rightarrow> evs' = [] | Inr hrs \<Rightarrow> (live_clusters hrs = [] \<longrightarrow> evs' = []) \<and>
      just (tick_just (live_clusters hrs)) [] evs'"
    by (auto simp: tick_run_def)
  have first: "\<not> harms h (Mgmt (ListHRs tenant_namespace x))" by (simp add: harms_def)
  show "\<not> list_ex (harms h) evs"
  proof (cases x)
    case (Inl e)
    with x evs first show ?thesis by simp
  next
    case (Inr hrs)
    with up evs first have known: "ho_cluster h \<in> set (live_clusters hrs)" and up': "upto_harm (truthful h) (harms h) evs'"
      by (simp_all add: truthful_def)
    from known have "live_clusters hrs \<noteq> []" by auto
    with x Inr have just: "just (tick_just (live_clusters hrs)) [] evs'" by simp
    have "\<not> list_ex (harms h) evs'"
      by (rule no_harm [OF _ just up']) (simp_all add: tick_spares [OF ok known])
    with evs first show ?thesis by simp
  qed
qed

end
