(* ===== verification/Coexist.thy ===== *)
theory Coexist
  imports Sparing Provision
begin

text \<open>
  The two loops of the controller side by side: the reconciler builds up a Service while the
  sweeper of orphans runs between its passes. What the Service has so far is a holding of the
  sweeper's laws, a tick of the sweeper leaves it as it is, and so the Service is served after as
  many passes as without a sweeper.
\<close>

section \<open>Changes elsewhere\<close>

text \<open>
  A balancer that is not touched: its listeners, its pools and the members of its pools. Members
  of other pools do not matter to what it costs to finish it.
\<close>

definition same_bal :: "string \<Rightarrow> 'x life_scheme \<Rightarrow> 'x life_scheme \<Rightarrow> bool" where
  "same_bal i v v' \<longleftrightarrow> lf_listeners v' i = lf_listeners v i \<and> lf_pools v' i = lf_pools v i \<and>
     (\<forall>q\<in>set (lf_pools v i). lf_members v' (pl_id q) = lf_members v (pl_id q))"

text \<open>
  What the sweeper and other tenants may do to the world of a Service: everything but change its
  object, its balancer, the floating IPs of its VIP, the group of its workers with its rules and
  their ports, as long as what they leave is well-formed.
\<close>

definition undisturbed ::
  "string \<Rightarrow> lb_config \<Rightarrow> service \<Rightarrow> string list \<Rightarrow> 'x life_scheme \<Rightarrow> 'x life_scheme \<Rightarrow> bool" where
  "undisturbed tenant cfg svc ips v v' \<longleftrightarrow>
     life.more v' = life.more v \<and> lf_svc v' = lf_svc v \<and> lf_lb v' = lf_lb v \<and>
     addresses_ok v' \<and> groups_ok v' \<and> tagged (svc_tag tenant svc) v' \<and>
     cluster_group tenant v' = cluster_group tenant v \<and>
     lf_rules v' (worker_group tenant cfg v) = lf_rules v (worker_group tenant cfg v) \<and>
     (\<forall>ip\<in>set ips. find (\<lambda>p. ip \<in> set (pt_ips p)) (lf_ports v') = find (\<lambda>p. ip \<in> set (pt_ips p)) (lf_ports v)) \<and>
     (\<forall>b. lf_lb v = Some b \<longrightarrow> lf_busy v' = lf_busy v \<and> same_bal (lb_id b) v v' \<and>
        lf_fips v' (lb_vip_port b) = lf_fips v (lb_vip_port b))"

lemma same_bal_view:
  assumes "same_bal i v v'"
  shows "view_ok (bal v' i) = view_ok (bal v i)" and "cost (bal v' i) ips subnet ports = cost (bal v i) ips subnet ports"
    and "balancer_in_place (bal v' i) ports ips subnet = balancer_in_place (bal v i) ports ips subnet"
proof -
  from assms have s: "lf_listeners v' i = lf_listeners v i" "lf_pools v' i = lf_pools v i"
    "\<And>q. q \<in> set (lf_pools v i) \<Longrightarrow> lf_members v' (pl_id q) = lf_members v (pl_id q)" by (simp_all add: same_bal_def)
  show "view_ok (bal v' i) = view_ok (bal v i)" by (simp add: view_ok_def s)
  have lo: "listener_of (bal v' i) = listener_of (bal v i)" by (simp add: fun_eq_iff listener_of_def s)
  have po: "pool_of (bal v' i) = pool_of (bal v i)" by (simp add: fun_eq_iff pool_of_def s)
  have mem: "lf_members v' (pl_id q) = lf_members v (pl_id q)" if "pool_of (bal v i) l = Some q" for l q
    using that by (intro s(3)) (auto simp: pool_of_def find_Some_iff)
  have "port_cost (bal v' i) ips subnet p = port_cost (bal v i) ips subnet p" for p
    using mem by (auto simp: port_cost_def lo po split: option.split)
  then show "cost (bal v' i) ips subnet ports = cost (bal v i) ips subnet ports"
    by (simp add: cost_def stale_cost_def s cong: map_cong)
  show "balancer_in_place (bal v' i) ports ips subnet = balancer_in_place (bal v i) ports ips subnet"
    by (simp add: balancer_in_place_def s cong: conj_cong)
qed

lemma undisturbedD:
  assumes "undisturbed tenant cfg svc ips v v'"
  shows "life.more v' = life.more v" "lf_svc v' = lf_svc v" "lf_lb v' = lf_lb v" "addresses_ok v'" "groups_ok v'"
    "tagged (svc_tag tenant svc) v'" "worker_group tenant cfg v' = worker_group tenant cfg v"
    "lf_rules v' (worker_group tenant cfg v) = lf_rules v (worker_group tenant cfg v)"
    "\<And>b. lf_lb v = Some b \<Longrightarrow> lf_busy v' = lf_busy v"
    "\<And>b. lf_lb v = Some b \<Longrightarrow> same_bal (lb_id b) v v'"
    "\<And>b. lf_lb v = Some b \<Longrightarrow> lf_fips v' (lb_vip_port b) = lf_fips v (lb_vip_port b)"
    "claimed v' = claimed v" "wired_up tenant cfg ips v' = wired_up tenant cfg ips v"
proof -
  from assms have ports: "\<And>ip. ip \<in> set ips \<Longrightarrow> find (\<lambda>p. ip \<in> set (pt_ips p)) (lf_ports v') = find (\<lambda>p. ip \<in> set (pt_ips p)) (lf_ports v)"
    by (simp add: undisturbed_def)
  show wg: "worker_group tenant cfg v' = worker_group tenant cfg v" using assms by (simp add: undisturbed_def worker_group_def)
  show "wired_up tenant cfg ips v' = wired_up tenant cfg ips v"
    using ports by (simp add: wired_up_def wg carries_def list_all_iff)
  show "claimed v' = claimed v" using assms by (intro view_cong) (simp add: undisturbed_def)
qed (use assms in \<open>simp_all add: undisturbed_def\<close>)

lemma undisturbed_tended:
  assumes u: "undisturbed tenant cfg svc ips v v'" and t: "tended tenant cfg svc x v"
  shows "tended tenant cfg svc x v'"
proof -
  note d = undisturbedD [OF u]
  have "is_service svc v'" using t view_cong(1) [OF d(2)] by (simp add: tended_def)
  moreover have "rules_fine tenant svc cfg v'" using t by (simp add: tended_def rules_fine_def d(7,8))
  moreover have "view_ok (bal v' (lb_id b))" if b: "lf_lb v = Some b" for b
    using t b same_bal_view(1) [OF d(10) [OF b]] by (simp add: tended_def intact_def)
  then have "intact v'"
    using t d(9) by (auto simp: tended_def intact_def lb_sound_def d(3-5))
  ultimately show ?thesis using t by (simp add: tended_def d(1,6))
qed

lemma undisturbed_measures:
  assumes u: "undisturbed tenant cfg svc ips v v'"
  shows "budget K svc ips subnet v' = budget K svc ips subnet v"
    and "complete svc ips subnet v' = complete svc ips subnet v"
    and "served tenant cfg svc subnet ips enet v \<Longrightarrow> served tenant cfg svc subnet ips enet v'"
proof -
  note d = undisturbedD [OF u]
  note b = same_bal_view [OF d(10)]
  show "budget K svc ips subnet v' = budget K svc ips subnet v"
    using d(9) b(2) by (simp add: budget_def lb_budget_def d(3,12) split: option.split)
  show "complete svc ips subnet v' = complete svc ips subnet v"
    using b(2) by (auto simp: complete_def d(3,12))
  assume "served tenant cfg svc subnet ips enet v"
  moreover have "opened tenant cfg svc ips v' = opened tenant cfg svc ips v" by (simp add: opened_def d(7,8,13))
  ultimately show "served tenant cfg svc subnet ips enet v'"
    using b(3) d(11) by (fastforce simp: served_def d(2,3) addressed_def split: if_splits)
qed

text \<open>Others at work before a round of the background.\<close>

lemma background_after:
  assumes bg: "background K tenant cfg svc subnet ips enet x V tick"
    and others: "\<And>w. tended tenant cfg svc x (V w) \<Longrightarrow> undisturbed tenant cfg svc ips (V w) (V (f w))"
  shows "background K tenant cfg svc subnet ips enet x V (\<lambda>w. tick (f w))"
  unfolding background_def
proof (intro allI impI)
  fix w assume t: "tended tenant cfg svc x (V w)"
  note u = others [OF t] and m = undisturbed_measures [OF others [OF t]]
  have lb: "lf_lb (V (f w)) = lf_lb (V w)" "lf_lb (V w) \<noteq> None \<Longrightarrow> lf_busy (V (f w)) = lf_busy (V w)"
    using undisturbedD(3,9) [OF u] by auto
  from bg [unfolded background_def, rule_format, OF undisturbed_tended [OF u t]] m lb
  show "tended tenant cfg svc x (V (tick (f w))) \<and>
     budget K svc ips subnet (V (tick (f w))) \<le> budget K svc ips subnet (V w) \<and>
     (lf_lb (V w) \<noteq> None \<and> 0 < lf_busy (V w) \<longrightarrow> budget K svc ips subnet (V (tick (f w))) < budget K svc ips subnet (V w)) \<and>
     (complete svc ips subnet (V w) \<longrightarrow> complete svc ips subnet (V (tick (f w))) \<and>
        (served tenant cfg svc subnet ips enet (V w) \<longrightarrow> served tenant cfg svc subnet ips enet (V (tick (f w)))))" by simp
qed

section \<open>The sweeper as the background of the reconciler\<close>

text \<open>What the Service has, in the words of the sweeper; \<open>nodes\<close> are the servers of its cluster.\<close>

definition holding_of :: "string \<Rightarrow> lb_config \<Rightarrow> service \<Rightarrow> string set \<Rightarrow> 'x life_scheme \<Rightarrow> holding" where
  "holding_of tenant cfg svc nodes v =
     \<lparr>ho_cluster = tenant, ho_ns = s_ns svc, ho_name = s_name svc,
      ho_lbs = (case lf_lb v of None \<Rightarrow> {} | Some b \<Rightarrow> {lb_id b}),
      ho_ports = (case lf_lb v of None \<Rightarrow> {} | Some b \<Rightarrow> {lb_vip_port b}),
      ho_fips = (case lf_lb v of None \<Rightarrow> {} | Some b \<Rightarrow> fp_id ` set (lf_fips v (lb_vip_port b))),
      ho_groups = {worker_group tenant cfg v}, ho_servers = nodes\<rparr>"

text \<open>The world after a tick of the sweeper.\<close>

definition after_sweep :: "'w env \<Rightarrow> ksc_lib \<Rightarrow> (string \<Rightarrow> 'w \<Rightarrow> bool \<times> 'w) \<Rightarrow> 'w \<Rightarrow> 'w" where
  "after_sweep E L live w = world (snd (sweep_tick E L live \<lparr>world = w, trace = []\<rparr>))"

lemma undisturbed_refl: "tended tenant cfg svc x v \<Longrightarrow> undisturbed tenant cfg svc ips v v"
  by (simp add: undisturbed_def tended_def intact_def same_bal_def)

lemma swept_undisturbed:
  assumes laws: "sweep_laws E live (holding_of tenant cfg svc nodes (V w)) (\<lambda>w'. undisturbed tenant cfg svc ips (V w) (V w'))"
    and ok: "tag_ok (tenant, s_ns svc, s_name svc)" and t: "tended tenant cfg svc x (V w)"
  shows "undisturbed tenant cfg svc ips (V w) (V (after_sweep E L live w))"
proof -
  have "holding_ok (holding_of tenant cfg svc nodes (V w))" using ok by (simp add: holding_ok_def holding_of_def)
  from tick_maintains [OF laws this, of L, unfolded maintains_wp, rule_format, of "\<lparr>world = w, trace = []\<rparr>"]
    undisturbed_refl [OF t, of ips]
  show ?thesis by (simp add: wp_def after_sweep_def split: prod.splits)
qed

text \<open>The Service is built up with the sweeper at work between the passes.\<close>

lemma provisioning_swept:
  fixes E :: "'w env"
  assumes laws: "cloud_laws E c tenant ns name (cf_vip_net cfg) K tick V"
    and config: "config_stands E L tenant cfg c x V" and networks: "networks_stand E cfg c subnet ips enet x V"
    and sweep: "\<And>v. tended tenant cfg svc x v \<Longrightarrow>
       sweep_laws E live (holding_of tenant cfg svc nodes v) (\<lambda>w. undisturbed tenant cfg svc ips v (V w))"
    and svc: "wants_lb ns name cfg svc" "tag_ok (tenant, ns, name)" and t: "tended tenant cfg svc x (V (world s))"
    and n: "budget K svc ips subnet (V (world s)) + 1 < n"
  shows "wp (passes n (\<lambda>w. tick (after_sweep E L live w)) (reconcile E L tenant ns name)) (\<lambda>_ s'.
     served tenant cfg svc subnet ips enet (V (world s')) \<and>
     wp (reconcile E L tenant ns name) (\<lambda>r s''. r = Inr member_resync_after \<and>
        served tenant cfg svc subnet ips enet (V (world s''))) s') s"
proof -
  have tag: "tag_ok (tenant, s_ns svc, s_name svc)" using svc by (simp add: wants_lb_def)
  have "background K tenant cfg svc subnet ips enet x V (\<lambda>w. tick (after_sweep E L live w))"
    by (rule background_after [OF octavia_background [OF cloud_lawsD(5) [OF laws]]])
       (rule swept_undisturbed [OF sweep tag])
  from provisioning_with [OF laws this config networks svc(1) t n] show ?thesis .
qed

end
