(* ===== verification/SimSweep.thy ===== *)
theory SimSweep
  imports SimLaws Coexist
begin

text \<open>
  The simulated clouds tell the sweeper the truth about the Service of the witnesses, whatever
  state its provisioning is in.
\<close>

definition sim_live :: "string \<Rightarrow> sim \<Rightarrow> bool \<times> sim" where
  "sim_live t w = (True, w)"

text \<open>The balancer, the floating IPs and the groups that a deletion leaves alone.\<close>

lemma find_other: "find P xs = Some x \<Longrightarrow> Q x \<Longrightarrow> find P (filter Q xs) = Some x"
  by (induction xs) (auto split: if_splits)

lemma find_fewer: "find P xs = None \<Longrightarrow> find P (filter Q xs) = None"
  by (auto simp: find_None_iff)

lemma del_group_undisturbed:
  assumes u: "undisturbed tenant cfg svc ips v u" and i: "i \<noteq> worker_group tenant cfg v" and c: "cf_worker_sg cfg = ''''"
  shows "undisturbed tenant cfg svc ips v (u\<lparr>lf_groups := filter (\<lambda>g. sg_id g \<noteq> i) (lf_groups u)\<rparr>)" (is "undisturbed _ _ _ _ _ ?u")
proof -
  let ?P = "\<lambda>g. sg_name g = cluster_sg_name tenant"
  from u have cg: "cluster_group tenant u = cluster_group tenant v" by (simp add: undisturbed_def)
  then have "cluster_group tenant u \<noteq> i" using i c by (simp add: worker_group_def)
  then have "cluster_group tenant ?u = cluster_group tenant u"
    using find_other [of ?P "lf_groups u" _ "\<lambda>g. sg_id g \<noteq> i"] find_fewer [of ?P "lf_groups u" "\<lambda>g. sg_id g \<noteq> i"]
    by (cases "find ?P (lf_groups u)") (simp_all add: cluster_group_def)
  moreover have "groups_ok ?u" using u by (auto simp: undisturbed_def groups_ok_def distinct_map inj_on_def)
  ultimately show ?thesis
    using u cg by (simp add: undisturbed_def tagged_def tagged_at_def addresses_ok_def same_bal_def)
qed

lemma del_fip_undisturbed:
  assumes u: "undisturbed tenant cfg svc ips v u"
    and i: "\<And>b. lf_lb v = Some b \<Longrightarrow> i \<notin> fp_id ` set (lf_fips v (lb_vip_port b))"
  shows "undisturbed tenant cfg svc ips v (u\<lparr>lf_fips := \<lambda>p. filter (\<lambda>f. fp_id f \<noteq> i) (lf_fips u p)\<rparr>)" (is "undisturbed _ _ _ _ _ ?u")
proof -
  have "lf_fips ?u (lb_vip_port b) = lf_fips v (lb_vip_port b)" if "lf_lb v = Some b" for b
    using u i [OF that] that by (auto simp: undisturbed_def filter_id_conv)
  moreover from u have "addresses_ok u" by (simp add: undisturbed_def)
  then have "addresses_ok ?u" by (auto simp: addresses_ok_def list_all_iff)
  moreover have "tagged (svc_tag tenant svc) ?u"
    using undisturbedD(6) [OF u] by (auto simp: tagged_def tagged_at_def)
  ultimately show ?thesis
    using u by (simp add: undisturbed_def groups_ok_def cluster_group_def same_bal_def)
qed

lemma of_keyI: "(k, x) \<in> set xs \<Longrightarrow> x \<in> set (of_key k xs)"
  by (force simp: of_key_def)

text \<open>Every call of a tick is honest: it only reads, or is one of the three deletions.\<close>

lemma sim_calls_unchanged:
  assumes "\<And>w. I w \<Longrightarrow> truthful h (ev (fst (f w)))" "\<And>w. snd (f w) = w"
  shows "honest_call h I ev f"
  using assms by (simp add: honest_def)

lemma sim_sweep_laws:
  assumes t: "tended ''t1'' (sim_config net '''') svc (sim_tenant_site net '''') v"
    and n: "n = svc_tag ''t1'' svc"
  shows "sweep_laws sim_env sim_live (holding_of ''t1'' (sim_config net '''') svc {} v)
     (\<lambda>w. undisturbed ''t1'' (sim_config net '''') svc ips v (sim_life n w))"
    (is "sweep_laws _ _ ?h ?I")
proof -
  let ?cfg = "sim_config net ''''"
  have c: "cf_worker_sg ?cfg = ''''" by (simp add: sim_config_def)
  have site: "sim_site w = sim_tenant_site net ''''" and svc: "sim_svc w \<noteq> None" if "?I w" for w
    using that t by (auto simp: undisturbed_def sim_life_def tended_def is_service_def)
  have lb: "lb_name b = ho_tag ?h" if "?I w" "sim_lb w = Some b" "lb_id b \<in> ho_lbs ?h \<or> lb_vip_port b \<in> ho_ports ?h" for w b
    using that by (auto simp: undisturbed_def sim_life_def holding_of_def ho_tag_def svc_tag_def n split: option.splits if_splits)
  have fip: "fp_desc x = ho_tag ?h \<and> p \<in> ho_ports ?h"
    if I: "?I w" "x \<in> set (of_key p (sim_fips w))" "fp_id x \<in> ho_fips ?h" for w x p
  proof -
    from I(3) obtain b f where b: "lf_lb v = Some b" "f \<in> set (lf_fips v (lb_vip_port b))" "fp_id x = fp_id f"
      by (auto simp: holding_of_def split: option.splits)
    let ?u = "sim_life n w"
    from I(1) b have "f \<in> set (lf_fips ?u (lb_vip_port b))" "tagged_at (lb_vip_port b) (svc_tag ''t1'' svc) ?u"
      by (simp_all add: undisturbed_def tagged_def)
    moreover have "x \<in> set (lf_fips ?u p)" using I(2) by (simp add: sim_life_def)
    ultimately have "p = lb_vip_port b \<and> fp_desc x = svc_tag ''t1'' svc" using b(3) by (auto simp: tagged_at_def)
    with b(1) show ?thesis by (simp add: holding_of_def ho_tag_def svc_tag_def)
  qed
  have fips: "fp_desc x = ho_tag ?h" if "?I w" "(p, x) \<in> set (sim_fips w)" "fp_id x \<in> ho_fips ?h" for w x p
    using fip [OF that(1) of_keyI [OF that(2)] that(3)] by simp
  have sg: "sg_name g = cluster_sg_name (ho_cluster ?h) \<or> \<not> has_prefix (sg_name g) cluster_sg_name_prefix"
    if I: "?I w" "g \<in> set (sim_groups w)" "sg_id g \<in> ho_groups ?h" for w g
  proof -
    from I(1) have ok: "groups_ok (sim_life n w)" "cluster_group ''t1'' (sim_life n w) = cluster_group ''t1'' v"
      by (simp_all add: undisturbed_def)
    have id: "sg_id g = cluster_group ''t1'' (sim_life n w)" using I(3) ok(2) c by (simp add: holding_of_def worker_group_def)
    have ids: "distinct (map sg_id (sim_groups w))" "sg_id g \<noteq> ''''" using ok(1) I(2)
      by (simp_all add: groups_ok_def sim_life_def) (metis imageI)
    with id obtain g' where g': "find (\<lambda>g. sg_name g = cluster_sg_name ''t1'') (sim_groups w) = Some g'" "sg_id g' = sg_id g"
      by (auto simp: cluster_group_def sim_life_def split: option.splits)
    then have "g' \<in> set (sim_groups w)" "sg_name g' = cluster_sg_name ''t1''" by (auto simp: find_Some_iff)
    moreover from this(1) I(2) g'(2) ids(1) have "g' = g" by (simp add: distinct_map inj_on_def)
    ultimately show ?thesis by (simp add: holding_of_def)
  qed
  have dlb: "harms ?h (Octavia c' (DelLB i r)) \<or> ?I (snd (sim_del_lb i w))" if I: "?I w" for w c' i r
  proof (cases "lf_lb v")
    case None
    have "?I (w\<lparr>sim_lb := map_option (lb_status_update (\<lambda>_. ''PENDING_DELETE'')) (sim_lb w), sim_busy := 1\<rparr>)"
      using None I by (auto simp: undisturbed_def sim_life_def sim_ports_def addresses_ok_def groups_ok_def tagged_def
          cluster_group_def split: option.splits if_splits)
    with I show ?thesis by (auto simp: sim_del_lb_def)
  next
    case (Some b)
    with I show ?thesis
      by (auto simp: sim_del_lb_def harms_def holding_of_def undisturbed_def sim_life_def split: option.splits if_splits
          dest!: ready_lbD)
  qed
  have dfip: "harms ?h (Neutron c' (DelFIP i r)) \<or> ?I (w\<lparr>sim_fips := filter (\<lambda>(_, f). fp_id f \<noteq> i) (sim_fips w)\<rparr>)"
    if I: "?I w" for w c' i r
  proof -
    have view: "sim_life n (w\<lparr>sim_fips := filter (\<lambda>(_, f). fp_id f \<noteq> i) (sim_fips w)\<rparr>) =
      (sim_life n w)\<lparr>lf_fips := \<lambda>p. filter (\<lambda>f. fp_id f \<noteq> i) (lf_fips (sim_life n w) p)\<rparr>"
      by (simp add: sim_life_defs of_key_filter)
    have "i \<notin> ho_fips ?h \<Longrightarrow> lf_lb v = Some b \<Longrightarrow> i \<notin> fp_id ` set (lf_fips v (lb_vip_port b))" for b
      by (simp add: holding_of_def)
    then show ?thesis
      unfolding view using del_fip_undisturbed [OF I, of i] by (auto simp: harms_def)
  qed
  have dsg: "harms ?h (Neutron c' (DelSG i r)) \<or> ?I (w\<lparr>sim_groups := filter (\<lambda>g. sg_id g \<noteq> i) (sim_groups w)\<rparr>)"
    if I: "?I w" for w c' i r
    using del_group_undisturbed [OF I _ c, of i]
    by (auto simp: harms_def holding_of_def sim_life_defs)
  have listed: "''t1'' \<in> set (live_clusters (si_hrs (sim_tenant_site net '''')))"
    by (simp add: sim_tenant_site_def live_clusters_def str_at_def app_name_label_def)
  show ?thesis
    unfolding sweep_laws_def
  proof (intro conjI allI impI, goal_cases)
    case (1 c f)
    show ?case
      by (rule sim_calls_unchanged) (use lb in \<open>auto simp: sim_env_defs truthful_def split: option.splits\<close>)
  next
    case (2 c i)
    show ?case using dlb by (simp add: honest_def truthful_def sim_env_defs)
  next
    case (3 c f)
    show ?case
      using fip fips by (intro sim_calls_unchanged) (auto simp: sim_env_defs truthful_def split: option.splits)
  next
    case (4 c i)
    show ?case using dfip by (simp add: honest_def truthful_def sim_env_defs)
  next
    case (5 c f)
    show ?case
    proof (rule sim_calls_unchanged)
      fix w assume "?I w"
      note here = sg [OF this]
      show "truthful ?h (Neutron c (ListSGs f (fst (n_list_sgs (neutron sim_env) c f w))))"
        by (simp add: sim_env_defs truthful_def) (use here in blast)
    qed (simp add: sim_env_defs)
  next
    case (6 c i)
    show ?case using dsg by (simp add: honest_def truthful_def sim_env_defs)
  next
    case (13 ns)
    show ?case
      by (rule sim_calls_unchanged) (use site listed in \<open>simp_all add: sim_env_defs truthful_def holding_of_def\<close>)
  next
    case (19 t ns x)
    show ?case
    proof (rule sim_calls_unchanged)
      fix w assume "?I w"
      from svc [OF this] obtain s where "sim_svc w = Some s" by blast
      then show "truthful ?h (Tenant t (GetSvc ns x (fst (t_get_svc (tenants sim_env) t ns x w))))"
        by (simp add: sim_env_defs truthful_def)
    qed (simp add: sim_env_defs)
  next
    case (20 w) then show ?case by (simp add: sim_env_defs)
  next
    case (21 t w) then show ?case by (simp add: sim_live_def)
  qed (rule sim_calls_unchanged; simp add: sim_env_defs truthful_def)+
qed

end
