(* ===== verification/ClusterDown.thy ===== *)
theory ClusterDown
  imports ClusterController Passes
begin

text \<open>
  A deleted cluster goes in the end. The view of a world here is what the cluster reconciler acts
  on: the HelmRelease, all balancers of the project with the rounds Octavia is still busy with
  each, their floating IPs and the security groups. Passes of the reconciler with Octavia at work
  in between delete the balancers of the cluster, those of other clusters left aside, and take the
  finalizer off.
\<close>

section \<open>The world of a deleted cluster\<close>

record ruin =
  rn_hr :: "hrelease option"
  rn_lbs :: "lb list"
  rn_busy :: "string \<Rightarrow> nat"
  rn_fips :: "string \<Rightarrow> fip list"
  rn_groups :: "sgroup list"
  rn_pinned :: "string set"

definition hr_laws :: "'w env \<Rightarrow> string \<Rightarrow> string \<Rightarrow> ('w \<Rightarrow> 'x ruin_scheme) \<Rightarrow> bool" where
  "hr_laws E ns name V \<longleftrightarrow> (\<forall>w.
     case rn_hr (V w) of
       None \<Rightarrow> \<exists>a w'. m_get_hr (mgmt E) ns name w = (Inl a, w') \<and> ae_not_found a \<and> V w' = V w
     | Some hr \<Rightarrow>
         (\<exists>w'. m_get_hr (mgmt E) ns name w = (Inr hr, w') \<and> V w' = V w) \<and>
         (\<forall>fs. \<exists>w'. m_patch_hr (mgmt E) ns name fs w = (None, w') \<and>
            V w' = (V w)\<lparr>rn_hr := if hr_deleting hr \<and> fs = [] then None else Some (hr\<lparr>hr_finalizers := fs\<rparr>)\<rparr>))"

text \<open>
  Octavia deletes a balancer that is ACTIVE or in ERROR and refuses to while it is busy with it. A
  deletion is done at once, or leaves the balancer pending for at most \<open>K\<close> rounds.
\<close>

definition resting :: "lb \<Rightarrow> bool" where
  "resting b \<longleftrightarrow> lb_status b = status_active \<or> lb_status b = status_error"

definition doom :: "string \<Rightarrow> lb \<Rightarrow> lb" where
  "doom i b = (if lb_id b = i then b\<lparr>lb_status := status_pending_delete\<rparr> else b)"

definition ruin_lb_laws :: "'w env \<Rightarrow> clients \<Rightarrow> nat \<Rightarrow> ('w \<Rightarrow> 'x ruin_scheme) \<Rightarrow> bool" where
  "ruin_lb_laws E c K V \<longleftrightarrow>
     (\<forall>w. \<exists>pg w'. o_list_lbs (octavia E) c None w = (pg, w') \<and> V w' = V w \<and> pages_items pg = Inr (rn_lbs (V w))) \<and>
     (\<forall>b w. b \<in> set (rn_lbs (V w)) \<and> resting b \<longrightarrow>
        (\<exists>k w'. o_del_lb (octavia E) c (lb_id b) w = (None, w') \<and> k \<le> K \<and>
           (V w' = (V w)\<lparr>rn_lbs := filter (\<lambda>b'. lb_id b' \<noteq> lb_id b) (rn_lbs (V w))\<rparr> \<or>
            0 < k \<and> V w' = (V w)\<lparr>rn_lbs := map (doom (lb_id b)) (rn_lbs (V w)),
              rn_busy := (rn_busy (V w))(lb_id b := k)\<rparr>))) \<and>
     (\<forall>b w. b \<in> set (rn_lbs (V w)) \<and> \<not> resting b \<longrightarrow>
        (\<exists>a w'. o_del_lb (octavia E) c (lb_id b) w = (Some a, w') \<and> V w' = V w))"

definition ruin_fip_laws :: "'w env \<Rightarrow> clients \<Rightarrow> ('w \<Rightarrow> 'x ruin_scheme) \<Rightarrow> bool" where
  "ruin_fip_laws E c V \<longleftrightarrow>
     (\<forall>port w. \<exists>pg w'. n_list_fips (neutron E) c (Some port) w = (pg, w') \<and> V w' = V w \<and>
        pages_find (\<lambda>_. True) pg = Inr (find (\<lambda>_. True) (rn_fips (V w) port))) \<and>
     (\<forall>i w. (\<exists>port. i \<in> fp_id ` set (rn_fips (V w) port)) \<longrightarrow> (\<exists>w'. n_del_fip (neutron E) c i w = (None, w') \<and>
        V w' = (V w)\<lparr>rn_fips := (\<lambda>port. filter (\<lambda>f. fp_id f \<noteq> i) (rn_fips (V w) port))\<rparr>))"

text \<open>A group that a port still carries is pinned, and Neutron refuses to delete it as a conflict.\<close>

definition ruin_group_laws :: "'w env \<Rightarrow> clients \<Rightarrow> ('w \<Rightarrow> 'x ruin_scheme) \<Rightarrow> bool" where
  "ruin_group_laws E c V \<longleftrightarrow>
     (\<forall>n w. \<exists>pg w'. n_list_sgs (neutron E) c (Some n) w = (pg, w') \<and> V w' = V w \<and>
        pages_find (\<lambda>g. sg_name g = n) pg = Inr (find (\<lambda>g. sg_name g = n) (rn_groups (V w)))) \<and>
     (\<forall>i w. if i \<in> rn_pinned (V w)
        then \<exists>a w'. n_del_sg (neutron E) c i w = (Some a, w') \<and> is_conflict_error (Api a) \<and> V w' = V w
        else \<exists>w'. n_del_sg (neutron E) c i w = (None, w') \<and>
          V w' = (V w)\<lparr>rn_groups := filter (\<lambda>g. sg_id g \<noteq> i) (rn_groups (V w))\<rparr>)"

definition going :: "lb \<Rightarrow> bool" where
  "going b \<longleftrightarrow> lb_status b = status_pending_delete"

lemma going_works: "going b \<Longrightarrow> \<not> resting b"
  by (simp add: going_def resting_def status_pending_delete_def status_active_def status_error_def)

text \<open>
  A balancer rests exactly when Octavia is not busy with it. A round of Octavia's work on every
  balancer: it comes closer to its end, or ends.
\<close>

definition at_work :: "'x ruin_scheme \<Rightarrow> bool" where
  "at_work v \<longleftrightarrow> (\<forall>b\<in>set (rn_lbs v). rn_busy v (lb_id b) = 0 \<longleftrightarrow> resting b)"

lemma at_work_frame [simp]:
  "at_work (v\<lparr>rn_fips := fs\<rparr>) = at_work v" "at_work (v\<lparr>rn_groups := gs\<rparr>) = at_work v"
  "at_work (v\<lparr>rn_hr := r\<rparr>) = at_work v"
  by (simp_all add: at_work_def)

definition ruin_works :: "('w \<Rightarrow> 'w) \<Rightarrow> ('w \<Rightarrow> 'x ruin_scheme) \<Rightarrow> bool" where
  "ruin_works tick V \<longleftrightarrow> (\<forall>w. at_work (V w) \<longrightarrow> (\<exists>keep st busy.
     V (tick w) = (V w)\<lparr>rn_lbs := map (\<lambda>b. b\<lparr>lb_status := st (lb_id b)\<rparr>) (filter keep (rn_lbs (V w))), rn_busy := busy\<rparr> \<and>
     (\<forall>b\<in>set (rn_lbs (V w)).
        (if rn_busy (V w) (lb_id b) = 0 then busy (lb_id b) = 0 else busy (lb_id b) < rn_busy (V w) (lb_id b)) \<and>
        (if going b then keep b \<longrightarrow> st (lb_id b) = status_pending_delete \<and> 0 < busy (lb_id b)
         else keep b \<and> st (lb_id b) \<noteq> status_pending_delete \<and>
           (busy (lb_id b) = 0 \<longleftrightarrow> resting (b\<lparr>lb_status := st (lb_id b)\<rparr>))))))"

definition ruin_laws ::
  "'w env \<Rightarrow> clients \<Rightarrow> string \<Rightarrow> string \<Rightarrow> nat \<Rightarrow> ('w \<Rightarrow> 'w) \<Rightarrow> ('w \<Rightarrow> 'x ruin_scheme) \<Rightarrow> bool" where
  "ruin_laws E c ns name K tick V \<longleftrightarrow>
     hr_laws E ns name V \<and> ruin_lb_laws E c K V \<and> ruin_fip_laws E c V \<and> ruin_group_laws E c V \<and> ruin_works tick V"

text \<open>A part of the program that answers \<open>y\<close> and changes nothing as long as the rest of the world stands still.\<close>

definition ruin_steady :: "('w \<Rightarrow> 'x ruin_scheme) \<Rightarrow> 'x \<Rightarrow> ('w, 'a) lbc \<Rightarrow> 'a \<Rightarrow> bool" where
  "ruin_steady V x m y \<longleftrightarrow>
     (\<forall>s. ruin.more (V (world s)) = x \<longrightarrow> wp m (\<lambda>r s'. r = Inr y \<and> V (world s') = V (world s)) s)"

section \<open>What is to go, and how much is left\<close>

definition cluster_lbs :: "string \<Rightarrow> 'x ruin_scheme \<Rightarrow> lb list" where
  "cluster_lbs cluster v = filter (\<lambda>b. has_prefix (lb_name b) (managed_name_prefix @ cluster @ ''/'')) (rn_lbs v)"

definition ruin_ok :: "string \<Rightarrow> 'x ruin_scheme \<Rightarrow> bool" where
  "ruin_ok cluster v \<longleftrightarrow> distinct (map lb_id (rn_lbs v)) \<and> at_work v \<and>
     (\<forall>b\<in>set (cluster_lbs cluster v). lb_vip_port b \<noteq> '''') \<and> (\<forall>p. length (rn_fips v p) \<le> 1) \<and>
     length (filter (\<lambda>g. sg_name g = cluster_sg_name cluster) (rn_groups v)) \<le> 1"

text \<open>The ports \<open>P\<close> of the cluster's balancers have a floating IP only where a balancer still stands.\<close>

definition ports_kept :: "string \<Rightarrow> string set \<Rightarrow> 'x ruin_scheme \<Rightarrow> bool" where
  "ports_kept cluster P v \<longleftrightarrow>
     (\<forall>p\<in>P. rn_fips v p = [] \<or> (\<exists>b\<in>set (cluster_lbs cluster v). \<not> going b \<and> lb_vip_port b = p))"

definition let_go :: "'x ruin_scheme \<Rightarrow> bool" where
  "let_go v \<longleftrightarrow> (\<forall>hr. rn_hr v = Some hr \<longrightarrow> cluster_finalizer_name \<notin> set (hr_finalizers hr))"

definition group_gone :: "string \<Rightarrow> 'x ruin_scheme \<Rightarrow> bool" where
  "group_gone cluster v \<longleftrightarrow> (\<forall>g\<in>set (rn_groups v). sg_name g = cluster_sg_name cluster \<longrightarrow> sg_id g \<in> rn_pinned v)"

definition going_down ::
  "string \<Rightarrow> string \<Rightarrow> string \<Rightarrow> string set \<Rightarrow> 'x \<Rightarrow> 'x ruin_scheme \<Rightarrow> bool" where
  "going_down ns name cluster P x v \<longleftrightarrow> ruin.more v = x \<and> ruin_ok cluster v \<and> ports_kept cluster P v \<and>
     (\<forall>hr. rn_hr v = Some hr \<longrightarrow> hr_deleting hr \<and> hr_ns hr = ns \<and> hr_name hr = name \<and>
        str_at (hr_labels hr) app_name_label = cluster) \<and>
     (let_go v \<longrightarrow> (\<forall>b\<in>set (cluster_lbs cluster v). going b) \<and> group_gone cluster v)"

text \<open>
  The cluster is gone: its finalizer is off, so a HelmRelease with no other finalizer is gone too;
  it has no balancer, none of its ports a floating IP, and its group is left only where it is pinned.
\<close>

definition cluster_gone :: "string \<Rightarrow> string set \<Rightarrow> 'x ruin_scheme \<Rightarrow> bool" where
  "cluster_gone cluster P v \<longleftrightarrow>
     let_go v \<and> cluster_lbs cluster v = [] \<and> (\<forall>p\<in>P. rn_fips v p = []) \<and> group_gone cluster v"

definition weight :: "nat \<Rightarrow> 'x ruin_scheme \<Rightarrow> string \<Rightarrow> nat" where
  "weight K v i = (if \<exists>b\<in>set (rn_lbs v). lb_id b = i \<and> \<not> going b then K + 1 else 0) + rn_busy v i"

definition mine_ids :: "string \<Rightarrow> 'x ruin_scheme \<Rightarrow> string set" where
  "mine_ids cluster v = lb_id ` set (cluster_lbs cluster v)"

definition load :: "nat \<Rightarrow> string \<Rightarrow> 'x ruin_scheme \<Rightarrow> nat" where
  "load K cluster v = sum (weight K v) (mine_ids cluster v)"

definition ruin_budget :: "nat \<Rightarrow> string \<Rightarrow> 'x ruin_scheme \<Rightarrow> nat" where
  "ruin_budget K cluster v = load K cluster v + (if let_go v then 0 else 1)"

lemma finite_mine [simp]: "finite (mine_ids cluster v)"
  by (simp add: mine_ids_def)

lemma load_le:
  assumes "mine_ids cluster v' \<subseteq> mine_ids cluster v"
    and "\<And>i. i \<in> mine_ids cluster v' \<Longrightarrow> weight K v' i \<le> weight K v i"
  shows "load K cluster v' \<le> load K cluster v"
proof -
  have "load K cluster v' \<le> sum (weight K v) (mine_ids cluster v')"
    unfolding load_def by (rule sum_mono) (rule assms(2))
  also have "\<dots> \<le> load K cluster v"
    unfolding load_def by (rule sum_mono2) (use assms(1) in simp_all)
  finally show ?thesis .
qed

lemma load_less:
  assumes sub: "mine_ids cluster v' \<subseteq> mine_ids cluster v"
    and le: "\<And>j. j \<in> mine_ids cluster v' \<Longrightarrow> weight K v' j \<le> weight K v j"
    and i: "i \<in> mine_ids cluster v" "0 < weight K v i" "i \<in> mine_ids cluster v' \<Longrightarrow> weight K v' i < weight K v i"
  shows "load K cluster v' < load K cluster v"
proof -
  have split: "load K cluster v = weight K v i + sum (weight K v) (mine_ids cluster v - {i})"
    unfolding load_def by (rule sum.remove) (use i(1) in simp_all)
  have rest: "sum (weight K v') (mine_ids cluster v' - {i}) \<le> sum (weight K v) (mine_ids cluster v - {i})"
  proof -
    have "sum (weight K v') (mine_ids cluster v' - {i}) \<le> sum (weight K v) (mine_ids cluster v' - {i})"
      by (rule sum_mono) (simp add: le)
    also have "\<dots> \<le> sum (weight K v) (mine_ids cluster v - {i})"
      by (rule sum_mono2) (use sub in auto)
    finally show ?thesis .
  qed
  show ?thesis
  proof (cases "i \<in> mine_ids cluster v'")
    case True
    have "load K cluster v' = weight K v' i + sum (weight K v') (mine_ids cluster v' - {i})"
      unfolding load_def by (rule sum.remove) (use True in simp_all)
    with i(3) [OF True] rest split show ?thesis by simp
  next
    case False
    then have "load K cluster v' = sum (weight K v') (mine_ids cluster v' - {i})" by (simp add: load_def)
    with i(2) rest split show ?thesis by simp
  qed
qed

lemma mine_sub: "set (cluster_lbs cluster v) \<subseteq> set (rn_lbs v)"
  by (auto simp: cluster_lbs_def)

lemma going_busy: "at_work v \<Longrightarrow> b \<in> set (rn_lbs v) \<Longrightarrow> going b \<Longrightarrow> 0 < rn_busy v (lb_id b)"
  using going_works by (fastforce simp: at_work_def)

lemma weight_pos: "ruin_ok cluster v \<Longrightarrow> i \<in> mine_ids cluster v \<Longrightarrow> 0 < weight K v i"
  using mine_sub [of cluster v] going_busy [of v] by (fastforce simp: ruin_ok_def mine_ids_def weight_def)

section \<open>Octavia at work\<close>

lemma same_ids: "distinct (map lb_id bs) \<Longrightarrow> b \<in> set bs \<Longrightarrow> b' \<in> set bs \<Longrightarrow> lb_id b = lb_id b' \<Longrightarrow> b = b'"
  by (simp add: distinct_map inj_on_def)


lemma filter_map_keep:
  "(\<And>x. P (f x) = P x) \<Longrightarrow> filter P (map f (filter Q xs)) = map f (filter Q (filter P xs))"
  by (induction xs) auto

lemma tick_ruin:
  assumes works: "ruin_works tick V" and t: "going_down ns name cluster P x (V w)"
  shows "going_down ns name cluster P x (V (tick w))" and "load K cluster (V (tick w)) \<le> load K cluster (V w)"
    and "\<exists>b\<in>set (cluster_lbs cluster (V w)). 0 < rn_busy (V w) (lb_id b) \<Longrightarrow> load K cluster (V (tick w)) < load K cluster (V w)"
    and "let_go (V (tick w)) = let_go (V w)"
proof -
  let ?v = "V w" and ?v' = "V (tick w)"
  from t have "at_work ?v" by (simp add: going_down_def ruin_ok_def)
  with works [unfolded ruin_works_def, THEN spec, of w] obtain keep st busy where v': "?v' = ?v\<lparr>rn_lbs := map (\<lambda>b. b\<lparr>lb_status := st (lb_id b)\<rparr>) (filter keep (rn_lbs ?v)), rn_busy := busy\<rparr>"
    and b0: "\<forall>b\<in>set (rn_lbs ?v).
        (if rn_busy ?v (lb_id b) = 0 then busy (lb_id b) = 0 else busy (lb_id b) < rn_busy ?v (lb_id b)) \<and>
        (if going b then keep b \<longrightarrow> st (lb_id b) = status_pending_delete \<and> 0 < busy (lb_id b)
         else keep b \<and> st (lb_id b) \<noteq> status_pending_delete \<and>
           (busy (lb_id b) = 0 \<longleftrightarrow> resting (b\<lparr>lb_status := st (lb_id b)\<rparr>)))"
    by (elim impE exE conjE)
  note b = bspec [OF b0]
  let ?f = "\<lambda>b. b\<lparr>lb_status := st (lb_id b)\<rparr>"
  have lbs: "rn_lbs ?v' = map ?f (filter keep (rn_lbs ?v))" by (simp add: v')
  have cluster_lbs': "cluster_lbs cluster ?v' = map ?f (filter keep (cluster_lbs cluster ?v))"
    unfolding cluster_lbs_def lbs by (rule filter_map_keep) simp
  have lbs': "set (rn_lbs ?v') = ?f ` {b \<in> set (rn_lbs ?v). keep b}" by (simp add: v')
  have going': "going (?f b) = going b" if "b \<in> set (rn_lbs ?v)" "keep b" for b
    using b [OF that(1)] that(2) by (auto simp: going_def split: if_splits)
  have sub: "mine_ids cluster ?v' \<subseteq> mine_ids cluster ?v" by (auto simp: mine_ids_def cluster_lbs')
  have busy: "busy i \<le> rn_busy ?v i" "0 < rn_busy ?v i \<Longrightarrow> busy i < rn_busy ?v i" if "i \<in> mine_ids cluster ?v" for i
    using that b mine_sub [of cluster ?v] by (fastforce simp: mine_ids_def split: if_splits)+
  have stands: "(\<exists>b\<in>set (rn_lbs ?v'). lb_id b = i \<and> \<not> going b) \<Longrightarrow> (\<exists>b\<in>set (rn_lbs ?v). lb_id b = i \<and> \<not> going b)" for i
    using going' by (force simp: lbs')
  have le: "weight K ?v' i \<le> weight K ?v i" "0 < rn_busy ?v i \<Longrightarrow> weight K ?v' i < weight K ?v i" if "i \<in> mine_ids cluster ?v" for i
    using busy [OF that] stands [of i] by (auto simp: weight_def v')
  show "load K cluster ?v' \<le> load K cluster ?v" by (rule load_le [OF sub]) (use le sub in blast)
  show "load K cluster ?v' < load K cluster ?v" if "\<exists>b\<in>set (cluster_lbs cluster ?v). 0 < rn_busy ?v (lb_id b)"
  proof -
    from that obtain b where "b \<in> set (cluster_lbs cluster ?v)" "0 < rn_busy ?v (lb_id b)" by blast
    then have i: "lb_id b \<in> mine_ids cluster ?v" "0 < rn_busy ?v (lb_id b)" by (simp_all add: mine_ids_def)
    show ?thesis
    proof (rule load_less [OF sub _ i(1)])
      show "0 < weight K ?v (lb_id b)" using i(2) by (simp add: weight_def)
    qed (use le i sub in blast)+
  qed
  show rel: "let_go ?v' = let_go ?v" by (simp add: let_go_def v')
  have ok: "ruin_ok cluster ?v" and kept: "ports_kept cluster P ?v" using t by (simp_all add: going_down_def)
  have "ruin_ok cluster ?v'"
    unfolding ruin_ok_def
  proof (intro conjI)
    have "distinct (map lb_id (filter keep (rn_lbs ?v)))" using ok by (simp add: ruin_ok_def distinct_map_filter)
    then show "distinct (map lb_id (rn_lbs ?v'))" by (simp add: v' comp_def)
    show "at_work ?v'"
      unfolding at_work_def
    proof
      fix b' assume "b' \<in> set (rn_lbs ?v')"
      then obtain b0 where b0: "b0 \<in> set (rn_lbs ?v)" "keep b0" "b' = ?f b0" by (auto simp: lbs')
      show "rn_busy ?v' (lb_id b') = 0 \<longleftrightarrow> resting b'"
        using b [OF b0(1)] b0(2) going_works [of b'] by (auto simp: b0(3) v' going_def split: if_splits)
    qed
    show "\<forall>b\<in>set (cluster_lbs cluster ?v'). lb_vip_port b \<noteq> ''''" using ok unfolding ruin_ok_def cluster_lbs' by auto
  qed (use ok in \<open>simp_all add: ruin_ok_def v'\<close>)
  moreover have "ports_kept cluster P ?v'"
    unfolding ports_kept_def
  proof
    fix p assume "p \<in> P"
    with kept consider "rn_fips ?v p = []" | b where "b \<in> set (cluster_lbs cluster ?v)" "\<not> going b" "lb_vip_port b = p"
      by (auto simp: ports_kept_def)
    then show "rn_fips ?v' p = [] \<or> (\<exists>b\<in>set (cluster_lbs cluster ?v'). \<not> going b \<and> lb_vip_port b = p)"
    proof cases
      case 1
      then show ?thesis by (simp add: v')
    next
      case (2 b')
      then have "b' \<in> set (rn_lbs ?v)" using mine_sub by blast
      with 2(2) b have "keep b'" by (auto split: if_splits)
      with 2 going' [OF \<open>b' \<in> set (rn_lbs ?v)\<close>] show ?thesis
        by (intro disjI2 bexI [of _ "?f b'"]) (auto simp: cluster_lbs')
    qed
  qed
  moreover have "\<forall>b\<in>set (cluster_lbs cluster ?v'). going b" if "\<forall>b\<in>set (cluster_lbs cluster ?v). going b"
    using that going' mine_sub [of cluster ?v] by (force simp: cluster_lbs')
  ultimately show "going_down ns name cluster P x ?v'"
    using t rel by (simp add: going_down_def) (simp add: v' group_gone_def)
qed

section \<open>One sweep\<close>

text \<open>
  The sweep after the balancers \<open>xs\<close> of \<open>v\<close>: those are going or gone, the others untouched, and
  nothing has become heavier.
\<close>

definition sweeping ::
  "nat \<Rightarrow> string \<Rightarrow> string set \<Rightarrow> 'x ruin_scheme \<Rightarrow> lb list \<Rightarrow> 'x ruin_scheme \<Rightarrow> bool" where
  "sweeping K cluster P v xs u \<longleftrightarrow>
     ruin.more u = ruin.more v \<and> rn_hr u = rn_hr v \<and> rn_groups u = rn_groups v \<and> rn_pinned u = rn_pinned v \<and>
     ruin_ok cluster u \<and> ports_kept cluster P u \<and> load K cluster u \<le> load K cluster v \<and>
     (\<forall>b\<in>set (cluster_lbs cluster v). b \<notin> set xs \<longrightarrow> b \<in> set (rn_lbs u)) \<and>
     (\<forall>b\<in>set (cluster_lbs cluster u). going b \<or> b \<in> set (cluster_lbs cluster v) \<and> b \<notin> set xs)"

lemma sweeping_fips:
  assumes "sweeping K cluster P v xs u" and "\<And>q. length (fs q) \<le> length (rn_fips u q)"
  shows "sweeping K cluster P v xs (u\<lparr>rn_fips := fs\<rparr>)"
proof -
  let ?u = "u\<lparr>rn_fips := fs\<rparr>"
  have m: "cluster_lbs cluster ?u = cluster_lbs cluster u" by (simp add: cluster_lbs_def)
  have "weight K ?u i = weight K u i" for i by (simp add: weight_def)
  then have "load K cluster ?u = load K cluster u" by (simp add: load_def mine_ids_def m)
  moreover have "rn_fips u p = [] \<Longrightarrow> fs p = []" for p using assms(2) [of p] by simp
  then have "ports_kept cluster P ?u" using assms(1) by (auto simp: sweeping_def ports_kept_def m)
  moreover have "length (fs q) \<le> 1" for q
    using assms(2) [of q] assms(1) by (auto simp: sweeping_def ruin_ok_def intro: order_trans)
  then have "ruin_ok cluster u \<Longrightarrow> ruin_ok cluster ?u" by (simp add: ruin_ok_def m)
  ultimately show ?thesis using assms(1) by (simp add: sweeping_def m)
qed

text \<open>A deletion that Octavia accepts, in either form.\<close>

definition deleted :: "nat \<Rightarrow> lb \<Rightarrow> 'x ruin_scheme \<Rightarrow> 'x ruin_scheme \<Rightarrow> bool" where
  "deleted K b u u' \<longleftrightarrow> (\<exists>bs busy. u' = u\<lparr>rn_lbs := bs, rn_busy := busy\<rparr> \<and> distinct (map lb_id bs) \<and>
     (\<forall>j. j \<noteq> lb_id b \<longrightarrow> busy j = rn_busy u j) \<and> busy (lb_id b) \<le> K \<and>
     (\<forall>b'. lb_id b' \<noteq> lb_id b \<longrightarrow> b' \<in> set bs \<longleftrightarrow> b' \<in> set (rn_lbs u)) \<and>
     (\<forall>b'\<in>set bs. lb_id b' = lb_id b \<longrightarrow> b' = b\<lparr>lb_status := status_pending_delete\<rparr> \<and> 0 < busy (lb_id b)))"

lemma doom_id [simp]: "lb_id (doom i b) = lb_id b"
  by (simp add: doom_def)

lemma deletedI:
  assumes d: "distinct (map lb_id (rn_lbs u))" and b: "b \<in> set (rn_lbs u)" "rn_busy u (lb_id b) \<le> K" and k: "k \<le> K"
    and u': "u' = u\<lparr>rn_lbs := filter (\<lambda>b'. lb_id b' \<noteq> lb_id b) (rn_lbs u)\<rparr> \<or>
      0 < k \<and> u' = u\<lparr>rn_lbs := map (doom (lb_id b)) (rn_lbs u), rn_busy := (rn_busy u)(lb_id b := k)\<rparr>"
  shows "deleted K b u u'"
  using u'
proof
  assume u': "u' = u\<lparr>rn_lbs := filter (\<lambda>b'. lb_id b' \<noteq> lb_id b) (rn_lbs u)\<rparr>"
  then have "u' = u\<lparr>rn_lbs := filter (\<lambda>b'. lb_id b' \<noteq> lb_id b) (rn_lbs u), rn_busy := rn_busy u\<rparr>" by simp
  then show ?thesis
    unfolding deleted_def
    by (intro exI [of _ "filter (\<lambda>b'. lb_id b' \<noteq> lb_id b) (rn_lbs u)"] exI [of _ "rn_busy u"])
       (use d b in \<open>simp add: distinct_map_filter\<close>)
next
  assume u': "0 < k \<and> u' = u\<lparr>rn_lbs := map (doom (lb_id b)) (rn_lbs u), rn_busy := (rn_busy u)(lb_id b := k)\<rparr>"
  have "distinct (map lb_id (map (doom (lb_id b)) (rn_lbs u)))" using d by (simp add: comp_def)
  moreover have "b' \<in> set (map (doom (lb_id b)) (rn_lbs u)) \<longleftrightarrow> b' \<in> set (rn_lbs u)" if "lb_id b' \<noteq> lb_id b" for b'
    using that by (force simp: doom_def split: if_splits)
  moreover have "b' = b\<lparr>lb_status := status_pending_delete\<rparr>"
    if "b' \<in> set (map (doom (lb_id b)) (rn_lbs u))" "lb_id b' = lb_id b" for b'
    using that by (auto simp: doom_def split: if_splits dest: same_ids [OF d _ b(1)])
  ultimately show ?thesis
    unfolding deleted_def
    by (intro exI [of _ "map (doom (lb_id b)) (rn_lbs u)"] exI [of _ "(rn_busy u)(lb_id b := k)"])
       (use u' k in simp)
qed

lemma sweeping_deleted:
  assumes s: "sweeping K cluster P v xs u" and b: "b \<in> set (cluster_lbs cluster v)" "b \<notin> set xs" "resting b"
    and empty: "rn_fips u (lb_vip_port b) = []" and del: "deleted K b u u'"
  shows "sweeping K cluster P v (xs @ [b]) u'"
proof -
  let ?i = "lb_id b"
  from del obtain bs busy where u': "u' = u\<lparr>rn_lbs := bs, rn_busy := busy\<rparr>" "distinct (map lb_id bs)"
    "\<And>j. j \<noteq> ?i \<Longrightarrow> busy j = rn_busy u j" "busy ?i \<le> K"
    "\<And>b'. lb_id b' \<noteq> ?i \<Longrightarrow> b' \<in> set bs \<longleftrightarrow> b' \<in> set (rn_lbs u)"
    "\<And>b'. b' \<in> set bs \<Longrightarrow> lb_id b' = ?i \<Longrightarrow> b' = b\<lparr>lb_status := status_pending_delete\<rparr> \<and> 0 < busy ?i"
    unfolding deleted_def by blast
  from s have ok: "ruin_ok cluster u" and kept: "ports_kept cluster P u" and load: "load K cluster u \<le> load K cluster v"
    by (simp_all add: sweeping_def)
  from ok have d: "distinct (map lb_id (rn_lbs u))" by (simp add: ruin_ok_def)
  have bu: "b \<in> set (rn_lbs u)" "b \<in> set (cluster_lbs cluster u)" using s b by (auto simp: sweeping_def cluster_lbs_def)
  have alive: "\<not> going b" using going_works b(3) by blast
  from ok have "at_work u" by (simp add: ruin_ok_def)
  with bu(1) b(3) have idle: "rn_busy u ?i = 0" by (simp add: at_work_def)
  note one = same_ids [OF d bu(1)]
  have doomed: "going b' \<and> lb_vip_port b' = lb_vip_port b" if "b' \<in> set bs" "lb_id b' = ?i" for b'
  proof -
    from u'(6) [OF that] have "b' = b\<lparr>lb_status := status_pending_delete\<rparr>" by simp
    then show ?thesis by (simp add: going_def)
  qed
  have m': "b' \<in> set (cluster_lbs cluster u') \<Longrightarrow> lb_id b' \<noteq> ?i \<Longrightarrow> b' \<in> set (cluster_lbs cluster u)"
    "b' \<in> set (cluster_lbs cluster u) \<Longrightarrow> lb_id b' \<noteq> ?i \<Longrightarrow> b' \<in> set (cluster_lbs cluster u')"
    "b' \<in> set (cluster_lbs cluster u') \<Longrightarrow> lb_id b' = ?i \<Longrightarrow> going b' \<and> lb_vip_port b' = lb_vip_port b" for b'
    using u'(5) [of b'] doomed [of b'] by (auto simp: cluster_lbs_def u'(1))
  have sub: "mine_ids cluster u' \<subseteq> mine_ids cluster u"
  proof
    fix j assume "j \<in> mine_ids cluster u'"
    then obtain b' where b': "b' \<in> set (cluster_lbs cluster u')" "lb_id b' = j" by (auto simp: mine_ids_def)
    then show "j \<in> mine_ids cluster u" using m'(1) [of b'] bu(2) by (cases "j = ?i") (auto simp: mine_ids_def)
  qed
  have "weight K u' j \<le> weight K u j" for j
  proof (cases "j = ?i")
    case True
    have "weight K u' ?i = busy ?i" using doomed by (auto simp: weight_def u'(1))
    moreover have "weight K u ?i = K + 1" using alive bu(1) idle by (auto simp: weight_def)
    ultimately show ?thesis using u'(4) True by simp
  next
    case False
    then have "(\<exists>b'\<in>set bs. lb_id b' = j \<and> \<not> going b') \<longleftrightarrow> (\<exists>b'\<in>set (rn_lbs u). lb_id b' = j \<and> \<not> going b')"
      using u'(5) by blast
    then show ?thesis using u'(3) [OF False] by (simp add: weight_def u'(1))
  qed
  then have "load K cluster u' \<le> load K cluster v" using load load_le [OF sub, of K] by (blast intro: order_trans)
  moreover have "ruin_ok cluster u'"
    unfolding ruin_ok_def
  proof (intro conjI ballI)
    show "at_work u'"
      unfolding at_work_def
    proof
      fix b' assume b': "b' \<in> set (rn_lbs u')"
      show "rn_busy u' (lb_id b') = 0 \<longleftrightarrow> resting b'"
      proof (cases "lb_id b' = ?i")
        case True
        with b' doomed [of b'] u'(6) [of b'] going_works [of b'] show ?thesis by (simp add: u'(1))
      next
        case False
        with ok b' u'(3) [of "lb_id b'"] u'(5) [of b'] show ?thesis by (simp add: ruin_ok_def at_work_def u'(1))
      qed
    qed
  next
    fix b' assume "b' \<in> set (cluster_lbs cluster u')"
    then show "lb_vip_port b' \<noteq> ''''" using ok m'(1,3) [of b'] bu(2) by (cases "lb_id b' = ?i") (auto simp: ruin_ok_def)
  qed (use ok u'(2) in \<open>simp_all add: ruin_ok_def u'(1)\<close>)
  moreover have "ports_kept cluster P u'"
    unfolding ports_kept_def
  proof
    fix p assume "p \<in> P"
    with kept consider "rn_fips u p = []" | b' where "b' \<in> set (cluster_lbs cluster u)" "\<not> going b'" "lb_vip_port b' = p"
      by (auto simp: ports_kept_def)
    then show "rn_fips u' p = [] \<or> (\<exists>b\<in>set (cluster_lbs cluster u'). \<not> going b \<and> lb_vip_port b = p)"
    proof cases
      case (2 b')
      then show ?thesis
        using m'(2) [of b'] empty one [of b'] mine_sub [of cluster u] by (cases "lb_id b' = ?i") (auto simp: u'(1))
    qed (simp add: u'(1))
  qed
  moreover have "b' \<in> set (rn_lbs u')" if "b' \<in> set (cluster_lbs cluster v)" "b' \<notin> set (xs @ [b])" for b'
  proof -
    have "b' \<in> set (rn_lbs u)" using that s by (auto simp: sweeping_def)
    moreover from this one [of b'] that(2) have "lb_id b' \<noteq> ?i" by auto
    ultimately show ?thesis using u'(5) by (simp add: u'(1))
  qed
  moreover have "going b' \<or> b' \<in> set (cluster_lbs cluster v) \<and> b' \<notin> set (xs @ [b])" if "b' \<in> set (cluster_lbs cluster u')" for b'
    using that m' s by (cases "lb_id b' = ?i") (auto simp: sweeping_def)
  ultimately show ?thesis using s by (simp add: sweeping_def) (simp add: u'(1))
qed

lemma run_ruin_fip:
  fixes E :: "'w env"
  assumes law: "ruin_fip_laws E c V" and p: "p \<noteq> ''''" and one: "length (rn_fips (V (world s)) p) \<le> 1"
    and Q: "\<And>fs s'. V (world s') = (V (world s))\<lparr>rn_fips := fs\<rparr> \<Longrightarrow> fs p = [] \<Longrightarrow>
       (\<And>q. length (fs q) \<le> length (rn_fips (V (world s)) q)) \<Longrightarrow> Q (Inr ()) s'"
  shows "wp (delete_floating_ip E c p) Q s"
proof -
  let ?v = "V (world s)"
  from law obtain pg w' where w': "n_list_fips (neutron E) c (Some p) (world s) = (pg, w')" "V w' = ?v"
    "pages_find (\<lambda>_. True) pg = Inr (find (\<lambda>_. True) (rn_fips ?v p))" unfolding ruin_fip_laws_def by blast
  have look: "wp (case find (\<lambda>_. True) (rn_fips ?v p) of None \<Rightarrow> ret ()
     | Some f \<Rightarrow> check (m f) (del_fip E c (fp_id f)) ret) Q s1" if s1: "world s1 = w'" for m :: "fip \<Rightarrow> string" and s1
  proof (cases "rn_fips ?v p")
    case Nil
    have "V (world s1) = ?v\<lparr>rn_fips := rn_fips ?v\<rparr>" using s1 w' by simp
    from Q [OF this] Nil show ?thesis by (simp add: wp_ret)
  next
    case (Cons f fs)
    with one have fs: "rn_fips ?v p = [f]" by simp
    have "\<exists>port. fp_id f \<in> fp_id ` set (rn_fips (V w') port)" using fs w' by (intro exI [of _ p]) simp
    from law [unfolded ruin_fip_laws_def, THEN conjunct2, rule_format, OF this]
    obtain w2 where w2: "n_del_fip (neutron E) c (fp_id f) w' = (None, w2)"
      "V w2 = (V w')\<lparr>rn_fips := (\<lambda>port. filter (\<lambda>g. fp_id g \<noteq> fp_id f) (rn_fips (V w') port))\<rparr>" by blast
    have "Q (Inr ()) s'" if "world s' = w2" for s'
    proof -
      have "V (world s') = ?v\<lparr>rn_fips := (\<lambda>port. filter (\<lambda>g. fp_id g \<noteq> fp_id f) (rn_fips ?v port))\<rparr>"
        using w2(2) that w'(2) by simp
      from Q [OF this] fs show ?thesis by simp
    qed
    with Cons w2(1) s1 show ?thesis by (simp add: wp_simps)
  qed
  show ?thesis
    unfolding delete_floating_ip_def find_fip_by_port_def using p w' look
    by (simp only: if_False wp_check [of "''looking up FIP for delete''"] wp_call_find prod.case sum.case) simp
qed

text \<open>A sweep comes to the end of the balancers, or to one that Octavia is busy with.\<close>

definition blocked :: "nat \<Rightarrow> string \<Rightarrow> string set \<Rightarrow> 'x ruin_scheme \<Rightarrow> 'x ruin_scheme \<Rightarrow> bool" where
  "blocked K cluster P v u \<longleftrightarrow> (\<exists>xs. sweeping K cluster P v xs u) \<and> (\<exists>b\<in>set (cluster_lbs cluster u). 0 < rn_busy u (lb_id b))"

lemma run_sweep_lb:
  fixes E :: "'w env"
  assumes laws: "ruin_lb_laws E c K V" "ruin_fip_laws E c V" and s: "sweeping K cluster P v xs (V (world s))"
    and b: "b \<in> set (cluster_lbs cluster v)" "b \<notin> set xs"
  shows "wp (sweep_lb E c b) (\<lambda>r s'. case r of
     Inl _ \<Rightarrow> blocked K cluster P v (V (world s')) | Inr _ \<Rightarrow> sweeping K cluster P v (xs @ [b]) (V (world s'))) s"
proof -
  have m: "b \<in> set (cluster_lbs cluster (V (world s)))" using s b by (auto simp: sweeping_def cluster_lbs_def)
  then have p: "lb_vip_port b \<noteq> ''''" "length (rn_fips (V (world s)) (lb_vip_port b)) \<le> 1"
    using s by (auto simp: sweeping_def ruin_ok_def)
  show ?thesis
    unfolding sweep_lb_def wp_check wp_ret
  proof (rule run_ruin_fip [OF laws(2) p], simp only: sum.case)
    fix fs and s1 :: "('w, event) st"
    assume s1: "V (world s1) = (V (world s))\<lparr>rn_fips := fs\<rparr>" "fs (lb_vip_port b) = []"
      "\<And>q. length (fs q) \<le> length (rn_fips (V (world s)) q)"
    let ?u = "V (world s1)"
    have u: "sweeping K cluster P v xs ?u" unfolding s1(1) by (rule sweeping_fips [OF s s1(3)])
    then have bu: "b \<in> set (rn_lbs ?u)" "b \<in> set (cluster_lbs cluster ?u)" and d: "distinct (map lb_id (rn_lbs ?u))"
      using b by (auto simp: sweeping_def cluster_lbs_def ruin_ok_def)
    from u have "at_work ?u" by (simp add: sweeping_def ruin_ok_def)
    with bu(1) have rest: "rn_busy ?u (lb_id b) = 0 \<longleftrightarrow> resting b" by (simp add: at_work_def)
    show "wp (del_lb_cascade E c (lb_id b)) (\<lambda>r s'. case r of
       Inl _ \<Rightarrow> blocked K cluster P v (V (world s')) | Inr _ \<Rightarrow> sweeping K cluster P v (xs @ [b]) (V (world s'))) s1"
    proof (cases "resting b")
      case True
      with rest have "rn_busy ?u (lb_id b) \<le> K" by simp
      note busy = deletedI [OF d bu(1) this]
      from True laws(1) bu(1) obtain k w' where w': "o_del_lb (octavia E) c (lb_id b) (world s1) = (None, w')" "k \<le> K"
        "V w' = ?u\<lparr>rn_lbs := filter (\<lambda>b'. lb_id b' \<noteq> lb_id b) (rn_lbs ?u)\<rparr> \<or>
         0 < k \<and> V w' = ?u\<lparr>rn_lbs := map (doom (lb_id b)) (rn_lbs ?u), rn_busy := (rn_busy ?u)(lb_id b := k)\<rparr>"
        unfolding ruin_lb_laws_def by blast
      have "sweeping K cluster P v (xs @ [b]) (V w')"
        by (rule sweeping_deleted [OF u b True _ busy [OF w'(2,3)]]) (simp add: s1)
      with w'(1) show ?thesis by (simp add: wp_call_unit)
    next
      case False
      with laws(1) bu(1) obtain a w' where "o_del_lb (octavia E) c (lb_id b) (world s1) = (Some a, w')" "V w' = ?u"
        unfolding ruin_lb_laws_def by blast
      moreover have "blocked K cluster P v ?u"
      proof -
        have "0 < rn_busy ?u (lb_id b)" using rest False by simp
        with u bu(2) show ?thesis by (auto simp: blocked_def)
      qed
      ultimately show ?thesis by (simp add: wp_call_unit)
    qed
  qed
qed

text \<open>After the balancers, the group.\<close>

lemma one_group:
  assumes "length (filter (\<lambda>g. sg_name g = n) gs) \<le> 1" "find (\<lambda>g. sg_name g = n) gs = Some g"
    and "g' \<in> set gs" "sg_name g' = n"
  shows "g' = g"
proof -
  from assms(2) have "g \<in> set (filter (\<lambda>g. sg_name g = n) gs)" by (auto simp: find_Some_iff)
  moreover from assms(3,4) have "g' \<in> set (filter (\<lambda>g. sg_name g = n) gs)" by simp
  ultimately show ?thesis using assms(1) by (cases "filter (\<lambda>g. sg_name g = n) gs") auto
qed

lemma run_sweep_group:
  fixes E :: "'w env"
  assumes law: "ruin_group_laws E c V"
    and one: "length (filter (\<lambda>g. sg_name g = cluster_sg_name cluster) (rn_groups (V (world s)))) \<le> 1"
    and Q: "\<And>gs s'. V (world s') = (V (world s))\<lparr>rn_groups := gs\<rparr> \<Longrightarrow> group_gone cluster (V (world s')) \<Longrightarrow>
      length (filter (\<lambda>g. sg_name g = cluster_sg_name cluster) gs) \<le> 1 \<Longrightarrow> Q (Inr ()) s'"
  shows "wp (check m (find_sg_by_name E c (cluster_sg_name cluster)) (\<lambda>g. case g of None \<Rightarrow> ret () | Some g \<Rightarrow> sweep_sg E c g)) Q s"
proof -
  let ?v = "V (world s)" and ?P = "\<lambda>g. sg_name g = cluster_sg_name cluster"
  from law obtain pg w' where w': "n_list_sgs (neutron E) c (Some (cluster_sg_name cluster)) (world s) = (pg, w')" "V w' = ?v"
    "pages_find ?P pg = Inr (find ?P (rn_groups ?v))" unfolding ruin_group_laws_def by blast
  have same: "?v = ?v\<lparr>rn_groups := rn_groups ?v\<rparr>" by simp
  have look: "wp (case find ?P (rn_groups ?v) of None \<Rightarrow> ret () | Some g \<Rightarrow> sweep_sg E c g) Q s1"
    if s1: "world s1 = w'" for s1
  proof (cases "find ?P (rn_groups ?v)")
    case None
    then have "group_gone cluster ?v" by (auto simp: group_gone_def find_None_iff)
    with Q [of s1 "rn_groups ?v"] one s1 w'(2) None show ?thesis by (simp add: wp_ret)
  next
    case (Some g)
    have only: "g' = g" if "g' \<in> set (rn_groups ?v)" "?P g'" for g' using one_group [OF one Some that] .
    show ?thesis
    proof (cases "sg_id g \<in> rn_pinned ?v")
      case True
      with law w'(2) obtain a w2 where "n_del_sg (neutron E) c (sg_id g) w' = (Some a, w2)" "is_conflict_error (Api a)" "V w2 = ?v"
        unfolding ruin_group_laws_def by metis
      moreover have "group_gone cluster ?v" using only True by (auto simp: group_gone_def)
      ultimately show ?thesis
        using Some s1 one Q [of _ "rn_groups ?v"] by (simp add: sweep_sg_def wp_attempt wp_call_unit wp_ret)
    next
      case False
      with law w'(2) obtain w2 where w2: "n_del_sg (neutron E) c (sg_id g) w' = (None, w2)"
        "V w2 = ?v\<lparr>rn_groups := filter (\<lambda>g'. sg_id g' \<noteq> sg_id g) (rn_groups ?v)\<rparr>"
        unfolding ruin_group_laws_def by metis
      have "group_gone cluster (V w2)" using only by (auto simp: group_gone_def w2(2))
      moreover have "filter ?P (filter (\<lambda>g'. sg_id g' \<noteq> sg_id g) (rn_groups ?v)) = []"
        using only by (auto simp: filter_empty_conv)
      ultimately show ?thesis
        using Some s1 w2 Q [of _ "filter (\<lambda>g'. sg_id g' \<noteq> sg_id g) (rn_groups ?v)"]
        by (simp add: sweep_sg_def wp_attempt wp_call_unit wp_ret)
    qed
  qed
  show ?thesis
    unfolding find_sg_by_name_def using w' look by (simp only: wp_check wp_call_find prod.case sum.case) simp
qed

lemma sweeping_refl: "ruin_ok cluster v \<Longrightarrow> ports_kept cluster P v \<Longrightarrow> sweeping K cluster P v [] v"
  using mine_sub [of cluster v] by (auto simp: sweeping_def)

definition sweep_done :: "nat \<Rightarrow> string \<Rightarrow> string set \<Rightarrow> 'x ruin_scheme \<Rightarrow> 'x ruin_scheme \<Rightarrow> bool" where
  "sweep_done K cluster P v v' \<longleftrightarrow> (\<exists>u gs. sweeping K cluster P v (cluster_lbs cluster v) u \<and> v' = u\<lparr>rn_groups := gs\<rparr> \<and>
     group_gone cluster v' \<and> length (filter (\<lambda>g. sg_name g = cluster_sg_name cluster) gs) \<le> 1)"

lemma run_sweep_cluster:
  fixes E :: "'w env"
  assumes laws: "ruin_lb_laws E c K V" "ruin_fip_laws E c V" "ruin_group_laws E c V"
    and ok: "ruin_ok cluster v" "ports_kept cluster P v" and v: "V (world s) = v"
  shows "wp (sweep_cluster_resources E c cluster) (\<lambda>r s'. case r of
     Inl _ \<Rightarrow> blocked K cluster P v (V (world s')) | Inr _ \<Rightarrow> sweep_done K cluster P v (V (world s'))) s" (is "wp _ ?Q s")
proof -
  from laws(1) obtain pg w' where w': "o_list_lbs (octavia E) c None (world s) = (pg, w')" "V w' = v"
    "pages_items pg = Inr (rn_lbs v)" unfolding ruin_lb_laws_def v [symmetric] by blast
  have distinct: "distinct (cluster_lbs cluster v)"
    using ok(1) by (simp add: ruin_ok_def cluster_lbs_def distinct_map)
  have loop: "wp (foreach (cluster_lbs cluster v) (sweep_lb E c)) (\<lambda>r s'. case r of
      Inl _ \<Rightarrow> blocked K cluster P v (V (world s')) | Inr _ \<Rightarrow> sweeping K cluster P v (cluster_lbs cluster v) (V (world s'))) s1"
    if s1: "V (world s1) = v" for s1
  proof (rule wp_foreach [where I = "\<lambda>xs s'. sweeping K cluster P v xs (V (world s'))"])
    show "sweeping K cluster P v [] (V (world s1))" using s1 sweeping_refl [OF ok] by simp
    fix xs1 b xs2 and t :: "('w, event) st"
    assume split: "cluster_lbs cluster v = xs1 @ b # xs2" and I: "sweeping K cluster P v xs1 (V (world t))"
    have b: "b \<in> set (cluster_lbs cluster v)" "b \<notin> set xs1" using distinct by (auto simp: split)
    show "wp (sweep_lb E c b) (\<lambda>r s'. case r of
        Inl e \<Rightarrow> (case Inl e of Inl _ \<Rightarrow> blocked K cluster P v (V (world s'))
          | Inr _ \<Rightarrow> sweeping K cluster P v (cluster_lbs cluster v) (V (world s')))
      | Inr _ \<Rightarrow> sweeping K cluster P v (xs1 @ [b]) (V (world s'))) t"
      unfolding sum.case by (rule run_sweep_lb [OF laws(1,2) I b])
  qed simp
  have group: "wp (check m (find_sg_by_name E c (cluster_sg_name cluster)) (\<lambda>g. case g of None \<Rightarrow> ret () | Some g \<Rightarrow> sweep_sg E c g)) ?Q s2"
    if s2: "sweeping K cluster P v (cluster_lbs cluster v) (V (world s2))" for m and s2 :: "('w, event) st"
  proof (rule run_sweep_group [OF laws(3)])
    show "length (filter (\<lambda>g. sg_name g = cluster_sg_name cluster) (rn_groups (V (world s2)))) \<le> 1"
    proof -
      from s2 have "ruin_ok cluster (V (world s2))" by (simp add: sweeping_def)
      then show ?thesis by (simp add: ruin_ok_def)
    qed
  qed (use s2 in \<open>auto simp: sweep_done_def\<close>)
  have "wp (bind (foreach (cluster_lbs cluster v) (sweep_lb E c)) (\<lambda>_.
      check m (find_sg_by_name E c (cluster_sg_name cluster)) (\<lambda>g. case g of None \<Rightarrow> ret () | Some g \<Rightarrow> sweep_sg E c g))) ?Q s1"
    if "V (world s1) = v" for m s1
    unfolding wp_bind
  proof (rule wp_mono [OF loop [OF that]])
    fix r :: "err + unit" and s' :: "('w, event) st"
    assume "case r of Inl _ \<Rightarrow> blocked K cluster P v (V (world s'))
      | Inr _ \<Rightarrow> sweeping K cluster P v (cluster_lbs cluster v) (V (world s'))"
    then show "case r of Inl e \<Rightarrow> ?Q (Inl e) s' | Inr x \<Rightarrow> wp (check m (find_sg_by_name E c (cluster_sg_name cluster))
        (\<lambda>g. case g of None \<Rightarrow> ret () | Some g \<Rightarrow> sweep_sg E c g)) ?Q s'"
      using group by (cases r) simp_all
  qed
  then show ?thesis
    unfolding sweep_cluster_resources_def Let_def using w'
    by (simp only: wp_check [of "''listing LBs for cluster sweep''"] wp_call_items prod.case sum.case cluster_lbs_def [symmetric]) simp
qed

section \<open>One pass\<close>

definition ruin_step ::
  "nat \<Rightarrow> string \<Rightarrow> string \<Rightarrow> string \<Rightarrow> string set \<Rightarrow> 'x \<Rightarrow> 'x ruin_scheme \<Rightarrow> 'x ruin_scheme \<Rightarrow> bool" where
  "ruin_step K ns name cluster P x v v' \<longleftrightarrow> going_down ns name cluster P x v' \<and>
     (if let_go v then v' = v
      else load K cluster v' \<le> load K cluster v \<and> (let_go v' \<or> (\<exists>b\<in>set (cluster_lbs cluster v'). 0 < rn_busy v' (lb_id b))))"

lemma blocked_step:
  assumes "going_down ns name cluster P x v" "\<not> let_go v" "blocked K cluster P v u"
  shows "ruin_step K ns name cluster P x v u"
  using assms by (auto simp: ruin_step_def blocked_def sweeping_def going_down_def let_go_def)

lemma done_step:
  assumes t: "going_down ns name cluster P x v" and "\<not> let_go v" and d: "sweep_done K cluster P v u"
    and u': "u' = u\<lparr>rn_hr := r\<rparr>" and r: "rn_hr v = Some hr"
    "r = None \<or> r = Some (hr\<lparr>hr_finalizers := remove_string (hr_finalizers hr) cluster_finalizer_name\<rparr>)"
  shows "ruin_step K ns name cluster P x v u'"
proof -
  from d obtain w gs where w: "sweeping K cluster P v (cluster_lbs cluster v) w" "u = w\<lparr>rn_groups := gs\<rparr>" "group_gone cluster u"
    "length (filter (\<lambda>g. sg_name g = cluster_sg_name cluster) gs) \<le> 1" by (auto simp: sweep_done_def)
  have m: "cluster_lbs cluster u' = cluster_lbs cluster w" by (simp add: cluster_lbs_def u' w(2))
  have "weight K u' i = weight K w i" for i by (simp add: weight_def u' w(2))
  then have load: "load K cluster u' = load K cluster w" by (simp add: load_def mine_ids_def m)
  have rel: "let_go u'" using r by (auto simp: let_go_def u')
  have "ruin_ok cluster w \<Longrightarrow> ruin_ok cluster u'" using w(4) by (simp add: ruin_ok_def m) (simp add: u' w(2))
  moreover have "ports_kept cluster P w \<Longrightarrow> ports_kept cluster P u'" by (simp add: ports_kept_def m) (simp add: u' w(2))
  moreover have "group_gone cluster u'" using w(3) by (simp add: group_gone_def u')
  moreover have "\<forall>hr. rn_hr u' = Some hr \<longrightarrow> hr_deleting hr \<and> hr_ns hr = ns \<and> hr_name hr = name \<and>
      str_at (hr_labels hr) app_name_label = cluster" using t r by (auto simp: going_down_def u')
  moreover have "\<forall>b\<in>set (cluster_lbs cluster u'). going b" using w(1) by (auto simp: sweeping_def m)
  moreover have "ruin.more u' = x" using w(1) t by (simp add: u' w(2) sweeping_def going_down_def)
  ultimately have "going_down ns name cluster P x u'" using w(1) by (simp add: going_down_def sweeping_def)
  then show ?thesis using assms(2) w(1) load rel by (simp add: ruin_step_def sweeping_def)
qed

lemma run_cluster_pass:
  fixes E :: "'w env"
  assumes laws: "ruin_laws E c ns name K tick V"
    and config: "ruin_steady V x (resolve E L cluster) cfg" "ruin_steady V x (new_clients E (cf_creds cfg)) c"
    and cl: "cluster \<noteq> ''''" and t: "going_down ns name cluster P x (V (world s))"
  shows "wp (cluster_reconcile E L ns name) (\<lambda>_ s'. ruin_step K ns name cluster P x (V (world s)) (V (world s'))) s"
proof -
  let ?v = "V (world s)"
  let ?Q = "\<lambda>_ s'. ruin_step K ns name cluster P x ?v (V (world s'))"
  from laws have law: "hr_laws E ns name V" "ruin_lb_laws E c K V" "ruin_fip_laws E c V" "ruin_group_laws E c V"
    by (simp_all add: ruin_laws_def)
  from t have x: "ruin.more ?v = x" and ok: "ruin_ok cluster ?v" "ports_kept cluster P ?v" by (simp_all add: going_down_def)
  have stay: "ruin_step K ns name cluster P x ?v ?v" if "let_go ?v" using that t by (simp add: ruin_step_def)
  show ?thesis
  proof (cases "rn_hr ?v")
    case None
    with law(1) [unfolded hr_laws_def, THEN spec, of "world s"]
    obtain a w' where "m_get_hr (mgmt E) ns name (world s) = (Inl a, w')" "ae_not_found a" "V w' = ?v" by auto
    then show ?thesis
      using stay None by (simp add: cluster_reconcile_def wp_attempt wp_call_val wp_ret let_go_def)
  next
    case (Some hr)
    with law(1) [unfolded hr_laws_def, THEN spec, of "world s"]
    obtain w' where w': "m_get_hr (mgmt E) ns name (world s) = (Inr hr, w')" "V w' = ?v" by auto
    from t Some have hr: "hr_deleting hr" "hr_ns hr = ns" "hr_name hr = name" "str_at (hr_labels hr) app_name_label = cluster"
      by (simp_all add: going_down_def)
    have patch: "\<exists>w2. m_patch_hr (mgmt E) ns name fs w1 = (None, w2) \<and>
        V w2 = (V w1)\<lparr>rn_hr := if hr_deleting hr \<and> fs = [] then None else Some (hr\<lparr>hr_finalizers := fs\<rparr>)\<rparr>"
      if "rn_hr (V w1) = Some hr" for fs w1
      using law(1) [unfolded hr_laws_def, THEN spec, of w1] that by simp
    have sweep: "wp (sweep_and_drop E cluster hr (cf_creds cfg)) ?Q s1"
      if s1: "V (world s1) = ?v" and fin: "cluster_finalizer_name \<in> set (hr_finalizers hr)" for s1
    proof -
      have nr: "\<not> let_go ?v" using fin Some by (simp add: let_go_def)
      have drop: "wp (drop_cluster_finalizer E hr) ?Q s2" if s2: "sweep_done K cluster P ?v (V (world s2))" for s2 :: "('w, event) st"
      proof -
        have "rn_hr (V (world s2)) = Some hr" using s2 Some by (auto simp: sweep_done_def sweeping_def)
        from patch [OF this] obtain w2 where w2: "m_patch_hr (mgmt E) ns name
            (remove_string (hr_finalizers hr) cluster_finalizer_name) (world s2) = (None, w2)"
          "V w2 = (V (world s2))\<lparr>rn_hr := if hr_deleting hr \<and> remove_string (hr_finalizers hr) cluster_finalizer_name = []
              then None else Some (hr\<lparr>hr_finalizers := remove_string (hr_finalizers hr) cluster_finalizer_name\<rparr>)\<rparr>" by blast
        have "ruin_step K ns name cluster P x ?v (V w2)" by (rule done_step [OF t nr s2 w2(2) Some]) simp
        then show ?thesis using fin hr w2(1) by (simp add: drop_cluster_finalizer_def wp_check wp_call_unit wp_ret)
      qed
      have "wp (check m (sweep_cluster_resources E c cluster) (\<lambda>_. drop_cluster_finalizer E hr)) ?Q s2"
        if s2: "V (world s2) = ?v" for m s2
        unfolding wp_check
        by (rule wp_mono [OF run_sweep_cluster [OF law(2,3,4) ok s2]])
           (auto intro: drop blocked_step [OF t nr] split: sum.splits)
      then show ?thesis
        unfolding sweep_and_drop_def wp_check [of "''building OpenStack clients for cluster sweep''"]
        by (intro wp_mono [OF config(2) [unfolded ruin_steady_def, rule_format, of s1]]) (use s1 x in auto)
    qed
    have "wp (attempt (resolve E L cluster) (\<lambda>r. case r of
               Inr cfg \<Rightarrow> sweep_and_drop E cluster hr (cf_creds cfg)
             | Inl e \<Rightarrow>
                 if is_not_found e then
                   bind (borrow_any_creds E L (hr_ns hr)) (\<lambda>found. case found of
                       None \<Rightarrow> drop_cluster_finalizer E hr
                     | Some creds \<Rightarrow> sweep_and_drop E cluster hr creds)
                 else throw (Wrap m e))) ?Q s1"
      if "V (world s1) = ?v" "cluster_finalizer_name \<in> set (hr_finalizers hr)" for m s1
      unfolding wp_attempt
      by (rule wp_mono [OF config(1) [unfolded ruin_steady_def, rule_format, of s1]]) (use that x sweep in auto)
    then show ?thesis
      unfolding cluster_reconcile_def wp_attempt [of "get_hr E ns name"]
      using w' hr cl stay Some
      by (simp only: wp_call_val prod.case sum.case Let_def) (simp add: wp_ret let_go_def)
  qed
qed

text \<open>
  Enough passes end the cluster: more than the budget, which counts for each of its balancers the
  rounds Octavia is busy with it, and for one that still stands \<open>K\<close> more after its deletion.
\<close>

lemma cluster_goes:
  fixes E :: "'w env"
  assumes laws: "ruin_laws E c ns name K tick V"
    and config: "ruin_steady V x (resolve E L cluster) cfg" "ruin_steady V x (new_clients E (cf_creds cfg)) c"
    and cl: "cluster \<noteq> ''''" and t: "going_down ns name cluster P x (V (world s))"
    and n: "ruin_budget K cluster (V (world s)) < n"
  shows "wp (passes n tick (cluster_reconcile E L ns name)) (\<lambda>_ s'. cluster_gone cluster P (V (world s'))) s"
proof -
  from laws have works: "ruin_works tick V" by (simp add: ruin_laws_def)
  let ?J = "going_down ns name cluster P x" and ?m = "cluster_reconcile E L ns name"
  note pass = run_cluster_pass [OF laws config cl] and round = tick_ruin [OF works]
  have gone: "cluster_gone cluster P v" if "?J v" "let_go v" "cluster_lbs cluster v = []" for v
    using that by (auto simp: going_down_def cluster_gone_def ports_kept_def)
  have busy: "\<exists>b\<in>set (cluster_lbs cluster v). 0 < rn_busy v (lb_id b)" if "?J v" "let_go v" "cluster_lbs cluster v \<noteq> []" for v
  proof -
    from hd_in_set [OF that(3)] obtain b where b: "b \<in> set (cluster_lbs cluster v)" by blast
    with that(1,2) have "at_work v" "going b" "b \<in> set (rn_lbs v)"
      using mine_sub [of cluster v] by (auto simp: going_down_def ruin_ok_def)
    with going_busy b show ?thesis by blast
  qed
  have stay: "cluster_gone cluster P (V (tick w))" if "?J (V w)" "cluster_gone cluster P (V w)" for w
  proof -
    have "load K cluster (V (tick w)) = 0" using round(2) [OF that(1), of K] that(2) by (simp add: load_def mine_ids_def cluster_gone_def)
    moreover have J: "?J (V (tick w))" by (rule round(1) [OF that(1)])
    ultimately have "mine_ids cluster (V (tick w)) = {}"
      using weight_pos [of cluster "V (tick w)" _ K] by (fastforce simp: load_def going_down_def)
    then show ?thesis using gone [OF J] round(4) [OF that(1)] that(2) by (simp add: mine_ids_def cluster_gone_def)
  qed
  have "wp (passes n tick ?m) (\<lambda>_ s'. ?J (V (world s')) \<and> cluster_gone cluster P (V (world s'))) s"
  proof (rule passes_reach [where f = "ruin_budget K cluster"])
    fix s :: "('w, event) st" assume J: "?J (V (world s))"
    show "wp ?m (\<lambda>_ s'. ?J (V (tick (world s'))) \<and> (cluster_gone cluster P (V (tick (world s'))) \<or>
        ruin_budget K cluster (V (tick (world s'))) < ruin_budget K cluster (V (world s)))) s"
    proof (rule wp_mono [OF pass [OF J]])
      fix s' :: "('w, event) st" assume step: "ruin_step K ns name cluster P x (V (world s)) (V (world s'))"
      then have J': "?J (V (world s'))" by (simp add: ruin_step_def)
      note r = round(1) [OF J'] round(2,3) [OF J', of K] round(4) [OF J']
      have "cluster_gone cluster P (V (tick (world s'))) \<or>
        ruin_budget K cluster (V (tick (world s'))) < ruin_budget K cluster (V (world s))"
      proof (cases "let_go (V (world s))")
        case True
        with step have same: "V (world s') = V (world s)" by (simp add: ruin_step_def)
        show ?thesis
        proof (cases "cluster_lbs cluster (V (world s')) = []")
          case True
          with stay [OF J' gone [OF J']] \<open>let_go (V (world s))\<close> same show ?thesis by simp
        next
          case False
          with r(3) [OF busy [OF J']] \<open>let_go (V (world s))\<close> same show ?thesis by (simp add: ruin_budget_def r(4))
        qed
      next
        case False
        with step have le: "load K cluster (V (world s')) \<le> load K cluster (V (world s))"
          and either: "let_go (V (world s')) \<or> (\<exists>b\<in>set (cluster_lbs cluster (V (world s'))). 0 < rn_busy (V (world s')) (lb_id b))"
          by (simp_all add: ruin_step_def)
        from either show ?thesis
        proof
          assume "let_go (V (world s'))"
          with False le r(2,4) show ?thesis by (simp add: ruin_budget_def)
        next
          assume "\<exists>b\<in>set (cluster_lbs cluster (V (world s'))). 0 < rn_busy (V (world s')) (lb_id b)"
          from r(3) [OF this] False le show ?thesis by (simp add: ruin_budget_def)
        qed
      qed
      with r(1) show "?J (V (tick (world s'))) \<and> (cluster_gone cluster P (V (tick (world s'))) \<or>
        ruin_budget K cluster (V (tick (world s'))) < ruin_budget K cluster (V (world s)))" by simp
    qed
  next
    fix s :: "('w, event) st" assume J: "?J (V (world s))" and U: "cluster_gone cluster P (V (world s))"
    show "wp ?m (\<lambda>_ s'. cluster_gone cluster P (V (tick (world s')))) s"
      by (rule wp_mono [OF pass [OF J]])
         (use U stay [of "_"] J in \<open>auto simp: ruin_step_def cluster_gone_def\<close>)
  qed (use t n in auto)
  then show ?thesis by (rule wp_mono) simp
qed

end
