(* ===== verification/SimRuin.thy ===== *)
theory SimRuin
  imports SimSweep ClusterDown
begin

text \<open>The simulated clouds keep the laws of a deleted cluster.\<close>

definition busy_of :: "lb option \<Rightarrow> nat \<Rightarrow> string \<Rightarrow> nat" where
  "busy_of l k i = (if map_option lb_id l = Some i then k else 0)"

lemma busy_of_None [simp]: "busy_of None k = (\<lambda>_. 0)"
  by (simp add: busy_of_def fun_eq_iff)

definition sim_ruin :: "string \<Rightarrow> sim \<Rightarrow> (kobj option \<times> secret list) ruin_scheme" where
  "sim_ruin n w = \<lparr>rn_hr = find (\<lambda>h. hr_ns h = tenant_namespace \<and> hr_name h = n) (si_hrs (sim_site w)),
     rn_lbs = (case sim_lb w of None \<Rightarrow> [] | Some b \<Rightarrow> [b]), rn_busy = busy_of (sim_lb w) (sim_busy w),
     rn_fips = (\<lambda>p. of_key p (sim_fips w)), rn_groups = sim_groups w, rn_pinned = {},
     \<dots> = (si_ksc (sim_site w), si_secrets (sim_site w))\<rparr>"

lemma find_replace: "find P xs = Some x \<Longrightarrow> P y \<Longrightarrow> find P (map (\<lambda>z. if P z then y else z) xs) = Some y"
  by (induction xs) (auto split: if_splits)

lemma find_removed: "find P (filter (\<lambda>z. \<not> P z) xs) = None"
  by (induction xs) auto

lemma sim_hr_laws: "hr_laws sim_env tenant_namespace n (sim_ruin n)"
  unfolding hr_laws_def
proof
  fix w
  let ?hit = "\<lambda>h. hr_ns h = tenant_namespace \<and> hr_name h = n"
  show "case rn_hr (sim_ruin n w) of
       None \<Rightarrow> \<exists>a w'. m_get_hr (mgmt sim_env) tenant_namespace n w = (Inl a, w') \<and> ae_not_found a \<and> sim_ruin n w' = sim_ruin n w
     | Some hr \<Rightarrow>
         (\<exists>w'. m_get_hr (mgmt sim_env) tenant_namespace n w = (Inr hr, w') \<and> sim_ruin n w' = sim_ruin n w) \<and>
         (\<forall>fs. \<exists>w'. m_patch_hr (mgmt sim_env) tenant_namespace n fs w = (None, w') \<and>
            sim_ruin n w' = (sim_ruin n w)\<lparr>rn_hr := if hr_deleting hr \<and> fs = [] then None else Some (hr\<lparr>hr_finalizers := fs\<rparr>)\<rparr>)"
  proof (cases "find ?hit (si_hrs (sim_site w))")
    case None
    then show ?thesis by (simp add: sim_ruin_def sim_env_defs not_found_def)
  next
    case (Some hr)
    then have "?hit hr" by (auto simp: find_Some_iff)
    then have "find ?hit (map (\<lambda>h. if ?hit h then hr\<lparr>hr_finalizers := fs\<rparr> else h) (si_hrs (sim_site w))) = Some (hr\<lparr>hr_finalizers := fs\<rparr>)"
      for fs by (intro find_replace [OF Some]) simp
    with Some find_removed [of ?hit "si_hrs (sim_site w)"] show ?thesis
      by (auto simp: sim_ruin_def sim_env_defs sim_patch_hr_def Let_def)
  qed
qed

lemma sim_ruin_lb_laws: "ruin_lb_laws sim_env c 1 (sim_ruin n)"
  unfolding ruin_lb_laws_def
proof (intro conjI allI impI, goal_cases)
  case (1 w)
  show ?case by (auto simp: sim_env_defs sim_ruin_def split: option.split)
next
  case (2 b w)
  then obtain l where l: "sim_lb w = Some l" "b = l" by (cases "sim_lb w") (auto simp: sim_ruin_def)
  have "busy_of (Some (l\<lparr>lb_status := s\<rparr>)) 1 = (busy_of (Some l) k)(lb_id l := 1)" for s k
    by (auto simp: busy_of_def fun_eq_iff)
  with 2 l show ?case
    by (intro exI [of _ 1])
       (auto simp: sim_env_defs sim_ruin_def sim_del_lb_def ready_lb_def resting_def status_active_def status_error_def
          status_pending_delete_def doom_def)
next
  case (3 b w)
  then show ?case
    by (auto simp: sim_env_defs sim_ruin_def sim_del_lb_def ready_lb_def resting_def status_active_def status_error_def
        split: option.splits)
qed

lemma sim_ruin_fip_laws: "ruin_fip_laws sim_env c (sim_ruin n)"
  unfolding ruin_fip_laws_def
proof (intro conjI allI impI, goal_cases)
  case (1 port w)
  show ?case by (auto simp: sim_env_defs sim_ruin_def split: option.split)
next
  case (2 i w)
  show ?case by (auto simp: sim_env_defs sim_ruin_def of_key_filter)
qed

lemma sim_ruin_group_laws: "ruin_group_laws sim_env c (sim_ruin n)"
  unfolding ruin_group_laws_def
proof (intro conjI allI, goal_cases)
  case (1 m w)
  have "find (\<lambda>g. sg_name g = m) (filter (\<lambda>g. m = sg_name g) gs) = find (\<lambda>g. sg_name g = m) gs" for gs :: "sgroup list"
    by (induction gs) auto
  then show ?case by (auto simp: sim_env_defs sim_ruin_def split: option.split)
next
  case (2 i w)
  show ?case by (auto simp: sim_env_defs sim_ruin_def)
qed

lemma sim_ruin_works: "ruin_works sim_tick (sim_ruin n)"
  unfolding ruin_works_def
proof (intro allI impI)
  fix w assume w: "at_work (sim_ruin n w)"
  show "\<exists>keep st busy.
     sim_ruin n (sim_tick w) =
       (sim_ruin n w)\<lparr>rn_lbs := map (\<lambda>b. b\<lparr>lb_status := st (lb_id b)\<rparr>) (filter keep (rn_lbs (sim_ruin n w))), rn_busy := busy\<rparr> \<and>
     (\<forall>b\<in>set (rn_lbs (sim_ruin n w)).
        (if rn_busy (sim_ruin n w) (lb_id b) = 0 then busy (lb_id b) = 0 else busy (lb_id b) < rn_busy (sim_ruin n w) (lb_id b)) \<and>
        (if going b then keep b \<longrightarrow> st (lb_id b) = status_pending_delete \<and> 0 < busy (lb_id b)
         else keep b \<and> st (lb_id b) \<noteq> status_pending_delete \<and>
           (busy (lb_id b) = 0 \<longleftrightarrow> resting (b\<lparr>lb_status := st (lb_id b)\<rparr>))))"
    (is "\<exists>keep st busy. ?works keep st busy")
  proof (cases "sim_lb w")
    case None
    then have "?works (\<lambda>_. True) (\<lambda>_. []) (\<lambda>_. 0)"
      by (simp add: sim_ruin_def sim_tick_def)
    then show ?thesis
      by (intro exI [of _ "\<lambda>_. True"] exI [of _ "\<lambda>_. []"] exI [of _ "\<lambda>_. 0"])
  next
    case (Some l)
    show ?thesis
    proof (cases "sim_busy w \<le> 1")
      case False
      with Some w have "?works (\<lambda>_. True) (\<lambda>_. lb_status l) (busy_of (Some l) (sim_busy w - 1))"
        by (simp add: sim_ruin_def sim_tick_def busy_of_def at_work_def going_def resting_def)
      then show ?thesis
        by (intro exI [of _ "\<lambda>_. True"] exI [of _ "\<lambda>_. lb_status l"] exI [of _ "busy_of (Some l) (sim_busy w - 1)"])
    next
      case True
      then consider "sim_busy w = 0" | "sim_busy w = 1" by linarith
      then show ?thesis
      proof cases
        case 1
        with Some w going_works [of l] have "?works (\<lambda>_. True) (\<lambda>_. lb_status l) (busy_of (Some l) 0)"
          by (auto simp: sim_ruin_def sim_tick_def busy_of_def at_work_def going_def)
        then show ?thesis
          by (intro exI [of _ "\<lambda>_. True"] exI [of _ "\<lambda>_. lb_status l"] exI [of _ "busy_of (Some l) 0"])
      next
        case 2
        with Some w have "?works (\<lambda>b. \<not> going b) (\<lambda>_. status_active) (busy_of (sim_lb (sim_tick w)) 0)"
          by (auto simp: sim_ruin_def sim_tick_def busy_of_def going_def resting_def status_active_def status_pending_delete_def)
        then show ?thesis
          by (intro exI [of _ "\<lambda>b. \<not> going b"] exI [of _ "\<lambda>_. status_active"] exI [of _ "busy_of (sim_lb (sim_tick w)) 0"])
      qed
    qed
  qed
qed

lemma sim_ruin_laws: "ruin_laws sim_env c tenant_namespace n 1 sim_tick (sim_ruin n)"
  unfolding ruin_laws_def
  by (intro conjI sim_hr_laws sim_ruin_lb_laws sim_ruin_fip_laws sim_ruin_group_laws sim_ruin_works)

lemma sim_ruin_config:
  "ruin_steady (sim_ruin n) (Some (sim_ksc net sg), []) (resolve sim_env sim_lib tenant) (sim_config net sg)"
  "ruin_steady (sim_ruin n) x (new_clients sim_env sim_creds) sim_clients"
  unfolding ruin_steady_def
  by (auto simp: resolve_def resolve_credentials_def resolve_vip_network_def raw_cidrs_def Let_def wp_simps sim_env_defs
      sim_ruin_def sim_ksc_def os_field_def lb_field_def sim_cidr sim_config_def sim_creds_def new_clients_def sim_clients_def)

end
