(* ===== verification/SharedGroup.thy ===== *)
theory SharedGroup
  imports SecurityGroup
begin

text \<open>
  The Services of a cluster share one security group, and each keeps its own rules in it. A pass
  over the rules of one Service respects those of the others; a NodePort that moves from one
  Service to another can make a pass fail for a while, and two rounds over all Services settle
  it, in whatever order they run.
\<close>

section \<open>Who shares a group\<close>

text \<open>A claim on a group: the tenant, its Service, and the CIDRs its NodePorts are open to.\<close>

record claim =
  ca_tenant :: string
  ca_svc :: service
  ca_cidrs :: "string list"

definition claim_pass :: "'w env \<Rightarrow> clients \<Rightarrow> string \<Rightarrow> claim \<Rightarrow> ('w, unit) lbc" where
  "claim_pass E c sgid a = ensure_node_port_rules E c sgid (ca_tenant a) (ca_svc a) (ca_cidrs a)"

text \<open>A round of passes, each run to its end with whatever outcome.\<close>

definition round_of :: "'w env \<Rightarrow> clients \<Rightarrow> string \<Rightarrow> claim list \<Rightarrow> ('w, unit) lbc" where
  "round_of E c sgid as = foreach as (\<lambda>a. attempt (claim_pass E c sgid a) (\<lambda>_. ret ()))"

definition claim_owned :: "claim \<Rightarrow> rule \<Rightarrow> bool" where
  "claim_owned a = rule_owned (ca_tenant a) (ca_svc a)"

definition claim_keys :: "claim \<Rightarrow> rule_key set" where
  "claim_keys a = set (desired_keys (ca_svc a) (ca_cidrs a))"

definition claim_held :: "claim \<Rightarrow> rule list \<Rightarrow> rule_key set" where
  "claim_held a = owned_keys (ca_tenant a) (ca_svc a)"

lemmas claim_defs = claim_owned_def claim_keys_def claim_held_def

definition claim_ok :: "claim \<Rightarrow> bool" where
  "claim_ok a \<longleftrightarrow> CHR ''/'' \<notin> set (ca_tenant a) \<and> CHR ''/'' \<notin> set (s_ns (ca_svc a)) \<and>
     CHR '':'' \<notin> set (s_name (ca_svc a)) \<and> ca_cidrs a \<noteq> []"

text \<open>
  Claims that can live together: Kubernetes gives no NodePort to two Services of a cluster, and
  no two Services one name.
\<close>

definition apart :: "claim list \<Rightarrow> bool" where
  "apart as \<longleftrightarrow> (\<forall>a\<in>set as. claim_ok a \<and> (\<forall>b\<in>set as. a \<noteq> b \<longrightarrow> claim_keys a \<inter> claim_keys b = {} \<and>
     (ca_tenant a, s_ns (ca_svc a), s_name (ca_svc a)) \<noteq> (ca_tenant b, s_ns (ca_svc b), s_name (ca_svc b))))"

text \<open>No rule that nobody claims is in the way of a wanted one.\<close>

definition strangers_fine :: "claim list \<Rightarrow> rule list \<Rightarrow> bool" where
  "strangers_fine as rs \<longleftrightarrow> (\<forall>r\<in>set rs. (\<exists>a\<in>set as. claim_owned a r) \<or>
     (\<forall>a\<in>set as. \<forall>k\<in>claim_keys a. \<not> rule_match (desired_rule (ca_tenant a) (ca_svc a) k) r))"

definition shared_ok :: "claim list \<Rightarrow> rule list \<Rightarrow> bool" where
  "shared_ok as rs \<longleftrightarrow> apart as \<and> strangers_fine as rs \<and> (\<forall>a\<in>set as. group_ok (ca_tenant a) (ca_svc a) rs)"

definition strangers :: "claim list \<Rightarrow> rule list \<Rightarrow> rule set" where
  "strangers as rs = {r \<in> set rs. \<forall>a\<in>set as. \<not> claim_owned a r}"

section \<open>A pass respects the other claims\<close>

lemma one_owner:
  assumes "apart as" "a \<in> set as" "b \<in> set as" "claim_owned a r" "claim_owned b r"
  shows "a = b"
proof (rule ccontr)
  assume "a \<noteq> b"
  with assms(1-3) have ok: "claim_ok a" "claim_ok b"
    and "(ca_tenant a, s_ns (ca_svc a), s_name (ca_svc a)) \<noteq> (ca_tenant b, s_ns (ca_svc b), s_name (ca_svc b))"
    by (auto simp: apart_def)
  moreover from assms(4) obtain x where "ru_desc r = rule_description_prefix (ca_tenant a) (ca_svc a) @ x"
    by (auto simp: claim_owned_def rule_owned_def elim: has_prefixE)
  ultimately show False
    using assms(5) owner_prefix [of "ca_tenant a" "ca_svc a" "ca_tenant b" "ca_svc b" x]
    by (simp add: claim_ok_def claim_owned_def rule_owned_def)
qed

text \<open>What a pass of \<open>a\<close> may leave, whether it fails or not, and what that is to the others.\<close>

definition tends :: "claim \<Rightarrow> rule list \<Rightarrow> rule list \<Rightarrow> bool" where
  "tends a = rules_tending (ca_tenant a) (ca_svc a) (ca_cidrs a)"

lemma tendsD:
  assumes "tends a rs rs'"
  shows "group_ok (ca_tenant a) (ca_svc a) rs'" and "claim_held a rs' \<subseteq> claim_keys a"
    and "\<not> claim_owned a r \<Longrightarrow> r \<in> set rs' \<longleftrightarrow> r \<in> set rs"
  using assms by (auto simp: tends_def rules_tending_def claim_defs)

lemma tends_respects:
  assumes ap: "apart as" and a: "a \<in> set as" and b: "b \<in> set as" "a \<noteq> b" and t: "tends a rs rs'"
  shows "claim_held b rs' = claim_held b rs"
    and "group_ok (ca_tenant b) (ca_svc b) rs \<Longrightarrow> group_ok (ca_tenant b) (ca_svc b) rs'"
proof -
  have "r \<in> set rs' \<longleftrightarrow> r \<in> set rs" if "claim_owned b r" for r
    using tendsD(3) [OF t] one_owner [OF ap a b(1) _ that] b(2) by blast
  then have same: "{r \<in> set rs'. claim_owned b r} = {r \<in> set rs. claim_owned b r}" by blast
  then show "claim_held b rs' = claim_held b rs" by (simp add: claim_defs owned_keys_def)
  show "group_ok (ca_tenant b) (ca_svc b) rs \<Longrightarrow> group_ok (ca_tenant b) (ca_svc b) rs'"
    using tendsD(1) [OF t] same by (simp add: group_ok_def claim_owned_def)
qed

lemma tends_shared:
  assumes ok: "shared_ok as rs" and a: "a \<in> set as" and t: "tends a rs rs'"
  shows "shared_ok as rs'" and "strangers as rs' = strangers as rs"
proof -
  from ok have ap: "apart as" and fine: "strangers_fine as rs" and g: "\<forall>b\<in>set as. group_ok (ca_tenant b) (ca_svc b) rs"
    by (simp_all add: shared_ok_def)
  have "group_ok (ca_tenant b) (ca_svc b) rs'" if "b \<in> set as" for b
    using g that tendsD(1) [OF t] tends_respects(2) [OF ap a that _ t] by (cases "a = b") auto
  moreover have "strangers_fine as rs'"
    using fine a tendsD(3) [OF t] unfolding strangers_fine_def by blast
  ultimately show "shared_ok as rs'" using ap by (simp add: shared_ok_def)
  show "strangers as rs' = strangers as rs" using a tendsD(3) [OF t] by (auto simp: strangers_def)
qed

section \<open>Rounds\<close>

text \<open>Nobody's rule stands where another's is wanted: then no pass is refused.\<close>

lemma no_clash:
  assumes ok: "shared_ok as rs" and a: "a \<in> set as" and tidy: "\<forall>b\<in>set as. claim_held b rs \<subseteq> claim_keys b"
  shows "\<not> rules_clash (ca_tenant a) (ca_svc a) (ca_cidrs a) rs"
proof
  assume "rules_clash (ca_tenant a) (ca_svc a) (ca_cidrs a) rs"
  then obtain k r where k: "k \<in> claim_keys a" and r: "r \<in> set rs" "\<not> claim_owned a r"
    and m: "rule_match (desired_rule (ca_tenant a) (ca_svc a) k) r"
    by (auto simp: rules_clash_def list_ex_iff claim_defs)
  from ok r(1) k m a obtain b where b: "b \<in> set as" "claim_owned b r" by (auto simp: shared_ok_def strangers_fine_def)
  with r(1) have "rule_key_of r \<in> claim_held b rs" by (auto simp: claim_defs owned_keys_def)
  with tidy b(1) rule_match_key [OF m] have "k \<in> claim_keys b" by auto
  moreover have "a \<noteq> b" using r(2) b(2) by auto
  ultimately show False using ok a b(1) k by (auto simp: shared_ok_def apart_def)
qed

lemma claim_pass_runs:
  fixes E :: "'w env"
  assumes law: "neutron_rules E c sgid V" "rules_reliable E c sgid V" "rules_atomic E c sgid V" and g: "sgid \<noteq> ''''"
    and ok: "shared_ok as (V (world s))" and a: "a \<in> set as"
  shows "wp (claim_pass E c sgid a) (\<lambda>r s'. tends a (V (world s)) (V (world s')) \<and>
     (r = Inr () \<longrightarrow> claim_held a (V (world s')) = claim_keys a) \<and>
     (r \<noteq> Inr () \<longrightarrow> rules_clash (ca_tenant a) (ca_svc a) (ca_cidrs a) (V (world s)))) s"
  unfolding claim_pass_def
proof (rule ensure_rules_run [OF law(1) _ g])
  show "group_ok (ca_tenant a) (ca_svc a) (V (world s))" "ca_cidrs a \<noteq> []"
    using ok a by (auto simp: shared_ok_def apart_def claim_ok_def)
qed (use law(2,3) in \<open>auto simp: tends_def rules_tending_def rules_settled_def claim_defs\<close>)

text \<open>The first round: afterwards every claim holds wanted keys only.\<close>

lemma first_round:
  fixes E :: "'w env"
  assumes law: "neutron_rules E c sgid V" "rules_reliable E c sgid V" "rules_atomic E c sgid V" and g: "sgid \<noteq> ''''"
    and ok: "shared_ok as (V (world s))" and sub: "set bs \<subseteq> set as"
  shows "wp (round_of E c sgid bs) (\<lambda>r s'. r = Inr () \<and> shared_ok as (V (world s')) \<and>
     strangers as (V (world s')) = strangers as (V (world s)) \<and>
     (\<forall>a\<in>set bs. claim_held a (V (world s')) \<subseteq> claim_keys a)) s"
  unfolding round_of_def
proof (rule wp_foreach [where I = "\<lambda>xs s'. shared_ok as (V (world s')) \<and>
    strangers as (V (world s')) = strangers as (V (world s)) \<and> (\<forall>a\<in>set xs. claim_held a (V (world s')) \<subseteq> claim_keys a)"])
  fix xs1 a xs2 and t :: "('w, event) st"
  assume bs: "bs = xs1 @ a # xs2" and I: "shared_ok as (V (world t)) \<and>
    strangers as (V (world t)) = strangers as (V (world s)) \<and> (\<forall>a\<in>set xs1. claim_held a (V (world t)) \<subseteq> claim_keys a)"
  from bs sub have a: "a \<in> set as" "set xs1 \<subseteq> set as" by auto
  from I have ap: "apart as" and okt: "shared_ok as (V (world t))" by (simp_all add: shared_ok_def)
  show "wp (attempt (claim_pass E c sgid a) (\<lambda>_. ret ())) (\<lambda>r s'. case r of
      Inl e \<Rightarrow> Inl e = Inr () \<and> shared_ok as (V (world s')) \<and> strangers as (V (world s')) = strangers as (V (world s)) \<and>
        (\<forall>a\<in>set bs. claim_held a (V (world s')) \<subseteq> claim_keys a)
    | Inr _ \<Rightarrow> shared_ok as (V (world s')) \<and> strangers as (V (world s')) = strangers as (V (world s)) \<and>
        (\<forall>a\<in>set (xs1 @ [a]). claim_held a (V (world s')) \<subseteq> claim_keys a)) t"
    unfolding wp_attempt wp_ret
  proof (rule wp_mono [OF claim_pass_runs [OF law g okt a(1)]], simp only: sum.case, elim conjE)
    fix s' :: "('w, event) st" assume t: "tends a (V (world t)) (V (world s'))"
    have "claim_held b (V (world s')) \<subseteq> claim_keys b" if b: "b \<in> set (xs1 @ [a])" for b
    proof (cases "a = b")
      case False
      with b a have "b \<in> set as" "b \<in> set xs1" by auto
      with tends_respects(1) [OF ap a(1) this(1) False t] I show ?thesis by simp
    qed (use tendsD(2) [OF t] in simp)
    with tends_shared [OF okt a(1) t] I show "shared_ok as (V (world s')) \<and>
        strangers as (V (world s')) = strangers as (V (world s)) \<and>
        (\<forall>a\<in>set (xs1 @ [a]). claim_held a (V (world s')) \<subseteq> claim_keys a)" by blast
  qed
qed (use ok in auto)

text \<open>The second round: no pass is refused, and every claim holds what it wants.\<close>

lemma second_round:
  fixes E :: "'w env"
  assumes law: "neutron_rules E c sgid V" "rules_reliable E c sgid V" "rules_atomic E c sgid V" and g: "sgid \<noteq> ''''"
    and ok: "shared_ok as (V (world s))" and sub: "set bs \<subseteq> set as"
    and tidy: "\<forall>a\<in>set as. claim_held a (V (world s)) \<subseteq> claim_keys a"
  shows "wp (foreach bs (claim_pass E c sgid)) (\<lambda>r s'. r = Inr () \<and> shared_ok as (V (world s')) \<and>
     strangers as (V (world s')) = strangers as (V (world s)) \<and>
     (\<forall>a\<in>set bs. claim_held a (V (world s')) = claim_keys a)) s"
proof (rule wp_foreach [where I = "\<lambda>xs s'. shared_ok as (V (world s')) \<and>
    strangers as (V (world s')) = strangers as (V (world s)) \<and> (\<forall>a\<in>set as. claim_held a (V (world s')) \<subseteq> claim_keys a) \<and>
    (\<forall>a\<in>set xs. claim_held a (V (world s')) = claim_keys a)"])
  fix xs1 a xs2 and t :: "('w, event) st"
  assume bs: "bs = xs1 @ a # xs2" and I: "shared_ok as (V (world t)) \<and>
    strangers as (V (world t)) = strangers as (V (world s)) \<and> (\<forall>a\<in>set as. claim_held a (V (world t)) \<subseteq> claim_keys a) \<and>
    (\<forall>a\<in>set xs1. claim_held a (V (world t)) = claim_keys a)"
  from bs sub have a: "a \<in> set as" "set xs1 \<subseteq> set as" by auto
  from I have ap: "apart as" and okt: "shared_ok as (V (world t))" by (simp_all add: shared_ok_def)
  have clear: "\<not> rules_clash (ca_tenant a) (ca_svc a) (ca_cidrs a) (V (world t))" by (rule no_clash [OF okt a(1)]) (use I in blast)
  show "wp (claim_pass E c sgid a) (\<lambda>r s'. case r of
      Inl e \<Rightarrow> Inl e = Inr () \<and> shared_ok as (V (world s')) \<and> strangers as (V (world s')) = strangers as (V (world s)) \<and>
        (\<forall>a\<in>set bs. claim_held a (V (world s')) = claim_keys a)
    | Inr _ \<Rightarrow> shared_ok as (V (world s')) \<and> strangers as (V (world s')) = strangers as (V (world s)) \<and>
        (\<forall>a\<in>set as. claim_held a (V (world s')) \<subseteq> claim_keys a) \<and>
        (\<forall>a\<in>set (xs1 @ [a]). claim_held a (V (world s')) = claim_keys a)) t"
  proof (rule wp_mono [OF claim_pass_runs [OF law g okt a(1)]], elim conjE)
    fix r :: "err + unit" and s' :: "('w, event) st"
    assume t: "tends a (V (world t)) (V (world s'))" and r: "r = Inr () \<longrightarrow> claim_held a (V (world s')) = claim_keys a"
      "r \<noteq> Inr () \<longrightarrow> rules_clash (ca_tenant a) (ca_svc a) (ca_cidrs a) (V (world t))"
    with clear have r: "r = Inr ()" "claim_held a (V (world s')) = claim_keys a" by auto
    have same: "claim_held b (V (world s')) = claim_held b (V (world t))" if "b \<in> set as" "a \<noteq> b" for b
      by (rule tends_respects(1) [OF ap a(1) that t])
    have "claim_held b (V (world s')) \<subseteq> claim_keys b" if "b \<in> set as" for b
      using that I r(2) same [OF that] by (cases "a = b") auto
    moreover have "claim_held b (V (world s')) = claim_keys b" if "b \<in> set (xs1 @ [a])" for b
      using that I r(2) a(2) same [of b] by (cases "a = b") auto
    ultimately show "case r of
      Inl e \<Rightarrow> Inl e = Inr () \<and> shared_ok as (V (world s')) \<and> strangers as (V (world s')) = strangers as (V (world s)) \<and>
        (\<forall>a\<in>set bs. claim_held a (V (world s')) = claim_keys a)
    | Inr _ \<Rightarrow> shared_ok as (V (world s')) \<and> strangers as (V (world s')) = strangers as (V (world s)) \<and>
        (\<forall>a\<in>set as. claim_held a (V (world s')) \<subseteq> claim_keys a) \<and>
        (\<forall>a\<in>set (xs1 @ [a]). claim_held a (V (world s')) = claim_keys a)"
      using tends_shared [OF okt a(1) t] I r(1) by simp
  qed
qed (use ok tidy in auto)

lemma shared_rounds:
  fixes E :: "'w env"
  assumes law: "neutron_rules E c sgid V" "rules_reliable E c sgid V" "rules_atomic E c sgid V" and g: "sgid \<noteq> ''''"
    and ok: "shared_ok as (V (world s))" and orders: "set bs = set as" "set cs = set as"
  shows "wp (bind (round_of E c sgid bs) (\<lambda>_. foreach cs (claim_pass E c sgid))) (\<lambda>r s'. r = Inr () \<and>
     strangers as (V (world s')) = strangers as (V (world s)) \<and>
     (\<forall>a\<in>set as. claim_held a (V (world s')) = claim_keys a \<and> group_ok (ca_tenant a) (ca_svc a) (V (world s')))) s"
  unfolding wp_bind
proof (rule wp_mono [OF first_round [OF law g ok]])
  show "set bs \<subseteq> set as" using orders by simp
  fix r :: "err + unit" and s' :: "('w, event) st"
  assume r: "r = Inr () \<and> shared_ok as (V (world s')) \<and> strangers as (V (world s')) = strangers as (V (world s)) \<and>
     (\<forall>a\<in>set bs. claim_held a (V (world s')) \<subseteq> claim_keys a)"
  have "wp (foreach cs (claim_pass E c sgid)) (\<lambda>r s'. r = Inr () \<and>
     strangers as (V (world s')) = strangers as (V (world s)) \<and>
     (\<forall>a\<in>set as. claim_held a (V (world s')) = claim_keys a \<and> group_ok (ca_tenant a) (ca_svc a) (V (world s')))) s'"
    by (rule wp_mono [OF second_round [OF law g, of as s' cs]]) (use r orders in \<open>auto simp: shared_ok_def\<close>)
  with r show "case r of
      Inl e \<Rightarrow> Inl e = Inr () \<and> strangers as (V (world s')) = strangers as (V (world s)) \<and>
        (\<forall>a\<in>set as. claim_held a (V (world s')) = claim_keys a \<and> group_ok (ca_tenant a) (ca_svc a) (V (world s')))
    | Inr x \<Rightarrow> wp (foreach cs (claim_pass E c sgid)) (\<lambda>r s'. r = Inr () \<and>
        strangers as (V (world s')) = strangers as (V (world s)) \<and>
        (\<forall>a\<in>set as. claim_held a (V (world s')) = claim_keys a \<and> group_ok (ca_tenant a) (ca_svc a) (V (world s')))) s'"
    by simp
qed

end
