(* ===== verification/Wakeups.thy ===== *)
theory Wakeups
  imports Manager
begin

text \<open>
  The loop of \<^verbatim>\<open>Start\<close> in \<^verbatim>\<open>internal/multicluster/manager.go\<close> over time: Secrets change while a
  pass runs, their events reach the handler later, and the handler only fills a channel of one
  place. A change that arrives in the middle of a pass is the hard case.
\<close>

datatype loop_phase = Resting | Listing | Applying "secret list"

text \<open>
  \<open>ws_secrets\<close> is what a listing answers now, \<open>ws_unseen\<close> that an event of a change is still on
  its way to the handler, \<open>ws_slot\<close> the place of the channel \<^verbatim>\<open>wake\<close>, and \<open>ws_failed\<close> that the
  latest pass ended with an error, which is logged and not retried before the next event or tick.
\<close>

record watch_state =
  ws_secrets :: "secret list"
  ws_unseen :: bool
  ws_slot :: bool
  ws_phase :: loop_phase
  ws_sessions :: "(string \<times> session) list"
  ws_failed :: bool

definition signal_wake :: "watch_state \<Rightarrow> watch_state" where
  "signal_wake s = s\<lparr>ws_slot := True\<rparr>"

text \<open>The initial pass is under way; the handler is registered before it.\<close>

definition watch_start :: "secret list \<Rightarrow> bool \<Rightarrow> watch_state" where
  "watch_start secrets unseen = \<lparr>ws_secrets = secrets, ws_unseen = unseen, ws_slot = False, ws_phase = Listing,
     ws_sessions = [], ws_failed = False\<rparr>"

text \<open>A pass ends with what \<open>pass_run\<close> allows, which \<open>reconcile_all_runs\<close> proves of the program.\<close>

inductive watch_step :: "(string \<Rightarrow> string) \<Rightarrow> watch_state \<Rightarrow> watch_state \<Rightarrow> bool" for hash where
  secrets_change: "watch_step hash s (s\<lparr>ws_secrets := secrets, ws_unseen := True\<rparr>)"
| event_handled: "ws_unseen s \<Longrightarrow> watch_step hash s (signal_wake (s\<lparr>ws_unseen := rest\<rparr>))"
| woken: "ws_phase s = Resting \<Longrightarrow> ws_slot s \<Longrightarrow> watch_step hash s (s\<lparr>ws_slot := False, ws_phase := Listing\<rparr>)"
| ticked: "ws_phase s = Resting \<Longrightarrow> watch_step hash s (s\<lparr>ws_phase := Listing\<rparr>)"
| list_failed: "ws_phase s = Listing \<Longrightarrow> pass_run hash (ws_sessions s) [TenantSecrets (Inl a)] (Inl e) \<Longrightarrow>
     watch_step hash s (s\<lparr>ws_phase := Resting, ws_failed := True\<rparr>)"
| listed: "ws_phase s = Listing \<Longrightarrow> watch_step hash s (s\<lparr>ws_phase := Applying (ws_secrets s)\<rparr>)"
| applied: "ws_phase s = Applying secrets \<Longrightarrow> pass_run hash (ws_sessions s) (TenantSecrets (Inr secrets) # evs) (Inr after) \<Longrightarrow>
     watch_step hash s (s\<lparr>ws_phase := Resting, ws_failed := False, ws_sessions := after\<rparr>)"

inductive watch_reachable :: "(string \<Rightarrow> string) \<Rightarrow> watch_state \<Rightarrow> bool" for hash where
  watch_reach_start: "watch_reachable hash (watch_start secrets unseen)"
| watch_reach_step: "watch_reachable hash s \<Longrightarrow> watch_step hash s s' \<Longrightarrow> watch_reachable hash s'"

lemma fresh_hash: "fresh_entry evs t w (Some s) \<Longrightarrow> se_hash s = sp_hash w"
  unfolding fresh_entry_def new_session_def option.case by (elim conjE, erule ssubst) simp

text \<open>What a pass leaves is not stale against the Secrets it has listed.\<close>

lemma pass_not_stale:
  assumes "pass_run hash sessions (TenantSecrets (Inr secrets) # evs) (Inr after)"
  shows "sessions_ok after" and "stale_sessions (desired_sessions hash secrets) after = []"
proof -
  let ?d = "desired_sessions hash secrets"
  from assms obtain evs2 where ok: "sessions_ok after" and e: "\<And>t. entry_after evs2 ?d sessions t (map_of after t)"
    by (auto simp: pass_run_def)
  show "sessions_ok after" by (rule ok)
  have "\<not> is_stale ?d (t, s)" if "(t, s) \<in> set after" for t s
  proof -
    have "map_of after t = Some s" using that ok by (simp add: sessions_ok_def)
    with e [of t] fresh_hash [of evs2 t _ s] show ?thesis
      by (auto simp: entry_after_def is_stale_def split: option.splits if_splits)
  qed
  then show "stale_sessions ?d after = []" by (auto simp: stale_sessions_def filter_empty_conv)
qed

text \<open>
  With no event on its way and an empty channel, a pass that applies a listing applies the
  Secrets as they are, and the map of a resting loop follows them.
\<close>

definition calm :: "watch_state \<Rightarrow> bool" where
  "calm s \<longleftrightarrow> \<not> ws_unseen s \<and> \<not> ws_slot s"

definition watch_inv :: "(string \<Rightarrow> string) \<Rightarrow> watch_state \<Rightarrow> bool" where
  "watch_inv hash s \<longleftrightarrow> sessions_ok (ws_sessions s) \<and>
     (calm s \<longrightarrow> (case ws_phase s of
         Resting \<Rightarrow> ws_failed s \<or> stale_sessions (desired_sessions hash (ws_secrets s)) (ws_sessions s) = []
       | Listing \<Rightarrow> True
       | Applying secrets \<Rightarrow> secrets = ws_secrets s))"

lemma watch_inv_step: "watch_step hash s s' \<Longrightarrow> watch_inv hash s \<Longrightarrow> watch_inv hash s'"
proof (induction rule: watch_step.induct)
  case (applied s secrets evs after)
  from pass_not_stale [OF applied(2)] applied(1,3) show ?case by (auto simp: watch_inv_def calm_def)
qed (auto simp: watch_inv_def calm_def signal_wake_def)

lemma watch_reachable_inv: "watch_reachable hash s \<Longrightarrow> watch_inv hash s"
  by (induction rule: watch_reachable.induct)
     (auto simp: watch_start_def watch_inv_def sessions_ok_def dest: watch_inv_step)

lemma sessions_follow:
  assumes "watch_reachable hash s"
  shows "sessions_ok (ws_sessions s) \<and> (calm s \<longrightarrow>
    (\<forall>secrets. ws_phase s = Applying secrets \<longrightarrow> secrets = ws_secrets s) \<and>
    (ws_phase s = Resting \<and> \<not> ws_failed s \<longrightarrow>
       stale_sessions (desired_sessions hash (ws_secrets s)) (ws_sessions s) = []))"
  using watch_reachable_inv [OF assms] by (auto simp: watch_inv_def)

end
