(* ===== verification/SniPeek.thy ===== *)
theory SniPeek
  imports Prelude "HOL-Library.Word"
begin

text \<open>
  \<^verbatim>\<open>internal/sniproxy/peek.go\<close> of the edge router: the server name of a TLS ClientHello,
  read without terminating TLS, and the connection that replays the bytes read. A byte is
  an \<^typ>\<open>8 word\<close>, a slice a list of bytes, a position a natural number: the parser's positions
  are bounded by a few 16-bit lengths, far below the range of Go's \<^verbatim>\<open>int\<close>. Every index and
  slice expression answers \<open>Panic\<close> out of range, so that the absence of panics is a theorem.
\<close>

section \<open>Bytes, slices and outcomes\<close>

type_synonym byte = "8 word"

datatype 'a outcome = Val 'a | Fail string | Panic

definition obind :: "'a outcome \<Rightarrow> ('a \<Rightarrow> 'b outcome) \<Rightarrow> 'b outcome" where
  "obind x f = (case x of Val v \<Rightarrow> f v | Fail e \<Rightarrow> Fail e | Panic \<Rightarrow> Panic)"

lemma obind_simps [simp]: "obind (Val v) f = f v" "obind (Fail e) f = Fail e" "obind Panic f = Panic"
  by (simp_all add: obind_def)

lemma obind_cong [fundef_cong]: "x = y \<Longrightarrow> (\<And>v. y = Val v \<Longrightarrow> f v = g v) \<Longrightarrow> obind x f = obind y g"
  by (auto simp: obind_def split: outcome.splits)

text \<open>
  \<^verbatim>\<open>b[i]\<close> and \<^verbatim>\<open>b[i:j]\<close>. Go lets a slice expression reach the capacity of \<^verbatim>\<open>b\<close>; here it
  stops at the length.
\<close>

definition byte_at :: "byte list \<Rightarrow> nat \<Rightarrow> byte outcome" where
  "byte_at b i = (if i < length b then Val (b ! i) else Panic)"

definition slice :: "byte list \<Rightarrow> nat \<Rightarrow> nat \<Rightarrow> byte list outcome" where
  "slice b i j = (if i \<le> j \<and> j \<le> length b then Val (take (j - i) (drop i b)) else Panic)"

text \<open>\<^verbatim>\<open>binary.BigEndian.Uint16\<close> of a slice: it reads the first two bytes.\<close>

definition uint16 :: "byte list \<Rightarrow> nat outcome" where
  "uint16 b = (case b of x # y # _ \<Rightarrow> Val (256 * unat x + unat y) | _ \<Rightarrow> Panic)"

definition uint16_at :: "byte list \<Rightarrow> nat \<Rightarrow> nat outcome" where
  "uint16_at b i = obind (slice b i (i + 2)) uint16"

definition go_string :: "byte list \<Rightarrow> string" where
  "go_string = map (\<lambda>w. char_of (unat w))"

text \<open>\<^verbatim>\<open>%02x\<close> of a byte.\<close>

definition hex_byte :: "byte \<Rightarrow> string" where
  "hex_byte w = [hex_digit (unat w div 16), hex_digit (unat w mod 16)]"

section \<open>The parser\<close>

definition tls_record_type_handshake :: byte where "tls_record_type_handshake = 0x16"

definition tls_handshake_client_hello :: byte where "tls_handshake_client_hello = 0x01"

definition tls_extension_sni :: nat where "tls_extension_sni = 0"

definition tls_sni_type_hostname :: byte where "tls_sni_type_hostname = 0"

definition max_client_hello_size :: nat where "max_client_hello_size = 4096"

text \<open>The name list of an SNI extension, and the extension.\<close>

function scan_names :: "byte list \<Rightarrow> nat \<Rightarrow> nat \<Rightarrow> string outcome" where
  "scan_names data stop pos =
     (if pos + 3 \<le> stop then
        obind (byte_at data pos) (\<lambda>name_type.
        obind (uint16_at data (pos + 1)) (\<lambda>name_len.
          if pos + 3 + name_len > stop then Fail ''no hostname entry in SNI extension''
          else if name_type = tls_sni_type_hostname then
            obind (slice data (pos + 3) (pos + 3 + name_len)) (\<lambda>name. Val (go_string name))
          else scan_names data stop (pos + 3 + name_len)))
      else Fail ''no hostname entry in SNI extension'')"
  by pat_completeness auto
termination by (relation "measure (\<lambda>(data, stop, pos). stop - pos)") auto

declare scan_names.simps [simp del]

definition parse_sni_extension :: "byte list \<Rightarrow> string outcome" where
  "parse_sni_extension data =
     (if length data < 2 then Fail ''SNI extension too short''
      else obind (uint16_at data 0) (\<lambda>list_len.
        if length data < 2 + list_len then Fail ''SNI list truncated''
        else scan_names data (2 + list_len) 2))"

text \<open>The extensions of the ClientHello body, from \<open>pos\<close> to \<open>ext_end\<close>.\<close>

function scan_extensions :: "byte list \<Rightarrow> nat \<Rightarrow> nat \<Rightarrow> string outcome" where
  "scan_extensions body ext_end pos =
     (if pos + 4 \<le> ext_end then
        obind (uint16_at body pos) (\<lambda>ext_type.
        obind (uint16_at body (pos + 2)) (\<lambda>ext_len.
          if pos + 4 + ext_len > ext_end then Fail ''SNI extension not found in ClientHello''
          else if ext_type = tls_extension_sni then
            obind (slice body (pos + 4) (pos + 4 + ext_len)) parse_sni_extension
          else scan_extensions body ext_end (pos + 4 + ext_len)))
      else Fail ''SNI extension not found in ClientHello'')"
  by pat_completeness auto
termination by (relation "measure (\<lambda>(body, stop, pos). stop - pos)") auto

declare scan_extensions.simps [simp del]

text \<open>The body: what precedes the extensions is skipped, field by field.\<close>

definition parse_client_hello :: "byte list \<Rightarrow> string outcome" where
  "parse_client_hello body =
     (if length body < 35 then Fail ''ClientHello body too short''
      else obind (byte_at body 34) (\<lambda>session_id_len.
        let pos = 34 + 1 + unat session_id_len in
        if pos + 2 > length body then Fail ''truncated at cipher suites''
        else obind (uint16_at body pos) (\<lambda>cipher_suites_len.
          let pos = pos + 2 + cipher_suites_len in
          if pos + 1 > length body then Fail ''truncated at compression''
          else obind (byte_at body pos) (\<lambda>compression_len.
            let pos = pos + 1 + unat compression_len in
            if pos + 2 > length body then Fail ''no extensions present''
            else obind (uint16_at body pos) (\<lambda>ext_len.
              let pos = pos + 2; ext_end = pos + ext_len in
              if ext_end > length body then Fail ''extensions length exceeds body''
              else scan_extensions body ext_end pos)))))"

definition extract_sni :: "byte list \<Rightarrow> string outcome" where
  "extract_sni data =
     (if length data < 5 then Fail ''too short for TLS record header''
      else obind (byte_at data 0) (\<lambda>record_type.
        if record_type \<noteq> tls_record_type_handshake then
          Fail (''not a TLS handshake record (type=0x'' @ hex_byte record_type @ '')'')
        else obind (uint16_at data 3) (\<lambda>record_len.
          if length data < 5 + record_len then
            Fail (''incomplete TLS record: have '' @ digits (length data - 5) @ '', need '' @ digits record_len)
          else obind (slice data 5 (5 + record_len)) (\<lambda>payload.
            if length payload < 4 then Fail ''too short for handshake header''
            else obind (byte_at payload 0) (\<lambda>handshake_type.
              if handshake_type \<noteq> tls_handshake_client_hello then
                Fail (''not a ClientHello (type=0x'' @ hex_byte handshake_type @ '')'')
              else obind (slice payload 4 (length payload)) parse_client_hello)))))"

section \<open>Reading from the connection\<close>

text \<open>
  A connection is the segments the peer has sent, in order, and the error that follows
  them. \<open>conn_read n\<close> is \<^verbatim>\<open>Read\<close> of a buffer of \<open>n\<close> bytes: at most one segment per call.
\<close>

record conn =
  cn_segments :: "byte list list"
  cn_error :: string

definition conn_read :: "nat \<Rightarrow> conn \<Rightarrow> (string + byte list) \<times> conn" where
  "conn_read n c =
     (case cn_segments c of
        [] \<Rightarrow> (Inl (cn_error c), c)
      | seg # segs \<Rightarrow>
          if length seg \<le> n then (Inr seg, c\<lparr>cn_segments := segs\<rparr>)
          else (Inr (take n seg), c\<lparr>cn_segments := drop n seg # segs\<rparr>))"

text \<open>
  \<^verbatim>\<open>io.ReadFull\<close>: read until the buffer is full or an error comes; \<open>got\<close> is what has been
  read. An end of file after some bytes is reported as unexpected.
\<close>

function read_full :: "nat \<Rightarrow> byte list \<Rightarrow> conn \<Rightarrow> (string + byte list) \<times> conn" where
  "read_full n got c =
     (if n \<le> length got then (Inr got, c)
      else case cn_segments c of
          [] \<Rightarrow> (Inl (if got \<noteq> [] \<and> cn_error c = ''EOF'' then ''unexpected EOF'' else cn_error c), c)
        | _ # _ \<Rightarrow> (case conn_read (n - length got) c of
              (Inl e, c') \<Rightarrow> (Inl e, c')
            | (Inr b, c') \<Rightarrow> read_full n (got @ b) c'))"
  by pat_completeness auto
termination
  by (relation "measures [\<lambda>(n, got, c). n - length got, \<lambda>(n, got, c). length (cn_segments c)]")
     (auto simp: conn_read_def split: if_splits)

declare read_full.simps [simp del]

record peek_conn =
  pk_conn :: conn
  pk_buf :: "byte list"
  pk_pos :: nat

definition peek_read :: "nat \<Rightarrow> peek_conn \<Rightarrow> (string + byte list) \<times> peek_conn" where
  "peek_read n c =
     (if pk_pos c < length (pk_buf c) then
        let b = take n (drop (pk_pos c) (pk_buf c)) in (Inr b, c\<lparr>pk_pos := pk_pos c + length b\<rparr>)
      else case conn_read n (pk_conn c) of (r, cn) \<Rightarrow> (r, c\<lparr>pk_conn := cn\<rparr>))"

definition read_sni :: "conn \<Rightarrow> (string \<times> peek_conn) outcome" where
  "read_sni c =
     (case read_full 5 [] c of
        (Inl e, _) \<Rightarrow> Fail (''read TLS record header: '' @ e)
      | (Inr header, c1) \<Rightarrow> obind (obind (slice header 3 5) uint16) (\<lambda>record_len.
          if record_len > max_client_hello_size then
            Fail (''TLS record too large: '' @ digits record_len @ '' bytes'')
          else case read_full record_len [] c1 of
              (Inl e, _) \<Rightarrow> Fail (''read TLS record payload: '' @ e)
            | (Inr payload, c2) \<Rightarrow> obind (extract_sni (header @ payload)) (\<lambda>sni.
                Val (sni, \<lparr>pk_conn = c2, pk_buf = header @ payload, pk_pos = 0\<rparr>))))"

section \<open>No read out of range\<close>

lemma byte_at_val [simp]: "i < length b \<Longrightarrow> byte_at b i = Val (b ! i)"
  by (simp add: byte_at_def)

lemma slice_val [simp]: "i \<le> j \<Longrightarrow> j \<le> length b \<Longrightarrow> slice b i j = Val (take (j - i) (drop i b))"
  by (simp add: slice_def)

lemma uint16_at_val [simp]:
  assumes "i + 2 \<le> length b"
  shows "uint16_at b i = Val (256 * unat (b ! i) + unat (b ! Suc i))"
proof -
  from assms have "drop i b = b ! i # b ! Suc i # drop (Suc (Suc i)) b"
    by (simp add: Cons_nth_drop_Suc)
  with assms show ?thesis
    by (simp add: uint16_at_def uint16_def numeral_2_eq_2)
qed

lemma scan_names_total: "stop \<le> length data \<Longrightarrow> scan_names data stop pos \<noteq> Panic"
proof (induction data stop pos rule: scan_names.induct)
  case (1 data stop pos)
  then show ?case
    by (subst scan_names.simps) (auto simp: Let_def)
qed

lemma parse_sni_extension_total: "parse_sni_extension data \<noteq> Panic"
  by (simp add: parse_sni_extension_def scan_names_total)

lemma scan_extensions_total: "stop \<le> length body \<Longrightarrow> scan_extensions body stop pos \<noteq> Panic"
proof (induction body stop pos rule: scan_extensions.induct)
  case (1 body stop pos)
  then show ?case
    by (subst scan_extensions.simps) (auto simp: parse_sni_extension_total)
qed

lemma parse_client_hello_total: "parse_client_hello body \<noteq> Panic"
  by (simp add: parse_client_hello_def Let_def scan_extensions_total)

lemma extract_sni_total: "extract_sni data \<noteq> Panic"
proof (cases "length data < 5")
  case False
  then have d: "byte_at data 0 = Val (data ! 0)" "uint16_at data 3 = Val (256 * unat (data ! 3) + unat (data ! Suc 3))"
    by (intro byte_at_val uint16_at_val; linarith)+
  have p: "byte_at b 0 = Val (b ! 0)" if "\<not> length b < 4" for b
    using that by (intro byte_at_val) linarith
  show ?thesis
    unfolding extract_sni_def d obind_simps
    by (auto simp: parse_client_hello_total p simp del: byte_at_val length_take length_drop)
qed (simp add: extract_sni_def)

section \<open>What the parser answers on a well-formed message\<close>

text \<open>
  The message as its syntax describes it: a list of extensions and, in the SNI extension,
  a list of names, each with its type; the encoder writes the lengths.
\<close>

definition u16 :: "nat \<Rightarrow> byte list" where
  "u16 n = [word_of_nat (n div 256), word_of_nat (n mod 256)]"

definition enc_name :: "byte \<times> byte list \<Rightarrow> byte list" where
  "enc_name tn = fst tn # u16 (length (snd tn)) @ snd tn"

definition enc_names :: "(byte \<times> byte list) list \<Rightarrow> byte list" where
  "enc_names ns = concat (map enc_name ns)"

definition enc_sni :: "(byte \<times> byte list) list \<Rightarrow> byte list" where
  "enc_sni ns = u16 (length (enc_names ns)) @ enc_names ns"

definition enc_ext :: "nat \<times> byte list \<Rightarrow> byte list" where
  "enc_ext te = u16 (fst te) @ u16 (length (snd te)) @ snd te"

definition enc_exts :: "(nat \<times> byte list) list \<Rightarrow> byte list" where
  "enc_exts es = concat (map enc_ext es)"

record client_hello =
  ch_head :: "byte list"
  ch_session_id :: "byte list"
  ch_cipher_suites :: "byte list"
  ch_compression :: "byte list"
  ch_extensions :: "(nat \<times> byte list) list"

definition enc_body :: "client_hello \<Rightarrow> byte list" where
  "enc_body h = ch_head h @ word_of_nat (length (ch_session_id h)) # ch_session_id h
     @ u16 (length (ch_cipher_suites h)) @ ch_cipher_suites h
     @ word_of_nat (length (ch_compression h)) # ch_compression h
     @ u16 (length (enc_exts (ch_extensions h))) @ enc_exts (ch_extensions h)"

definition enc_record :: "byte list \<Rightarrow> byte list \<Rightarrow> byte list \<Rightarrow> byte list" where
  "enc_record version len3 body =
     tls_record_type_handshake # version @ u16 (4 + length body)
     @ tls_handshake_client_hello # len3 @ body"

definition hello_ok :: "client_hello \<Rightarrow> bool" where
  "hello_ok h \<longleftrightarrow> length (ch_head h) = 34 \<and> length (ch_session_id h) < 256 \<and>
     length (ch_cipher_suites h) < 65536 \<and> length (ch_compression h) < 256 \<and>
     list_all (\<lambda>(t, d). t < 65536 \<and> length d < 65536) (ch_extensions h) \<and>
     4 + length (enc_body h) < 65536"

text \<open>The meaning: the first host name of the first SNI extension.\<close>

definition first_name :: "(byte \<times> byte list) list \<Rightarrow> string outcome" where
  "first_name ns = (case find (\<lambda>tn. fst tn = tls_sni_type_hostname) ns of
       None \<Rightarrow> Fail ''no hostname entry in SNI extension'' | Some (_, n) \<Rightarrow> Val (go_string n))"

definition first_ext :: "(nat \<times> byte list) list \<Rightarrow> string outcome" where
  "first_ext es = (case find (\<lambda>te. fst te = tls_extension_sni) es of
       None \<Rightarrow> Fail ''SNI extension not found in ClientHello'' | Some (_, d) \<Rightarrow> parse_sni_extension d)"

lemma unat_small [simp]: "n < 256 \<Longrightarrow> unat (word_of_nat n :: byte) = n"
  by (simp add: unsigned_of_nat take_bit_nat_eq_self)

lemma length_u16 [simp]: "length (u16 n) = 2"
  by (simp add: u16_def)

lemma uint16_u16 [simp]: "n < 65536 \<Longrightarrow> uint16 (u16 n @ r) = Val n"
  by (simp add: uint16_def u16_def)

lemma uint16_at_u16: "n < 65536 \<Longrightarrow> i = length pre \<Longrightarrow> uint16_at (pre @ u16 n @ r) i = Val n"
  by (simp add: uint16_at_def) (metis append.right_neutral uint16_u16)

lemma slice_mid: "i = length pre \<Longrightarrow> j = i + length mid \<Longrightarrow> slice (pre @ mid @ r) i j = Val mid"
  by (simp add: slice_def)

lemma byte_at_mid: "i = length pre \<Longrightarrow> byte_at (pre @ x # r) i = Val x"
  by (simp add: byte_at_def)

lemma len_name: "length (enc_name (t, n)) = 3 + length n"
  by (simp add: enc_name_def)

lemma len_ext: "length (enc_ext (t, d)) = 4 + length d"
  by (simp add: enc_ext_def)

lemma scan_names_enc:
  assumes "list_all (\<lambda>(t, n). length n < 65536) ns"
  shows "scan_names (pre @ enc_names ns @ post) (length pre + length (enc_names ns)) (length pre) = first_name ns"
  using assms
proof (induction ns arbitrary: pre)
  case Nil
  then show ?case by (subst scan_names.simps) (simp add: enc_names_def first_name_def)
next
  case (Cons tn ns)
  obtain t n where tn: "tn = (t, n)" by (cases tn)
  let ?data = "pre @ enc_names (tn # ns) @ post"
  have split: "?data = pre @ t # u16 (length n) @ n @ enc_names ns @ post"
    "?data = (pre @ [t]) @ u16 (length n) @ n @ enc_names ns @ post"
    "?data = (pre @ t # u16 (length n)) @ n @ enc_names ns @ post"
    "?data = (pre @ enc_name tn) @ enc_names ns @ post"
    by (simp_all add: enc_names_def enc_name_def tn)
  have len: "length (enc_names (tn # ns)) = 3 + length n + length (enc_names ns)"
    by (simp add: enc_names_def enc_name_def tn)
  have ty: "byte_at ?data (length pre) = Val t"
    unfolding split(1) by (rule byte_at_mid) simp
  have ln: "uint16_at ?data (length pre + 1) = Val (length n)"
    unfolding split(2) by (rule uint16_at_u16) (use Cons.prems tn in simp_all)
  have nm: "slice ?data (length pre + 3) (length pre + 3 + length n) = Val n"
    unfolding split(3) by (rule slice_mid) simp_all
  have ih: "scan_names ?data (length pre + length (enc_names (tn # ns))) (length pre + 3 + length n) = first_name ns"
    using Cons.IH [of "pre @ enc_name tn"] Cons.prems
    unfolding split(4) len by (simp add: len_name tn add.assoc)
  have fn: "first_name (tn # ns) = (if t = tls_sni_type_hostname then Val (go_string n) else first_name ns)"
    by (simp add: first_name_def tn)
  show ?case
    by (subst scan_names.simps) (use ty ln nm ih fn len in simp)
qed

lemma parse_sni_extension_enc:
  assumes "list_all (\<lambda>(t, n). length n < 65536) ns" "length (enc_names ns) < 65536"
  shows "parse_sni_extension (enc_sni ns) = first_name ns"
proof -
  have "uint16_at (enc_sni ns) 0 = Val (length (enc_names ns))"
    using uint16_at_u16 [of "length (enc_names ns)" 0 "[]" "enc_names ns"] assms(2)
    by (simp add: enc_sni_def)
  moreover have "length (enc_sni ns) = 2 + length (enc_names ns)"
    by (simp add: enc_sni_def)
  moreover have "scan_names (enc_sni ns) (2 + length (enc_names ns)) 2 = first_name ns"
    using scan_names_enc [OF assms(1), of "u16 (length (enc_names ns))" "[]"] by (simp add: enc_sni_def)
  ultimately show ?thesis by (simp add: parse_sni_extension_def)
qed

lemma scan_extensions_enc:
  assumes "list_all (\<lambda>(t, d). t < 65536 \<and> length d < 65536) es"
  shows "scan_extensions (pre @ enc_exts es @ post) (length pre + length (enc_exts es)) (length pre) = first_ext es"
  using assms
proof (induction es arbitrary: pre)
  case Nil
  then show ?case by (subst scan_extensions.simps) (simp add: enc_exts_def first_ext_def)
next
  case (Cons te es)
  obtain t d where te: "te = (t, d)" by (cases te)
  let ?data = "pre @ enc_exts (te # es) @ post"
  have split: "?data = pre @ u16 t @ u16 (length d) @ d @ enc_exts es @ post"
    "?data = (pre @ u16 t) @ u16 (length d) @ d @ enc_exts es @ post"
    "?data = (pre @ u16 t @ u16 (length d)) @ d @ enc_exts es @ post"
    "?data = (pre @ enc_ext te) @ enc_exts es @ post"
    by (simp_all add: enc_exts_def enc_ext_def te)
  have len: "length (enc_exts (te # es)) = 4 + length d + length (enc_exts es)"
    by (simp add: enc_exts_def enc_ext_def te)
  have ty: "uint16_at ?data (length pre) = Val t"
    unfolding split(1) by (rule uint16_at_u16) (use Cons.prems te in simp_all)
  have ln: "uint16_at ?data (length pre + 2) = Val (length d)"
    unfolding split(2) by (rule uint16_at_u16) (use Cons.prems te in simp_all)
  have nm: "slice ?data (length pre + 4) (length pre + 4 + length d) = Val d"
    unfolding split(3) by (rule slice_mid) simp_all
  have ih: "scan_extensions ?data (length pre + length (enc_exts (te # es))) (length pre + 4 + length d) = first_ext es"
    using Cons.IH [of "pre @ enc_ext te"] Cons.prems
    unfolding split(4) len by (simp add: len_ext te add.assoc)
  have fe: "first_ext (te # es) = (if t = tls_extension_sni then parse_sni_extension d else first_ext es)"
    by (simp add: first_ext_def te)
  show ?case
    by (subst scan_extensions.simps) (use ty ln nm ih fe len in simp)
qed

lemma parse_client_hello_enc:
  assumes "hello_ok h"
  shows "parse_client_hello (enc_body h) = first_ext (ch_extensions h)"
proof -
  let ?s = "ch_session_id h" and ?c = "ch_cipher_suites h" and ?m = "ch_compression h"
  let ?e = "enc_exts (ch_extensions h)" and ?b = "enc_body h"
  from assms have ok: "length (ch_head h) = 34" "length ?s < 256" "length ?c < 65536" "length ?m < 256"
    "list_all (\<lambda>(t, d). t < 65536 \<and> length d < 65536) (ch_extensions h)" "length ?b < 65536"
    by (simp_all add: hello_ok_def)
  have len: "length ?b = 42 + length ?s + length ?c + length ?m + length ?e - 2"
    using ok(1) by (simp add: enc_body_def)
  let ?p1 = "ch_head h @ word_of_nat (length ?s) # ?s"
  let ?p2 = "?p1 @ u16 (length ?c) @ ?c"
  let ?p3 = "?p2 @ word_of_nat (length ?m) # ?m"
  have b: "?b = ch_head h @ word_of_nat (length ?s) # ?s @ u16 (length ?c) @ ?c
        @ word_of_nat (length ?m) # ?m @ u16 (length ?e) @ ?e"
    "?b = ?p1 @ u16 (length ?c) @ ?c @ word_of_nat (length ?m) # ?m @ u16 (length ?e) @ ?e"
    "?b = ?p2 @ word_of_nat (length ?m) # ?m @ u16 (length ?e) @ ?e"
    "?b = ?p3 @ u16 (length ?e) @ ?e"
    "?b = (?p3 @ u16 (length ?e)) @ ?e @ []"
    by (simp_all add: enc_body_def)
  have 1: "byte_at ?b 34 = Val (word_of_nat (length ?s))"
    unfolding b(1) by (rule byte_at_mid) (simp add: ok(1))
  have 2: "uint16_at ?b (35 + length ?s) = Val (length ?c)"
    unfolding b(2) by (rule uint16_at_u16) (simp_all add: ok)
  have 3: "byte_at ?b (37 + length ?s + length ?c) = Val (word_of_nat (length ?m))"
    unfolding b(3) by (rule byte_at_mid) (simp add: ok)
  have 4: "uint16_at ?b (38 + length ?s + length ?c + length ?m) = Val (length ?e)"
    unfolding b(4) by (rule uint16_at_u16) (use ok len in simp_all)
  have 5: "scan_extensions ?b (40 + length ?s + length ?c + length ?m + length ?e)
       (40 + length ?s + length ?c + length ?m) = first_ext (ch_extensions h)"
    using scan_extensions_enc [OF ok(5), of "?p3 @ u16 (length ?e)" "[]"]
    unfolding b(5) [symmetric] by (simp add: ok(1) algebra_simps)
  show ?thesis
    unfolding parse_client_hello_def Let_def 1 obind_simps
    using 2 3 4 5 ok by (simp add: len add.assoc)
qed

lemma extract_sni_enc:
  assumes "hello_ok h" "length version = 2" "length len3 = 3"
  shows "extract_sni (enc_record version len3 (enc_body h)) = first_ext (ch_extensions h)"
proof -
  let ?b = "enc_body h" and ?r = "enc_record version len3 (enc_body h)"
  let ?pay = "tls_handshake_client_hello # len3 @ ?b"
  from assms have small: "4 + length ?b < 65536" by (simp add: hello_ok_def)
  have r: "?r = (tls_record_type_handshake # version) @ u16 (4 + length ?b) @ ?pay"
    "?r = (tls_record_type_handshake # version @ u16 (4 + length ?b)) @ ?pay @ []"
    by (simp_all add: enc_record_def)
  have len: "length ?r = 9 + length ?b" using assms by (simp add: enc_record_def)
  have 0: "byte_at ?r 0 = Val tls_record_type_handshake"
    by (simp add: enc_record_def byte_at_def)
  have 1: "uint16_at ?r 3 = Val (4 + length ?b)"
    unfolding r(1) by (rule uint16_at_u16) (use small assms in simp_all)
  have 2: "slice ?r 5 (5 + (4 + length ?b)) = Val ?pay"
    unfolding r(2) by (rule slice_mid) (use assms in simp_all)
  have lp: "length ?pay = 4 + length ?b" using assms by simp
  have 3: "byte_at ?pay 0 = Val tls_handshake_client_hello"
    by (simp add: byte_at_def)
  have 4: "slice ?pay 4 (length ?pay) = Val ?b"
    using slice_mid [of 4 "tls_handshake_client_hello # len3" "length ?pay" ?b "[]"] assms by simp
  show ?thesis
    unfolding extract_sni_def 0 1 2 obind_simps lp 3 4 [unfolded lp]
    using parse_client_hello_enc [OF assms(1)] by (simp add: len)
qed

section \<open>The connection is replayed\<close>

text \<open>What is still to be read from a connection, and from the replaying one.\<close>

definition pending_bytes :: "conn \<Rightarrow> byte list" where
  "pending_bytes c = concat (cn_segments c)"

definition peek_bytes :: "peek_conn \<Rightarrow> byte list" where
  "peek_bytes c = drop (pk_pos c) (pk_buf c) @ pending_bytes (pk_conn c)"

lemma conn_read_bytes:
  "case conn_read n c of (r, c') \<Rightarrow> cn_error c' = cn_error c \<and>
     (case r of Inl e \<Rightarrow> cn_segments c = [] \<and> c' = c \<and> e = cn_error c
      | Inr b \<Rightarrow> b @ pending_bytes c' = pending_bytes c \<and> length b \<le> n)"
  by (auto simp: conn_read_def pending_bytes_def split: list.splits)

text \<open>\<^verbatim>\<open>io.ReadFull\<close> depends on the bytes only, not on how they are cut into segments.\<close>

definition full_error :: "byte list \<Rightarrow> string \<Rightarrow> string" where
  "full_error got e = (if got \<noteq> [] \<and> e = ''EOF'' then ''unexpected EOF'' else e)"

lemma read_full_bytes:
  assumes "length got \<le> n"
  shows "case read_full n got c of (r, c') \<Rightarrow> cn_error c' = cn_error c \<and>
     (let s = got @ pending_bytes c in
      if n \<le> length s then r = Inr (take n s) \<and> pending_bytes c' = drop n s
      else r = Inl (full_error s (cn_error c)))"
  using assms
proof (induction n got c rule: read_full.induct)
  case (1 n got c)
  show ?case
  proof (cases "n \<le> length got")
    case True
    with 1(2) show ?thesis by (subst read_full.simps) (simp add: Let_def)
  next
    case False
    show ?thesis
    proof (cases "cn_segments c")
      case Nil
      with False show ?thesis
        by (subst read_full.simps) (simp add: Let_def pending_bytes_def full_error_def)
    next
      case (Cons seg segs)
      obtain b c' where r: "conn_read (n - length got) c = (Inr b, c')"
        using Cons by (cases "length seg \<le> n - length got") (auto simp: conn_read_def)
      from conn_read_bytes [of c "n - length got"] r
      have b: "cn_error c' = cn_error c" "b @ pending_bytes c' = pending_bytes c" "length b \<le> n - length got"
        by simp_all
      have "read_full n got c = read_full n (got @ b) c'"
        by (subst read_full.simps) (simp add: False Cons r)
      moreover have "length (got @ b) \<le> n" using b(3) False by simp
      ultimately show ?thesis
        using 1(1) [OF False Cons r [symmetric] refl] b(1) by (auto simp: b(2) Let_def split: prod.splits if_splits)
    qed
  qed
qed

text \<open>\<open>ReadSNI\<close> as a function of the byte stream and the error that ends it.\<close>

definition stream_sni :: "byte list \<Rightarrow> string \<Rightarrow> string outcome" where
  "stream_sni s e =
     (if length s < 5 then Fail (''read TLS record header: '' @ full_error s e)
      else let n = 256 * unat (s ! 3) + unat (s ! 4) in
        if n > max_client_hello_size then Fail (''TLS record too large: '' @ digits n @ '' bytes'')
        else if length s < 5 + n then Fail (''read TLS record payload: '' @ full_error (drop 5 s) e)
        else extract_sni (take (5 + n) s))"

definition map_outcome :: "('a \<Rightarrow> 'b) \<Rightarrow> 'a outcome \<Rightarrow> 'b outcome" where
  "map_outcome f x = obind x (\<lambda>v. Val (f v))"

lemma map_outcome_simps [simp]:
  "map_outcome f (Val v) = Val (f v)" "map_outcome f (Fail e) = Fail e" "map_outcome f Panic = Panic"
  "map_outcome f (obind x g) = obind x (\<lambda>v. map_outcome f (g v))"
  by (cases x; simp add: map_outcome_def)+

lemma read_sni_stream: "map_outcome fst (read_sni c) = stream_sni (pending_bytes c) (cn_error c)"
proof -
  let ?s = "pending_bytes c" and ?e = "cn_error c"
  obtain r1 c1 where h: "read_full 5 [] c = (r1, c1)" by fastforce
  with read_full_bytes [of "[]" 5 c] have h1: "cn_error c1 = ?e"
    "if 5 \<le> length ?s then r1 = Inr (take 5 ?s) \<and> pending_bytes c1 = drop 5 ?s else r1 = Inl (full_error ?s ?e)"
    by (simp_all add: Let_def)
  show ?thesis
  proof (cases "length ?s < 5")
    case True
    with h h1 show ?thesis by (simp add: read_sni_def stream_sni_def)
  next
    case False
    let ?n = "256 * unat (?s ! 3) + unat (?s ! 4)"
    from False have "5 \<le> length ?s" by simp
    then obtain b0 b1 b2 b3 b4 rest where "?s = b0 # b1 # b2 # b3 # b4 # rest"
      by (auto simp: Suc_le_length_iff numeral_eq_Suc)
    then have ds: "drop 3 (take 5 ?s) = [?s ! 3, ?s ! 4]" by simp
    then have u: "obind (slice (take 5 ?s) 3 5) uint16 = Val ?n"
      using False by (simp add: slice_def uint16_def)
    obtain r2 c2 where p: "read_full ?n [] c1 = (r2, c2)" by fastforce
    from read_full_bytes [of "[]" ?n c1] p h1 False
    have p1: "if 5 + ?n \<le> length ?s then r2 = Inr (take ?n (drop 5 ?s)) else r2 = Inl (full_error (drop 5 ?s) ?e)"
      by (auto simp: Let_def split: if_splits)
    have tk: "take 5 ?s @ take ?n (drop 5 ?s) = take (5 + ?n) ?s" by (simp add: take_add)
    from h h1 u p p1 False tk show ?thesis
      by (auto simp: read_sni_def stream_sni_def Let_def obind_def split: outcome.splits)
  qed
qed

lemma read_sni_replays:
  assumes "read_sni c = Val (host, p)"
  shows "peek_bytes p = pending_bytes c"
proof -
  let ?s = "pending_bytes c" and ?e = "cn_error c"
  obtain r1 c1 where h: "read_full 5 [] c = (r1, c1)" by fastforce
  from assms h obtain header where header: "r1 = Inr header"
    by (cases r1) (simp_all add: read_sni_def)
  with h read_full_bytes [of "[]" 5 c] have h1: "header @ pending_bytes c1 = ?s"
    by (auto simp: Let_def split: if_splits)
  from assms h header obtain n r2 c2 where p: "read_full n [] c1 = (r2, c2)"
    and a2: "(case r2 of Inl e \<Rightarrow> Fail (''read TLS record payload: '' @ e)
            | Inr payload \<Rightarrow> obind (extract_sni (header @ payload)) (\<lambda>sni.
                Val (sni, \<lparr>pk_conn = c2, pk_buf = header @ payload, pk_pos = 0\<rparr>))) = Val (host, p)"
    by (auto simp: read_sni_def obind_def split: outcome.splits if_splits prod.splits)
  then obtain payload where pay: "r2 = Inr payload" "p = \<lparr>pk_conn = c2, pk_buf = header @ payload, pk_pos = 0\<rparr>"
    by (auto simp: obind_def split: sum.splits outcome.splits)
  with p read_full_bytes [of "[]" n c1] have "payload @ pending_bytes c2 = pending_bytes c1"
    by (auto simp: Let_def split: if_splits)
  with pay h1 show ?thesis by (simp add: peek_bytes_def)
qed

text \<open>Any sequence of reads hands out the stream in order; an error comes only at its end.\<close>

lemma peek_read_bytes:
  "case peek_read n p of (r, p') \<Rightarrow>
     (case r of Inl e \<Rightarrow> peek_bytes p = [] \<and> p' = p \<and> e = cn_error (pk_conn p)
      | Inr b \<Rightarrow> b @ peek_bytes p' = peek_bytes p \<and> length b \<le> n)"
proof (cases "pk_pos p < length (pk_buf p)")
  case True
  then show ?thesis
    by (simp add: peek_read_def Let_def peek_bytes_def min_def) (metis add.commute append_take_drop_id drop_drop)
next
  case False
  with conn_read_bytes [of "pk_conn p" n] show ?thesis
    by (auto simp: peek_read_def peek_bytes_def pending_bytes_def split: prod.splits sum.splits)
qed

fun peek_reads :: "nat list \<Rightarrow> peek_conn \<Rightarrow> byte list \<times> peek_conn" where
  "peek_reads [] p = ([], p)"
| "peek_reads (n # ns) p =
     (case peek_read n p of
        (Inl _, p') \<Rightarrow> ([], p')
      | (Inr b, p') \<Rightarrow> (case peek_reads ns p' of (bs, p'') \<Rightarrow> (b @ bs, p'')))"

lemma peek_reads_bytes: "case peek_reads ns p of (bs, p') \<Rightarrow> bs @ peek_bytes p' = peek_bytes p"
proof (induction ns arbitrary: p)
  case (Cons n ns)
  obtain r p1 where r: "peek_read n p = (r, p1)" by fastforce
  show ?case
    using peek_read_bytes [of p n] Cons [of p1] r by (auto split: sum.splits prod.splits)
qed simp

text \<open>A ClientHello that names a host in its SNI extension yields that host.\<close>

lemma extract_sni_host:
  assumes "hello_ok h" "length version = 2" "length len3 = 3"
    and "find (\<lambda>te. fst te = tls_extension_sni) (ch_extensions h) = Some (t, enc_sni names)"
    and "list_all (\<lambda>(t, n). length n < 65536) names"
    and "find (\<lambda>tn. fst tn = tls_sni_type_hostname) names = Some (t', host)"
  shows "extract_sni (enc_record version len3 (enc_body h)) = Val (go_string host)"
proof -
  from assms(4) have "(t, enc_sni names) \<in> set (ch_extensions h)"
    by (metis find_Some_iff nth_mem)
  with assms(1) have "length (enc_names names) < 65536"
    by (auto simp: hello_ok_def list_all_iff enc_sni_def)
  from parse_sni_extension_enc [OF assms(5) this] assms(4,6) extract_sni_enc [OF assms(1-3)] show ?thesis
    by (simp add: first_ext_def first_name_def)
qed

lemma read_sni_total: "read_sni c \<noteq> Panic"
proof
  assume "read_sni c = Panic"
  then have "stream_sni (pending_bytes c) (cn_error c) = Panic"
    using read_sni_stream [of c] by simp
  then show False
    by (auto simp: stream_sni_def Let_def extract_sni_total split: if_splits)
qed

end
