(* ===== verification/Router.thy ===== *)
theory Router
  imports SniPeek
begin

text \<open>
  \<^verbatim>\<open>internal/sniproxy/router.go\<close> of the edge router: the routing table kept from the
  Services of the cluster, and the handling of a connection. Go maps are association lists;
  a range over a map follows an order chosen by a seed. Every operation runs under the
  router's lock, so an operation is one step.
\<close>

section \<open>Listeners and Services\<close>

record edge_listener =
  li_name :: string
  li_addr :: string
  li_label :: string
  li_target_port :: string

definition target_port_name :: "edge_listener \<Rightarrow> string" where
  "target_port_name l = (if li_target_port l \<noteq> '''' then li_target_port l else li_name l)"

record edge_service =
  es_ns :: string
  es_name :: string
  es_labels :: "string \<Rightarrow> string option"
  es_annotations :: "string \<Rightarrow> string option"
  es_ports :: "(string \<times> int) list"

definition annotation_hostname :: string where
  "annotation_hostname = ''talos.aenix.io/cluster-hostname''"

fun service_port :: "(string \<times> int) list \<Rightarrow> string \<Rightarrow> int" where
  "service_port [] name = 0"
| "service_port ((n, p) # ps) name = (if n = name then p else service_port ps name)"

datatype edge_obj = EdgeService edge_service | EdgeTombstone "edge_service option" | EdgeOther

fun to_service :: "edge_obj \<Rightarrow> edge_service option" where
  "to_service (EdgeService svc) = Some svc"
| "to_service (EdgeTombstone x) = x"
| "to_service EdgeOther = None"

definition svc_key :: "edge_service \<Rightarrow> string" where
  "svc_key svc = es_ns svc @ ''/'' @ es_name svc"

definition owner_prefix :: "edge_service \<Rightarrow> string" where
  "owner_prefix svc = es_name svc @ ''.'' @ es_ns svc @ ''.svc:''"

definition backend_of :: "edge_service \<Rightarrow> int \<Rightarrow> string" where
  "backend_of svc port = es_name svc @ ''.'' @ es_ns svc @ ''.svc:'' @ itoa port"

section \<open>The router\<close>

type_synonym table = "(string \<times> string) list"

record router =
  rt_backends :: "(string \<times> table) list"
  rt_owned :: "(string \<times> table) list"
  rt_port_by_label :: "(string \<times> string) list"

definition init_router :: "edge_listener list \<Rightarrow> router" where
  "init_router ls = fold (\<lambda>l r. r\<lparr>rt_backends := AList.update (li_label l) [] (rt_backends r),
       rt_port_by_label := AList.update (li_label l) (target_port_name l) (rt_port_by_label r)\<rparr>) ls
     \<lparr>rt_backends = [], rt_owned = [], rt_port_by_label = []\<rparr>"

text \<open>One label of the registration loop of \<open>upsert\<close>.\<close>

definition register ::
  "edge_service \<Rightarrow> string \<Rightarrow> (string \<times> string) list \<Rightarrow> string \<times> table
     \<Rightarrow> (string \<times> table) list \<times> table \<Rightarrow> (string \<times> table) list \<times> table" where
  "register svc hostname ports lt acc =
     (case lt of (label, table) \<Rightarrow> (case acc of (backends, next) \<Rightarrow>
       if str_at (es_labels svc) label \<noteq> ''true'' then (backends, next)
       else let port = service_port (es_ports svc) (str_at (map_of ports) label) in
         if port = 0 then (backends, next)
         else let backend = backend_of svc port; next = AList.update label hostname next in
           if map_of table hostname \<noteq> Some backend
           then (AList.update label (AList.update hostname backend table) backends, next)
           else (backends, next)))"

text \<open>One entry of the loops that drop what a Service no longer owns.\<close>

definition drop_entry :: "string \<Rightarrow> string \<times> string \<Rightarrow> (string \<times> table) list \<Rightarrow> (string \<times> table) list" where
  "drop_entry pre lh backends =
     (case map_of backends (fst lh) of
        None \<Rightarrow> backends
      | Some table \<Rightarrow> (case map_of table (snd lh) of
            None \<Rightarrow> backends
          | Some cur \<Rightarrow>
              if has_prefix cur pre then AList.update (fst lh) (AList.delete (snd lh) table) backends
              else backends))"

definition prior_entries :: "router \<Rightarrow> string \<Rightarrow> table" where
  "prior_entries r key = (case map_of (rt_owned r) key of None \<Rightarrow> [] | Some t \<Rightarrow> t)"

definition upsert :: "nat list \<Rightarrow> nat list \<Rightarrow> edge_obj \<Rightarrow> router \<Rightarrow> router" where
  "upsert ns ms obj r =
     (case to_service obj of
        None \<Rightarrow> r
      | Some svc \<Rightarrow>
          let key = svc_key svc;
              hostname = str_at (es_annotations svc) annotation_hostname;
              prior = prior_entries r key;
              (backends, next) =
                (if hostname \<noteq> '''' then fold (register svc hostname (rt_port_by_label r))
                    (pick_order ns (rt_backends r)) (rt_backends r, [])
                 else (rt_backends r, []));
              backends = fold (\<lambda>lh b. if str_at (map_of next) (fst lh) = snd lh then b
                                else drop_entry (owner_prefix svc) lh b) (pick_order ms prior) backends
          in r\<lparr>rt_backends := backends,
               rt_owned := (if next = [] then AList.delete key (rt_owned r)
                            else AList.update key next (rt_owned r))\<rparr>)"

definition delete_svc :: "nat list \<Rightarrow> edge_obj \<Rightarrow> router \<Rightarrow> router" where
  "delete_svc ns obj r =
     (case to_service obj of
        None \<Rightarrow> r
      | Some svc \<Rightarrow> (case map_of (rt_owned r) (svc_key svc) of
            None \<Rightarrow> r
          | Some prior \<Rightarrow>
              r\<lparr>rt_backends := fold (drop_entry (owner_prefix svc)) (pick_order ns prior) (rt_backends r),
                rt_owned := AList.delete (svc_key svc) (rt_owned r)\<rparr>))"

definition backend :: "router \<Rightarrow> string \<Rightarrow> string \<Rightarrow> string option" where
  "backend r label hostname =
     (case map_of (rt_backends r) label of None \<Rightarrow> None | Some table \<Rightarrow> map_of table hostname)"

definition route_count :: "router \<Rightarrow> nat" where
  "route_count r = sum_list (map (\<lambda>(_, t). length t) (rt_backends r))"

text \<open>
  The informer's callbacks, and \<open>NewRouter\<close>: the events delivered until the cache has
  synced are applied before it returns.
\<close>

datatype edge_event = Added edge_obj | Updated edge_obj | Deleted edge_obj

definition on_event :: "nat list \<times> nat list \<times> edge_event \<Rightarrow> router \<Rightarrow> router" where
  "on_event x r = (case x of (ns, ms, e) \<Rightarrow> (case e of
       Added obj \<Rightarrow> upsert ns ms obj r
     | Updated obj \<Rightarrow> upsert ns ms obj r
     | Deleted obj \<Rightarrow> delete_svc ns obj r))"

definition new_router ::
  "edge_listener list \<Rightarrow> (nat list \<times> nat list \<times> edge_event) list \<Rightarrow> bool \<Rightarrow> string + router" where
  "new_router ls evs synced =
     (if ls = [] then Inl ''at least one listener required''
      else let r = fold on_event evs (init_router ls) in
        if \<not> synced then Inl ''timed out waiting for service cache sync'' else Inr r)"

section \<open>Handling a connection\<close>

definition copy_measure :: "peek_conn \<Rightarrow> nat" where
  "copy_measure p = length (peek_bytes p) + length (cn_segments (pk_conn p))"

lemma peek_read_measure:
  assumes "0 < n" "peek_read n p = (Inr b, p')"
  shows "copy_measure p' < copy_measure p"
proof (cases "pk_pos p < length (pk_buf p)")
  case True
  with assms show ?thesis
    by (auto simp: peek_read_def Let_def copy_measure_def peek_bytes_def)
next
  case False
  with assms obtain seg segs where segs: "cn_segments (pk_conn p) = seg # segs"
    by (cases "cn_segments (pk_conn p)") (auto simp: peek_read_def conn_read_def)
  with False assms show ?thesis
    by (auto simp: peek_read_def conn_read_def copy_measure_def peek_bytes_def pending_bytes_def split: if_splits)
qed

text \<open>
  \<^verbatim>\<open>io.Copy\<close>: read into a buffer of 32 KiB and write, until a read or a write fails. \<open>room\<close> is
  how many bytes the destination takes before its writes fail, if they ever do.
\<close>

function io_copy :: "nat option \<Rightarrow> peek_conn \<Rightarrow> byte list" where
  "io_copy room p =
     (case peek_read 32768 p of
        (Inl _, _) \<Rightarrow> []
      | (Inr b, p') \<Rightarrow> (case room of
            None \<Rightarrow> b @ io_copy None p'
          | Some k \<Rightarrow> if length b \<le> k then b @ io_copy (Some (k - length b)) p' else take k b))"
  by pat_completeness auto
termination
  by (relation "measure (\<lambda>(room, p). copy_measure p)")
     (auto dest: sym intro: peek_read_measure [of 32768])

declare io_copy.simps [simp del]

text \<open>The upstream connection a dial yields, and what a handled connection does, in order.\<close>

record upstream =
  up_conn :: conn
  up_room :: "nat option"

datatype action =
    Dialled string
  | SentUpstream "byte list"
  | HalfClosedUpstream
  | SentClient "byte list"
  | HalfClosedClient
  | ClosedUpstream
  | ClosedClient

definition close_write :: "bool \<Rightarrow> action" where
  "close_write half = (if half then HalfClosedClient else ClosedClient)"

text \<open>
  \<open>Handle\<close>: \<open>dial\<close> is the network, \<open>half\<close> whether the client's connection can be
  half-closed, \<open>room\<close> what the client accepts. The two directions run independently; the
  list gives the one towards the backend first.
\<close>

definition handle ::
  "(string \<Rightarrow> upstream option) \<Rightarrow> bool \<Rightarrow> nat option \<Rightarrow> router \<Rightarrow> string \<Rightarrow> conn \<Rightarrow> action list outcome" where
  "handle dial half room r label c =
     (case read_sni c of
        Panic \<Rightarrow> Panic
      | Fail _ \<Rightarrow> Val [ClosedClient]
      | Val (sni, p) \<Rightarrow> (case backend r label sni of
            None \<Rightarrow> Val [ClosedClient]
          | Some b \<Rightarrow> (case dial b of
                None \<Rightarrow> Val [Dialled b, ClosedClient]
              | Some u \<Rightarrow> Val [Dialled b, SentUpstream (io_copy (up_room u) p), HalfClosedUpstream,
                  SentClient (io_copy room \<lparr>pk_conn = up_conn u, pk_buf = [], pk_pos = 0\<rparr>),
                  close_write half, ClosedUpstream, ClosedClient])))"

lemma io_copy_bytes: "io_copy room p = (case room of None \<Rightarrow> peek_bytes p | Some k \<Rightarrow> take k (peek_bytes p))"
proof (induction room p rule: io_copy.induct)
  case (1 room p)
  obtain r p' where r: "peek_read 32768 p = (r, p')" by fastforce
  show ?case
  proof (cases r)
    case (Inl e)
    with r peek_read_bytes [of p 32768] have "peek_bytes p = []" by simp
    with r Inl show ?thesis by (subst io_copy.simps) (simp split: option.splits)
  next
    case (Inr b)
    with r peek_read_bytes [of p 32768] have b: "peek_bytes p = b @ peek_bytes p'" by simp
    show ?thesis
      using 1 r Inr b by (subst io_copy.simps) (auto split: option.splits)
  qed
qed

section \<open>The router as an abstract table\<close>

text \<open>
  What a Service asks for under a configuration of labels and port names: per label at most
  one host and the backend that serves it. The router's state seen from outside: the route of
  a label and host, and the host a Service owns under a label.
\<close>

definition offer :: "(string \<times> string) list \<Rightarrow> edge_service \<Rightarrow> string \<Rightarrow> (string \<times> string) option" where
  "offer ports svc l =
     (let host = str_at (es_annotations svc) annotation_hostname;
          port = service_port (es_ports svc) (str_at (map_of ports) l)
      in if host \<noteq> '''' \<and> map_of ports l \<noteq> None \<and> str_at (es_labels svc) l = ''true'' \<and> port \<noteq> 0
         then Some (host, backend_of svc port) else None)"

definition owns :: "router \<Rightarrow> string \<Rightarrow> string \<Rightarrow> string option" where
  "owns r k l = map_of (prior_entries r k) l"

definition route :: "(string \<times> table) list \<Rightarrow> string \<Rightarrow> string \<Rightarrow> string option" where
  "route B l h = (case map_of B l of None \<Rightarrow> None | Some t \<Rightarrow> map_of t h)"

definition owned_table_ok :: "table \<Rightarrow> bool" where
  "owned_table_ok t \<longleftrightarrow> distinct (map fst t) \<and> list_all (\<lambda>lh. snd lh \<noteq> '''') t"

definition router_ok :: "(string \<times> string) list \<Rightarrow> router \<Rightarrow> bool" where
  "router_ok ports r \<longleftrightarrow> rt_port_by_label r = ports \<and> distinct (map fst ports) \<and>
     map fst (rt_backends r) = map fst ports \<and> (\<forall>k. owned_table_ok (prior_entries r k))"

lemma backend_route: "backend r l h = route (rt_backends r) l h"
  by (simp add: backend_def route_def)

lemma keys_update: "k \<in> fst ` set al \<Longrightarrow> map fst (AList.update k v al) = map fst al"
  by (induction al) auto

lemma map_of_in: "map_of m k = Some v \<Longrightarrow> k \<in> fst ` set m"
  by (force dest: map_of_SomeD)

lemma route_update: "route (AList.update l0 t B) l h = (if l = l0 then map_of t h else route B l h)"
  by (simp add: route_def update_conv')

lemma route_drop_entry:
  "route (drop_entry pre lh B) l h =
     (if (l, h) = lh \<and> (\<exists>c. route B l h = Some c \<and> has_prefix c pre) then None else route B l h)"
  by (cases lh) (auto simp: drop_entry_def route_update route_def delete_conv' split: option.splits)

lemma keys_drop_entry: "map fst (drop_entry pre lh B) = map fst B"
  by (auto simp: drop_entry_def keys_update map_of_in split: option.splits)

lemma drop_loop:
  "route (fold (\<lambda>lh b. if P lh then b else drop_entry pre lh b) xs B) l h =
     (if (l, h) \<in> set xs \<and> \<not> P (l, h) \<and> (\<exists>c. route B l h = Some c \<and> has_prefix c pre) then None
      else route B l h) \<and>
   map fst (fold (\<lambda>lh b. if P lh then b else drop_entry pre lh b) xs B) = map fst B"
  by (induction xs arbitrary: B) (auto simp: route_drop_entry keys_drop_entry)

lemma drop_all:
  "route (fold (drop_entry pre) xs B) l h =
     (if (l, h) \<in> set xs \<and> (\<exists>c. route B l h = Some c \<and> has_prefix c pre) then None else route B l h)"
  "map fst (fold (drop_entry pre) xs B) = map fst B"
  using drop_loop [of "\<lambda>_. False" pre xs B l h] by simp_all

text \<open>The registration loop, over entries of the map it started from.\<close>

definition wants :: "edge_service \<Rightarrow> (string \<times> string) list \<Rightarrow> string \<Rightarrow> string option" where
  "wants svc ports l =
     (let port = service_port (es_ports svc) (str_at (map_of ports) l)
      in if str_at (es_labels svc) l = ''true'' \<and> port \<noteq> 0 then Some (backend_of svc port) else None)"

lemma register_step:
  assumes "map_of B l0 = Some t" "register svc host ports (l0, t) (B, nx) = (B', nx')"
  shows "route B' l h = (case wants svc ports l0 of Some b \<Rightarrow> if l = l0 \<and> h = host then Some b else route B l h
        | None \<Rightarrow> route B l h)"
    and "map_of nx' l = (if l = l0 \<and> wants svc ports l0 \<noteq> None then Some host else map_of nx l)"
    and "map fst B' = map fst B" and "l \<noteq> l0 \<Longrightarrow> map_of B' l = map_of B l"
  using assms
  by (auto simp: register_def wants_def Let_def route_update update_conv' keys_update map_of_in route_def
      split: if_splits)

lemma owned_table_update: "owned_table_ok t \<Longrightarrow> h \<noteq> '''' \<Longrightarrow> owned_table_ok (AList.update l h t)"
proof -
  have "list_all P (AList.update l h t)" if "list_all P t" "P (l, h)" for P
    using that by (induction t) auto
  then show "owned_table_ok t \<Longrightarrow> h \<noteq> '''' \<Longrightarrow> owned_table_ok (AList.update l h t)"
    by (simp add: owned_table_ok_def distinct_update)
qed

lemma register_distinct:
  "register svc host ports lt (B, nx) = (B', nx') \<Longrightarrow> host \<noteq> '''' \<Longrightarrow> owned_table_ok nx \<Longrightarrow> owned_table_ok nx'"
  by (auto simp: register_def Let_def owned_table_update split: prod.splits if_splits)

lemma register_loop:
  assumes "\<forall>lt \<in> set lts. map_of B (fst lt) = Some (snd lt)" "distinct (map fst lts)"
    and "fold (register svc host ports) lts (B, nx) = (B', nx')" "host \<noteq> ''''" "owned_table_ok nx"
  shows "(\<forall>l h. route B' l h = (if l \<in> fst ` set lts \<and> h = host \<and> wants svc ports l \<noteq> None then wants svc ports l
        else route B l h)) \<and>
     (\<forall>l. map_of nx' l = (if l \<in> fst ` set lts \<and> wants svc ports l \<noteq> None then Some host else map_of nx l)) \<and>
     map fst B' = map fst B \<and> owned_table_ok nx'"
  using assms
proof (induction lts arbitrary: B nx)
  case (Cons lt lts)
  obtain l0 t where lt: "lt = (l0, t)" by (cases lt)
  obtain B1 n1 where s: "register svc host ports (l0, t) (B, nx) = (B1, n1)" by fastforce
  from Cons.prems lt have l0: "map_of B l0 = Some t" "l0 \<notin> fst ` set lts" by auto
  note step = register_step [OF l0(1) s]
  have "\<forall>lt \<in> set lts. map_of B1 (fst lt) = Some (snd lt)"
  proof
    fix y assume y: "y \<in> set lts"
    with l0(2) have "fst y \<noteq> l0" by auto
    with step(4) [of "fst y"] Cons.prems(1) y show "map_of B1 (fst y) = Some (snd y)" by simp
  qed
  with Cons.IH [of B1 n1] Cons.prems lt s register_distinct [OF s]
  have ih: "(\<forall>l h. route B' l h = (if l \<in> fst ` set lts \<and> h = host \<and> wants svc ports l \<noteq> None then wants svc ports l
        else route B1 l h)) \<and>
     (\<forall>l. map_of nx' l = (if l \<in> fst ` set lts \<and> wants svc ports l \<noteq> None then Some host else map_of n1 l)) \<and>
     map fst B' = map fst B1 \<and> owned_table_ok nx'" by simp
  then show ?case
    using step lt by (auto split: option.splits)
qed auto

text \<open>The operations, seen from outside.\<close>

definition mine :: "edge_service \<Rightarrow> string \<Rightarrow> bool" where
  "mine svc b = has_prefix b (owner_prefix svc)"

definition cleared :: "('s \<Rightarrow> 'b \<Rightarrow> bool) \<Rightarrow> 's \<Rightarrow> 'h option \<Rightarrow> 'h \<Rightarrow> 'b option \<Rightarrow> 'b option" where
  "cleared is_mine s own h cur = (if own = Some h \<and> (case cur of None \<Rightarrow> False | Some b \<Rightarrow> is_mine s b) then None else cur)"

definition offered :: "('h \<times> 'b) option \<Rightarrow> 'h \<Rightarrow> 'b option \<Rightarrow> 'b option" where
  "offered off h rest = (case off of Some (h', b) \<Rightarrow> if h = h' then Some b else rest | None \<Rightarrow> rest)"

definition released :: "router \<Rightarrow> edge_service \<Rightarrow> string \<Rightarrow> string \<Rightarrow> string option" where
  "released r svc l h = cleared mine svc (owns r (svc_key svc) l) h (backend r l h)"

lemma released_iff:
  "released r svc l h =
     (if owns r (svc_key svc) l = Some h \<and> (\<exists>b. backend r l h = Some b \<and> mine svc b) then None else backend r l h)"
  by (auto simp: released_def cleared_def split: option.splits)

lemma prior_update:
  "prior_entries (r\<lparr>rt_backends := B, rt_owned := AList.update k t (rt_owned r)\<rparr>) k' =
     (if k' = k then t else prior_entries r k')"
  "prior_entries (r\<lparr>rt_backends := B, rt_owned := AList.delete k (rt_owned r)\<rparr>) k' =
     (if k' = k then [] else prior_entries r k')"
  by (simp_all add: prior_entries_def update_conv' delete_conv')

lemma owned_table_ok_Nil [simp]: "owned_table_ok []"
  by (simp add: owned_table_ok_def)

lemma owns_in:
  "router_ok ports r \<Longrightarrow> mset xs = mset (prior_entries r k) \<Longrightarrow> (l, h) \<in> set xs \<longleftrightarrow> owns r k l = Some h"
  by (auto simp: owns_def router_ok_def owned_table_ok_def dest: mset_eq_setD)

lemma map_of_self: "distinct (map fst m) \<Longrightarrow> \<forall>lt \<in> set m. map_of m (fst lt) = Some (snd lt)"
  by auto

text \<open>The first loop of \<open>upsert\<close> over all listeners, when the Service names a host.\<close>

lemma register_all:
  assumes ok: "router_ok ports r" and host: "host = str_at (es_annotations svc) annotation_hostname"
    and reg: "(if host \<noteq> '''' then fold (register svc host ports) (pick_order ns (rt_backends r)) (rt_backends r, [])
        else (rt_backends r, [])) = (B, n)"
  shows "route B l h = offered (offer ports svc l) h (route (rt_backends r) l h)"
    and "map_of n l = map_option fst (offer ports svc l)" and "map fst B = map fst (rt_backends r)" and "owned_table_ok n"
proof -
  let ?B = "rt_backends r" and ?order = "pick_order ns (rt_backends r)"
  from ok have okD: "distinct (map fst ports)" "map fst ?B = map fst ports" by (simp_all add: router_ok_def)
  have labels: "l \<in> fst ` set ?order \<longleftrightarrow> map_of ports l \<noteq> None" for l
    using okD(2) by (simp add: map_of_eq_None_iff) (metis list.set_map mset_pick_order set_mset_mset)
  have off: "offer ports svc l = (if host \<noteq> '''' \<and> map_of ports l \<noteq> None then
       map_option (Pair host) (wants svc ports l) else None)" for l
    by (simp add: offer_def wants_def Let_def host)
  have "route B l h = offered (offer ports svc l) h (route ?B l h) \<and> map_of n l = map_option fst (offer ports svc l) \<and>
      map fst B = map fst ?B \<and> owned_table_ok n"
  proof (cases "host = ''''")
    case True
    with reg show ?thesis by (simp add: off offered_def)
  next
    case False
    have d: "distinct (map fst ?B)" using okD by simp
    have "distinct (map fst ?order)" by (metis d mset_eq_imp_distinct_iff mset_map mset_pick_order)
    moreover have "\<forall>lt \<in> set ?order. map_of ?B (fst lt) = Some (snd lt)"
      using map_of_self [OF d] by (metis mset_pick_order set_mset_mset)
    ultimately have "(\<forall>l h. route B l h = (if l \<in> fst ` set ?order \<and> h = host \<and> wants svc ports l \<noteq> None
          then wants svc ports l else route ?B l h)) \<and>
       (\<forall>l. map_of n l = (if l \<in> fst ` set ?order \<and> wants svc ports l \<noteq> None then Some host else map_of [] l)) \<and>
       map fst B = map fst ?B \<and> owned_table_ok n"
      using reg False by (intro register_loop) simp_all
    with False show ?thesis
      unfolding labels off offered_def by (auto split: option.splits)
  qed
  then show "route B l h = offered (offer ports svc l) h (route ?B l h)" "map_of n l = map_option fst (offer ports svc l)"
    "map fst B = map fst ?B" "owned_table_ok n" by simp_all
qed

lemma upsert_laws:
  assumes ok: "router_ok ports r" and svc: "to_service obj = Some svc"
  shows "router_ok ports (upsert ns ms obj r) \<and>
    (\<forall>l h. backend (upsert ns ms obj r) l h = offered (offer ports svc l) h (released r svc l h)) \<and>
    (\<forall>k l. owns (upsert ns ms obj r) k l =
       (if k = svc_key svc then map_option fst (offer ports svc l) else owns r k l))"
proof -
  let ?k = "svc_key svc" and ?host = "str_at (es_annotations svc) annotation_hostname"
  let ?B = "rt_backends r" and ?order = "pick_order ns (rt_backends r)" and ?prior = "pick_order ms (prior_entries r ?k)"
  obtain B1 n1 where reg: "(if ?host \<noteq> '''' then fold (register svc ?host ports) ?order (?B, []) else (?B, [])) = (B1, n1)"
    by fastforce
  let ?B2 = "fold (\<lambda>lh b. if str_at (map_of n1) (fst lh) = snd lh then b else drop_entry (owner_prefix svc) lh b) ?prior B1"
  from ok have okD: "rt_port_by_label r = ports" "distinct (map fst ports)" "map fst ?B = map fst ports"
    "\<And>k. owned_table_ok (prior_entries r k)" by (simp_all add: router_ok_def)
  note regs = register_all [OF ok refl reg]
  have up: "upsert ns ms obj r = r\<lparr>rt_backends := ?B2, rt_owned :=
        (if n1 = [] then AList.delete ?k (rt_owned r) else AList.update ?k n1 (rt_owned r))\<rparr>"
    unfolding upsert_def svc option.case Let_def okD(1) reg prod.case ..
  have prior: "prior_entries (upsert ns ms obj r) k = (if k = ?k then n1 else prior_entries r k)" for k
    unfolding up by (cases "n1 = []") (simp_all add: prior_update)
  have in_prior: "(l, h) \<in> set (prior_entries r ?k) \<longleftrightarrow> owns r ?k l = Some h" for l h
    by (rule owns_in [OF ok]) simp
  have nonempty: "owns r ?k l = Some h \<Longrightarrow> h \<noteq> ''''" for l h
    using okD(4) [of ?k] by (auto simp: owns_def owned_table_ok_def list_all_iff dest: map_of_SomeD)
  have drops: "route ?B2 l h = (if owns r ?k l = Some h \<and> map_of n1 l \<noteq> Some h \<and>
        (\<exists>c. route B1 l h = Some c \<and> mine svc c) then None else route B1 l h)"
      "map fst ?B2 = map fst B1" for l h
    using drop_loop [of "\<lambda>lh. str_at (map_of n1) (fst lh) = snd lh" "owner_prefix svc" ?prior B1 l h] nonempty [of l h]
    by (auto simp: in_prior mine_def str_at_def split: option.splits)
  have "backend (upsert ns ms obj r) l h = offered (offer ports svc l) h (released r svc l h)" for l h
    using drops(1) [of l h] regs(1) [of l h] regs(2) [of l]
    by (auto simp: up backend_route released_iff offered_def split: option.splits prod.splits)
  moreover have "router_ok ports (upsert ns ms obj r)"
    unfolding router_ok_def prior using okD drops(2) regs by (simp add: up)
  moreover have "owns (upsert ns ms obj r) k l = (if k = ?k then map_option fst (offer ports svc l) else owns r k l)" for k l
    using regs by (simp add: owns_def prior)
  ultimately show ?thesis by blast
qed

lemma delete_laws:
  assumes ok: "router_ok ports r" and svc: "to_service obj = Some svc"
  shows "router_ok ports (delete_svc ns obj r) \<and>
    (\<forall>l h. backend (delete_svc ns obj r) l h = released r svc l h) \<and>
    (\<forall>k l. owns (delete_svc ns obj r) k l = (if k = svc_key svc then None else owns r k l))"
proof (cases "map_of (rt_owned r) (svc_key svc)")
  case None
  then have "owns r (svc_key svc) l = None" for l by (simp add: owns_def prior_entries_def)
  with None ok svc show ?thesis by (auto simp: delete_svc_def released_iff)
next
  case (Some prior)
  let ?xs = "pick_order ns prior" and ?d = "delete_svc ns obj r"
  let ?B = "fold (drop_entry (owner_prefix svc)) ?xs (rt_backends r)"
  have d: "?d = r\<lparr>rt_backends := ?B, rt_owned := AList.delete (svc_key svc) (rt_owned r)\<rparr>"
    by (simp add: delete_svc_def svc Some)
  have inx: "(l, h) \<in> set prior \<longleftrightarrow> map_of (prior_entries r (svc_key svc)) l = Some h" for l h
    using owns_in [OF ok, of prior "svc_key svc"] by (simp add: prior_entries_def Some owns_def)
  have "prior_entries ?d k = (if k = svc_key svc then [] else prior_entries r k)" for k
    unfolding d by (simp add: prior_update)
  then show ?thesis
    using ok unfolding released_iff backend_route
    by (auto simp: d router_ok_def drop_all inx mine_def owns_def)
qed

text \<open>A fresh router has the configured labels and no route.\<close>

definition label_ports :: "edge_listener list \<Rightarrow> (string \<times> string) list" where
  "label_ports ls = fold (\<lambda>l. AList.update (li_label l) (target_port_name l)) ls []"

lemma map_fst_update: "map fst xs = map fst ys \<Longrightarrow> map fst (AList.update k v xs) = map fst (AList.update k w ys)"
  by (induction xs arbitrary: ys) (auto simp: Cons_eq_map_conv)

lemma init_router_ok: "router_ok (label_ports ls) (init_router ls) \<and> backend (init_router ls) l h = None \<and> owns (init_router ls) k l = None"
proof -
  define P where "P r m \<longleftrightarrow> rt_port_by_label r = m \<and> distinct (map fst m) \<and> map fst (rt_backends r) = map fst m \<and>
     rt_owned r = [] \<and> list_all (\<lambda>lt. snd lt = []) (rt_backends r)" for r :: router and m
  have empty: "list_all (\<lambda>lt. snd lt = []) (AList.update k [] m)" if "list_all (\<lambda>lt. snd lt = []) m" for k and m :: "(string \<times> table) list"
    using that by (induction m) auto
  have step: "P r m \<Longrightarrow> P (fold (\<lambda>l r. r\<lparr>rt_backends := AList.update (li_label l) [] (rt_backends r),
       rt_port_by_label := AList.update (li_label l) (target_port_name l) (rt_port_by_label r)\<rparr>) ls r)
     (fold (\<lambda>l. AList.update (li_label l) (target_port_name l)) ls m)" for r m
  proof (induction ls arbitrary: r m)
    case (Cons x ls)
    from Cons.prems show ?case
      unfolding fold_Cons_rev comp_def fold_simps
      by (intro Cons.IH) (auto simp: P_def distinct_update intro: map_fst_update empty)
  qed simp
  have p: "P (init_router ls) (label_ports ls)"
    unfolding init_router_def label_ports_def by (rule step) (simp add: P_def)
  then have "(l, t) \<in> set (rt_backends (init_router ls)) \<Longrightarrow> t = []" for t
    by (force simp: P_def list_all_iff)
  then have "map_of (rt_backends (init_router ls)) l = Some t \<Longrightarrow> map_of t h = None" for t
    by (metis map_of.simps(1) map_of_SomeD)
  with p show ?thesis
    by (auto simp: P_def router_ok_def backend_def owns_def prior_entries_def split: option.splits)
qed

section \<open>Routes follow the live Services\<close>

text \<open>
  The interface the proxy relies on: a table of routes that owners put offers into and are
  removed from. \<open>offer\<close> is what an owner asks for, \<open>mine\<close> tells its backends from the
  others', and \<open>put\<close> and \<open>del\<close> clear only what their owner still holds.
\<close>

datatype 's route_op = Put 's | Del 's

fun op_owner :: "'s route_op \<Rightarrow> 's" where
  "op_owner (Put s) = s"
| "op_owner (Del s) = s"

locale route_table =
  fixes ok :: "'r \<Rightarrow> bool" and wf :: "'s \<Rightarrow> bool" and key :: "'s \<Rightarrow> 'k"
    and offer :: "'s \<Rightarrow> 'l \<Rightarrow> ('h \<times> 'b) option" and mine :: "'s \<Rightarrow> 'b \<Rightarrow> bool"
    and put :: "'x \<Rightarrow> 's \<Rightarrow> 'r \<Rightarrow> 'r" and del :: "'x \<Rightarrow> 's \<Rightarrow> 'r \<Rightarrow> 'r"
    and routes :: "'r \<Rightarrow> 'l \<Rightarrow> 'h \<Rightarrow> 'b option" and owned :: "'r \<Rightarrow> 'k \<Rightarrow> 'l \<Rightarrow> 'h option"
  assumes put_ok: "ok r \<Longrightarrow> ok (put x s r)"
    and put_routes: "ok r \<Longrightarrow>
      routes (put x s r) l h = offered (offer s l) h (cleared mine s (owned r (key s) l) h (routes r l h))"
    and put_owned: "ok r \<Longrightarrow> owned (put x s r) k l = (if k = key s then map_option fst (offer s l) else owned r k l)"
    and del_ok: "ok r \<Longrightarrow> ok (del x s r)"
    and del_routes: "ok r \<Longrightarrow> routes (del x s r) l h = cleared mine s (owned r (key s) l) h (routes r l h)"
    and del_owned: "ok r \<Longrightarrow> owned (del x s r) k l = (if k = key s then None else owned r k l)"
    and mine_key: "wf s \<Longrightarrow> wf t \<Longrightarrow> offer s l = Some (h, b) \<Longrightarrow> mine t b \<longleftrightarrow> key t = key s"
begin

definition apply_op :: "'x \<times> 's route_op \<Rightarrow> 'r \<Rightarrow> 'r" where
  "apply_op xo r = (case snd xo of Put s \<Rightarrow> put (fst xo) s r | Del s \<Rightarrow> del (fst xo) s r)"

definition live_op :: "'x \<times> 's route_op \<Rightarrow> ('k \<Rightarrow> 's option) \<Rightarrow> 'k \<Rightarrow> 's option" where
  "live_op xo live = (case snd xo of Put s \<Rightarrow> live(key s := Some s) | Del s \<Rightarrow> live(key s := None))"

definition tracks :: "'r \<Rightarrow> ('k \<Rightarrow> 's option) \<Rightarrow> bool" where
  "tracks r live \<longleftrightarrow> ok r \<and> (\<forall>k s. live k = Some s \<longrightarrow> wf s \<and> key s = k) \<and>
     (\<forall>k l. owned r k l = (case live k of None \<Rightarrow> None | Some s \<Rightarrow> map_option fst (offer s l))) \<and>
     (\<forall>l h b. routes r l h = Some b \<longrightarrow> (\<exists>k s. live k = Some s \<and> offer s l = Some (h, b)))"

lemma tracksD:
  assumes "tracks r live"
  shows "ok r" "live k = Some s \<Longrightarrow> wf s" "live k = Some s \<Longrightarrow> key s = k"
    and "owned r k l = (case live k of None \<Rightarrow> None | Some s \<Rightarrow> map_option fst (offer s l))"
    and "routes r l h = Some b \<Longrightarrow> \<exists>k s. live k = Some s \<and> offer s l = Some (h, b)"
  using assms by (auto simp: tracks_def)

text \<open>What is left after its owner's routes are cleared belongs to the other owners.\<close>

lemma cleared_live:
  assumes t: "tracks r live" and s: "wf s"
    and c: "cleared mine s (owned r (key s) l) h (routes r l h) = Some b"
  shows "\<exists>k u. live k = Some u \<and> k \<noteq> key s \<and> offer u l = Some (h, b)"
proof -
  from c have r: "routes r l h = Some b" "owned r (key s) l = Some h \<longrightarrow> \<not> mine s b"
    by (auto simp: cleared_def split: if_splits option.splits)
  from tracksD(5) [OF t r(1)] obtain k u where u: "live k = Some u" "offer u l = Some (h, b)" by blast
  with tracksD(2, 3) [OF t u(1)] mine_key [of u s l h b] s have k: "mine s b \<longleftrightarrow> key s = k" by simp
  have "k \<noteq> key s"
  proof
    assume e: "k = key s"
    with tracksD(4) [OF t, of "key s" l] u have "owned r (key s) l = Some h" by simp
    with r(2) k e show False by simp
  qed
  with u show ?thesis by blast
qed

lemma tracks_op:
  assumes t: "tracks r live" and s: "wf (op_owner (snd xo))"
  shows "tracks (apply_op xo r) (live_op xo live)"
proof (cases "snd xo")
  case (Put s)
  have "\<exists>k u. (live(key s := Some s)) k = Some u \<and> offer u l = Some (h, b)"
    if "routes (put (fst xo) s r) l h = Some b" for l h b
  proof (cases "offer s l = Some (h, b)")
    case False
    with that put_routes [OF tracksD(1) [OF t]]
    have "cleared mine s (owned r (key s) l) h (routes r l h) = Some b"
      by (auto simp: offered_def split: option.splits prod.splits if_splits)
    from cleared_live [OF t _ this] assms(2) Put show ?thesis by auto
  qed auto
  with Put t s show ?thesis
    by (auto simp: tracks_def apply_op_def live_op_def put_ok put_owned)
next
  case (Del s)
  have "\<exists>k u. (live(key s := None)) k = Some u \<and> offer u l = Some (h, b)"
    if "routes (del (fst xo) s r) l h = Some b" for l h b
    using cleared_live [OF t, of s l h b] that Del assms(2) del_routes [OF tracksD(1) [OF t]] by auto
  with Del t s show ?thesis
    by (auto simp: tracks_def apply_op_def live_op_def del_ok del_owned)
qed

lemma tracks_ops:
  "tracks r live \<Longrightarrow> list_all (\<lambda>xo. wf (op_owner (snd xo))) xos \<Longrightarrow>
     tracks (fold apply_op xos r) (fold live_op xos live)"
  by (induction xos arbitrary: r live) (simp_all add: tracks_op)

text \<open>An owner that is put again restores its own offers and takes nobody's route away.\<close>

lemma put_again:
  assumes t: "tracks r live" and s: "live (key s) = Some s"
  shows "tracks (put x s r) live"
    and "routes r l h \<noteq> None \<Longrightarrow> routes (put x s r) l h \<noteq> None"
    and "offer s l = Some (h, b) \<Longrightarrow> routes (put x s r) l h = Some b"
proof -
  from tracks_op [OF t, of "(x, Put s)"] tracksD(2) [OF t s] s show "tracks (put x s r) live"
    by (simp add: apply_op_def live_op_def fun_upd_idem)
  note p = put_routes [OF tracksD(1) [OF t], of x s l h]
  have "owned r (key s) l = map_option fst (offer s l)" using tracksD(4) [OF t] s by simp
  then show "routes r l h \<noteq> None \<Longrightarrow> routes (put x s r) l h \<noteq> None"
    unfolding p by (auto simp: offered_def cleared_def split: option.splits prod.splits if_splits)
  show "offer s l = Some (h, b) \<Longrightarrow> routes (put x s r) l h = Some b"
    unfolding p by (simp add: offered_def)
qed

text \<open>
  Of two owners that offer the same route, the one that holds it takes it along when it goes; the
  other one has it when it is put again.
\<close>

lemma shadowed:
  assumes t: "tracks r live" and s: "live (key s) = Some s" "offer s l = Some (h, a)"
    and u: "live (key u) = Some u" "offer u l = Some (h, b)" "routes r l h = Some b"
  shows "routes (del x u r) l h = None" and "routes (put y s (del x u r)) l h = Some a"
proof -
  note ok = tracksD(1) [OF t]
  have "owned r (key u) l = Some h" using tracksD(4) [OF t, of "key u" l] u by simp
  moreover have "mine u b" using mine_key [of u u l h b] tracksD(2) [OF t u(1)] u(2) by simp
  ultimately show "routes (del x u r) l h = None" using u(3) by (simp add: del_routes [OF ok] cleared_def)
  show "routes (put y s (del x u r)) l h = Some a"
    using s(2) by (simp add: put_routes [OF del_ok [OF ok]] offered_def)
qed

lemma resync:
  assumes "tracks r live" "\<forall>xs \<in> set xss. live (key (snd xs)) = Some (snd xs)"
    and "routes r l h \<noteq> None \<or> (\<exists>xs \<in> set xss. \<exists>b. offer (snd xs) l = Some (h, b))"
  shows "routes (fold (\<lambda>xs. put (fst xs) (snd xs)) xss r) l h \<noteq> None"
  using assms
proof (induction xss arbitrary: r)
  case (Cons xs xss)
  then have s: "live (key (snd xs)) = Some (snd xs)" by simp
  note again = put_again [where x = "fst xs", OF Cons.prems(1) s]
  have "routes (put (fst xs) (snd xs) r) l h \<noteq> None \<or> (\<exists>xs \<in> set xss. \<exists>b. offer (snd xs) l = Some (h, b))"
    using Cons.prems(3) again(2, 3) by (metis option.distinct(1) set_ConsD)
  with Cons.IH [OF again(1)] Cons.prems(2) show ?case by simp
qed simp

end

text \<open>
  The router provides the interface: names of Services and namespaces hold no dot and no
  slash (Kubernetes requires DNS labels of both), so a backend tells its owner.
\<close>

definition names_ok :: "edge_service \<Rightarrow> bool" where
  "names_ok svc \<longleftrightarrow> CHR ''.'' \<notin> set (es_name svc) \<and> CHR ''.'' \<notin> set (es_ns svc) \<and> CHR ''/'' \<notin> set (es_ns svc)"

definition put_svc :: "nat list \<times> nat list \<Rightarrow> edge_service \<Rightarrow> router \<Rightarrow> router" where
  "put_svc x svc = upsert (fst x) (snd x) (EdgeService svc)"

definition del_svc :: "nat list \<times> nat list \<Rightarrow> edge_service \<Rightarrow> router \<Rightarrow> router" where
  "del_svc x svc = delete_svc (fst x) (EdgeService svc)"

lemma svc_key_inj: "names_ok s \<Longrightarrow> names_ok t \<Longrightarrow> svc_key s = svc_key t \<longleftrightarrow> es_ns s = es_ns t \<and> es_name s = es_name t"
  by (auto simp: svc_key_def names_ok_def dest!: sep_append_eq [rotated 2])

lemma mine_backend:
  assumes "names_ok s" "names_ok t"
  shows "mine t (backend_of s port) \<longleftrightarrow> es_ns t = es_ns s \<and> es_name t = es_name s"
proof
  assume "mine t (backend_of s port)"
  then have p: "prefix (es_name t @ CHR ''.'' # es_ns t @ CHR ''.'' # ''svc:'')
      (es_name s @ CHR ''.'' # es_ns s @ CHR ''.'' # ''svc:'' @ itoa port)"
    by (simp add: mine_def has_prefix_def owner_prefix_def backend_of_def)
  from assms sep_prefix [OF _ _ p] have n: "es_name t = es_name s"
    and q: "prefix (es_ns t @ CHR ''.'' # ''svc:'') (es_ns s @ CHR ''.'' # ''svc:'' @ itoa port)"
    by (simp_all add: names_ok_def)
  from assms n sep_prefix [OF _ _ q] show "es_ns t = es_ns s \<and> es_name t = es_name s"
    by (simp add: names_ok_def)
next
  assume "es_ns t = es_ns s \<and> es_name t = es_name s"
  then show "mine t (backend_of s port)"
    by (simp add: mine_def has_prefix_def owner_prefix_def backend_of_def)
qed

interpretation sni: route_table "router_ok ports" names_ok svc_key "offer ports" mine put_svc del_svc backend owns
  for ports :: "(string \<times> string) list"
proof
  fix s t l h b
  assume "names_ok s" "names_ok t" "offer ports s l = Some (h, b)"
  then show "mine t b \<longleftrightarrow> svc_key t = svc_key s"
    by (auto simp: offer_def Let_def mine_backend svc_key_inj split: if_splits)
qed (simp_all add: put_svc_def del_svc_def upsert_laws [of _ _ "EdgeService s" s for s]
      delete_laws [of _ _ "EdgeService s" s for s] released_def)

text \<open>The informer's events as operations of the interface.\<close>

fun event_op :: "edge_event \<Rightarrow> edge_service route_op option" where
  "event_op (Added obj) = map_option Put (to_service obj)"
| "event_op (Updated obj) = map_option Put (to_service obj)"
| "event_op (Deleted obj) = map_option Del (to_service obj)"

fun event_svc :: "edge_event \<Rightarrow> edge_service option" where
  "event_svc (Added obj) = to_service obj"
| "event_svc (Updated obj) = to_service obj"
| "event_svc (Deleted obj) = to_service obj"

text \<open>The Services the events leave, by key.\<close>

definition live_step :: "nat list \<times> nat list \<times> edge_event \<Rightarrow> (string \<Rightarrow> edge_service option) \<Rightarrow> string \<Rightarrow> edge_service option" where
  "live_step x live = (case event_op (snd (snd x)) of
       None \<Rightarrow> live
     | Some (Put s) \<Rightarrow> live(svc_key s := Some s)
     | Some (Del s) \<Rightarrow> live(svc_key s := None))"

definition live_services :: "(nat list \<times> nat list \<times> edge_event) list \<Rightarrow> string \<Rightarrow> edge_service option" where
  "live_services evs = fold live_step evs (\<lambda>_. None)"

definition events_ok :: "(nat list \<times> nat list \<times> edge_event) list \<Rightarrow> bool" where
  "events_ok evs = list_all (\<lambda>x. case event_svc (snd (snd x)) of None \<Rightarrow> True | Some s \<Rightarrow> names_ok s) evs"

lemma tracks_event:
  assumes "sni.tracks ports r live" "case event_svc (snd (snd x)) of None \<Rightarrow> True | Some s \<Rightarrow> names_ok s"
  shows "sni.tracks ports (on_event x r) (live_step x live)"
proof (cases "event_op (snd (snd x))")
  case None
  with assms(1) show ?thesis
    by (cases x; cases "snd (snd x)") (auto simp: on_event_def live_step_def upsert_def delete_svc_def)
next
  case (Some op)
  let ?xo = "((fst x, fst (snd x)), op)"
  have "on_event x r = sni.apply_op ?xo r"
    using Some by (cases x; cases "snd (snd x)")
      (auto simp: on_event_def sni.apply_op_def put_svc_def del_svc_def upsert_def delete_svc_def)
  moreover have "live_step x live = sni.live_op ?xo live"
    using Some by (simp add: live_step_def sni.live_op_def)
  moreover have "names_ok (op_owner op)"
    using Some assms(2) by (cases "snd (snd x)") auto
  ultimately show ?thesis
    using sni.tracks_op [OF assms(1), of ?xo] by simp
qed

lemma tracks_events:
  "sni.tracks ports r live \<Longrightarrow> events_ok evs \<Longrightarrow>
     sni.tracks ports (fold on_event evs r) (fold live_step evs live)"
  by (induction evs arbitrary: r live) (simp_all add: events_ok_def tracks_event)

lemma tracks_init: "sni.tracks (label_ports ls) (init_router ls) (\<lambda>_. None)"
  by (simp add: sni.tracks_def init_router_ok)

lemma router_tracks:
  "events_ok evs \<Longrightarrow> sni.tracks (label_ports ls) (fold on_event evs (init_router ls)) (live_services evs)"
  unfolding live_services_def by (rule tracks_events [OF tracks_init])

section \<open>What a handled connection does\<close>

definition accepted :: "nat option \<Rightarrow> byte list \<Rightarrow> byte list" where
  "accepted room bs = (case room of None \<Rightarrow> bs | Some k \<Rightarrow> take k bs)"

definition proxied ::
  "(string \<Rightarrow> upstream option) \<Rightarrow> bool \<Rightarrow> nat option \<Rightarrow> (string \<Rightarrow> string option) \<Rightarrow> string outcome \<Rightarrow> byte list \<Rightarrow> action list" where
  "proxied dial half room table sni bs =
     (case sni of
        Val host \<Rightarrow> (case table host of
            None \<Rightarrow> [ClosedClient]
          | Some b \<Rightarrow> (case dial b of
                None \<Rightarrow> [Dialled b, ClosedClient]
              | Some u \<Rightarrow> [Dialled b, SentUpstream (accepted (up_room u) bs), HalfClosedUpstream,
                  SentClient (accepted room (pending_bytes (up_conn u))), close_write half,
                  ClosedUpstream, ClosedClient]))
      | _ \<Rightarrow> [ClosedClient])"

lemma handle_proxied:
  "handle dial half room r label c =
     Val (proxied dial half room (backend r label) (stream_sni (pending_bytes c) (cn_error c)) (pending_bytes c))"
proof (cases "read_sni c")
  case (Val x)
  obtain host p where x: "x = (host, p)" by (cases x)
  from Val x read_sni_stream [of c] have "stream_sni (pending_bytes c) (cn_error c) = Val host" by simp
  moreover have "peek_bytes p = pending_bytes c" by (rule read_sni_replays) (simp add: Val x)
  ultimately show ?thesis
    by (simp add: handle_def proxied_def Val x io_copy_bytes accepted_def peek_bytes_def split: option.splits)
next
  case (Fail e)
  with read_sni_stream [of c] have "stream_sni (pending_bytes c) (cn_error c) = Fail e" by simp
  with Fail show ?thesis by (simp add: handle_def proxied_def)
next
  case Panic
  with read_sni_total show ?thesis by blast
qed

lemma routes_live:
  assumes "events_ok evs" "backend (fold on_event evs (init_router ls)) l h = Some b"
  shows "\<exists>svc. live_services evs (svc_key svc) = Some svc \<and> offer (label_ports ls) svc l = Some (h, b)"
  using sni.tracksD(3,5) [OF router_tracks [OF assms(1), of ls]] assms(2) by metis

lemma resync_routes:
  assumes "events_ok evs" "\<forall>x \<in> set xs. live_services evs (svc_key (snd (snd x))) = Some (snd (snd x))"
    and "(ns, ms, svc) \<in> set xs" "offer (label_ports ls) svc l = Some (h, b)"
  shows "backend (fold on_event (map (\<lambda>(ns, ms, s). (ns, ms, Updated (EdgeService s))) xs)
           (fold on_event evs (init_router ls))) l h \<noteq> None"
proof -
  let ?ys = "map (\<lambda>(ns, ms, s). ((ns, ms), s)) xs"
  have e: "fold on_event (map (\<lambda>(ns, ms, s). (ns, ms, Updated (EdgeService s))) xs) r =
      fold (\<lambda>xs. put_svc (fst xs) (snd xs)) ?ys r" for r
    by (induction xs arbitrary: r) (auto simp: on_event_def put_svc_def)
  show ?thesis
    unfolding e
    by (rule sni.resync [OF router_tracks [OF assms(1), of ls]]) (use assms in force)+
qed

lemma shadow_lost:
  assumes "events_ok evs" "svc_key a \<noteq> svc_key b"
    and "live_services evs (svc_key a) = Some a" "offer (label_ports ls) a l = Some (h, x)"
    and "live_services evs (svc_key b) = Some b" "offer (label_ports ls) b l = Some (h, y)"
    and "backend (fold on_event evs (init_router ls)) l h = Some y"
    and gone: "gone = evs @ [(ns, ms, Deleted (EdgeService b))]"
  shows "live_services gone (svc_key a) = Some a \<and> backend (fold on_event gone (init_router ls)) l h = None \<and>
    backend (fold on_event (gone @ [(ns', ms', Updated (EdgeService a))]) (init_router ls)) l h = Some x"
proof -
  note lost = sni.shadowed [OF router_tracks [OF assms(1), of ls] assms(3,4) assms(5-7)]
  have "live_services gone (svc_key a) = Some a"
    using assms(2,3) by (simp add: gone live_services_def live_step_def)
  with lost(1) [of "(ns, ms)"] lost(2) [where x = "(ns, ms)" and y = "(ns', ms')"] show ?thesis
    by (simp add: gone on_event_def del_svc_def put_svc_def)
qed

lemma router_reachable_ok: "router_ok (label_ports ls) (fold on_event evs (init_router ls))"
proof -
  have "router_ok (label_ports ls) (on_event x r)" if "router_ok (label_ports ls) r" for x r
  proof -
    have "router_ok (label_ports ls) (upsert ns ms obj r)" "router_ok (label_ports ls) (delete_svc ns obj r)" for ns ms obj
      using that upsert_laws [OF that] delete_laws [OF that]
      by (cases "to_service obj"; simp add: upsert_def delete_svc_def)+
    then show ?thesis by (cases x; cases "snd (snd x)") (simp_all add: on_event_def)
  qed
  then have "router_ok (label_ports ls) r \<Longrightarrow> router_ok (label_ports ls) (fold on_event evs r)" for r
    by (induction evs arbitrary: r) simp_all
  then show ?thesis using init_router_ok by blast
qed

end
