(* ===== verification/Json.thy ===== *)
theory Json
  imports Prelude
begin

text \<open>
  The texts that \<^verbatim>\<open>json.Marshal\<close> writes for strings, and a reader of JSON values that is independent
  of the writers: what a patch means to the API server is what this reader makes of its text.
\<close>

section \<open>Writing strings\<close>

text \<open>
  \<^verbatim>\<open>json.Marshal\<close> of a string, on ASCII. With its default settings it also escapes \<^verbatim>\<open><\<close>, \<^verbatim>\<open>>\<close> and
  \<^verbatim>\<open>&\<close>.
\<close>

definition json_char :: "char \<Rightarrow> string" where
  "json_char c =
     (let n = (of_char c :: nat) in
      if n = 34 \<or> n = 92 then [CHR 0x5C, c]
      else if n = 8 then [CHR 0x5C, CHR ''b'']
      else if n = 9 then [CHR 0x5C, CHR ''t'']
      else if n = 10 then [CHR 0x5C, CHR ''n'']
      else if n = 12 then [CHR 0x5C, CHR ''f'']
      else if n = 13 then [CHR 0x5C, CHR ''r'']
      else if n < 32 \<or> n = 60 \<or> n = 62 \<or> n = 38 then CHR 0x5C # ''u00'' @ [hex_digit (n div 16), hex_digit (n mod 16)]
      else [c])"

definition json_string :: "string \<Rightarrow> string" where
  "json_string s = CHR 0x22 # concat (map json_char s) @ [CHR 0x22]"

section \<open>Reading values\<close>

text \<open>
  Objects keep their members in order, repeated ones included. The reader takes the part of JSON
  without white space and numbers, and of the \<^verbatim>\<open>u\<close> escapes those of one byte.
\<close>

datatype json = JNull | JStr string | JArr "json list" | JObj "(string \<times> json) list"

definition unhex :: "char \<Rightarrow> nat option" where
  "unhex c =
     (let n = (of_char c :: nat) in
      if 48 \<le> n \<and> n \<le> 57 then Some (n - 48) else if 97 \<le> n \<and> n \<le> 102 then Some (n - 87)
      else if 65 \<le> n \<and> n \<le> 70 then Some (n - 55) else None)"

definition unescape :: "char \<Rightarrow> char option" where
  "unescape e =
     map_of [(CHR 0x22, CHR 0x22), (CHR 0x5C, CHR 0x5C), (CHR ''/'', CHR ''/''), (CHR ''b'', CHR 0x08),
       (CHR ''t'', CHR 0x09), (CHR ''n'', CHR 0x0A), (CHR ''f'', CHR 0x0C), (CHR ''r'', CHR 0x0D)] e"

text \<open>A result with one more item in front. The characters up to the closing quote, and what follows it.\<close>

definition front :: "'a \<Rightarrow> ('a list \<times> 'b) option \<Rightarrow> ('a list \<times> 'b) option" where
  "front x m = map_option (apfst (Cons x)) m"

lemma front_simps [simp]: "front x None = None" "front x (Some (xs, r)) = Some (x # xs, r)"
  by (simp_all add: front_def)

fun read_chars :: "string \<Rightarrow> (string \<times> string) option" where
  "read_chars [] = None"
| "read_chars (c # s) =
     (if c = CHR 0x22 then Some ([], s)
      else if c = CHR 0x5C then
        (case s of
           [] \<Rightarrow> None
         | e # t \<Rightarrow>
             if e = CHR ''u'' then
               (case t of
                  a # b # h # l # u \<Rightarrow>
                    (case (unhex h, unhex l) of
                       (Some x, Some y) \<Rightarrow> if [a, b] = ''00'' then front (char_of (16 * x + y)) (read_chars u) else None
                     | _ \<Rightarrow> None)
                | _ \<Rightarrow> None)
             else (case unescape e of None \<Rightarrow> None | Some d \<Rightarrow> front d (read_chars t)))
      else if of_char c < (32 :: nat) then None
      else front c (read_chars s))"

text \<open>The fuel bounds the depth; the length of the text is enough of it.\<close>

fun read_value :: "nat \<Rightarrow> string \<Rightarrow> (json \<times> string) option"
  and read_items :: "nat \<Rightarrow> string \<Rightarrow> (json list \<times> string) option"
  and read_members :: "nat \<Rightarrow> string \<Rightarrow> ((string \<times> json) list \<times> string) option"
where
  "read_value 0 s = None"
| "read_value (Suc n) [] = None"
| "read_value (Suc n) (c # t) =
     (if c = CHR 0x22 then map_option (apfst JStr) (read_chars t)
      else if c = CHR ''['' then
        (if take 1 t = '']'' then Some (JArr [], drop 1 t) else map_option (apfst JArr) (read_items n t))
      else if c = CHR ''{'' then
        (if take 1 t = ''}'' then Some (JObj [], drop 1 t) else map_option (apfst JObj) (read_members n t))
      else if take 4 (c # t) = ''null'' then Some (JNull, drop 3 t) else None)"
| "read_items 0 s = None"
| "read_items (Suc n) s =
     (case read_value n s of
        None \<Rightarrow> None
      | Some (v, r) \<Rightarrow>
          if take 1 r = '','' then front v (read_items n (drop 1 r))
          else if take 1 r = '']'' then Some ([v], drop 1 r) else None)"
| "read_members 0 s = None"
| "read_members (Suc n) s =
     (if take 1 s = [CHR 0x22] then
        (case read_chars (drop 1 s) of
           None \<Rightarrow> None
         | Some (k, r) \<Rightarrow>
             if take 1 r = '':'' then
               (case read_value n (drop 1 r) of
                  None \<Rightarrow> None
                | Some (v, q) \<Rightarrow>
                    if take 1 q = '','' then front (k, v) (read_members n (drop 1 q))
                    else if take 1 q = ''}'' then Some ([(k, v)], drop 1 q) else None)
             else None)
      else None)"

definition json_of :: "string \<Rightarrow> json option" where
  "json_of s = (case read_value (length s) s of None \<Rightarrow> None | Some (v, r) \<Rightarrow> if r = [] then Some v else None)"

section \<open>What is written is read\<close>

lemma unhex_digit: "n < 16 \<Longrightarrow> unhex (hex_digit n) = Some n"
  by (auto simp: unhex_def hex_digit_def digit_def Let_def)

lemma read_json_char:
  "read_chars (json_char c @ s) = front c (read_chars s)"
proof -
  define n where "n = (of_char c :: nat)"
  have c: "c = char_of n" by (simp add: n_def)
  have n: "n < 256" by (simp add: n_def)
  have quoted: "of_char c = n" by (simp add: n_def)
  have chars: "char_of (34 :: nat) = CHR 0x22" "char_of (92 :: nat) = CHR 0x5C" "char_of (8 :: nat) = CHR 0x08"
    "char_of (9 :: nat) = CHR 0x09" "char_of (10 :: nat) = CHR 0x0A" "char_of (12 :: nat) = CHR 0x0C"
    "char_of (13 :: nat) = CHR 0x0D"
    by (simp_all add: char_of_def bit_0)
  consider "n = 34" | "n = 92" | "n = 8" | "n = 9" | "n = 10" | "n = 12" | "n = 13"
    | "n < 32 \<or> n = 60 \<or> n = 62 \<or> n = 38" "n \<notin> {8, 9, 10, 12, 13}"
    | "32 \<le> n" "n \<notin> {34, 92, 60, 62, 38}"
    by (cases "n < 32") (simp_all, blast+)
  then show ?thesis
  proof cases
    case 8
    then have "json_char c = CHR 0x5C # ''u00'' @ [hex_digit (n div 16), hex_digit (n mod 16)]"
      by (auto simp: json_char_def Let_def quoted)
    moreover have "unhex (hex_digit (n div 16)) = Some (n div 16)" "unhex (hex_digit (n mod 16)) = Some (n mod 16)"
      using n by (simp_all add: unhex_digit)
    ultimately show ?thesis by (simp add: c)
  next
    case 9
    then have "c \<noteq> CHR 0x22" "c \<noteq> CHR 0x5C" by (auto simp: n_def)
    with 9 show ?thesis by (simp add: json_char_def Let_def quoted)
  qed (simp_all add: c chars json_char_def Let_def unescape_def)
qed

lemma read_json_chars: "read_chars (concat (map json_char s) @ CHR 0x22 # r) = Some (s, r)"
  by (induction s) (simp_all add: read_json_char)

lemma read_json_string: "read_value (Suc n) (json_string s @ r) = Some (JStr s, r)"
  by (simp add: json_string_def read_json_chars)

lemma read_json_member:
  "read_members (Suc n) (json_string k @ CHR '':'' # s) =
     (case read_value n s of
        None \<Rightarrow> None
      | Some (v, q) \<Rightarrow>
          if take 1 q = '','' then front (k, v) (read_members n (drop 1 q))
          else if take 1 q = ''}'' then Some ([(k, v)], drop 1 q) else None)"
  by (simp add: json_string_def read_json_chars)

lemma json_string_head: "\<exists>t. json_string s = CHR 0x22 # t"
  by (simp add: json_string_def)

lemma read_json_items:
  assumes "xs \<noteq> []" "length xs \<le> n"
  shows "read_items (Suc n) (join '','' (map json_string xs) @ '']'' @ r) = Some (map JStr xs, r)"
  using assms
proof (induction xs arbitrary: n)
  case (Cons x xs)
  then obtain k where n: "n = Suc k" by (cases n) auto
  show ?case
  proof (cases xs)
    case Nil
    then show ?thesis by (simp add: n read_json_string)
  next
    case (Cons y ys)
    with Cons.IH [of k] Cons.prems n show ?thesis by (simp add: read_json_string)
  qed
qed simp

lemma read_json_array:
  assumes "xs \<noteq> []" "length xs \<le> n"
  shows "read_value (Suc (Suc n)) (CHR ''['' # join '','' (map json_string xs) @ CHR '']'' # r) = Some (JArr (map JStr xs), r)"
proof -
  from assms(1) obtain t where "join '','' (map json_string xs) = CHR 0x22 # t"
    by (cases xs; cases "tl xs") (simp_all add: json_string_def)
  with read_json_items [OF assms, of r] show ?thesis by simp
qed

lemma read_json_object:
  "read_value (Suc (Suc n)) (CHR ''{'' # json_string k @ CHR '':'' # s) =
     map_option (apfst JObj) (case read_value n s of
        None \<Rightarrow> None
      | Some (v, q) \<Rightarrow>
          if take 1 q = '','' then front (k, v) (read_members n (drop 1 q))
          else if take 1 q = ''}'' then Some ([(k, v)], drop 1 q) else None)"
proof -
  have "take 1 (json_string k @ CHR '':'' # s) \<noteq> ''}''" by (simp add: json_string_def)
  then show ?thesis
    by (simp add: read_json_member del: read_members.simps take_Suc_Cons One_nat_def)
qed

lemma read_json_empty: "read_value (Suc n) (CHR ''{'' # CHR ''}'' # r) = Some (JObj [], r)"
  by simp

lemmas read_json = read_json_string read_json_member read_json_object read_json_empty

end
