(* ===== verification/IpSync.thy ===== *)
theory IpSync
  imports Effects Json "HOL-Library.List_Lexorder" "HOL-Library.Char_ord"
begin

text \<open>
  \<^verbatim>\<open>internal/sniproxy/ipsync.go\<close> of the edge router: the external addresses of its Service
  follow the addresses of the nodes. \<open>sync_external_ips\<close> is one pass; \<open>sync_step\<close> is the loop
  of \<open>RunIPSyncer\<close> over time, with its one-slot trigger and its debounce. Strings are
  ordered as Go orders them, by bytes.
\<close>

section \<open>Nodes, calls and events\<close>

record edge_node =
  en_addresses :: "(string \<times> string) list"
  en_annotations :: "string \<Rightarrow> string option"

record ip_service =
  is_type :: string
  is_external_ips :: "string list"

datatype ip_event =
    ListNodes "api_err + edge_node list"
  | GetIpService string string "api_err + ip_service"
  | PatchService string string string "api_err option"

record 'w ip_env =
  ie_nodes :: "'w \<Rightarrow> (api_err + edge_node list) \<times> 'w"
  ie_service :: "string \<Rightarrow> string \<Rightarrow> 'w \<Rightarrow> (api_err + ip_service) \<times> 'w"
  ie_patch :: "string \<Rightarrow> string \<Rightarrow> string \<Rightarrow> 'w \<Rightarrow> api_err option \<times> 'w"

definition annotation_extra_ips :: string where
  "annotation_extra_ips = ''talos.aenix.io/extra-ips''"

section \<open>The addresses\<close>

text \<open>
  The addresses collected so far, without repetition; \<^verbatim>\<open>seen\<close> holds exactly these.
\<close>

definition add_ip :: "string \<Rightarrow> string list \<Rightarrow> string list" where
  "add_ip ip ips = (if ip \<in> set ips then ips else ips @ [ip])"

definition add_address :: "string \<times> string \<Rightarrow> string list \<Rightarrow> string list" where
  "add_address a ips =
     (if fst a \<noteq> ''InternalIP'' \<and> fst a \<noteq> ''ExternalIP'' then ips else add_ip (snd a) ips)"

definition add_extra :: "string \<Rightarrow> string list \<Rightarrow> string list" where
  "add_extra raw ips = (let ip = trim_space raw in if ip = '''' then ips else add_ip ip ips)"

definition node_extra :: "edge_node \<Rightarrow> string" where
  "node_extra node = (case en_annotations node annotation_extra_ips of None \<Rightarrow> '''' | Some v \<Rightarrow> v)"

definition add_node :: "edge_node \<Rightarrow> string list \<Rightarrow> string list" where
  "add_node node ips =
     (let ips = fold add_address (en_addresses node) ips in
      if node_extra node \<noteq> '''' then fold add_extra (split_all CHR '','' (node_extra node)) ips else ips)"

definition node_ips :: "edge_node list \<Rightarrow> string list" where
  "node_ips nodes = sort (fold add_node nodes [])"

text \<open>\<^verbatim>\<open>json.Marshal\<close> of the slice: it is nil when nothing was appended.\<close>

definition json_ips :: "string list \<Rightarrow> string" where
  "json_ips ips = (if ips = [] then ''null'' else ''['' @ join '','' (map json_string ips) @ '']'')"

definition ip_patch :: "string list \<Rightarrow> string" where
  "ip_patch ips = CHR ''{'' # json_string ''spec'' @ '':{'' @ json_string ''externalIPs'' @ '':'' @ json_ips ips @ ''}}''"

text \<open>
  \<^verbatim>\<open>reflect.DeepEqual\<close> of \<^verbatim>\<open>current\<close>, which is never nil, and \<^verbatim>\<open>ips\<close>, which is nil when empty.
\<close>

definition deep_equal_ips :: "string list \<Rightarrow> string list \<Rightarrow> bool" where
  "deep_equal_ips current ips = (ips \<noteq> [] \<and> current = ips)"

section \<open>One pass\<close>

definition sync_external_ips :: "'w ip_env \<Rightarrow> string \<Rightarrow> string \<Rightarrow> ('w, ip_event, unit) io" where
  "sync_external_ips E ns name =
     check ''list nodes'' (call_val (ie_nodes E) ListNodes) (\<lambda>nodes.
       let ips = node_ips nodes in
       check ''get service'' (call_val (ie_service E ns name) (GetIpService ns name)) (\<lambda>svc.
         if is_type svc = ''LoadBalancer'' then ret ()
         else let current = sort (is_external_ips svc) in
           if deep_equal_ips current ips then ret ()
           else check ''patch service''
                  (call_unit (ie_patch E ns name (ip_patch ips)) (PatchService ns name (ip_patch ips))) ret))"

text \<open>What the addresses are: the addresses of the two kinds and the annotated ones.\<close>

definition wanted_ips :: "edge_node \<Rightarrow> string set" where
  "wanted_ips node = snd ` {a \<in> set (en_addresses node). fst a = ''InternalIP'' \<or> fst a = ''ExternalIP''} \<union>
     (case en_annotations node ''talos.aenix.io/extra-ips'' of
        None \<Rightarrow> {}
      | Some v \<Rightarrow> trim_space ` set (split_all CHR '','' v) - {''''})"

lemma add_ip_props: "set (add_ip ip ips) = insert ip (set ips)" "distinct ips \<Longrightarrow> distinct (add_ip ip ips)"
  by (auto simp: add_ip_def)

lemma add_addresses:
  "set (fold add_address as ips) = set ips \<union> snd ` {a \<in> set as. fst a = ''InternalIP'' \<or> fst a = ''ExternalIP''} \<and>
   (distinct ips \<longrightarrow> distinct (fold add_address as ips))"
proof (induction as arbitrary: ips)
  case (Cons a as)
  have "set (add_address a ips) = set ips \<union> snd ` {x \<in> {a}. fst x = ''InternalIP'' \<or> fst x = ''ExternalIP''}"
    "distinct ips \<Longrightarrow> distinct (add_address a ips)"
    by (auto simp: add_address_def add_ip_props)
  with Cons [of "add_address a ips"] show ?case by auto
qed simp

lemma add_extras:
  "set (fold add_extra xs ips) = set ips \<union> (trim_space ` set xs - {''''}) \<and>
   (distinct ips \<longrightarrow> distinct (fold add_extra xs ips))"
proof (induction xs arbitrary: ips)
  case (Cons x xs)
  have "set (add_extra x ips) = set ips \<union> ({trim_space x} - {''''})" "distinct ips \<Longrightarrow> distinct (add_extra x ips)"
    by (auto simp: add_extra_def Let_def add_ip_props)
  with Cons [of "add_extra x ips"] show ?case by auto
qed simp

lemma trim_space_Nil [simp]: "trim_space [] = []"
  by (simp add: trim_space_def)

lemma add_node_props:
  "set (add_node node ips) = set ips \<union> wanted_ips node \<and> (distinct ips \<longrightarrow> distinct (add_node node ips))"
  using add_addresses [of "en_addresses node" ips] add_extras [of "split_all CHR '','' (node_extra node)"]
  by (auto simp: add_node_def wanted_ips_def Let_def node_extra_def annotation_extra_ips_def split: option.splits)

lemma node_ips_props:
  "set (node_ips nodes) = \<Union> (wanted_ips ` set nodes) \<and> distinct (node_ips nodes) \<and> sorted (node_ips nodes)"
proof -
  have "set (fold add_node nodes ips) = set ips \<union> \<Union> (wanted_ips ` set nodes) \<and>
      (distinct ips \<longrightarrow> distinct (fold add_node nodes ips))" for ips
    by (induction nodes arbitrary: ips) (auto simp: add_node_props)
  from this [of "[]"] show ?thesis by (simp add: node_ips_def)
qed

lemma node_ips_wanted: "node_ips nodes = sorted_list_of_set (\<Union> (wanted_ips ` set nodes))"
  using node_ips_props [of nodes] by (metis sorted_list_of_set.idem_if_sorted_distinct)

text \<open>The patch of the Service that sets the addresses, as the API server reads it.\<close>

definition sets_ips :: "string \<Rightarrow> string list \<Rightarrow> bool" where
  "sets_ips p ips \<longleftrightarrow>
     json_of p = Some (JObj [(''spec'', JObj [(''externalIPs'', if ips = [] then JNull else JArr (map JStr ips))])])"

lemma ip_patch_sets: "sets_ips (ip_patch ips) ips"
proof -
  have fuel: "length (ip_patch ips) = Suc (Suc (Suc (Suc (length (json_ips ips) + 21))))"
    by (simp add: ip_patch_def json_string_def json_char_def)
  have arr: "read_value (length (json_ips ips) + 21) (json_ips ips @ r) =
      Some (if ips = [] then JNull else JArr (map JStr ips), r)" for r
  proof (cases "ips = []")
    case False
    have "\<forall>y\<in>set ys. y \<noteq> [] \<Longrightarrow> length ys \<le> length (join sep ys)" for sep and ys :: "string list"
    proof (induction sep ys rule: join.induct)
      case (3 sep x y xs)
      then show ?case by (cases x) simp_all
    qed (auto simp: Suc_le_eq)
    from this [of "map json_string xs" "'',''" for xs]
    have len: "length xs \<le> length (join '','' (map json_string xs))" for xs by (simp add: json_string_def)
    then have "length ips \<le> length (json_ips ips) + 19" using len [of ips] by (simp add: json_ips_def trans_le_add2)
    from read_json_array [OF False this, of r]
    have "read_value (Suc (Suc (length (json_ips ips) + 19))) (json_ips ips @ r) = Some (JArr (map JStr ips), r)"
      by (simp only: json_ips_def False if_False append_Cons append_Nil append_assoc)
    with False show ?thesis by (simp add: add.commute del: read_value.simps)
  qed (simp add: json_ips_def eval_nat_numeral)
  obtain k where k: "length (ip_patch ips) = Suc (Suc (Suc (Suc k)))"
    and arr': "read_value k (json_ips ips @ r) = Some (if ips = [] then JNull else JArr (map JStr ips), r)" for r
    using fuel arr by blast
  show ?thesis
    unfolding sets_ips_def json_of_def k
    by (simp add: ip_patch_def read_json_object arr' del: read_value.simps read_items.simps read_members.simps)
qed

text \<open>
  A pass reads the nodes, then the Service, and patches at most once, with exactly the sorted
  addresses; a LoadBalancer Service, and one that already has them, is left alone. When there is
  no address, every pass patches.
\<close>

fun patched_run :: "string \<Rightarrow> string \<Rightarrow> string list \<Rightarrow> ip_event list \<Rightarrow> err + unit \<Rightarrow> bool" where
  "patched_run ns name ips [PatchService ns' name' p z] r \<longleftrightarrow>
     ns' = ns \<and> name' = name \<and> sets_ips p ips \<and> (r = Inr () \<longleftrightarrow> z = None)"
| "patched_run ns name ips evs r \<longleftrightarrow> False"

fun service_run :: "string \<Rightarrow> string \<Rightarrow> string list \<Rightarrow> ip_event list \<Rightarrow> err + unit \<Rightarrow> bool" where
  "service_run ns name ips (GetIpService ns' name' y # evs) r \<longleftrightarrow> ns' = ns \<and> name' = name \<and>
     (case y of
        Inl _ \<Rightarrow> evs = [] \<and> r \<noteq> Inr ()
      | Inr svc \<Rightarrow>
          if is_type svc = ''LoadBalancer'' \<or> (ips \<noteq> [] \<and> mset (is_external_ips svc) = mset ips) then
            evs = [] \<and> r = Inr ()
          else patched_run ns name ips evs r)"
| "service_run ns name ips evs r \<longleftrightarrow> False"

fun ip_run :: "string \<Rightarrow> string \<Rightarrow> ip_event list \<Rightarrow> err + unit \<Rightarrow> bool" where
  "ip_run ns name (ListNodes x # evs) r \<longleftrightarrow>
     (case x of Inl _ \<Rightarrow> evs = [] \<and> r \<noteq> Inr () | Inr nodes \<Rightarrow>
        service_run ns name (sorted_list_of_set (\<Union> (wanted_ips ` set nodes))) evs r)"
| "ip_run ns name evs r \<longleftrightarrow> False"

lemma deep_equal_mset:
  "deep_equal_ips (sort xs) (node_ips nodes) \<longleftrightarrow> node_ips nodes \<noteq> [] \<and> mset xs = mset (node_ips nodes)"
proof -
  have "sort xs = node_ips nodes \<longleftrightarrow> mset xs = mset (node_ips nodes)"
    by (metis mset_sort node_ips_props properties_for_sort sorted_sort_id)
  then show ?thesis by (auto simp: deep_equal_ips_def)
qed

lemma sync_external_ips_runs: "every_run (sync_external_ips E ns name) (ip_run ns name)"
  unfolding sync_external_ips_def Let_def deep_equal_mset
  by (auto intro!: runs simp: ip_patch_sets simp flip: node_ips_wanted)

section \<open>The loop over time\<close>

text \<open>
  \<open>sy_trigger\<close> is the slot of the trigger channel, \<open>sy_last\<close> is \<^verbatim>\<open>lastSync\<close>, \<open>sy_syncs\<close> the
  times at which passes began, the latest first. \<open>sy_dirty\<close> is a ghost: a node event has
  arrived since the latest pass began. Times are seconds; a pass takes as long as it takes.
\<close>

definition sync_debounce_interval :: int where
  "sync_debounce_interval = 30"

datatype sync_phase = Idle | Waiting int | Syncing

record syncer =
  sy_now :: int
  sy_phase :: sync_phase
  sy_trigger :: bool
  sy_last :: int
  sy_syncs :: "int list"
  sy_dirty :: bool

definition begin_sync :: "syncer \<Rightarrow> syncer" where
  "begin_sync s = s\<lparr>sy_phase := Syncing, sy_trigger := False, sy_syncs := sy_now s # sy_syncs s, sy_dirty := False\<rparr>"

definition sync_start :: "int \<Rightarrow> syncer" where
  "sync_start t = \<lparr>sy_now = t, sy_phase = Syncing, sy_trigger = False, sy_last = t, sy_syncs = [t], sy_dirty = False\<rparr>"

inductive sync_step :: "syncer \<Rightarrow> syncer \<Rightarrow> bool" where
  node_event: "sync_step s (s\<lparr>sy_trigger := True, sy_dirty := True\<rparr>)"
| time_passes: "0 \<le> d \<Longrightarrow> sync_step s (s\<lparr>sy_now := sy_now s + d\<rparr>)"
| sync_done: "sy_phase s = Syncing \<Longrightarrow> sync_step s (s\<lparr>sy_phase := Idle, sy_last := sy_now s\<rparr>)"
| sync_wait: "sy_phase s = Idle \<Longrightarrow> sy_trigger s \<Longrightarrow> sy_now s - sy_last s < sync_debounce_interval \<Longrightarrow>
     sync_step s (s\<lparr>sy_phase := Waiting (sy_now s + (sync_debounce_interval - (sy_now s - sy_last s))),
       sy_trigger := False\<rparr>)"
| sync_at_once: "sy_phase s = Idle \<Longrightarrow> sy_trigger s \<Longrightarrow> \<not> sy_now s - sy_last s < sync_debounce_interval \<Longrightarrow>
     sync_step s (begin_sync s)"
| timer_fires: "sy_phase s = Waiting t \<Longrightarrow> t \<le> sy_now s \<Longrightarrow> sync_step s (begin_sync s)"

inductive sync_reachable :: "syncer \<Rightarrow> bool" where
  sync_reach_start: "sync_reachable (sync_start t)"
| sync_reach_step: "sync_reachable s \<Longrightarrow> sync_step s s' \<Longrightarrow> sync_reachable s'"

text \<open>Passes begin at least the interval apart, and no node event is forgotten.\<close>

fun spaced :: "int \<Rightarrow> int list \<Rightarrow> bool" where
  "spaced d (x # y # xs) \<longleftrightarrow> y + d \<le> x \<and> spaced d (y # xs)"
| "spaced d xs \<longleftrightarrow> True"

definition sync_inv :: "syncer \<Rightarrow> bool" where
  "sync_inv s \<longleftrightarrow> sy_syncs s \<noteq> [] \<and> spaced sync_debounce_interval (sy_syncs s) \<and>
     (case sy_phase s of
        Syncing \<Rightarrow> hd (sy_syncs s) \<le> sy_now s \<and> (\<not> sy_dirty s \<or> sy_trigger s)
      | Idle \<Rightarrow> hd (sy_syncs s) \<le> sy_last s \<and> (\<not> sy_dirty s \<or> sy_trigger s)
      | Waiting t \<Rightarrow> t = sy_last s + sync_debounce_interval \<and> hd (sy_syncs s) \<le> sy_last s)"

lemma sync_inv_begin:
  "sy_syncs s \<noteq> [] \<Longrightarrow> spaced sync_debounce_interval (sy_syncs s) \<Longrightarrow>
     hd (sy_syncs s) + sync_debounce_interval \<le> sy_now s \<Longrightarrow> sync_inv (begin_sync s)"
  by (cases "sy_syncs s") (simp_all add: sync_inv_def begin_sync_def)

lemma sync_inv_step: "sync_step s s' \<Longrightarrow> sync_inv s \<Longrightarrow> sync_inv s'"
proof (induction rule: sync_step.induct)
  case (sync_at_once s)
  then show ?case by (intro sync_inv_begin) (auto simp: sync_inv_def)
next
  case (timer_fires s t)
  then show ?case by (intro sync_inv_begin) (auto simp: sync_inv_def)
qed (auto simp: sync_inv_def split: sync_phase.splits)

lemma sync_reachable_inv: "sync_reachable s \<Longrightarrow> sync_inv s"
proof (induction rule: sync_reachable.induct)
  case (sync_reach_start t)
  then show ?case by (simp add: sync_inv_def sync_start_def)
next
  case (sync_reach_step s s')
  then show ?case by (blast intro: sync_inv_step)
qed

lemma sync_debounced:
  assumes "sync_reachable s"
  shows "spaced sync_debounce_interval (sy_syncs s) \<and>
    (\<not> sy_dirty s \<or> sy_trigger s \<or> sy_phase s = Waiting (sy_last s + sync_debounce_interval))"
  using sync_reachable_inv [OF assms] by (auto simp: sync_inv_def split: sync_phase.splits)

end
