(* ===== verification/EdgeMain.thy ===== *)
theory EdgeMain
  imports Router IpSync
begin

text \<open>
  \<^verbatim>\<open>main.go\<close> of the edge router: the listener flag, the start of the process and the accept
  loop of a listener. The flag package, the client library and the network are calls whose
  outcomes are arguments.
\<close>

section \<open>The listener flag\<close>

definition listener_string :: "edge_listener list \<Rightarrow> string" where
  "listener_string ls = join '','' (map (\<lambda>l. li_name l @ ''='' @ li_addr l @ ''/'' @ li_label l) ls)"

definition listener_set :: "edge_listener list \<Rightarrow> string \<Rightarrow> string + edge_listener list" where
  "listener_set ls v =
     (let parts = split_n CHR '':'' 4 v in
      if length parts < 3 then Inl (''listener must be name:port:label[:targetPort], got '' @ quoted v)
      else (case atoi (parts ! 1) of
          None \<Rightarrow> Inl (''listener '' @ quoted (parts ! 0) @ '' has invalid port '' @ quoted (parts ! 1))
        | Some port \<Rightarrow>
            if port \<le> 0 \<or> port > 65535 then
              Inl (''listener '' @ quoted (parts ! 0) @ '' has invalid port '' @ quoted (parts ! 1))
            else
              let lis = \<lparr>li_name = parts ! 0, li_addr = '':'' @ itoa port, li_label = parts ! 2,
                    li_target_port = (if length parts = 4 then parts ! 3 else '''')\<rparr> in
              if li_name lis = '''' \<or> li_label lis = '''' then Inl (''listener fields must be non-empty: '' @ quoted v)
              else Inr (ls @ [lis])))"

section \<open>The process\<close>

datatype edge_exit = Exit nat | Serving router "edge_listener list" bool

definition edge_main ::
  "edge_listener list \<Rightarrow> bool \<Rightarrow> bool \<Rightarrow> (nat list \<times> nat list \<times> edge_event) list \<Rightarrow> bool \<Rightarrow> string \<Rightarrow> edge_exit" where
  "edge_main listeners config_ok client_ok evs synced sync_namespace =
     (if listeners = [] then Exit 2
      else if \<not> config_ok then Exit 1
      else if \<not> client_ok then Exit 1
      else (case new_router listeners evs synced of
          Inl _ \<Rightarrow> Exit 1
        | Inr r \<Rightarrow> Serving r listeners (sync_namespace \<noteq> '''')))"

text \<open>
  The accept loop: what each \<^verbatim>\<open>Accept\<close> yields, an error with whether the process is being
  stopped; the answer is the connections handed to \<open>handle\<close>, each with the listener's label.
\<close>

datatype accept = AcceptedConn conn | AcceptError bool

fun serve_loop :: "edge_listener \<Rightarrow> accept list \<Rightarrow> (string \<times> conn) list" where
  "serve_loop lis [] = []"
| "serve_loop lis (AcceptedConn c # xs) = (li_label lis, c) # serve_loop lis xs"
| "serve_loop lis (AcceptError stopping # xs) = (if stopping then [] else serve_loop lis xs)"

definition serve :: "edge_listener \<Rightarrow> bool \<Rightarrow> accept list \<Rightarrow> (string \<times> conn) list" where
  "serve lis listen_ok xs = (if \<not> listen_ok then [] else serve_loop lis xs)"

section \<open>What the flag accepts\<close>

definition listener_spec :: "string \<Rightarrow> int \<Rightarrow> string \<Rightarrow> string option \<Rightarrow> string" where
  "listener_spec name port label target =
     name @ '':'' @ itoa port @ '':'' @ label @ (case target of None \<Rightarrow> '''' | Some t \<Rightarrow> '':'' @ t)"

lemma listener_set_spec:
  assumes "CHR '':'' \<notin> set name" "CHR '':'' \<notin> set label" "name \<noteq> ''''" "label \<noteq> ''''" "0 < p" "p \<le> 65535"
  shows "listener_set ls (listener_spec name p label target) =
    Inr (ls @ [\<lparr>li_name = name, li_addr = '':'' @ itoa p, li_label = label,
      li_target_port = (case target of None \<Rightarrow> '''' | Some t \<Rightarrow> t)\<rparr>])"
proof -
  have p: "CHR '':'' \<notin> set (itoa p)" by (simp add: notin_itoa)
  have a: "atoi (itoa p) = Some p" using assms by (intro atoi_itoa) simp_all
  have "split_n CHR '':'' 4 (listener_spec name p label target) =
      [name, itoa p, label] @ (case target of None \<Rightarrow> [] | Some t \<Rightarrow> [t])"
    using assms p by (cases target) (simp_all add: listener_spec_def numeral_eq_Suc cut_None [THEN iffD2])
  with a assms show ?thesis
    by (cases target) (simp_all add: listener_set_def Let_def)
qed

lemma listener_set_ok:
  assumes "listener_set ls v = Inr ls'"
  shows "\<exists>lis p. ls' = ls @ [lis] \<and> li_name lis \<noteq> '''' \<and> li_label lis \<noteq> '''' \<and> 0 < p \<and> p \<le> 65535 \<and>
     li_addr lis = '':'' @ itoa p \<and> target_port_name lis \<noteq> ''''"
  using assms by (auto simp: listener_set_def Let_def target_port_name_def split: if_splits option.splits)

end
