(* ===== verification/CsrSigner.thy ===== *)
theory CsrSigner
  imports Effects
begin

text \<open>
  The Talos CSR signer: \<^verbatim>\<open>internal/ca/loader.go\<close> (the CA of a secrets bundle and what is signed
  with it), \<^verbatim>\<open>internal/server/server.go\<close> (the signing call), \<^verbatim>\<open>internal/bootstrap/token.go\<close> (the
  bootstrap token of the workload cluster) and \<^verbatim>\<open>main.go\<close>. Encodings, parsers and
  signatures are a parameter, \<open>crypto\<close>; files, randomness, the clock and the API server are
  calls of an environment. Byte strings are strings.
\<close>

section \<open>Parsers, calls and events\<close>

datatype private_key = EcKey string | RsaKey string | Ed25519Key string | OtherKey string

record csr =
  cs_subject :: string
  cs_dns_names :: "string list"
  cs_ip_addresses :: "string list"
  cs_public_key :: string

text \<open>The fields the program sets of a certificate template; the CA flag keeps its zero value.\<close>

datatype ext_usage = ServerAuth | ClientAuth

record cert_template =
  ct_serial :: nat
  ct_subject :: string
  ct_dns_names :: "string list"
  ct_ip_addresses :: "string list"
  ct_not_before :: int
  ct_not_after :: int
  ct_key_usage :: nat
  ct_ext_key_usage :: "ext_usage list"
  ct_is_ca :: bool

record crypto =
  cr_yaml_token :: "string \<Rightarrow> api_err + string"
  cr_yaml_os :: "string \<Rightarrow> api_err + string \<times> string"
  cr_base64 :: "string \<Rightarrow> api_err + string"
  cr_pem_decode :: "string \<Rightarrow> string option"
  cr_pem_encode :: "string \<Rightarrow> string \<Rightarrow> string"
  cr_parse_cert :: "string \<Rightarrow> api_err + string"
  cr_parse_ec :: "string \<Rightarrow> string option"
  cr_parse_pkcs8 :: "string \<Rightarrow> private_key option"
  cr_parse_pkcs1 :: "string \<Rightarrow> string option"
  cr_parse_csr :: "string \<Rightarrow> api_err + csr"
  cr_check_csr :: "csr \<Rightarrow> api_err option"
  cr_marshal_key :: "string \<Rightarrow> api_err + string"
  cr_key_pair :: "string \<Rightarrow> string \<Rightarrow> api_err + string"
  cr_organization :: "string list \<Rightarrow> string"
  cr_public :: "string \<Rightarrow> string"

record token_secret =
  ts_name :: string
  ts_namespace :: string
  ts_type :: string
  ts_string_data :: "(string \<times> string) list"

datatype signer_event =
    ReadBundle string "api_err + string"
  | ServerKey "api_err + string"
  | Serial "api_err + nat"
  | Clock int
  | Signed cert_template string string private_key "api_err + string"
  | ListenOn string "api_err option"
  | BuildConfig string "api_err option"
  | BuildClient "api_err option"
  | GetToken string "api_err + token_secret"
  | CreateToken token_secret "api_err option"

record 'w signer_env =
  sg_bundle :: "string \<Rightarrow> 'w \<Rightarrow> (api_err + string) \<times> 'w"
  sg_server_key :: "'w \<Rightarrow> (api_err + string) \<times> 'w"
  sg_serial :: "'w \<Rightarrow> (api_err + nat) \<times> 'w"
  sg_clock :: "'w \<Rightarrow> int \<times> 'w"
  sg_sign :: "cert_template \<Rightarrow> string \<Rightarrow> string \<Rightarrow> private_key \<Rightarrow> 'w \<Rightarrow> (api_err + string) \<times> 'w"
  sg_listen :: "string \<Rightarrow> 'w \<Rightarrow> api_err option \<times> 'w"
  sg_config :: "string \<Rightarrow> 'w \<Rightarrow> api_err option \<times> 'w"
  sg_client :: "'w \<Rightarrow> api_err option \<times> 'w"
  sg_get_token :: "string \<Rightarrow> 'w \<Rightarrow> (api_err + token_secret) \<times> 'w"
  sg_create_token :: "token_secret \<Rightarrow> 'w \<Rightarrow> api_err option \<times> 'w"

type_synonym ('w, 'a) signer = "('w, signer_event, 'a) io"

section \<open>The CA\<close>

record loader =
  ld_ca_cert :: string
  ld_ca_key :: private_key
  ld_ca_pem :: string

definition parse_private_key :: "crypto \<Rightarrow> string \<Rightarrow> err + private_key" where
  "parse_private_key C der =
     (case cr_parse_ec C der of
        Some k \<Rightarrow> Inr (EcKey k)
      | None \<Rightarrow>
          let rest = (case cr_parse_pkcs1 C der of
              Some k \<Rightarrow> Inr (RsaKey k)
            | None \<Rightarrow> Inl (Msg ''unsupported private key type''))
          in (case cr_parse_pkcs8 C der of
                Some (EcKey k) \<Rightarrow> Inr (EcKey k)
              | Some (RsaKey k) \<Rightarrow> Inr (RsaKey k)
              | Some (Ed25519Key k) \<Rightarrow> Inr (Ed25519Key k)
              | Some (OtherKey _) \<Rightarrow> rest
              | None \<Rightarrow> rest))"

definition lift_err :: "err + 'a \<Rightarrow> ('w, 'e, 'a) io" where
  "lift_err r = (case r of Inl e \<Rightarrow> throw e | Inr x \<Rightarrow> ret x)"

text \<open>A PEM block, or the message when there is none.\<close>

definition pem_block :: "crypto \<Rightarrow> string \<Rightarrow> string \<Rightarrow> ('w, 'e, string) io" where
  "pem_block C msg data = (case cr_pem_decode C data of None \<Rightarrow> throw (Msg msg) | Some b \<Rightarrow> ret b)"

definition new_loader :: "'w signer_env \<Rightarrow> crypto \<Rightarrow> string \<Rightarrow> ('w, loader) signer" where
  "new_loader E C dir =
     check ''read bundle'' (call_val (sg_bundle E dir) (ReadBundle dir)) (\<lambda>data.
     check ''parse bundle'' (lift_sum (cr_yaml_os C data)) (\<lambda>os.
       if fst os = '''' \<or> snd os = '''' then throw (Msg ''bundle missing certs.os.crt or certs.os.key'')
       else check ''base64-decode CA cert'' (lift_sum (cr_base64 C (fst os))) (\<lambda>ca_pem.
         bind (pem_block C ''failed to decode CA PEM'' ca_pem) (\<lambda>block.
         check ''parse CA cert'' (lift_sum (cr_parse_cert C block)) (\<lambda>ca_cert.
         check ''base64-decode CA key'' (lift_sum (cr_base64 C (snd os))) (\<lambda>key_raw.
         bind (pem_block C ''failed to decode CA key PEM'' key_raw) (\<lambda>key_block.
         check ''parse CA key'' (lift_err (parse_private_key C key_block)) (\<lambda>ca_key.
           ret \<lparr>ld_ca_cert = ca_cert, ld_ca_key = ca_key, ld_ca_pem = ca_pem\<rparr>))))))))"

definition year :: int where
  "year = 8760 * 3600"

definition key_usage_digital_signature :: nat where "key_usage_digital_signature = 1"

definition key_usage_key_encipherment :: nat where "key_usage_key_encipherment = 4"

definition csr_template :: "csr \<Rightarrow> nat \<Rightarrow> int \<Rightarrow> int \<Rightarrow> cert_template" where
  "csr_template r serial t1 t2 =
     \<lparr>ct_serial = serial, ct_subject = cs_subject r, ct_dns_names = cs_dns_names r,
      ct_ip_addresses = cs_ip_addresses r, ct_not_before = t1 - 60, ct_not_after = t2 + year,
      ct_key_usage = key_usage_digital_signature + key_usage_key_encipherment,
      ct_ext_key_usage = [ServerAuth], ct_is_ca = False\<rparr>"

definition sign_csr :: "'w signer_env \<Rightarrow> crypto \<Rightarrow> loader \<Rightarrow> string \<Rightarrow> ('w, string) signer" where
  "sign_csr E C l csr_pem =
     bind (pem_block C ''failed to decode CSR PEM'' csr_pem) (\<lambda>block.
     check ''parse CSR'' (lift_sum (cr_parse_csr C block)) (\<lambda>r.
     check ''invalid CSR signature'' (lift_opt (cr_check_csr C r)) (\<lambda>_.
     check ''generate serial'' (call_val (sg_serial E) Serial) (\<lambda>serial.
     bind (call (sg_clock E) Clock) (\<lambda>t1.
     bind (call (sg_clock E) Clock) (\<lambda>t2.
     let tmpl = csr_template r serial t1 t2 in
     check ''sign certificate''
       (call_val (sg_sign E tmpl (ld_ca_cert l) (cs_public_key r) (ld_ca_key l))
         (Signed tmpl (ld_ca_cert l) (cs_public_key r) (ld_ca_key l))) (\<lambda>der.
     ret (cr_pem_encode C ''CERTIFICATE'' der))))))))"

definition server_template :: "crypto \<Rightarrow> string list \<Rightarrow> nat \<Rightarrow> int \<Rightarrow> int \<Rightarrow> cert_template" where
  "server_template C dns_names serial t1 t2 =
     \<lparr>ct_serial = serial, ct_subject = cr_organization C [''talos''], ct_dns_names = dns_names,
      ct_ip_addresses = [], ct_not_before = t1 - 60, ct_not_after = t2 + year,
      ct_key_usage = key_usage_digital_signature, ct_ext_key_usage = [ServerAuth], ct_is_ca = False\<rparr>"

text \<open>The server's certificate, and the pool of one CA.\<close>

definition tls_credentials ::
  "'w signer_env \<Rightarrow> crypto \<Rightarrow> loader \<Rightarrow> string \<Rightarrow> ('w, string \<times> string list) signer" where
  "tls_credentials E C l hostname =
     check ''generate server key'' (call_val (sg_server_key E) ServerKey) (\<lambda>priv.
     check ''generate serial'' (call_val (sg_serial E) Serial) (\<lambda>serial.
     let dns_names = (if hostname \<noteq> '''' then [hostname] else []) in
     bind (call (sg_clock E) Clock) (\<lambda>t1.
     bind (call (sg_clock E) Clock) (\<lambda>t2.
     let tmpl = server_template C dns_names serial t1 t2 in
     check ''sign server cert''
       (call_val (sg_sign E tmpl (ld_ca_cert l) (cr_public C priv) (ld_ca_key l))
         (Signed tmpl (ld_ca_cert l) (cr_public C priv) (ld_ca_key l))) (\<lambda>der.
     bind (lift_sum (cr_marshal_key C priv)) (\<lambda>key_bytes.
     bind (lift_sum (cr_key_pair C (cr_pem_encode C ''CERTIFICATE'' der) (cr_pem_encode C ''PRIVATE KEY'' key_bytes)))
       (\<lambda>cert. ret (cert, [ld_ca_cert l]))))))))"

section \<open>The signing call\<close>

datatype rpc_result = RpcError string string | RpcCert string string

definition sign_error_text :: "err \<Rightarrow> string" where
  "sign_error_text e = ''sign CSR: '' @ err_text e"

definition certificate :: "'w signer_env \<Rightarrow> crypto \<Rightarrow> loader \<Rightarrow> string \<Rightarrow> ('w, rpc_result) signer" where
  "certificate E C l csr =
     (if csr = '''' then ret (RpcError ''InvalidArgument'' ''empty CSR'')
      else attempt (sign_csr E C l csr) (\<lambda>r. case r of
          Inl e \<Rightarrow> ret (RpcError ''Internal'' (sign_error_text e))
        | Inr signed \<Rightarrow> ret (RpcCert (ld_ca_pem l) signed)))"

section \<open>The bootstrap token\<close>

definition token_from_bundle :: "'w signer_env \<Rightarrow> crypto \<Rightarrow> string \<Rightarrow> ('w, string) signer" where
  "token_from_bundle E C dir =
     check ''read bundle'' (call_val (sg_bundle E dir) (ReadBundle dir)) (\<lambda>data.
     check ''parse bundle'' (lift_sum (cr_yaml_token C data)) (\<lambda>token.
       if token = '''' then throw (Msg ''secrets.bootstraptoken not found in bundle'') else ret token))"

definition token_secret_name :: "string \<Rightarrow> string" where
  "token_secret_name i = ''bootstrap-token-'' @ i"

definition make_token_secret :: "string \<Rightarrow> string \<Rightarrow> token_secret" where
  "make_token_secret i s =
     \<lparr>ts_name = token_secret_name i, ts_namespace = ''kube-system'', ts_type = ''bootstrap.kubernetes.io/token'',
      ts_string_data = [(''token-id'', i), (''token-secret'', s),
        (''usage-bootstrap-authentication'', ''true''), (''usage-bootstrap-signing'', ''true''),
        (''auth-extra-groups'', ''system:bootstrappers:kubeadm:default-node-token'')]\<rparr>"

definition ensure_token :: "'w signer_env \<Rightarrow> string \<Rightarrow> ('w, unit) signer" where
  "ensure_token E token =
     (case split_n CHR ''.'' 2 token of
        [i, s] \<Rightarrow>
          attempt (call_val (sg_get_token E (token_secret_name i)) (GetToken (token_secret_name i))) (\<lambda>r. case r of
              Inr _ \<Rightarrow> ret ()
            | Inl e \<Rightarrow>
                if \<not> api_not_found e then throw (Wrap ''get bootstrap token'' e)
                else check ''create bootstrap token''
                       (call_unit (sg_create_token E (make_token_secret i s)) (CreateToken (make_token_secret i s))) ret)
      | _ \<Rightarrow> throw (Msg (''invalid bootstrap token format '' @ quoted token @ '': expected id.secret'')))"

definition ensure_bootstrap_token :: "'w signer_env \<Rightarrow> crypto \<Rightarrow> string \<Rightarrow> string \<Rightarrow> ('w, unit) signer" where
  "ensure_bootstrap_token E C dir kubeconfig =
     bind (token_from_bundle E C dir) (\<lambda>token.
     check ''build kubeconfig'' (call_unit (sg_config E kubeconfig) (BuildConfig kubeconfig)) (\<lambda>_.
     check ''create k8s client'' (call_unit (sg_client E) BuildClient) (\<lambda>_.
     ensure_token E token)))"

text \<open>\<open>n\<close> ticks of the token loop: an error is logged and the next tick tries again.\<close>

fun token_loop :: "'w signer_env \<Rightarrow> crypto \<Rightarrow> string \<Rightarrow> string \<Rightarrow> nat \<Rightarrow> ('w, unit) signer" where
  "token_loop E C dir kubeconfig 0 = ret ()"
| "token_loop E C dir kubeconfig (Suc n) =
     attempt (ensure_bootstrap_token E C dir kubeconfig) (\<lambda>_. token_loop E C dir kubeconfig n)"

section \<open>The process\<close>

text \<open>
  \<open>main\<close> until the context ends: the exit code of a failed start, or the loader the server
  signs with; the token loop runs beside the server for \<open>n\<close> ticks.
\<close>

datatype signer_exit = SignerExit nat | SignerServed loader

definition signer_main ::
  "'w signer_env \<Rightarrow> crypto \<Rightarrow> string \<Rightarrow> string \<Rightarrow> string \<Rightarrow> string \<Rightarrow> nat \<Rightarrow> ('w, signer_exit) signer" where
  "signer_main E C addr dir hostname kubeconfig n =
     attempt (new_loader E C dir) (\<lambda>r. case r of
         Inl _ \<Rightarrow> ret (SignerExit 1)
       | Inr l \<Rightarrow> attempt (tls_credentials E C l hostname) (\<lambda>r. case r of
             Inl _ \<Rightarrow> ret (SignerExit 1)
           | Inr _ \<Rightarrow> attempt (call_unit (sg_listen E addr) (ListenOn addr)) (\<lambda>r. case r of
                 Inl _ \<Rightarrow> ret (SignerExit 1)
               | Inr _ \<Rightarrow>
                   if kubeconfig \<noteq> '''' then
                     attempt (ensure_bootstrap_token E C dir kubeconfig) (\<lambda>_.
                     bind (token_loop E C dir kubeconfig n) (\<lambda>_. ret (SignerServed l)))
                   else ret (SignerServed l))))"

section \<open>What is signed\<close>

lemma every_run_lift_sum [runs]:
  "(\<And>a. r = Inl a \<Longrightarrow> Q [] (Inl (Api a))) \<Longrightarrow> (\<And>x. r = Inr x \<Longrightarrow> Q [] (Inr x)) \<Longrightarrow> every_run (lift_sum r) Q"
  by (auto simp: lift_sum_def intro!: every_run_ret every_run_throw split: sum.splits)

lemma every_run_lift_opt [runs]:
  "(\<And>a. r = Some a \<Longrightarrow> Q [] (Inl (Api a))) \<Longrightarrow> (r = None \<Longrightarrow> Q [] (Inr ())) \<Longrightarrow> every_run (lift_opt r) Q"
  by (auto simp: lift_opt_def intro!: every_run_ret every_run_throw split: option.splits)

lemma every_run_pem_block [runs]:
  "Q [] (Inl (Msg msg)) \<Longrightarrow> (\<And>b. cr_pem_decode C d = Some b \<Longrightarrow> Q [] (Inr b)) \<Longrightarrow> every_run (pem_block C msg d) Q"
  by (auto simp: pem_block_def intro!: every_run_ret every_run_throw split: option.splits)

text \<open>
  The request a signing call carries, when it is one: a PEM block that parses as a CSR whose
  signature verifies.
\<close>

definition valid_csr :: "crypto \<Rightarrow> string \<Rightarrow> csr \<Rightarrow> bool" where
  "valid_csr C pem r \<longleftrightarrow>
     (\<exists>block. cr_pem_decode C pem = Some block \<and> cr_parse_csr C block = Inr r \<and> cr_check_csr C r = None)"

text \<open>
  What a certificate for a request must say: the request's subject, names and addresses, from a
  minute before the clock for 365 days, for digital signatures and key encipherment (bits 0 and
  2 of the key usage) of a server, which is no CA.
\<close>

definition server_cert_for :: "csr \<Rightarrow> nat \<Rightarrow> int \<Rightarrow> int \<Rightarrow> cert_template \<Rightarrow> bool" where
  "server_cert_for r serial t1 t2 tmpl \<longleftrightarrow>
     ct_serial tmpl = serial \<and> ct_subject tmpl = cs_subject r \<and> ct_dns_names tmpl = cs_dns_names r \<and>
     ct_ip_addresses tmpl = cs_ip_addresses r \<and> ct_not_before tmpl = t1 - 60 \<and>
     ct_not_after tmpl = t2 + 365 * 24 * 60 * 60 \<and> ct_key_usage tmpl = 2 ^ 0 + 2 ^ 2 \<and>
     ct_ext_key_usage tmpl = [ServerAuth] \<and> \<not> ct_is_ca tmpl"

lemma csr_template_ok: "server_cert_for r serial t1 t2 (csr_template r serial t1 t2)"
  by (simp add: server_cert_for_def csr_template_def year_def key_usage_digital_signature_def
      key_usage_key_encipherment_def)

text \<open>
  Such a certificate is signed for a valid request only, over the request's public key and with
  the CA's key; what is answered is that certificate and the CA's.
\<close>

fun certificate_run :: "crypto \<Rightarrow> loader \<Rightarrow> string \<Rightarrow> signer_event list \<Rightarrow> err + rpc_result \<Rightarrow> bool" where
  "certificate_run C l pem [Serial (Inr serial), Clock t1, Clock t2, Signed tmpl ca pub key x] res \<longleftrightarrow>
     (\<exists>r. valid_csr C pem r \<and> server_cert_for r serial t1 t2 tmpl \<and> ca = ld_ca_cert l \<and>
        pub = cs_public_key r \<and> key = ld_ca_key l) \<and>
     (case x of
        Inl e \<Rightarrow> res = Inr (RpcError ''Internal'' (sign_error_text (Wrap ''sign certificate'' (Api e))))
      | Inr der \<Rightarrow> res = Inr (RpcCert (ld_ca_pem l) (cr_pem_encode C ''CERTIFICATE'' der)))"
| "certificate_run C l pem [Serial (Inl _)] res \<longleftrightarrow> (\<exists>r. valid_csr C pem r) \<and> (\<exists>m. res = Inr (RpcError ''Internal'' m))"
| "certificate_run C l pem [] res \<longleftrightarrow>
     (if pem = '''' then res = Inr (RpcError ''InvalidArgument'' ''empty CSR'')
      else (\<forall>r. \<not> valid_csr C pem r) \<and> (\<exists>m. res = Inr (RpcError ''Internal'' m)))"
| "certificate_run C l pem evs res \<longleftrightarrow> False"

lemma ret_laws: "bind (ret x) f = f x" "check msg (ret x) f = f x"
  by (rule ext, simp add: bind_def check_def attempt_def ret_def)+

lemma certificate_runs: "every_run (certificate E C l pem) (certificate_run C l pem)"
proof (cases "\<exists>r. valid_csr C pem r")
  case True
  then obtain block r where v: "cr_pem_decode C pem = Some block" "cr_parse_csr C block = Inr r" "cr_check_csr C r = None"
    and ex: "valid_csr C pem r" by (auto simp: valid_csr_def)
  have "sign_csr E C l pem =
     check ''generate serial'' (call_val (sg_serial E) Serial) (\<lambda>serial.
     bind (call (sg_clock E) Clock) (\<lambda>t1.
     bind (call (sg_clock E) Clock) (\<lambda>t2.
     check ''sign certificate''
       (call_val (sg_sign E (csr_template r serial t1 t2) (ld_ca_cert l) (cs_public_key r) (ld_ca_key l))
         (Signed (csr_template r serial t1 t2) (ld_ca_cert l) (cs_public_key r) (ld_ca_key l))) (\<lambda>der.
     ret (cr_pem_encode C ''CERTIFICATE'' der)))))"
    by (simp add: sign_csr_def pem_block_def v lift_sum_def lift_opt_def ret_laws Let_def)
  moreover have "certificate_run C l pem [Serial (Inl a)] (Inr (RpcError ''Internal'' m))" for a m
    using ex by auto
  moreover have "certificate_run C l pem [Serial (Inr serial), Clock t1, Clock t2,
      Signed (csr_template r serial t1 t2) (ld_ca_cert l) (cs_public_key r) (ld_ca_key l) (Inl e)]
      (Inr (RpcError ''Internal'' (sign_error_text (Wrap ''sign certificate'' (Api e)))))"
    "certificate_run C l pem [Serial (Inr serial), Clock t1, Clock t2,
      Signed (csr_template r serial t1 t2) (ld_ca_cert l) (cs_public_key r) (ld_ca_key l) (Inr der)]
      (Inr (RpcCert (ld_ca_pem l) (cr_pem_encode C ''CERTIFICATE'' der)))" for serial t1 t2 e der
    using ex csr_template_ok by auto
  moreover have "certificate_run C l [] [] (Inr (RpcError ''InvalidArgument'' ''empty CSR''))" by simp
  ultimately show ?thesis
    unfolding certificate_def
    by (cases "pem = []") (auto intro!: runs simp del: certificate_run.simps)
next
  case False
  have none: "every_run (sign_csr E C l pem) (\<lambda>evs x. evs = [] \<and> (\<exists>e. x = Inl e))"
  proof (cases "cr_pem_decode C pem")
    case None
    then show ?thesis by (auto simp: sign_csr_def pem_block_def intro!: runs)
  next
    case (Some block)
    show ?thesis
    proof (cases "cr_parse_csr C block")
      case (Inl a)
      with Some show ?thesis by (auto simp: sign_csr_def pem_block_def lift_sum_def intro!: runs)
    next
      case (Inr r)
      with Some False obtain a where "cr_check_csr C r = Some a" by (auto simp: valid_csr_def)
      with Some Inr show ?thesis by (auto simp: sign_csr_def pem_block_def lift_sum_def lift_opt_def intro!: runs)
    qed
  qed
  show ?thesis
    unfolding certificate_def
    by (rule every_run_if, rule every_run_ret, simp, rule every_run_attempt, rule every_run_mono [OF none])
      (use False in \<open>auto intro!: runs\<close>)
qed

text \<open>
  The Secret of a token, whose format the bootstrap authenticator of Kubernetes prescribes.
\<close>

definition secret_of_token :: "string \<Rightarrow> string \<Rightarrow> token_secret \<Rightarrow> bool" where
  "secret_of_token i s secret \<longleftrightarrow>
     ts_name secret = ''bootstrap-token-'' @ i \<and> ts_namespace secret = ''kube-system'' \<and>
     ts_type secret = ''bootstrap.kubernetes.io/token'' \<and>
     map_of (ts_string_data secret) = [''token-id'' \<mapsto> i, ''token-secret'' \<mapsto> s,
       ''usage-bootstrap-authentication'' \<mapsto> ''true'', ''usage-bootstrap-signing'' \<mapsto> ''true'',
       ''auth-extra-groups'' \<mapsto> ''system:bootstrappers:kubeadm:default-node-token'']"

lemma make_token_secret_ok: "secret_of_token i s (make_token_secret i s)"
  by (auto simp: secret_of_token_def make_token_secret_def token_secret_name_def fun_eq_iff)

text \<open>
  Ensuring the token reads its Secret first and creates it at most once, only when it is
  absent, with the two halves of the token; without an error the Secret is there.
\<close>

fun token_run :: "string \<Rightarrow> signer_event list \<Rightarrow> err + unit \<Rightarrow> bool" where
  "token_run token [] res \<longleftrightarrow> CHR ''.'' \<notin> set token \<and> res \<noteq> Inr ()"
| "token_run token [GetToken name x] res \<longleftrightarrow>
     (\<exists>i s. token = i @ ''.'' @ s \<and> CHR ''.'' \<notin> set i \<and> name = ''bootstrap-token-'' @ i) \<and>
     (case x of Inr _ \<Rightarrow> res = Inr () | Inl e \<Rightarrow> \<not> ae_not_found e \<and> res \<noteq> Inr ())"
| "token_run token [GetToken name (Inl e), CreateToken secret y] res \<longleftrightarrow> ae_not_found e \<and>
     (\<exists>i s. token = i @ ''.'' @ s \<and> CHR ''.'' \<notin> set i \<and> name = ''bootstrap-token-'' @ i \<and> secret_of_token i s secret) \<and>
     (res = Inr () \<longleftrightarrow> y = None)"
| "token_run token evs res \<longleftrightarrow> False"

lemma ensure_token_runs: "every_run (ensure_token E token) (token_run token)"
proof (cases "cut CHR ''.'' token")
  case None
  then have "CHR ''.'' \<notin> set token" by simp
  then have "token_run token [] (Inl e)" for e by simp
  with None show ?thesis
    by (auto simp: ensure_token_def numeral_2_eq_2 simp del: token_run.simps cut_None intro!: every_run_throw)
next
  case (Some p)
  obtain i s where p: "p = (i, s)" by (cases p)
  with Some have t: "token = i @ CHR ''.'' # s" "CHR ''.'' \<notin> set i" by (auto simp: cut_Some)
  have sp: "split_n CHR ''.'' 2 token = [i, s]"
    by (simp add: numeral_2_eq_2 Some p)
  have ex: "token_run token [GetToken (token_secret_name i) (Inr x)] (Inr ())"
    "\<not> ae_not_found a \<Longrightarrow> token_run token [GetToken (token_secret_name i) (Inl a)] (Inl e)"
    "ae_not_found a \<Longrightarrow>
       token_run token [GetToken (token_secret_name i) (Inl a), CreateToken (make_token_secret i s) None] (Inr ())"
    "ae_not_found a \<Longrightarrow>
       token_run token [GetToken (token_secret_name i) (Inl a), CreateToken (make_token_secret i s) (Some b)] (Inl e)"
    for x a b e
    using t make_token_secret_ok [of i s] by (auto simp: token_secret_name_def intro: exI [of _ i])
  show ?thesis
    unfolding ensure_token_def sp list.case
    by (auto intro!: runs every_run_if simp: ex simp del: token_run.simps)
qed

end
