(* ===== verification/ProviderId.thy ===== *)
theory ProviderId
  imports IpSync
begin

text \<open>
  The provider id setter, \<^verbatim>\<open>provider-id-setter/main.go\<close>: one run on a node reads the instance's
  metadata from the cloud and patches the Node with its provider id and instance type. The
  metadata service and the API server are calls; the JSON decoder is a parameter.
\<close>

section \<open>Data, calls and events\<close>

record nova_metadata =
  nm_uuid :: string
  nm_meta :: "string \<Rightarrow> string option"

record node =
  no_labels :: "string \<Rightarrow> string option"
  no_provider_id :: string

datatype pid_event =
    HttpGet string "api_err + nat \<times> (api_err + string)"
  | InClusterConfig "api_err option"
  | NewNodeClient string "api_err option"
  | GetNode string "api_err + node"
  | PatchNode string string "api_err option"

record 'w pid_env =
  pe_http :: "string \<Rightarrow> 'w \<Rightarrow> (api_err + nat \<times> (api_err + string)) \<times> 'w"
  pe_config :: "'w \<Rightarrow> api_err option \<times> 'w"
  pe_client :: "string \<Rightarrow> 'w \<Rightarrow> api_err option \<times> 'w"
  pe_node :: "string \<Rightarrow> 'w \<Rightarrow> (api_err + node) \<times> 'w"
  pe_patch :: "string \<Rightarrow> string \<Rightarrow> 'w \<Rightarrow> api_err option \<times> 'w"

definition imds_url :: string where
  "imds_url = ''http://169.254.169.254/openstack/latest/meta_data.json''"

definition instance_type_label :: string where
  "instance_type_label = ''node.kubernetes.io/instance-type''"

section \<open>The program\<close>

definition read_metadata ::
  "(string \<Rightarrow> api_err + nova_metadata) \<Rightarrow> nat \<times> (api_err + string) \<Rightarrow> ('w, pid_event, nova_metadata) io" where
  "read_metadata decode resp =
     (if fst resp \<noteq> 200 then throw (Msg (''status '' @ digits (fst resp)))
      else check ''reading body'' (lift_sum (snd resp)) (\<lambda>body.
           check ''parsing JSON'' (lift_sum (decode body)) ret))"

definition fetch_imds ::
  "'w pid_env \<Rightarrow> (string \<Rightarrow> api_err + nova_metadata) \<Rightarrow> ('w, pid_event, nova_metadata) io" where
  "fetch_imds E decode =
     check ''HTTP GET'' (call_val (pe_http E imds_url) (HttpGet imds_url)) (read_metadata decode)"

text \<open>The patch: \<^verbatim>\<open>labels\<close> is left out when empty.\<close>

definition node_patch :: "string \<Rightarrow> string option \<Rightarrow> string" where
  "node_patch provider_id label =
     CHR ''{'' # json_string ''metadata'' @ '':{'' @
       (case label of
          None \<Rightarrow> ''''
        | Some v \<Rightarrow> json_string ''labels'' @ '':{'' @ json_string instance_type_label @ '':'' @ json_string v @ ''}'')
     @ ''},'' @ json_string ''spec'' @ '':{'' @ json_string ''providerID'' @ '':'' @ json_string provider_id @ ''}}''"

definition provider_id_of :: "nova_metadata \<Rightarrow> string" where
  "provider_id_of m = ''openstack:///'' @ nm_uuid m"

definition already_labelled :: "node \<Rightarrow> bool" where
  "already_labelled n = (str_at (no_labels n) instance_type_label \<noteq> '''')"

definition patch_label :: "nova_metadata \<Rightarrow> node \<Rightarrow> string option" where
  "patch_label m n =
     (let it = str_at (nm_meta m) ''instance-type'' in
      if it \<noteq> '''' \<and> \<not> already_labelled n then Some it else None)"

definition patch_node :: "'w pid_env \<Rightarrow> string \<Rightarrow> nova_metadata \<Rightarrow> node \<Rightarrow> ('w, pid_event, nat) io" where
  "patch_node E name m n =
     (if no_provider_id n = provider_id_of m \<and> already_labelled n then ret 0
      else let patch = node_patch (provider_id_of m) (patch_label m n) in
        attempt (call_unit (pe_patch E name patch) (PatchNode name patch))
          (\<lambda>r. case r of Inl _ \<Rightarrow> ret 1 | Inr _ \<Rightarrow> ret 0))"

text \<open>\<open>main\<close>, with the environment variables as arguments; the answer is the exit code.\<close>

definition set_provider_id ::
  "'w pid_env \<Rightarrow> (string \<Rightarrow> api_err + nova_metadata) \<Rightarrow> string \<Rightarrow> string \<Rightarrow> ('w, pid_event, nat) io" where
  "set_provider_id E decode node_name override =
     (if node_name = '''' then ret 1
      else attempt (fetch_imds E decode) (\<lambda>r. case r of
          Inl _ \<Rightarrow> ret 0
        | Inr m \<Rightarrow>
            if nm_uuid m = '''' then ret 0
            else attempt (call_unit (pe_config E) InClusterConfig) (\<lambda>r. case r of
                Inl _ \<Rightarrow> ret 1
              | Inr _ \<Rightarrow> attempt (call_unit (pe_client E override) (NewNodeClient override)) (\<lambda>r. case r of
                    Inl _ \<Rightarrow> ret 1
                  | Inr _ \<Rightarrow> attempt (call_val (pe_node E node_name) (GetNode node_name)) (\<lambda>r. case r of
                        Inl _ \<Rightarrow> ret 1
                      | Inr n \<Rightarrow> patch_node E node_name m n)))))"

section \<open>The shape of a run\<close>

text \<open>
  The metadata the answer of the metadata service stands for, if any; the run after the Node
  has been read; and the whole run.
\<close>

definition metadata_of ::
  "(string \<Rightarrow> api_err + nova_metadata) \<Rightarrow> api_err + nat \<times> (api_err + string) \<Rightarrow> nova_metadata option" where
  "metadata_of decode x =
     (case x of
        Inr (status, Inr body) \<Rightarrow> if status \<noteq> 200 then None else (case decode body of Inl _ \<Rightarrow> None | Inr m \<Rightarrow> Some m)
      | _ \<Rightarrow> None)"

definition patched :: "string \<Rightarrow> nova_metadata \<Rightarrow> node \<Rightarrow> pid_event list \<Rightarrow> nat \<Rightarrow> bool" where
  "patched name m n evs code \<longleftrightarrow>
     (if no_provider_id n = provider_id_of m \<and> already_labelled n then evs = [] \<and> code = 0
      else \<exists>y. evs = [PatchNode name (node_patch (provider_id_of m) (patch_label m n)) y] \<and> (code = 0 \<longleftrightarrow> y = None))"

definition pid_shape ::
  "(string \<Rightarrow> api_err + nova_metadata) \<Rightarrow> string \<Rightarrow> string \<Rightarrow> pid_event list \<Rightarrow> err + nat \<Rightarrow> bool" where
  "pid_shape decode name override evs r \<longleftrightarrow> (\<exists>code. r = Inr code \<and>
     (if name = '''' then evs = [] \<and> code = 1
      else \<exists>x. case metadata_of decode x of
          None \<Rightarrow> evs = [HttpGet imds_url x] \<and> code = 0
        | Some m \<Rightarrow>
            if nm_uuid m = '''' then evs = [HttpGet imds_url x] \<and> code = 0
            else (\<exists>e. evs = [HttpGet imds_url x, InClusterConfig (Some e)] \<and> code = 1)
              \<or> (\<exists>e. evs = [HttpGet imds_url x, InClusterConfig None, NewNodeClient override (Some e)] \<and> code = 1)
              \<or> (\<exists>e. evs = [HttpGet imds_url x, InClusterConfig None, NewNodeClient override None, GetNode name (Inl e)] \<and> code = 1)
              \<or> (\<exists>n evs'. evs = [HttpGet imds_url x, InClusterConfig None, NewNodeClient override None, GetNode name (Inr n)] @ evs'
                   \<and> patched name m n evs' code)))"

lemma fetch_imds_runs:
  "every_run (fetch_imds E decode) (\<lambda>evs r. \<exists>x. evs = [HttpGet imds_url x] \<and>
     (case metadata_of decode x of None \<Rightarrow> \<exists>e. r = Inl e | Some m \<Rightarrow> r = Inr m))"
proof -
  have body: "every_run (read_metadata decode resp)
     (\<lambda>evs r. evs = [] \<and> (case metadata_of decode (Inr resp) of None \<Rightarrow> \<exists>e. r = Inl e | Some m \<Rightarrow> r = Inr m))" for resp
  proof (cases "fst resp = 200")
    case False
    then show ?thesis
      by (cases resp; cases "snd resp") (auto simp: metadata_of_def read_metadata_def intro!: runs)
  next
    case True
    then show ?thesis
      by (cases resp; cases "snd resp"; cases "decode (projr (snd resp))")
        (auto simp: metadata_of_def read_metadata_def lift_sum_def intro!: runs)
  qed
  show ?thesis
    unfolding fetch_imds_def
    by (rule every_run_check, rule every_run_call_val)
       (auto simp: metadata_of_def intro!: every_run_mono [OF body])
qed

lemma set_provider_id_shape: "every_run (set_provider_id E decode name override) (pid_shape decode name override)"
proof -
  have node: "every_run (patch_node E name m n) (\<lambda>evs r. \<exists>code. r = Inr code \<and> patched name m n evs code)" for n m
    by (auto simp: patch_node_def patched_def Let_def intro!: runs)
  have rest: "every_run (attempt (call_unit (pe_config E) InClusterConfig) (\<lambda>r. case r of
                Inl _ \<Rightarrow> ret 1
              | Inr _ \<Rightarrow> attempt (call_unit (pe_client E override) (NewNodeClient override)) (\<lambda>r. case r of
                    Inl _ \<Rightarrow> ret 1
                  | Inr _ \<Rightarrow> attempt (call_val (pe_node E name) (GetNode name)) (\<lambda>r. case r of
                        Inl _ \<Rightarrow> ret 1
                      | Inr n \<Rightarrow> patch_node E name m n))))
     (\<lambda>evs. pid_shape decode name override (HttpGet imds_url x # evs))"
    if "name \<noteq> []" "metadata_of decode x = Some m" "nm_uuid m \<noteq> []" for x m
    using that
    by (auto simp: pid_shape_def intro!: runs every_run_mono [OF node] exI [of _ x])
  have quiet: "pid_shape decode name override [HttpGet imds_url x] (Inr 0)"
    if "name \<noteq> []" "case metadata_of decode x of None \<Rightarrow> True | Some m \<Rightarrow> nm_uuid m = []" for x
    using that by (auto simp: pid_shape_def intro!: exI [of _ x] split: option.splits)
  have "pid_shape decode [] override [] (Inr 1)" by (simp add: pid_shape_def)
  then show ?thesis
    unfolding set_provider_id_def
    apply (intro every_run_if)
     apply (simp add: every_run_ret)
    apply (rule every_run_attempt, rule every_run_mono [OF fetch_imds_runs])
    apply (auto split: option.splits intro!: every_run_if every_run_ret quiet)
    subgoal for x y using rest [of x y] by simp
    done
qed

section \<open>What a run does\<close>

text \<open>
  What a run has learnt of its instance; a Node that already tells its instance and its type; and
  what a patch must set, read as JSON: the provider id, the label of the instance type where the
  Node has none and the metadata name one, and nothing else.
\<close>

definition learnt :: "(string \<Rightarrow> api_err + nova_metadata) \<Rightarrow> pid_event list \<Rightarrow> nova_metadata \<Rightarrow> bool" where
  "learnt decode evs m \<longleftrightarrow> nm_uuid m \<noteq> '''' \<and>
     (\<exists>body. HttpGet ''http://169.254.169.254/openstack/latest/meta_data.json'' (Inr (200, Inr body)) \<in> set evs \<and>
        decode body = Inr m)"

definition labelled :: "node \<Rightarrow> bool" where
  "labelled n \<longleftrightarrow> no_labels n ''node.kubernetes.io/instance-type'' \<notin> {None, Some ''''}"

definition settled :: "nova_metadata \<Rightarrow> node \<Rightarrow> bool" where
  "settled m n \<longleftrightarrow> no_provider_id n = ''openstack:///'' @ nm_uuid m \<and> labelled n"

definition sets_node :: "string \<Rightarrow> nova_metadata \<Rightarrow> node \<Rightarrow> bool" where
  "sets_node p m n \<longleftrightarrow> (\<exists>labels.
     json_of p = Some (JObj [(''metadata'', JObj labels),
       (''spec'', JObj [(''providerID'', JStr (''openstack:///'' @ nm_uuid m))])]) \<and>
     labels = (case nm_meta m ''instance-type'' of
         None \<Rightarrow> []
       | Some v \<Rightarrow> if v = '''' \<or> labelled n then []
           else [(''labels'', JObj [(''node.kubernetes.io/instance-type'', JStr v)])]))"

text \<open>A patch is the last call, of the Node the run is for, and only of a Node that needs it.\<close>

definition patch_due :: "(string \<Rightarrow> api_err + nova_metadata) \<Rightarrow> string \<Rightarrow> pid_event list \<Rightarrow> bool" where
  "patch_due decode name evs \<longleftrightarrow> (\<forall>pre node p y post. evs = pre @ PatchNode node p y # post \<longrightarrow> post = [] \<and> node = name \<and>
     (\<exists>m n. learnt decode pre m \<and> GetNode name (Inr n) \<in> set pre \<and> \<not> settled m n \<and> sets_node p m n))"

definition patch_tried :: "string \<Rightarrow> pid_event list \<Rightarrow> nat \<Rightarrow> bool" where
  "patch_tried name evs code \<longleftrightarrow> (\<exists>p y. PatchNode name p y \<in> set evs \<and> (code = 0 \<longleftrightarrow> y = None))"

fun pid_failed :: "pid_event \<Rightarrow> bool" where
  "pid_failed (HttpGet u x) = False"
| "pid_failed (InClusterConfig x) = (x \<noteq> None)"
| "pid_failed (NewNodeClient h x) = (x \<noteq> None)"
| "pid_failed (GetNode n x) = (\<exists>a. x = Inl a)"
| "pid_failed (PatchNode n p x) = (x \<noteq> None)"

definition pid_run ::
  "(string \<Rightarrow> api_err + nova_metadata) \<Rightarrow> string \<Rightarrow> pid_event list \<Rightarrow> err + nat \<Rightarrow> bool" where
  "pid_run decode name evs r \<longleftrightarrow> (\<exists>code. r = Inr code \<and> patch_due decode name evs \<and>
     (\<forall>m n. learnt decode evs m \<and> GetNode name (Inr n) \<in> set evs \<longrightarrow>
        (if settled m n then code = 0 else patch_tried name evs code)) \<and>
     (\<not> (\<exists>m. learnt decode evs m) \<longrightarrow>
        (\<forall>e\<in>set evs. \<exists>x. e = HttpGet ''http://169.254.169.254/openstack/latest/meta_data.json'' x)) \<and>
     (code = 0 \<longleftrightarrow> name \<noteq> '''' \<and> \<not> list_ex pid_failed evs))"

lemma sets_node_patch: "sets_node (node_patch (provider_id_of m) (patch_label m n)) m n"
proof -
  obtain k where k: "length (node_patch (provider_id_of m) (patch_label m n)) =
      Suc (Suc (Suc (Suc (Suc (Suc (Suc (Suc k)))))))"
    by (rule that [of "length (node_patch (provider_id_of m) (patch_label m n)) - 8"])
       (simp add: node_patch_def json_string_def)
  have label: "patch_label m n = (case nm_meta m ''instance-type'' of
      None \<Rightarrow> None | Some v \<Rightarrow> if v = '''' \<or> labelled n then None else Some v)"
    by (auto simp: patch_label_def already_labelled_def labelled_def str_at_def instance_type_label_def Let_def
        split: option.splits)
  show ?thesis
    unfolding sets_node_def json_of_def k
    by (auto simp: node_patch_def label provider_id_of_def instance_type_label_def read_json
        simp del: read_value.simps read_items.simps read_members.simps split: option.splits)
qed


lemma learnt_metadata: "learnt decode (HttpGet imds_url x # evs) m \<longleftrightarrow>
    nm_uuid m \<noteq> '''' \<and> (metadata_of decode x = Some m \<or> learnt decode evs m)"
  by (auto simp: learnt_def metadata_of_def imds_url_def split: sum.splits prod.splits if_splits)

lemma not_learnt [simp]: "\<not> learnt decode [] m" "learnt decode (InClusterConfig c # evs) m = learnt decode evs m"
  "learnt decode (NewNodeClient h c # evs) m = learnt decode evs m" "learnt decode (GetNode i n # evs) m = learnt decode evs m"
  "learnt decode (PatchNode i p y # evs) m = learnt decode evs m"
  by (auto simp: learnt_def)

lemma settled_patched: "settled m n \<longleftrightarrow> no_provider_id n = provider_id_of m \<and> already_labelled n"
  by (auto simp: settled_def provider_id_of_def already_labelled_def labelled_def str_at_def instance_type_label_def
      split: option.splits)

lemma pid_shape_run:
  assumes "pid_shape decode name override evs r"
  shows "pid_run decode name evs r"
proof -
  note run = pid_run_def patch_due_def patch_tried_def learnt_metadata append_eq_Cons_conv Cons_eq_append_conv settled_patched sets_node_patch
  show ?thesis
  proof (cases "name = ''''")
    case True
    with assms show ?thesis by (auto simp: pid_shape_def run)
  next
    case False
    with assms obtain x code where code: "r = Inr code"
      and x: "case metadata_of decode x of None \<Rightarrow> evs = [HttpGet imds_url x] \<and> code = 0
        | Some m \<Rightarrow> if nm_uuid m = '''' then evs = [HttpGet imds_url x] \<and> code = 0
            else (\<exists>e. evs = [HttpGet imds_url x, InClusterConfig (Some e)] \<and> code = 1)
              \<or> (\<exists>e. evs = [HttpGet imds_url x, InClusterConfig None, NewNodeClient override (Some e)] \<and> code = 1)
              \<or> (\<exists>e. evs = [HttpGet imds_url x, InClusterConfig None, NewNodeClient override None, GetNode name (Inl e)] \<and> code = 1)
              \<or> (\<exists>n evs'. evs = [HttpGet imds_url x, InClusterConfig None, NewNodeClient override None, GetNode name (Inr n)] @ evs'
                   \<and> patched name m n evs' code)"
      by (auto simp: pid_shape_def)
    show ?thesis
    proof (cases "\<exists>m. metadata_of decode x = Some m \<and> nm_uuid m \<noteq> ''''")
      case False
      with x have "evs = [HttpGet imds_url x]" "code = 0" by (auto split: option.splits if_splits)
      with False code \<open>name \<noteq> ''''\<close> show ?thesis by (auto simp: run imds_url_def)
    next
      case True
      then obtain m where m: "metadata_of decode x = Some m" "nm_uuid m \<noteq> ''''" by blast
      with x consider (stop) e where "evs = [HttpGet imds_url x, InClusterConfig (Some e)]" "code = 1"
        | (client) e where "evs = [HttpGet imds_url x, InClusterConfig None, NewNodeClient override (Some e)]" "code = 1"
        | (node) e where "evs = [HttpGet imds_url x, InClusterConfig None, NewNodeClient override None, GetNode name (Inl e)]" "code = 1"
        | (patch) n evs' where "evs = [HttpGet imds_url x, InClusterConfig None, NewNodeClient override None, GetNode name (Inr n)] @ evs'"
            "patched name m n evs' code"
        by auto
      then show ?thesis
      proof cases
        case patch
        then show ?thesis using m code \<open>name \<noteq> ''''\<close>
          by (cases "settled m n") (auto simp: run patched_def)
      qed (use m code \<open>name \<noteq> ''''\<close> in \<open>auto simp: run\<close>)
    qed
  qed
qed

lemma set_provider_id_runs: "every_run (set_provider_id E decode name override) (pid_run decode name)"
  by (rule every_run_mono [OF set_provider_id_shape]) (rule pid_shape_run)

end
