(* ===== verification/ApiProxy.thy ===== *)
theory ApiProxy
  imports Router
begin

text \<open>
  The tenant apiserver proxy, \<^verbatim>\<open>tenant-apiserver-proxy/main.go\<close>: its start and the handling of a
  connection. The network is an argument: whether a client's handshake succeeds, what listens at
  the upstream's address, and the bytes each side sends. Of TLS, the verification of the upstream
  and the choice of an application protocol are modelled as documented.
\<close>

section \<open>Addresses\<close>

text \<open>\<^verbatim>\<open>net.SplitHostPort\<close>: the host and the port, or an error.\<close>

definition last_index :: "char \<Rightarrow> string \<Rightarrow> nat option" where
  "last_index c s = (if c \<in> set s then Some (length s - 1 - length (takeWhile (\<lambda>x. x \<noteq> c) (rev s))) else None)"

definition first_index :: "char \<Rightarrow> string \<Rightarrow> nat option" where
  "first_index c s = (if c \<in> set s then Some (length (takeWhile (\<lambda>x. x \<noteq> c) s)) else None)"

definition split_rest :: "string \<Rightarrow> nat \<Rightarrow> string \<Rightarrow> nat \<Rightarrow> nat \<Rightarrow> string + string \<times> string" where
  "split_rest s i host j k =
     (if CHR ''['' \<in> set (drop j s) then Inl ''unexpected '[' in address''
      else if CHR '']'' \<in> set (drop k s) then Inl ''unexpected ']' in address''
      else Inr (host, drop (Suc i) s))"

definition split_host_port :: "string \<Rightarrow> string + string \<times> string" where
  "split_host_port s =
     (case last_index CHR '':'' s of
        None \<Rightarrow> Inl ''missing port in address''
      | Some i \<Rightarrow>
          if s ! 0 = CHR ''['' then
            (case first_index CHR '']'' s of
               None \<Rightarrow> Inl ''missing ']' in address''
             | Some e \<Rightarrow>
                 if Suc e = length s then Inl ''missing port in address''
                 else if Suc e = i then split_rest s i (take (e - 1) (drop 1 s)) 1 (Suc e)
                 else if s ! Suc e = CHR '':'' then Inl ''too many colons in address''
                 else Inl ''missing port in address'')
          else let host = take i s in
            if CHR '':'' \<in> set host then Inl ''too many colons in address''
            else split_rest s i host 0 0)"

section \<open>Application protocols\<close>

text \<open>
  The negotiation of \<^verbatim>\<open>crypto/tls\<close> on the server's side: the first of the server's protocols
  that the client offers; no protocol if one side names none, or an HTTP/2 server meets a
  client of HTTP/1.1.
\<close>

definition negotiate :: "string list \<Rightarrow> string list \<Rightarrow> string + string" where
  "negotiate server client =
     (if server = [] \<or> client = [] then Inr ''''
      else (case find (\<lambda>s. s \<in> set client) server of
          Some s \<Rightarrow> Inr s
        | None \<Rightarrow> if ''h2'' \<in> set server \<and> ''http/1.1'' \<in> set client then Inr ''''
                 else Inl ''tls: client requested unsupported application protocols''))"

definition next_protos :: "string list" where
  "next_protos = [''h2'', ''http/1.1'']"

section \<open>The process and its connections\<close>

text \<open>The fields of a \<^verbatim>\<open>tls.Config\<close> a client uses; one that is not set has its zero value.\<close>

record tls_config =
  tc_server_name :: string
  tc_root_cas :: "string list"
  tc_min_version :: nat
  tc_next_protos :: "string list"
  tc_insecure_skip_verify :: bool

definition version_tls12 :: nat where
  "version_tls12 = 0x0303"

datatype proxy_exit = ProxyExit nat | Proxying string tls_config

text \<open>
  \<open>pem\<close> is what the CA file holds, if it can be read; its certificates are those the pool
  takes from it.
\<close>

definition proxy_main :: "string \<Rightarrow> bool \<Rightarrow> string option \<Rightarrow> (string \<Rightarrow> string list) \<Rightarrow> bool \<Rightarrow> proxy_exit" where
  "proxy_main upstream cert_ok pem certs listen_ok =
     (if upstream = '''' then ProxyExit 2
      else (case split_host_port upstream of
          Inl _ \<Rightarrow> ProxyExit 2
        | Inr (host, _) \<Rightarrow>
            if \<not> cert_ok then ProxyExit 1
            else (case pem of
                None \<Rightarrow> ProxyExit 1
              | Some p \<Rightarrow>
                  if certs p = [] then ProxyExit 1
                  else if \<not> listen_ok then ProxyExit 1
                  else Proxying upstream \<lparr>tc_server_name = host, tc_root_cas = certs p,
                    tc_min_version = version_tls12, tc_next_protos = next_protos, tc_insecure_skip_verify = False\<rparr>)))"

text \<open>
  A client: whether its deadline can be set and its handshake succeeds, how many bytes it takes
  before writes to it fail, and the bytes it sends, those inside TLS. What an accept yields: a
  client, or an error with whether the listener is closed.
\<close>

record tls_client =
  tl_deadline_ok :: bool
  tl_handshake_ok :: bool
  tl_room :: "nat option"
  tl_conn :: conn

datatype proxy_accept = ProxyConn tls_client | ProxyError bool

fun accept_loop :: "proxy_accept list \<Rightarrow> tls_client list" where
  "accept_loop [] = []"
| "accept_loop (ProxyConn c # xs) = c # accept_loop xs"
| "accept_loop (ProxyError closed # xs) = (if closed then [] else accept_loop xs)"

definition whole :: "conn \<Rightarrow> peek_conn" where
  "whole c = \<lparr>pk_conn = c, pk_buf = [], pk_pos = 0\<rparr>"

text \<open>A connection; \<open>dial\<close> is the TLS connection to an address under a configuration.\<close>

definition handle_tls ::
  "(string \<Rightarrow> tls_config \<Rightarrow> upstream option) \<Rightarrow> string \<Rightarrow> tls_config \<Rightarrow> tls_client \<Rightarrow> action list" where
  "handle_tls dial upstream cfg c =
     (if \<not> tl_deadline_ok c then [ClosedClient]
      else if \<not> tl_handshake_ok c then [ClosedClient]
      else (case dial upstream cfg of
          None \<Rightarrow> [Dialled upstream, ClosedClient]
        | Some u \<Rightarrow> [Dialled upstream, SentUpstream (io_copy (up_room u) (whole (tl_conn c))), HalfClosedUpstream,
            SentClient (io_copy (tl_room c) (whole (up_conn u))), HalfClosedClient, ClosedUpstream, ClosedClient]))"

section \<open>TLS to the upstream\<close>

text \<open>
  \<^verbatim>\<open>crypto/tls\<close> on the client's side. A peer is what listens at an address: the names its
  certificate is valid for, the roots its chain leads to, its TLS version and protocols, and the
  connection it gives. \<^verbatim>\<open>tls.Dial\<close> verifies the name and the chain unless told to skip that; for an
  empty server name it takes the host of the address. No name in brackets is valid.
\<close>

record tls_peer =
  tp_names :: "string list"
  tp_roots :: "string list"
  tp_version :: nat
  tp_protos :: "string list"
  tp_upstream :: upstream

definition dialled_name :: "string \<Rightarrow> tls_config \<Rightarrow> string" where
  "dialled_name addr cfg =
     (if tc_server_name cfg \<noteq> '''' then tc_server_name cfg
      else (case last_index CHR '':'' addr of None \<Rightarrow> addr | Some i \<Rightarrow> take i addr))"

definition verified_peer :: "string \<Rightarrow> string list \<Rightarrow> tls_peer \<Rightarrow> bool" where
  "verified_peer name roots p \<longleftrightarrow>
     name \<noteq> '''' \<and> CHR ''['' \<notin> set name \<and> name \<in> set (tp_names p) \<and> list_ex (\<lambda>r. r \<in> set (tp_roots p)) roots"

definition tls_dial :: "(string \<Rightarrow> tls_peer option) \<Rightarrow> string \<Rightarrow> tls_config \<Rightarrow> upstream option" where
  "tls_dial net addr cfg =
     (case net addr of
        None \<Rightarrow> None
      | Some p \<Rightarrow>
          if (tc_insecure_skip_verify cfg \<or> verified_peer (dialled_name addr cfg) (tc_root_cas cfg) p) \<and>
             tc_min_version cfg \<le> tp_version p \<and> \<not> isl (negotiate (tp_protos p) (tc_next_protos cfg))
          then Some (tp_upstream p) else None)"

text \<open>The process: the exit code of a failed start, or what it does on each connection it accepts.\<close>

definition run_proxy ::
  "(string \<Rightarrow> tls_peer option) \<Rightarrow> string \<Rightarrow> bool \<Rightarrow> string option \<Rightarrow> (string \<Rightarrow> string list) \<Rightarrow> bool \<Rightarrow>
     proxy_accept list \<Rightarrow> nat + action list list" where
  "run_proxy net upstream cert_ok pem certs listen_ok accepts =
     (case proxy_main upstream cert_ok pem certs listen_ok of
        ProxyExit code \<Rightarrow> Inl code
      | Proxying u cfg \<Rightarrow> Inr (map (handle_tls (tls_dial net) u cfg) (accept_loop accepts)))"

section \<open>What the proxy does\<close>

lemma takeWhile_notin: "c \<notin> set xs \<Longrightarrow> takeWhile (\<lambda>x. x \<noteq> c) (xs @ c # ys) = xs"
  by (induction xs) auto

lemma last_index_append: "c \<notin> set ys \<Longrightarrow> last_index c (xs @ c # ys) = Some (length xs)"
  by (simp add: last_index_def takeWhile_notin)

lemma first_index_append: "c \<notin> set xs \<Longrightarrow> first_index c (xs @ c # ys) = Some (length xs)"
  by (simp add: first_index_def takeWhile_notin)

text \<open>A plain host and port, and a bracketed one, are split where they were joined.\<close>

definition plain :: "string \<Rightarrow> bool" where
  "plain s \<longleftrightarrow> CHR '':'' \<notin> set s \<and> CHR ''['' \<notin> set s \<and> CHR '']'' \<notin> set s"

lemma split_plain: "plain host \<Longrightarrow> plain port \<Longrightarrow> split_host_port (host @ '':'' @ port) = Inr (host, port)"
proof -
  assume p: "plain host" "plain port"
  let ?s = "host @ CHR '':'' # port"
  have li: "last_index CHR '':'' ?s = Some (length host)"
    by (rule last_index_append) (use p in \<open>simp add: plain_def\<close>)
  have hd: "?s ! 0 \<noteq> CHR ''[''"
    using p by (cases host) (auto simp: plain_def)
  show ?thesis
    using p hd by (simp add: plain_def split_host_port_def split_rest_def li)
qed

lemma split_bracketed:
  assumes "CHR ''['' \<notin> set host" "CHR '']'' \<notin> set host" "plain port"
  shows "split_host_port (''['' @ host @ '']:'' @ port) = Inr (host, port)"
proof -
  let ?s = "CHR ''['' # host @ CHR '']'' # CHR '':'' # port"
  have li: "last_index CHR '':'' ?s = Some (length host + 2)"
    using last_index_append [of "CHR '':''" port "CHR ''['' # host @ [CHR '']'']"] assms by (simp add: plain_def)
  have fi: "first_index CHR '']'' ?s = Some (length host + 1)"
    using first_index_append [of "CHR '']''" "CHR ''['' # host" "CHR '':'' # port"] assms by simp
  show ?thesis
    using assms by (simp add: plain_def split_host_port_def split_rest_def li fi)
qed

text \<open>A host and a port in the two forms of an address, and that exactly these are split.\<close>

definition host_port :: "string \<Rightarrow> string \<Rightarrow> string \<Rightarrow> bool" where
  "host_port s host port \<longleftrightarrow> plain port \<and>
     (s = host @ '':'' @ port \<and> plain host \<or>
      s = ''['' @ host @ '']:'' @ port \<and> CHR ''['' \<notin> set host \<and> CHR '']'' \<notin> set host)"

lemma last_indexD:
  assumes "last_index c s = Some i"
  shows "i < length s" "s = take i s @ c # drop (Suc i) s" "c \<notin> set (drop (Suc i) s)"
proof -
  from assms have "c \<in> set s" by (simp add: last_index_def split: if_splits)
  then obtain xs ys where s: "s = xs @ c # ys" "c \<notin> set ys" by (metis split_list_last)
  with assms have "i = length xs" by (simp add: last_index_append)
  with s show "i < length s" "s = take i s @ c # drop (Suc i) s" "c \<notin> set (drop (Suc i) s)" by simp_all
qed

lemma first_indexD:
  assumes "first_index c s = Some i"
  shows "i < length s" "s = take i s @ c # drop (Suc i) s" "c \<notin> set (take i s)"
proof -
  from assms have "c \<in> set s" by (simp add: first_index_def split: if_splits)
  then obtain xs ys where s: "s = xs @ c # ys" "c \<notin> set xs" by (metis split_list_first)
  with assms have "i = length xs" by (simp add: first_index_append)
  with s show "i < length s" "s = take i s @ c # drop (Suc i) s" "c \<notin> set (take i s)" by simp_all
qed

lemma split_host_portD:
  assumes "split_host_port s = Inr (host, port)"
  shows "host_port s host port"
proof -
  from assms obtain i where i: "last_index CHR '':'' s = Some i" by (auto simp: split_host_port_def split: option.splits)
  note li = last_indexD [OF i]
  show ?thesis
  proof (cases "s ! 0 = CHR ''[''")
    case False
    with assms i have r: "host = take i s" "port = drop (Suc i) s" "CHR '':'' \<notin> set host"
      "CHR ''['' \<notin> set s" "CHR '']'' \<notin> set s"
      by (auto simp: split_host_port_def split_rest_def Let_def split: if_splits)
    with li have "plain host" "plain port" by (auto simp: plain_def dest: in_set_takeD in_set_dropD)
    with r li show ?thesis by (simp add: host_port_def)
  next
    case True
    with assms i obtain e where e: "first_index CHR '']'' s = Some e" "Suc e = i"
      and r: "split_rest s i (take (e - 1) (drop 1 s)) 1 (Suc e) = Inr (host, port)"
      by (auto simp: split_host_port_def split: option.splits if_splits)
    note fi = first_indexD [OF e(1)]
    from r have h: "host = take (e - 1) (drop 1 s)" "port = drop (Suc i) s"
      "CHR ''['' \<notin> set (drop 1 s)" "CHR '']'' \<notin> set (drop (Suc e) s)"
      by (auto simp: split_rest_def split: if_splits)
    from li(1) True obtain t where s: "s = CHR ''['' # t" by (cases s) auto
    from fi(2) s obtain k where k: "e = Suc k" by (cases e) auto
    have "drop i s = CHR '':'' # port" using li h(2) by (metis Cons_nth_drop_Suc append_eq_conv_conj append_take_drop_id same_append_eq)
    with fi(2) e(2) have "s = take e s @ CHR '']'' # CHR '':'' # port" by simp
    then have s': "s = CHR ''['' # host @ CHR '']'' # CHR '':'' # port" using h(1) by (simp add: s k)
    have "CHR ''['' \<notin> set host" "CHR '']'' \<notin> set host"
      using h(1,3) fi(3) by (auto simp: s k dest: in_set_takeD)
    moreover have "plain port"
      using li(3) h set_drop_subset_set_drop [of e "Suc e" t]
      by (auto simp: plain_def s e(2) [symmetric] dest: in_set_dropD)
    ultimately show ?thesis using s' by (simp add: host_port_def)
  qed
qed

lemma split_host_port_iff: "split_host_port s = Inr (host, port) \<longleftrightarrow> host_port s host port"
  using split_host_portD split_plain split_bracketed by (auto simp: host_port_def)

text \<open>
  A peer the proxy may talk to: it listens at the upstream's address, its certificate is for the
  upstream's host and leads to a root of the CA file, and it speaks TLS 1.2 at least.
\<close>

definition trusted :: "(string \<Rightarrow> tls_peer option) \<Rightarrow> string \<Rightarrow> string list \<Rightarrow> tls_peer \<Rightarrow> bool" where
  "trusted net upstream roots p \<longleftrightarrow> net upstream = Some p \<and>
     (\<exists>host port. host_port upstream host port \<and> host \<noteq> '''' \<and> host \<in> set (tp_names p)) \<and>
     set roots \<inter> set (tp_roots p) \<noteq> {} \<and> 0x0303 \<le> tp_version p"

text \<open>What happens on the upstream's side of a connection and on the client's, each in order.\<close>

fun to_upstream :: "action \<Rightarrow> bool" where
  "to_upstream (SentClient bs) = False"
| "to_upstream HalfClosedClient = False"
| "to_upstream ClosedClient = False"
| "to_upstream a = True"

text \<open>
  A connection: the upstream is dialled only after the client's handshake; bytes go in either
  direction only with a trusted peer, and then both streams go whole, up to a failed write, and
  both write sides are closed; a trusted peer that agrees on a protocol is talked to; the client
  is closed in the end.
\<close>

definition served_by :: "tls_peer \<Rightarrow> tls_client \<Rightarrow> action list \<Rightarrow> bool" where
  "served_by p c acts \<longleftrightarrow> (\<exists>upstream.
     filter to_upstream acts = [Dialled upstream,
       SentUpstream (accepted (up_room (tp_upstream p)) (pending_bytes (tl_conn c))), HalfClosedUpstream, ClosedUpstream] \<and>
     filter (\<lambda>a. \<not> to_upstream a) acts =
       [SentClient (accepted (tl_room c) (pending_bytes (up_conn (tp_upstream p)))), HalfClosedClient, ClosedClient])"

definition tls_run ::
  "(string \<Rightarrow> tls_peer option) \<Rightarrow> string \<Rightarrow> string list \<Rightarrow> tls_client \<Rightarrow> action list \<Rightarrow> bool" where
  "tls_run net upstream roots c acts \<longleftrightarrow> acts \<noteq> [] \<and> last acts = ClosedClient \<and>
     (\<forall>a. Dialled a \<in> set acts \<longrightarrow> a = upstream \<and> tl_deadline_ok c \<and> tl_handshake_ok c) \<and>
     (\<forall>bs. SentUpstream bs \<in> set acts \<or> SentClient bs \<in> set acts \<longrightarrow>
        tl_deadline_ok c \<and> tl_handshake_ok c \<and> (\<exists>p. trusted net upstream roots p \<and> served_by p c acts)) \<and>
     (\<forall>p. tl_deadline_ok c \<and> tl_handshake_ok c \<and> trusted net upstream roots p \<and>
        \<not> isl (negotiate (tp_protos p) [''h2'', ''http/1.1'']) \<longrightarrow> served_by p c acts)"

text \<open>A start needs an upstream with a host and a port, the key pair, a CA and the listener.\<close>

definition proxy_run ::
  "(string \<Rightarrow> tls_peer option) \<Rightarrow> string \<Rightarrow> bool \<Rightarrow> string option \<Rightarrow> (string \<Rightarrow> string list) \<Rightarrow> bool \<Rightarrow>
     proxy_accept list \<Rightarrow> nat + action list list \<Rightarrow> bool" where
  "proxy_run net upstream cert_ok pem certs listen_ok accepts r \<longleftrightarrow>
     (let startable = (\<exists>host port. host_port upstream host port) \<and> cert_ok \<and> listen_ok \<and>
            (\<exists>text. pem = Some text \<and> certs text \<noteq> [])
      in case r of
           Inl code \<Rightarrow> \<not> startable \<and> (code = 2 \<longleftrightarrow> \<not> (\<exists>host port. host_port upstream host port)) \<and> code \<in> {1, 2}
         | Inr acts \<Rightarrow> startable \<and> list_all2 (tls_run net upstream (certs (the pem))) (accept_loop accepts) acts)"

lemma handle_tls_run:
  assumes "tc_server_name cfg = host" "tc_root_cas cfg = roots" "tc_min_version cfg = version_tls12"
    and "tc_next_protos cfg = next_protos" "\<not> tc_insecure_skip_verify cfg" "host_port upstream host port"
  shows "tls_run net upstream roots c (handle_tls (tls_dial net) upstream cfg c)"
proof -
  have name: "verified_peer (dialled_name upstream cfg) roots p \<longleftrightarrow> host \<noteq> '''' \<and> verified_peer host roots p" for p
  proof (cases "host = ''''")
    case True
    with assms(6) have "upstream = CHR '':'' # port \<and> plain port \<or> upstream = ''[]'' @ CHR '':'' # port \<and> plain port"
      by (auto simp: host_port_def)
    then have "dialled_name upstream cfg = '''' \<or> dialled_name upstream cfg = ''[]''"
      using last_index_append [of "CHR '':''" port "''''"] last_index_append [of "CHR '':''" port "''[]''"] True assms(1)
      by (auto simp: dialled_name_def plain_def)
    with True show ?thesis by (auto simp: verified_peer_def)
  qed (simp add: dialled_name_def assms(1))
  have host: "CHR ''['' \<notin> set host" using assms(6) by (auto simp: host_port_def plain_def)
  have unique: "host_port upstream h q \<Longrightarrow> h = host" for h q
    using assms(6) by (simp flip: split_host_port_iff)
  have dial: "tls_dial net upstream cfg = Some u \<longleftrightarrow> (\<exists>p. trusted net upstream roots p \<and>
      \<not> isl (negotiate (tp_protos p) [''h2'', ''http/1.1'']) \<and> u = tp_upstream p)" for u
  proof -
    have "trusted net upstream roots p \<longleftrightarrow> net upstream = Some p \<and> host \<noteq> '''' \<and> verified_peer host roots p \<and> 0x0303 \<le> tp_version p" for p
    proof -
      have "(\<exists>h q. host_port upstream h q \<and> h \<noteq> '''' \<and> h \<in> N) \<longleftrightarrow> host \<noteq> '''' \<and> host \<in> N" for N
        using assms(6) unique by blast
      with host show ?thesis by (auto simp: trusted_def verified_peer_def list_ex_iff)
    qed
    with assms(1-5) show ?thesis
      by (auto simp: tls_dial_def name version_tls12_def next_protos_def split: option.splits)
  qed
  have dialled: "trusted net upstream roots p \<Longrightarrow> \<not> isl (negotiate (tp_protos p) [''h2'', ''http/1.1'']) \<Longrightarrow>
      tls_dial net upstream cfg \<noteq> None" for p
    using dial by blast
  show ?thesis
  proof (cases "tl_deadline_ok c \<and> tl_handshake_ok c")
    case False
    then have "handle_tls (tls_dial net) upstream cfg c = [ClosedClient]" by (auto simp: handle_tls_def)
    with False show ?thesis by (auto simp: tls_run_def)
  next
    case True
    show ?thesis
    proof (cases "tls_dial net upstream cfg")
      case None
      with True have "handle_tls (tls_dial net) upstream cfg c = [Dialled upstream, ClosedClient]"
        by (simp add: handle_tls_def)
      with True None show ?thesis by (auto simp: tls_run_def dest: dialled)
    next
      case (Some u)
      then obtain p where p: "trusted net upstream roots p" "u = tp_upstream p" using dial by blast
      have "served_by p c (handle_tls (tls_dial net) upstream cfg c)"
        using True Some p(2)
        by (auto simp: handle_tls_def served_by_def io_copy_bytes whole_def accepted_def peek_bytes_def split: option.splits)
      moreover have "q = p" if "trusted net upstream roots q" for q
        using that p(1) by (simp add: trusted_def)
      moreover have "handle_tls (tls_dial net) upstream cfg c \<noteq> []" "last (handle_tls (tls_dial net) upstream cfg c) = ClosedClient"
        "Dialled a \<in> set (handle_tls (tls_dial net) upstream cfg c) \<Longrightarrow> a = upstream" for a
        using True Some by (simp_all add: handle_tls_def)
      ultimately show ?thesis
        using True p(1) unfolding tls_run_def by blast
    qed
  qed
qed

lemma split_empty [simp]: "split_host_port [] = Inl ''missing port in address''"
  by (simp add: split_host_port_def last_index_def)

lemma proxy_main_starts:
  "proxy_main upstream cert_ok pem certs listen_ok = Proxying u cfg \<longleftrightarrow>
     u = upstream \<and> cert_ok \<and> listen_ok \<and> (\<exists>host port text. host_port upstream host port \<and> pem = Some text \<and>
       certs text \<noteq> [] \<and> cfg = \<lparr>tc_server_name = host, tc_root_cas = certs text, tc_min_version = version_tls12,
         tc_next_protos = next_protos, tc_insecure_skip_verify = False\<rparr>)"
  by (auto simp: proxy_main_def simp flip: split_host_port_iff split: sum.splits option.splits)

lemma run_proxy_runs:
  "proxy_run net upstream cert_ok pem certs listen_ok accepts (run_proxy net upstream cert_ok pem certs listen_ok accepts)"
proof (cases "proxy_main upstream cert_ok pem certs listen_ok")
  case (ProxyExit code)
  then show ?thesis
    by (auto simp: proxy_run_def run_proxy_def proxy_main_def Let_def simp flip: split_host_port_iff
        split: sum.splits option.splits if_splits)
next
  case (Proxying u cfg)
  note start = Proxying [unfolded proxy_main_starts]
  then obtain host port t where "host_port upstream host port" "pem = Some t" "tc_root_cas cfg = certs t"
    "tc_server_name cfg = host" "tc_min_version cfg = version_tls12" "tc_next_protos cfg = next_protos"
    "\<not> tc_insecure_skip_verify cfg" by auto
  then have "list_all2 (tls_run net upstream (certs t)) xs (map (handle_tls (tls_dial net) upstream cfg) xs)" for xs
    by (simp add: list_all2_conv_all_nth handle_tls_run)
  with start \<open>pem = Some t\<close> show ?thesis
    unfolding proxy_run_def run_proxy_def Proxying by auto
qed

end
