(* ===== verification/Spec2Isabelle.thy ===== *)
theory Spec2Isabelle
  imports Startup Requeue SimRuin SharedGroup Wakeups EdgeMain CsrSigner ProviderId ApiProxy
begin

text \<open>
  \<^bold>\<open>kubernetes-switchcloud\<close> runs tenant Kubernetes clusters on an OpenStack cloud. Its Go programs
  are modelled here, each from its source, with the theorems that make it correct.

  \<^bold>\<open>The programs.\<close> The load balancer controller (\<^verbatim>\<open>loadbalancer-controller/\<close>) gives every Service
  of type LoadBalancer of every tenant cluster an Octavia balancer, a floating IP and security
  group rules, and takes them away again. A session manager keeps one session per tenant
  kubeconfig; a session's worker runs the Service reconciler on the requests of its queue; a watch
  on the tenants' configuration fills the queues; the cluster reconciler and a periodic sweep
  remove what a deleted cluster leaves behind. The edge router (\<^verbatim>\<open>talos-edge-router/\<close>) forwards TLS
  connections by their server name to the backends its table of Services gives, and keeps the
  external addresses of its own Service in step with the nodes. The CSR signer
  (\<^verbatim>\<open>talos-csr-signer/\<close>), the provider id setter (\<^verbatim>\<open>provider-id-setter/\<close>) and the apiserver proxy
  (\<^verbatim>\<open>tenant-apiserver-proxy/\<close>) are small programs beside the clusters.

  \<^bold>\<open>The theories.\<close>
  \<^item> Prelude: Go's string functions, decimal printing, quoting, maps as association lists ranged over
    in an order chosen by a seed. Cidr: the prefixes of \<^verbatim>\<open>net/netip\<close>, parsed, masked and printed.
  \<^item> Effects: programs over a traced world. A remote call is a function of an environment and an
    event of the trace; nothing is assumed of it. \<open>wp\<close> and \<open>every_run\<close> are the two program logics,
    \<open>emits\<close>, \<open>keeps\<close> and \<open>yields\<close> the judgements on traces built from them.
  \<^item> Cloud, Calls: the records of OpenStack and Kubernetes objects the code reads and writes, the
    remote operations it calls, and their events.
  \<^item> Naming (\<^verbatim>\<open>ServiceLBName\<close>, \<^verbatim>\<open>parseServiceFromTag\<close> and the other name schemes), SecurityGroup
    (\<^verbatim>\<open>securitygroup.go\<close>), Network (\<^verbatim>\<open>auth.go\<close>, \<^verbatim>\<open>floatingip.go\<close>, \<^verbatim>\<open>network.go\<close>), PortAttach
    (\<^verbatim>\<open>portattach.go\<close>), LoadBalancer (\<^verbatim>\<open>loadbalancer.go\<close>), Sweep (\<^verbatim>\<open>sweep.go\<close>), KscResolve
    (\<^verbatim>\<open>ksc/resolve.go\<close>): one definition per Go function, in the order of the source.
  \<^item> ServiceController (\<^verbatim>\<open>service_controller.go\<close>), ClusterController (\<^verbatim>\<open>cluster_controller.go\<close> and
    the sweeper of \<^verbatim>\<open>cmd/main.go\<close>), Startup (the rest of \<^verbatim>\<open>cmd/main.go\<close>).
  \<^item> Session (\<^verbatim>\<open>session.go\<close>), Manager (\<^verbatim>\<open>manager.go\<close>, \<^verbatim>\<open>ksc_watcher.go\<close>): the map of sessions, a
    pass over it as a program, and its interleavings as a step relation. Wakeups: the event loop of
    \<^verbatim>\<open>Start\<close> over Secrets that change while a pass runs.
  \<^item> Requeue: the delay a reconcile of a Service asks for, and what the run must have seen for it.
  \<^item> Converge: the view of one balancer that its listeners, pools and members make, what an Octavia
    call does to it, and the cost that every pass brings down. CloudLaws: the documented behaviour of
    the API server, Octavia and Neutron as laws of a view of one Service's world, and a rule for each
    call under them. Wiring: the worker group and the worker ports under the laws. Passes: repeated
    passes with Octavia at work in between, the rule of a variant, and a rule for each larger step of
    a pass. Provision and Teardown: a Service is served, and is taken down. ClusterDown: a deleted
    cluster is swept until nothing of it is left. Sim: clouds held in
    memory, with a balancer that is busy after every change; SimLaws: they keep all the laws at once,
    so that the witnesses run on them; SimRuin: and those of a deleted cluster.
  \<^item> Tracks, Sparing, Coexist: the sweeper in a world that tells it the truth. Tracks turns a
    property of traces (every deletion has its evidence) into one of the world (what true answers
    protect is not deleted); Sparing applies it to a tick of the sweeper and what a live Service
    holds; Coexist lets such ticks run between the passes of Provision. SimSweep: the clouds of Sim
    keep these laws too. SharedGroup: the Services of a cluster over their one security group.
  \<^item> Json: the strings \<^verbatim>\<open>json.Marshal\<close> writes, and a reader of JSON that the patches of IpSync and
    ProviderId are judged by.
  \<^item> SniPeek (\<^verbatim>\<open>peek.go\<close>), Router (\<^verbatim>\<open>router.go\<close>), IpSync (\<^verbatim>\<open>ipsync.go\<close>), EdgeMain (\<^verbatim>\<open>main.go\<close>) of the
    edge router.
  \<^item> CsrSigner, ProviderId, ApiProxy: the three small programs.

  \<^bold>\<open>State and operations.\<close> A Go struct is a record with the source's fields, a map an association
  list, a pair of a value and an error a sum with the error on the left. \<^verbatim>\<open>errors.Wrap\<close> and
  \<^verbatim>\<open>fmt.Errorf\<close> with \<^verbatim>\<open>%w\<close> keep the chain of errors, which \<^verbatim>\<open>IsNotFound\<close> inspects. A function that
  calls the outside world takes the environment of its calls, so its theorems hold whatever the
  clusters, OpenStack and the network answer. Bytes of the TLS parser are 8-bit words and every
  index and slice can fail, so that its theorems show that none does.

  \<^bold>\<open>What the lemmas show.\<close> Safety of the reconcilers is a statement on every run's trace: each
  change is justified by what was read before it (\<open>just\<close>, \<open>yields\<close>). Liveness needs a world that
  answers: under the laws of CloudLaws (\<open>cloud_laws\<close>), with the tenant's object, credentials and
  networks standing still (\<open>config_stands\<close>, \<open>networks_stand\<close>), the passes of the whole reconciler
  reach \<open>served\<close> or \<open>torn_down\<close>, from every state in which the Service's parts are sound (\<open>tended\<close>,
  \<open>falling\<close>): the balancer may be absent, pending, or half built, the security group missing, the
  rules those of an older Service. The laws let Octavia answer a conflict whenever the balancer is
  not active and leave open how long, up to a bound, it stays so. A balancer in ERROR is outside
  them: the code reports it and does not repair it. So is a rule of another owner that matches the
  packets of a wanted one (\<open>rules_clash\<close>): Neutron refuses the create, and the code gives up. When
  that owner is another Service of the cluster, which wants the rule no longer, the clash passes
  (\<open>node_ports_hand_over\<close>).
  Clusters end the same way: under \<open>ruin_laws\<close>, which view all balancers, floating IPs and groups of
  a project at once, the passes of the cluster reconciler reach \<open>cluster_gone\<close>.
  The loops of the controller are composed where they meet: what the reconciler has built up at any
  moment is a holding that a tick of the sweeper respects (\<open>sweep_laws\<close>, \<open>undisturbed\<close>), under
  the condition that listings name things as the reconciler named them. The condition is on the
  calls of a tick, with whatever other actors do between them; the passes of the reconciler and
  the ticks themselves alternate.
  The interfaces are locales, interpreted on the model: the parsers of names against
  their printers (Naming), the sessions' worker against the reconciler's contract (Session), the
  router against a table of offers (Router). The step relations (\<open>mgr_step\<close>, \<open>watch_step\<close>, \<open>sync_step\<close>) carry
  invariants by rule induction.

  Where a program builds an object or a text, the statement spells out what it must be, apart from
  the definition that builds it: patches are read as JSON (\<open>sets_ips\<close>, \<open>sets_node\<close>), a certificate
  and a token Secret are described field by field (\<open>server_cert_for\<close>, \<open>secret_of_token\<close>), and
  the apiserver proxy is judged by the peers that TLS lets it talk to (\<open>trusted\<close>).

  \<^bold>\<open>Bounds and fuel.\<close> A reconcile makes one step at a time; \<open>passes n\<close> is n requests of a Service,
  each run to its end, with a round of Octavia's work after each. \<open>cost\<close> counts the changes a
  balancer's state needs, \<open>budget\<close>, \<open>down_budget\<close> and \<open>ruin_budget\<close> the passes that are left with K rounds of waiting
  after each change, so the bounds of \<open>provisioning_converges\<close>, \<open>teardown_completes\<close> and
  \<open>cluster_deletion_completes\<close> are enough by proof. That each of those requests is made is what \<open>reconcile_requeues\<close> says: a pass asks for the
  next one, or has changed the Service, which is an event of its own. \<open>run_worker\<close>, \<open>wake_loop\<close>, \<open>token_loop\<close> and \<open>run_orphan_sweeper\<close> are loops until
  the process ends: their number argument is how many iterations the context lives for, and their
  theorems hold for every number. Every other loop is total: the scans of the TLS parser, the reads
  of a connection and the copy of a stream end by the measures given with them.

  \<^bold>\<open>Abstractions.\<close> \<^verbatim>\<open>strings.ToLower\<close>, \<^verbatim>\<open>TrimSpace\<close>, \<^verbatim>\<open>%q\<close> and \<^verbatim>\<open>json.Marshal\<close> are their ASCII part. Log
  calls are left out. A paged listing is the pages it answers. Goroutines of one phase of a session
  pass run one after the other in an arbitrary order, except in the step relation, where passes
  interleave. The two directions of a proxied connection are given one after the other; they share
  no state. A slice expression may not reach beyond the length, which is stricter than Go. The YAML
  and JSON decoders and cryptography are parameters. TLS is the outcome of a client's handshake, and
  towards the upstream the verification that \<^verbatim>\<open>crypto/tls\<close> documents: name, chain, version and
  protocol (\<open>tls_dial\<close>). The text netip gives a CIDR that does not
  parse is left out.

  \<^bold>\<open>Not modelled.\<close> Flag parsing, logging, the registration of watches with the controller library
  and the wiring of the gRPC server have no behaviour beyond the call; the caches and queues of
  client-go are behind the environment. Helm charts, CRDs, patches of third-party software, CI and
  tests are not program logic of the repository.

  \<^bold>\<open>Further work.\<close> Ticks of the sweeper in the middle of a pass of the reconciler, and Octavia at work
  during a tick; the take-down of a Service beside the sweeper, which removes the same things.
\<close>

section \<open>The Service reconciler\<close>

text \<open>
  C1: whatever the clusters and OpenStack answer, a reconcile of a Service reads it first and
  leaves a Service it has no claim on alone. It creates or attaches cloud resources only for
  a LoadBalancer Service that carries its finalizer, is not being deleted, and whose tenant's
  HelmRelease, and that of no other name, it has seen alive. It removes its own finalizer and no
  other, and only in three cases: an answer that the tenant's object or its HelmRelease is gone or
  the HelmRelease is going; a listing that shows no load balancer of the Service; or an answer
  that the credentials Secret which the tenant's object names does not exist. In the last case the
  tenant may be alive and the load balancer may stand, and is leaked (missing_secret_leaks). The
  reconciler publishes only a non-empty address, and clears the status only after such a listing.
\<close>

theorem reconcile_safe:
  "every_run (reconcile E L tenant ns name) (reconcile_run tenant ns name)"
  by (rule reconcile_runs)

section \<open>The life of a Service\<close>

text \<open>
  C2: a Service that wants a balancer is served in the end. Against API servers and an OpenStack
  that keep their documented laws, Octavia refusing changes while it is busy and busy for at most
  K rounds after each, more passes of the reconciler than a bound computed from the state bring
  it there: its balancer is active, with one listener per port, a pool behind each whose members
  are exactly the worker addresses, and no other listener; the worker group is there, the worker
  ports carry it and it has exactly the NodePort rules of the Service; the Service carries the
  finalizer, and its ingress the address of the balancer or of its floating IP. From then on
  every pass answers the resync delay and leaves the Service served.
\<close>

theorem provisioning_converges:
  assumes "cloud_laws E c tenant ns name (cf_vip_net cfg) K tick V"
    and "config_stands E L tenant cfg c x V" and "networks_stand E cfg c subnet ips enet x V"
    and "wants_lb ns name cfg svc" and "tended tenant cfg svc x (V (world s))"
    and "budget K svc ips subnet (V (world s)) + 1 < n"
  shows "wp (passes n tick (reconcile E L tenant ns name)) (\<lambda>_ s'.
     served tenant cfg svc subnet ips enet (V (world s')) \<and>
     wp (reconcile E L tenant ns name) (\<lambda>r s''. r = Inr member_resync_after \<and>
        served tenant cfg svc subnet ips enet (V (world s''))) s') s"
  using assms by (rule provisioning)

definition sim_lb_name :: string where
  "sim_lb_name = service_lb_name ''t1'' ''default'' ''web''"

definition sim_fresh :: sim where
  "sim_fresh = sim0\<lparr>sim_svc := Some sim_service, sim_groups := [\<lparr>sg_id = ''d'', sg_name = ''default''\<rparr>],
     sim_port_sgs := (\<lambda>_. [''d'']), sim_site := sim_tenant_site '''' ''''\<rparr>"

lemma sim_laws_t1: "cloud_laws sim_env c ''t1'' ''default'' ''web'' net 1 sim_tick (sim_life sim_lb_name)"
  by (simp only: sim_lb_name_def sim_laws)

lemma sim_wanted: "wants_lb ''default'' ''web'' (sim_config '''' '''') sim_service"
  by (simp add: wants_lb_def sim_service_def sim_config_def supported_protocol_def)

lemma sim_fresh_tended:
  "tended ''t1'' (sim_config '''' '''') sim_service (sim_tenant_site '''' '''') (sim_life n sim_fresh)"
proof -
  have "is_service sim_service (sim_life n sim_fresh)" by (rule is_serviceI(3)) (simp add: sim_life_def sim_fresh_def sim0_def)
  then show ?thesis
    by (simp add: tended_def tagged_def intact_def lb_sound_def addresses_ok_def groups_ok_def rules_fine_def worker_group_def cluster_group_def)
       (simp add: sim_life_def sim_fresh_def sim0_def of_key_def sim_config_def cluster_sg_name_def cluster_sg_name_prefix_def)
qed

theorem provisioning_converges_witness:
  "wp (passes 11 sim_tick (reconcile sim_env sim_lib ''t1'' ''default'' ''web'')) (\<lambda>_ s'.
     served ''t1'' (sim_config '''' '''') sim_service ''sub4'' [''10.0.0.11''] ''ext'' (sim_life sim_lb_name (world s')) \<and>
     wp (reconcile sim_env sim_lib ''t1'' ''default'' ''web'') (\<lambda>r s''. r = Inr member_resync_after \<and>
        served ''t1'' (sim_config '''' '''') sim_service ''sub4'' [''10.0.0.11''] ''ext'' (sim_life sim_lb_name (world s''))) s')
     (sim_start sim_fresh)"
proof (rule provisioning_converges [OF sim_laws_t1 sim_stands sim_wanted])
  show "tended ''t1'' (sim_config '''' '''') sim_service (sim_tenant_site '''' '''')
      (sim_life sim_lb_name (world (sim_start sim_fresh)))"
    by (simp add: sim_start_def sim_fresh_tended)
  show "budget 1 sim_service [''10.0.0.11''] ''sub4'' (sim_life sim_lb_name (world (sim_start sim_fresh))) + 1 < 11"
    by (simp add: sim_start_def sim_life_def sim_fresh_def sim0_def budget_def lb_budget_def build_cost_def claimed_def
        sim_service_def)
qed

text \<open>
  C3: the orphan sweeper does not stand in the way of a Service that is being built up. Let a tick
  of the sweeper run after every pass of the reconciler, over clouds that tell it the truth: they
  list the Service's balancer under its name, its floating IP under its tag, its worker group
  under the cluster's name and its HelmRelease alive, the API server of its cluster does not deny
  the Service, and a deletion of something else leaves its parts as they are. Then the Service
  is served within the same bound on the number of passes as without a sweeper, at whatever stage
  of the build-up the ticks find it, and stays so.
\<close>

theorem provisioning_survives_sweeps:
  assumes "cloud_laws E c tenant ns name (cf_vip_net cfg) K tick V"
    and "config_stands E L tenant cfg c x V" and "networks_stand E cfg c subnet ips enet x V"
    and "\<And>v. tended tenant cfg svc x v \<Longrightarrow>
       sweep_laws E live (holding_of tenant cfg svc nodes v) (\<lambda>w. undisturbed tenant cfg svc ips v (V w))"
    and "wants_lb ns name cfg svc" and "tag_ok (tenant, ns, name)" and "tended tenant cfg svc x (V (world s))"
    and "budget K svc ips subnet (V (world s)) + 1 < n"
  shows "wp (passes n (\<lambda>w. tick (after_sweep E L live w)) (reconcile E L tenant ns name)) (\<lambda>_ s'.
     served tenant cfg svc subnet ips enet (V (world s')) \<and>
     wp (reconcile E L tenant ns name) (\<lambda>r s''. r = Inr member_resync_after \<and>
        served tenant cfg svc subnet ips enet (V (world s''))) s') s"
  by (rule provisioning_swept [OF assms])

text \<open>The clouds hold a floating IP and a group of a cluster that is gone.\<close>

definition sim_littered :: "sim \<Rightarrow> sim" where
  "sim_littered w = w\<lparr>sim_groups := sim_groups w @ [\<lparr>sg_id = ''o'', sg_name = cluster_sg_name ''dead''\<rparr>],
     sim_fips := sim_fips w @ [(''p'', \<lparr>fp_id = ''q'', fp_addr = ''203.0.113.9'', fp_desc = ''cozystack:dead/default/web''\<rparr>)]\<rparr>"

lemma sim_littered_tended:
  "tended ''t1'' (sim_config '''' '''') sim_service (sim_tenant_site '''' '''') (sim_life n (sim_littered sim_fresh))"
proof -
  have "is_service sim_service (sim_life n (sim_littered sim_fresh))"
    by (rule is_serviceI(3)) (simp add: sim_life_def sim_littered_def sim_fresh_def sim0_def)
  then show ?thesis
    by (simp add: tended_def tagged_def intact_def lb_sound_def addresses_ok_def groups_ok_def rules_fine_def worker_group_def cluster_group_def)
       (simp add: sim_life_def sim_littered_def sim_fresh_def sim0_def of_key_def sim_config_def cluster_sg_name_def cluster_sg_name_prefix_def)
qed

theorem provisioning_survives_sweeps_witness:
  "wp (passes 11 (\<lambda>w. sim_tick (after_sweep sim_env sim_lib sim_live w)) (reconcile sim_env sim_lib ''t1'' ''default'' ''web'')) (\<lambda>_ s'.
     served ''t1'' (sim_config '''' '''') sim_service ''sub4'' [''10.0.0.11''] ''ext'' (sim_life sim_lb_name (world s')) \<and>
     wp (reconcile sim_env sim_lib ''t1'' ''default'' ''web'') (\<lambda>r s''. r = Inr member_resync_after \<and>
        served ''t1'' (sim_config '''' '''') sim_service ''sub4'' [''10.0.0.11''] ''ext'' (sim_life sim_lb_name (world s''))) s')
     (sim_start (sim_littered sim_fresh))"
proof (rule provisioning_survives_sweeps [OF sim_laws_t1 sim_stands _ sim_wanted, where nodes = "{}"])
  have tag: "sim_lb_name = svc_tag ''t1'' sim_service" by (simp add: sim_lb_name_def svc_tag_def sim_service_def)
  show "sweep_laws sim_env sim_live (holding_of ''t1'' (sim_config '''' '''') sim_service {} v)
      (\<lambda>w. undisturbed ''t1'' (sim_config '''' '''') sim_service [''10.0.0.11''] v (sim_life sim_lb_name w))"
    if "tended ''t1'' (sim_config '''' '''') sim_service (sim_tenant_site '''' '''') v" for v
    by (rule sim_sweep_laws [OF that tag])
  show "tended ''t1'' (sim_config '''' '''') sim_service (sim_tenant_site '''' '''')
      (sim_life sim_lb_name (world (sim_start (sim_littered sim_fresh))))"
    by (simp add: sim_start_def sim_littered_tended)
  show "budget 1 sim_service [''10.0.0.11''] ''sub4'' (sim_life sim_lb_name (world (sim_start (sim_littered sim_fresh)))) + 1 < 11"
    by (simp add: sim_start_def sim_life_def sim_littered_def sim_fresh_def sim0_def budget_def lb_budget_def build_cost_def
        claimed_def sim_service_def)
qed (simp add: tag_ok_def)

text \<open>
  C4: a claimed Service that no longer wants its balancer, because it is being deleted, is of
  another type, or its tenant turned balancers off, is taken down in the end, under the same laws:
  its NodePort rules, its floating IP and its balancer are gone, its ingress is empty, and its
  finalizer is off, so that a deleted Service is gone too. Passes that Octavia answers with a
  conflict fail and are made again; a balancer found in any status is waited for.
\<close>

theorem teardown_completes:
  assumes "cloud_laws E c tenant ns name net K tick V" and "config_stands E L tenant cfg c x V"
    and "leaving ns name cfg svc" and "falling tenant cfg svc vip_port x (V (world s))"
    and "down_budget K (V (world s)) < n"
  shows "wp (passes n tick (reconcile E L tenant ns name)) (\<lambda>_ s'.
     torn_down tenant cfg svc vip_port (V (world s'))) s"
  using assms by (rule tearing_down)

definition sim_going_service :: service where
  "sim_going_service = sim_service\<lparr>s_deleting := True, s_finalizers := [finalizer_name], s_ingress := [''203.0.113.7'']\<rparr>"

definition sim_group :: "rule list" where
  "sim_group =
    [\<lparr>ru_id = ''a'', ru_dir = ''ingress'', ru_ether = ''IPv4'', ru_pmin = 31000, ru_pmax = 31000,
      ru_proto = ''tcp'', ru_cidr = ''10.0.0.0/24'', ru_group = '''',
      ru_desc = ''cozystack:t1/default/web:31000/tcp:10.0.0.0/24''\<rparr>,
     \<lparr>ru_id = ''b'', ru_dir = ''ingress'', ru_ether = ''IPv4'', ru_pmin = 0, ru_pmax = 0,
      ru_proto = '''', ru_cidr = '''', ru_group = ''sg'', ru_desc = ''baseline''\<rparr>]"

lemma sim_group_ok: "group_ok ''t1'' (sim_service\<lparr>s_deleting := d, s_finalizers := fs, s_ingress := ings\<rparr>) sim_group"
  by (simp add: group_ok_def sim_group_def rule_owned_def sim_service_def rule_description_prefix_def has_prefix_def)
     (auto simp: inj_on_def)

text \<open>The balancer is in the middle of an update, so the first pass fails with a conflict.\<close>

definition sim_going :: sim where
  "sim_going = sim0\<lparr>sim_svc := Some sim_going_service, sim_busy := 1,
     sim_lb := Some \<lparr>lb_id = ''lb'', lb_name = sim_lb_name, lb_status = ''PENDING_UPDATE'', lb_oper = ''ONLINE'',
       lb_vip = ''10.0.0.9'', lb_vip_port = ''vip''\<rparr>,
     sim_fips := [(''vip'', \<lparr>fp_id = ''f'', fp_addr = ''203.0.113.7'', fp_desc = sim_lb_name\<rparr>)],
     sim_groups := [\<lparr>sg_id = ''sg'', sg_name = cluster_sg_name ''t1''\<rparr>], sim_rules := map (Pair ''sg'') sim_group,
     sim_site := sim_tenant_site '''' ''''\<rparr>"

lemma sim_going_falling:
  "falling ''t1'' (sim_config '''' '''') sim_going_service ''vip'' (sim_tenant_site '''' '''') (sim_life sim_lb_name sim_going)"
proof -
  have rules: "of_key ''sg'' (map (Pair ''sg'') sim_group) = sim_group" by (simp add: of_key_def comp_def)
  have "is_service sim_going_service (sim_life sim_lb_name sim_going)"
    by (rule is_serviceI(3)) (simp add: sim_life_def sim_going_def sim0_def)
  moreover have "claimed (sim_life sim_lb_name sim_going)"
    by (simp add: claimed_def sim_life_def sim_going_def sim0_def sim_going_service_def)
  ultimately show ?thesis
    using sim_group_ok [where d = True and fs = "[finalizer_name]" and ings = "[''203.0.113.7'']"]
    by (simp add: falling_def sound_parts_def lb_sound_def groups_ok_def worker_group_def cluster_group_def Let_def)
       (simp add: sim_life_def sim_going_def sim0_def of_key_def sim_config_def sim_going_service_def rules comp_def
          status_error_def status_active_def)
qed

theorem teardown_completes_witness:
  "wp (passes 5 sim_tick (reconcile sim_env sim_lib ''t1'' ''default'' ''web'')) (\<lambda>_ s'.
     torn_down ''t1'' (sim_config '''' '''') sim_going_service ''vip'' (sim_life sim_lb_name (world s')))
     (sim_start sim_going)"
proof (rule teardown_completes [OF sim_laws_t1 sim_stands(1)])
  show "leaving ''default'' ''web'' (sim_config '''' '''') sim_going_service"
    by (simp add: leaving_def sim_going_service_def sim_service_def)
  show "falling ''t1'' (sim_config '''' '''') sim_going_service ''vip'' (sim_tenant_site '''' '''')
      (sim_life sim_lb_name (world (sim_start sim_going)))"
    by (simp add: sim_start_def sim_going_falling)
  show "down_budget 1 (sim_life sim_lb_name (world (sim_start sim_going))) < 5"
    by (simp add: sim_start_def sim_life_def sim_going_def sim0_def down_budget_def status_pending_delete_def
        status_active_def)
qed

text \<open>
  C9: whatever the clusters and OpenStack answer, a reconcile that ends without an error asks to
  be run again for a reason: with no delay only if the Service is gone, carries no finalizer of
  the controller, or had its finalizers patched, which is an event of the Service; after 5 seconds
  only with Octavia at work, given a change or showing a balancer that is not active; after 60
  only with an address published in the Service's ingress. There is no other answer.
\<close>

theorem reconcile_requeues:
  "every_run (reconcile E L tenant ns name) (requeue_run tenant ns name)"
  by (rule requeue_runs)

section \<open>The orphan sweeper\<close>

text \<open>
  C5: a tick of the sweeper deletes only what it has evidence against: nothing unless the
  HelmReleases could be listed and one lives; a load balancer, floating IP or security group
  of a cluster that is not among the live ones, or of a Service its own tenant has answered
  NotFound for; a server whose name no live cluster claims; a listed kubeconfig Secret of no
  live cluster. It patches no object.
\<close>

theorem sweeper_deletes_orphans_only:
  "every_run (sweep_tick E L live) tick_run"
  by (rule sweep_tick_runs)

text \<open>
  C6: a tick of the sweeper leaves a live Service alone, whatever else it deletes and whatever
  other actors do meanwhile. Let I be an invariant of the world under which every answer to the
  sweeper is true of what the Service holds, and which every call keeps but a deletion of one of
  its balancers, floating IPs, groups, servers or of its cluster's kubeconfig; then a tick that
  starts with I ends with I, so none of its deletions was such a one.
\<close>

theorem sweeper_spares_the_living:
  assumes "sweep_laws E live h I" and "holding_ok h" and "I (world s)"
  shows "wp (sweep_tick E L live) (\<lambda>_ s'. I (world s')) s"
  using assms(3) tick_maintains [OF assms(1,2), of L] by (simp add: maintains_wp)

text \<open>A Service that is served, beside the rubbish of a dead cluster.\<close>

definition sim_up :: sim where
  "sim_up = sim_littered (sim0\<lparr>sim_svc := Some sim_service,
     sim_lb := Some \<lparr>lb_id = ''lb'', lb_name = sim_lb_name, lb_status = ''ACTIVE'', lb_oper = ''ONLINE'',
       lb_vip = ''10.0.0.9'', lb_vip_port = ''vip''\<rparr>,
     sim_fips := [(''vip'', \<lparr>fp_id = ''f'', fp_addr = ''203.0.113.7'', fp_desc = sim_lb_name\<rparr>)],
     sim_groups := [\<lparr>sg_id = ''sg'', sg_name = cluster_sg_name ''t1''\<rparr>], sim_site := sim_tenant_site '''' ''''\<rparr>)"

lemma sim_up_tended:
  "tended ''t1'' (sim_config '''' '''') sim_service (sim_tenant_site '''' '''') (sim_life sim_lb_name sim_up)"
proof -
  have "is_service sim_service (sim_life sim_lb_name sim_up)"
    by (rule is_serviceI(3)) (simp add: sim_life_def sim_up_def sim_littered_def sim0_def)
  moreover have "tagged (svc_tag ''t1'' sim_service) (sim_life sim_lb_name sim_up)"
    by (auto simp: tagged_def tagged_at_def sim_life_def sim_up_def sim_littered_def sim0_def of_key_def svc_tag_def
        sim_lb_name_def sim_service_def)
  moreover have "lf_rules (sim_life sim_lb_name sim_up) g = []" for g
    by (simp add: sim_life_def sim_up_def sim_littered_def sim0_def of_key_def)
  then have "rules_fine ''t1'' sim_service (sim_config '''' '''') (sim_life sim_lb_name sim_up)"
    by (simp add: rules_fine_def group_ok_def rules_clash_def list_ex_iff)
  moreover have "intact (sim_life sim_lb_name sim_up)"
    by (simp add: intact_def lb_sound_def addresses_ok_def groups_ok_def view_ok_def bal_def)
       (simp add: sim_life_def sim_up_def sim_littered_def sim0_def of_key_def status_active_def status_error_def)
  ultimately show ?thesis by (simp add: tended_def) (simp add: sim_life_def sim_up_def sim_littered_def sim0_def)
qed

lemma sim_up_swept: "map sg_id (sim_groups (world (snd (sweep_tick sim_env sim_lib sim_live (sim_start sim_up))))) = [''sg'']"
  by code_simp

text \<open>The tick deletes the group of the dead cluster.\<close>

theorem sweeper_spares_the_living_witness:
  "wp (sweep_tick sim_env sim_lib sim_live) (\<lambda>_ s'.
     undisturbed ''t1'' (sim_config '''' '''') sim_service [''10.0.0.11''] (sim_life sim_lb_name sim_up)
       (sim_life sim_lb_name (world s'))) (sim_start sim_up) \<and>
   map sg_id (sim_groups (world (snd (sweep_tick sim_env sim_lib sim_live (sim_start sim_up))))) = [''sg'']"
proof (rule conjI [OF _ sim_up_swept], rule sweeper_spares_the_living [where h = "holding_of ''t1'' (sim_config '''' '''') sim_service {} (sim_life sim_lb_name sim_up)"])
  show "sweep_laws sim_env sim_live (holding_of ''t1'' (sim_config '''' '''') sim_service {} (sim_life sim_lb_name sim_up))
      (\<lambda>w. undisturbed ''t1'' (sim_config '''' '''') sim_service [''10.0.0.11''] (sim_life sim_lb_name sim_up) (sim_life sim_lb_name w))"
    by (rule sim_sweep_laws [OF sim_up_tended]) (simp add: sim_lb_name_def svc_tag_def sim_service_def)
  show "holding_ok (holding_of ''t1'' (sim_config '''' '''') sim_service {} (sim_life sim_lb_name sim_up))"
    by (simp add: holding_ok_def holding_of_def tag_ok_def sim_service_def)
  show "undisturbed ''t1'' (sim_config '''' '''') sim_service [''10.0.0.11''] (sim_life sim_lb_name sim_up)
      (sim_life sim_lb_name (world (sim_start sim_up)))"
    by (simp add: sim_start_def undisturbed_refl [OF sim_up_tended])
qed

text \<open>
  A live tenant whose object names a Secret that does not exist: the reconciler takes the finalizer
  off the Service, while its load balancer, floating IP and group stand.
\<close>

definition sim_secretless :: sim where
  "sim_secretless = sim_up\<lparr>sim_svc := Some (sim_service\<lparr>s_finalizers := [finalizer_name]\<rparr>),
     sim_site := (sim_site sim_up)\<lparr>si_ksc := Some ((sim_ksc '''' '''')\<lparr>ko_str :=
       (\<lambda>p. if p = os_field ''existingSecret'' then ''creds'' else '''')\<rparr>)\<rparr>\<rparr>"

theorem missing_secret_leaks:
  "case reconcile sim_env sim_lib ''t1'' ''default'' ''web'' (sim_start sim_secretless) of (r, s') \<Rightarrow>
     r = Inr 0 \<and> map_option s_finalizers (sim_svc (world s')) = Some [] \<and>
     map_option lb_name (sim_lb (world s')) = Some sim_lb_name \<and> ''vip'' \<in> set (map fst (sim_fips (world s'))) \<and>
     map hr_deleting (si_hrs (sim_site (world s'))) = [False]"
  by code_simp

section \<open>The cluster reconciler\<close>

text \<open>
  C7: a reconcile of a HelmRelease deletes only resources of its own cluster, only when the
  HelmRelease is being deleted, and takes its finalizer off, and no other, only after a sweep
  that deleted every listed load balancer of the cluster, or an answer that the tenant's
  object or credentials Secret no longer exists; it adds the finalizer to a live one.
\<close>

theorem cluster_reconcile_safe:
  "every_run (cluster_reconcile E L ns name) (cluster_run ns name)"
  by (rule cluster_reconcile_runs)

text \<open>
  C8: a deleted cluster goes in the end. Under the laws of the API server, Octavia and Neutron,
  with the tenant's configuration standing still and Octavia at work after every pass, boundedly
  many passes over a HelmRelease that is being deleted delete every balancer of the cluster with
  its floating IP, those that Octavia is busy with included, delete the cluster's security group
  unless a port still carries it, and take the finalizer off; until then passes that fail on a
  busy balancer lose nothing, and afterwards more passes change nothing of it.
\<close>

theorem cluster_deletion_completes:
  assumes "ruin_laws E c ns name K tick V"
    and "ruin_steady V x (resolve E L cluster) cfg" "ruin_steady V x (new_clients E (cf_creds cfg)) c"
    and "cluster \<noteq> ''''" "going_down ns name cluster P x (V (world s))"
    and "ruin_budget K cluster (V (world s)) < n"
  shows "wp (passes n tick (cluster_reconcile E L ns name)) (\<lambda>_ s'. cluster_gone cluster P (V (world s'))) s"
  using assms by (rule cluster_goes)

text \<open>A HelmRelease that is being deleted, with a balancer that Octavia is busy with.\<close>

definition sim_dying :: sim where
  "sim_dying = sim0\<lparr>
     sim_lb := Some \<lparr>lb_id = ''lb'', lb_name = sim_lb_name, lb_status = ''PENDING_UPDATE'', lb_oper = ''ONLINE'',
       lb_vip = ''10.0.0.9'', lb_vip_port = ''vip''\<rparr>,
     sim_busy := 1,
     sim_fips := [(''vip'', \<lparr>fp_id = ''f'', fp_addr = ''203.0.113.7'', fp_desc = sim_lb_name\<rparr>)],
     sim_groups := [\<lparr>sg_id = ''sg'', sg_name = cluster_sg_name ''t1''\<rparr>],
     sim_site := (sim_tenant_site '''' '''')\<lparr>si_hrs :=
       [\<lparr>hr_ns = tenant_namespace, hr_name = ''kubernetes-switchcloud-t1'',
          hr_labels = [''apps.cozystack.io/application.name'' \<mapsto> ''t1''],
          hr_finalizers = [cluster_finalizer_name], hr_deleting = True\<rparr>]\<rparr>\<rparr>"

lemma sim_dying_view:
  "sim_ruin ''kubernetes-switchcloud-t1'' sim_dying =
     \<lparr>rn_hr = Some \<lparr>hr_ns = tenant_namespace, hr_name = ''kubernetes-switchcloud-t1'',
        hr_labels = [''apps.cozystack.io/application.name'' \<mapsto> ''t1''],
        hr_finalizers = [cluster_finalizer_name], hr_deleting = True\<rparr>,
      rn_lbs = [\<lparr>lb_id = ''lb'', lb_name = sim_lb_name, lb_status = ''PENDING_UPDATE'', lb_oper = ''ONLINE'',
        lb_vip = ''10.0.0.9'', lb_vip_port = ''vip''\<rparr>],
      rn_busy = (\<lambda>_. 0)(''lb'' := 1),
      rn_fips = (\<lambda>_. [])(''vip'' := [\<lparr>fp_id = ''f'', fp_addr = ''203.0.113.7'', fp_desc = sim_lb_name\<rparr>]),
      rn_groups = [\<lparr>sg_id = ''sg'', sg_name = cluster_sg_name ''t1''\<rparr>], rn_pinned = {},
      \<dots> = (Some (sim_ksc '''' ''''), [])\<rparr>"
  by (auto simp: sim_ruin_def sim_dying_def sim0_def sim_tenant_site_def of_key_def busy_of_def fun_eq_iff)

lemma sim_dying_goes:
  "going_down tenant_namespace ''kubernetes-switchcloud-t1'' ''t1'' {''vip''} (Some (sim_ksc '''' ''''), [])
     (sim_ruin ''kubernetes-switchcloud-t1'' sim_dying)"
  "ruin_budget 1 ''t1'' (sim_ruin ''kubernetes-switchcloud-t1'' sim_dying) < 5"
proof -
  let ?v = "sim_ruin ''kubernetes-switchcloud-t1'' sim_dying"
  have name: "has_prefix sim_lb_name (managed_name_prefix @ ''t1'' @ ''/'')" by code_simp
  then have lbs: "cluster_lbs ''t1'' ?v = rn_lbs ?v" by (simp add: cluster_lbs_def sim_dying_view)
  have open_: "\<not> let_go ?v" by (simp add: let_go_def sim_dying_view)
  have "ruin_ok ''t1'' ?v" "ports_kept ''t1'' {''vip''} ?v"
    unfolding ruin_ok_def ports_kept_def lbs
    by (simp_all add: sim_dying_view at_work_def resting_def going_def status_active_def status_error_def
        status_pending_delete_def)
  then show "going_down tenant_namespace ''kubernetes-switchcloud-t1'' ''t1'' {''vip''} (Some (sim_ksc '''' ''''), []) ?v"
    unfolding going_down_def using open_ by (simp add: sim_dying_view str_at_def app_name_label_def)
  show "ruin_budget 1 ''t1'' ?v < 5"
    using open_ by (simp add: ruin_budget_def load_def mine_ids_def lbs) (simp add: sim_dying_view weight_def)
qed

theorem cluster_deletion_completes_witness:
  "wp (passes 5 sim_tick (cluster_reconcile sim_env sim_lib tenant_namespace ''kubernetes-switchcloud-t1''))
     (\<lambda>_ s'. cluster_gone ''t1'' {''vip''} (sim_ruin ''kubernetes-switchcloud-t1'' (world s'))) (sim_start sim_dying)"
proof (rule cluster_deletion_completes [OF sim_ruin_laws sim_ruin_config(1)])
  show "ruin_steady (sim_ruin ''kubernetes-switchcloud-t1'') (Some (sim_ksc '''' ''''), [])
      (new_clients sim_env (cf_creds (sim_config '''' ''''))) sim_clients"
    using sim_ruin_config(2) by (simp add: sim_config_def)
qed (simp_all add: sim_start_def sim_dying_goes(1) sim_dying_goes(2) [unfolded One_nat_def])

section \<open>Tenant sessions\<close>

text \<open>
  C10: a pass over the kubeconfig Secrets keeps the session of every tenant whose kubeconfig has
  not changed, stops, before it builds anything, exactly the sessions whose Secret is gone or
  changed, and leaves for every other tenant of a Secret either no session or one built from
  that Secret's kubeconfig and started, and no session for any other tenant.
\<close>

theorem session_pass_converges:
  assumes "sessions_ok sessions"
  shows "every_run (reconcile_all M hash sessions) (pass_run hash sessions)"
  using assms by (rule reconcile_all_runs)

definition sim_sessions :: "(string \<times> session) list" where
  "sim_sessions = [(''t1'', (new_session ''t1'' ''h'' 1)\<lparr>se_cancel := True\<rparr>)]"

definition sim_mc :: "nat mc_env" where
  "sim_mc = \<lparr>mc_secret_informer = (\<lambda>w. (None, w)), mc_secret_handler = (\<lambda>w. (None, w)), mc_secrets = (\<lambda>w. (Inr [], w)), mc_parse = (\<lambda>k w. (None, w)), mc_cluster = (\<lambda>k w. (Inr w, Suc w)),
     mc_sync = (\<lambda>i w. (True, w)), mc_informer = (\<lambda>i w. (None, w)), mc_handler = (\<lambda>i w. (None, w)),
     mc_services = (\<lambda>i w. (Inr [], w)), mc_get = (\<lambda>i w. (None, w)), mc_do = (\<lambda>x w. ((), w)),
     mc_seed = (\<lambda>w. ([], w))\<rparr>"

theorem session_pass_converges_witness:
  "every_run (reconcile_all sim_mc id sim_sessions) (pass_run id sim_sessions)"
  by (rule session_pass_converges) (simp add: sessions_ok_def sim_sessions_def new_session_def)

text \<open>
  C11: whatever passes, failed starts, publications and shutdowns interleave, the session map has
  one running session per tenant under its own name, no published session is stopped, and once
  no pass is under way every session that was started and not stopped is in the map.
\<close>

theorem sessions_never_leak:
  assumes "mgr_reachable m"
  shows "sessions_ok (mg_sessions m) \<and> distinct (map_ids (mg_sessions m)) \<and>
    set (map_ids (mg_sessions m)) \<inter> mg_stopped m = {} \<and>
    (mg_passes m = [] \<longrightarrow> mg_started m - mg_stopped m = set (map_ids (mg_sessions m)))"
  using assms by (rule mgr_no_leak)

definition sim_mgr :: mgr where
  "sim_mgr = \<lparr>mg_sessions = [(''t1'', started_session ''t1'' \<lparr>sp_kubeconfig = ''k'', sp_hash = ''h''\<rparr> 1)],
     mg_passes = [], mg_started = {1}, mg_stopped = {}\<rparr>"

lemma sim_mgr_reachable: "mgr_reachable sim_mgr"
proof -
  let ?w = "\<lparr>sp_kubeconfig = ''k'', sp_hash = ''h''\<rparr>"
  let ?s = "started_session ''t1'' ?w 1"
  have 1: "mgr_reachable (mgr_start\<lparr>mg_sessions := [], mg_passes := [Stopping [] [(''t1'', ?w)]]\<rparr>)"
    using reach_step [OF reach_start step_diff [of "[(''t1'', ?w)]" "[]" mgr_start]]
    by (simp add: mgr_start_def kept_sessions_def stale_sessions_def to_build_def)
  have 2: "mgr_reachable (mgr_start\<lparr>mg_passes := [Building [(''t1'', ?w)] []]\<rparr>)"
    using reach_step [OF 1 step_stopped [of _ "[]" "[(''t1'', ?w)]" "[]"]] by (simp add: mgr_start_def)
  have 3: "mgr_reachable (mgr_start\<lparr>mg_passes := [Building [] [(''t1'', ?s)]], mg_started := {1}\<rparr>)"
    using reach_step [OF 2 step_build [of _ "[]" "''t1''" ?w "[]" "[]" "[]" 1]] by (simp add: mgr_start_def)
  show ?thesis
    using reach_step [OF 3 step_publish [of _ "[]" "[(''t1'', ?s)]" "[]" "[(''t1'', ?s)]" "{}"]]
    by (simp add: mgr_start_def sim_mgr_def publish_entry_def)
qed

theorem sessions_never_leak_witness:
  "mg_started sim_mgr - mg_stopped sim_mgr = set (map_ids (mg_sessions sim_mgr)) \<and> map_ids (mg_sessions sim_mgr) = [1]"
  using sessions_never_leak [OF sim_mgr_reachable]
  by (simp add: sim_mgr_def map_ids_def started_session_def new_session_def)

text \<open>
  C12: the sessions follow the Secrets through the event loop, whatever changes arrive while a pass
  runs and however late their events: the map never holds a session twice, under a foreign name or
  stopped; once no event is on its way and none waits in the channel, a pass under way applies the
  Secrets as they are now, and if the loop rests and its latest pass could list the Secrets, no
  session of the map is stale: each is of a tenant with a kubeconfig Secret, and of its current
  kubeconfig. So a channel of one place, filled by every event and emptied before the listing,
  forgets no change.
\<close>

theorem sessions_follow_secrets:
  assumes "watch_reachable hash s"
  shows "sessions_ok (ws_sessions s) \<and> (calm s \<longrightarrow>
    (\<forall>secrets. ws_phase s = Applying secrets \<longrightarrow> secrets = ws_secrets s) \<and>
    (ws_phase s = Resting \<and> \<not> ws_failed s \<longrightarrow>
       stale_sessions (desired_sessions hash (ws_secrets s)) (ws_sessions s) = []))"
  using assms by (rule sessions_follow)

text \<open>The kubeconfig of a tenant is replaced after a pass has listed it.\<close>

definition sim_kubeconfig :: "string \<Rightarrow> secret" where
  "sim_kubeconfig k = \<lparr>sec_ns = tenant_namespace, sec_name = ''kubernetes-switchcloud-t1-admin-kubeconfig'',
     sec_data = [kubeconfig_secret_key \<mapsto> k]\<rparr>"

definition sim_watched :: watch_state where
  "sim_watched = \<lparr>ws_secrets = [sim_kubeconfig ''new''], ws_unseen = False, ws_slot = False, ws_phase = Resting,
     ws_sessions = [(''t1'', started_session ''t1'' \<lparr>sp_kubeconfig = ''new'', sp_hash = ''new''\<rparr> 2)], ws_failed = False\<rparr>"

lemma sim_desired:
  "k \<noteq> '''' \<Longrightarrow> desired_sessions id [sim_kubeconfig k] = [(''t1'', \<lparr>sp_kubeconfig = k, sp_hash = k\<rparr>)]"
proof -
  have "is_kubeconfig_secret_name ''kubernetes-switchcloud-t1-admin-kubeconfig''"
    "tenant_from_secret_name ''kubernetes-switchcloud-t1-admin-kubeconfig'' = ''t1''" by code_simp+
  then show "k \<noteq> '''' \<Longrightarrow> desired_sessions id [sim_kubeconfig k] = [(''t1'', \<lparr>sp_kubeconfig = k, sp_hash = k\<rparr>)]"
    by (simp add: desired_sessions_def sim_kubeconfig_def secret_tenant_def secret_kubeconfig_def)
qed

lemma sim_pass:
  assumes "k \<noteq> ''''" "sessions = [] \<or> sessions = [(''t1'', started_session ''t1'' \<lparr>sp_kubeconfig = ''old'', sp_hash = ''old''\<rparr> 1)] \<and> k = ''new''"
  shows "\<exists>evs. pass_run id sessions (TenantSecrets (Inr [sim_kubeconfig k]) # evs)
     (Inr [(''t1'', started_session ''t1'' \<lparr>sp_kubeconfig = k, sp_hash = k\<rparr> i)])"
proof -
  let ?d = "desired_sessions id [sim_kubeconfig k]" and ?evs = "[NewCluster k (Inr i), Do (SpawnWorker i)]"
  let ?stops = "stale_sessions ?d sessions" and ?after = "[(''t1'', started_session ''t1'' \<lparr>sp_kubeconfig = k, sp_hash = k\<rparr> i)]"
  have ok: "sessions_ok ?after" by (simp add: sessions_ok_def started_session_def new_session_def)
  have e: "\<forall>t. entry_after ?evs ?d sessions t (map_of ?after t)"
    using assms by (auto simp: sim_desired entry_after_def fresh_entry_def started_session_def new_session_def)
  have "pass_run id sessions (TenantSecrets (Inr [sim_kubeconfig k]) # concat (map stop_events ?stops) @ ?evs) (Inr ?after)"
    unfolding pass_run_def
    by (intro exI [of _ "Inr [sim_kubeconfig k]"] exI [of _ "concat (map stop_events ?stops) @ ?evs"] conjI refl, simp only: sum.case,
        intro exI [of _ ?stops] exI [of _ ?evs] exI [of _ ?after] conjI refl ok e)
  then show ?thesis by blast
qed

lemma sim_watched_reachable: "watch_reachable id sim_watched"
proof -
  let ?old = "[sim_kubeconfig ''old'']" and ?new = "[sim_kubeconfig ''new'']"
  let ?s1 = "[(''t1'', started_session ''t1'' \<lparr>sp_kubeconfig = ''old'', sp_hash = ''old''\<rparr> 1)]"
  let ?s2 = "[(''t1'', started_session ''t1'' \<lparr>sp_kubeconfig = ''new'', sp_hash = ''new''\<rparr> 2)]"
  let ?st = "\<lambda>secrets unseen slot phase sessions. \<lparr>ws_secrets = secrets, ws_unseen = unseen, ws_slot = slot,
    ws_phase = phase, ws_sessions = sessions, ws_failed = False\<rparr>"
  obtain evs1 where p1: "pass_run id [] (TenantSecrets (Inr ?old) # evs1) (Inr ?s1)" using sim_pass [of "''old''" "[]" 1] by auto
  obtain evs2 where p2: "pass_run id ?s1 (TenantSecrets (Inr ?new) # evs2) (Inr ?s2)" using sim_pass [of "''new''" ?s1 2] by auto
  have "watch_reachable id (?st ?old False False Listing [])"
    using watch_reach_start [of id ?old False] by (simp add: watch_start_def)
  from watch_reach_step [OF this listed] have "watch_reachable id (?st ?old False False (Applying ?old) [])" by simp
  from watch_reach_step [OF this secrets_change [of _ _ ?new]] have "watch_reachable id (?st ?new True False (Applying ?old) [])" by simp
  from watch_reach_step [OF this applied [where secrets = ?old and evs = evs1 and after = ?s1]] p1 have "watch_reachable id (?st ?new True False Resting ?s1)" by simp
  from watch_reach_step [OF this event_handled [of _ _ False]] have "watch_reachable id (?st ?new False True Resting ?s1)"
    by (simp add: signal_wake_def)
  from watch_reach_step [OF this woken] have "watch_reachable id (?st ?new False False Listing ?s1)" by simp
  from watch_reach_step [OF this listed] have "watch_reachable id (?st ?new False False (Applying ?new) ?s1)" by simp
  from watch_reach_step [OF this applied [where secrets = ?new and evs = evs2 and after = ?s2]] p2 show ?thesis by (simp add: sim_watched_def)
qed

theorem sessions_follow_secrets_witness:
  "map (se_hash \<circ> snd) (ws_sessions sim_watched) = [''new''] \<and>
   stale_sessions (desired_sessions id (ws_secrets sim_watched)) (ws_sessions sim_watched) = []"
  using sessions_follow_secrets [OF sim_watched_reachable]
  by (simp add: sim_watched_def calm_def started_session_def new_session_def)

text \<open>
  C13: the worker of a tenant's session takes one request at a time, runs the Service reconciler
  on it once, within the reconciler's contract, and answers the queue: retry with back-off after
  an error, again after the time asked for, or forget, and then done, always; it ends only when
  the queue is shut down.
\<close>

theorem worker_handles_each_request:
  "every_run (run_worker n M s (\<lambda>q. reconcile E L tenant (rq_ns q) (rq_name q)))
     (\<lambda>evs r. \<exists>alive. r = Inr alive \<and>
        worker_trace (\<lambda>q. reconcile_run tenant (rq_ns q) (rq_name q)) (se_id s) n evs alive)"
  by (rule service_worker.run_worker_runs)

text \<open>
  C14: a change of a tenant's configuration enqueues exactly the Services of the tenant that the
  reconciler claims; without a session, or outside the tenant namespace, it does nothing.
\<close>

theorem ksc_change_enqueues_claimed:
  "every_run (ksc_watch M sessions q) (ksc_run sessions q)"
  by (rule ksc_watch_runs)

text \<open>
  C15: a session that starts has synced its cache, registered its handler and spawned one resync
  loop and one worker, last; one that fails to start has cancelled, last, and spawned neither.
\<close>

theorem session_start_all_or_nothing: "every_run (session_start M s) (start_run s)"
  by (rule session_start_runs)

section \<open>NodePort rules\<close>

text \<open>
  C16: a pass over the NodePort rules of a Service that ends without an error leaves exactly
  one owned key per NodePort and allowed CIDR and every other rule of the group untouched. It
  ends with an error only for an empty group id or CIDR list, a failed call, or a clash: a rule
  of another owner that matches the same packets, which Neutron refuses to duplicate.
\<close>

theorem node_port_rules_settle:
  assumes "neutron_rules E c sgid V" and "group_ok tenant svc (V (world s))"
  shows "wp (ensure_node_port_rules E c sgid tenant svc cidrs)
    (\<lambda>r s'. case r of
        Inr _ \<Rightarrow> rules_settled tenant svc cidrs (V (world s)) (V (world s')) \<and> group_ok tenant svc (V (world s'))
      | Inl e \<Rightarrow> sgid = '''' \<or> cidrs = [] \<or> rules_clash tenant svc cidrs (V (world s)) \<or>
          \<not> rules_reliable E c sgid V) s"
  using assms by (rule ensure_rules_settle)

theorem node_port_rules_settle_witness:
  "\<exists>r s'. ensure_node_port_rules sim_env sim_clients ''sg'' ''t1'' sim_service [''10.0.0.0/24'']
       (sim_start (sim0\<lparr>sim_rules := map (Pair ''sg'') sim_group\<rparr>)) = (Inr r, s') \<and>
     rules_settled ''t1'' sim_service [''10.0.0.0/24''] sim_group (of_key ''sg'' (sim_rules (world s')))"
proof -
  let ?V = "\<lambda>w. lf_rules (sim_life '''' w) ''sg''" and ?w = "sim0\<lparr>sim_rules := map (Pair ''sg'') sim_group\<rparr>"
  have start: "?V (world (sim_start ?w)) = sim_group" by (simp add: sim_start_def sim_life_def of_key_def comp_def)
  have ok: "group_ok ''t1'' sim_service (?V (world (sim_start ?w)))"
    using sim_group_ok [where d = False and fs = "[]" and ings = "[]"] by (simp add: start) (simp add: sim_service_def)
  have free: "\<not> rules_clash ''t1'' sim_service [''10.0.0.0/24''] sim_group"
    by (simp add: rules_clash_def desired_keys_def sim_service_def sim_group_def rule_match_def desired_rule_def)
  note law = sim_rule_laws [where c = sim_clients and n = "''''"] sim_reads [where c = sim_clients and n = "''''"]
  from node_port_rules_settle [OF group_rules(1) [OF law] ok, of "[''10.0.0.0/24'']"]
  show ?thesis
    unfolding start using free group_rules(2) [OF law, of "''sg''"]
    by (auto simp: wp_def sim_life_def split: prod.splits sum.splits)
qed

text \<open>
  C17: the Services of a cluster share its security group, and a NodePort may have moved from one
  to another: the rule of its former owner then blocks the new one, whose passes fail until the
  former owner has deleted it. Let the Services have names without separators, no two of them one
  name or one NodePort, and let no rule of nobody's stand where one is wanted. Then after one
  round of passes over all of them, in any order and whether they fail or not, every pass of a
  second round succeeds, in any order; at its end each Service owns exactly one rule per wanted
  key, and the rules of nobody's are as they were.
\<close>

theorem node_ports_hand_over:
  assumes "neutron_rules E c sgid V" and "rules_reliable E c sgid V" and "rules_atomic E c sgid V" and "sgid \<noteq> ''''"
    and "shared_ok as (V (world s))" and "set bs = set as" and "set cs = set as"
  shows "wp (bind (round_of E c sgid bs) (\<lambda>_. foreach cs (claim_pass E c sgid))) (\<lambda>r s'. r = Inr () \<and>
     strangers as (V (world s')) = strangers as (V (world s)) \<and>
     (\<forall>a\<in>set as. claim_held a (V (world s')) = claim_keys a \<and> group_ok (ca_tenant a) (ca_svc a) (V (world s')))) s"
  using assms by (rule shared_rounds)

text \<open>
  The rule of NodePort 31000 is still the Service web's, which has moved to 30080; the port is api's now.
\<close>

definition sim_api :: service where
  "sim_api = sim_service\<lparr>s_name := ''api'', s_ports := [\<lparr>p_name = ''http'', p_port = 80, p_nodeport = 31000, p_proto = ''TCP''\<rparr>]\<rparr>"

definition sim_claims :: "claim list" where
  "sim_claims = map (\<lambda>svc. \<lparr>ca_tenant = ''t1'', ca_svc = svc, ca_cidrs = [''10.0.0.0/24'']\<rparr>) [sim_api, sim_service]"

lemma sim_claims_ok: "shared_ok sim_claims sim_group"
proof -
  have "apart sim_claims"
    by (simp add: apart_def sim_claims_def claim_ok_def claim_keys_def desired_keys_def sim_api_def sim_service_def)
  moreover have "strangers_fine sim_claims sim_group"
    by (simp add: strangers_fine_def sim_claims_def sim_group_def claim_owned_def rule_owned_def sim_api_def sim_service_def
        rule_description_prefix_def has_prefix_def claim_keys_def desired_keys_def desired_rule_def rule_match_def)
  moreover have "group_ok ''t1'' svc sim_group" if "svc \<in> {sim_api, sim_service}" for svc
    using that by (auto simp: group_ok_def sim_group_def rule_owned_def sim_service_def sim_api_def rule_description_prefix_def
        has_prefix_def inj_on_def)
  ultimately show ?thesis by (simp add: shared_ok_def) (simp add: sim_claims_def)
qed

theorem node_ports_hand_over_witness:
  "wp (bind (round_of sim_env sim_clients ''sg'' sim_claims) (\<lambda>_. foreach (rev sim_claims) (claim_pass sim_env sim_clients ''sg'')))
     (\<lambda>r s'. r = Inr () \<and> strangers sim_claims (of_key ''sg'' (sim_rules (world s'))) = strangers sim_claims sim_group \<and>
       (\<forall>a\<in>set sim_claims. claim_held a (of_key ''sg'' (sim_rules (world s'))) = claim_keys a \<and>
          group_ok (ca_tenant a) (ca_svc a) (of_key ''sg'' (sim_rules (world s')))))
     (sim_start (sim0\<lparr>sim_rules := map (Pair ''sg'') sim_group\<rparr>))"
proof -
  note law = sim_rule_laws [where c = sim_clients and n = "''''"] sim_reads [where c = sim_clients and n = "''''"]
  let ?s = "sim_start (sim0\<lparr>sim_rules := map (Pair ''sg'') sim_group\<rparr>)"
  have start: "lf_rules (sim_life '''' (world ?s)) ''sg'' = sim_group" by (simp add: sim_start_def sim_life_def of_key_def comp_def)
  have "shared_ok sim_claims (lf_rules (sim_life '''' (world ?s)) ''sg'')" by (simp only: start sim_claims_ok)
  from node_ports_hand_over [OF group_rules [OF law] _ this, of sim_claims "rev sim_claims", unfolded start]
  show ?thesis by (simp add: sim_life_def)
qed

text \<open>
  C18: every change a pass over the NodePort rules makes follows one listing of the group: it
  deletes a listed rule of this Service whose key is not desired, or creates a desired key
  that no listed rule of the Service has.
\<close>

theorem node_port_rule_changes_own:
  "every_run (ensure_node_port_rules E c sgid tenant svc cidrs)
     (\<lambda>evs r. rule_changes c sgid tenant svc cidrs evs)"
  by (rule ensure_rules_runs)

text \<open>
  C19: deleting the NodePort rules of a Service deletes listed rules of that Service only, and
  when it ends without an error it has deleted a rule for every key the Service owned.
\<close>

theorem node_port_rules_deleted:
  "every_run (delete_node_port_rules E c sgid tenant svc) (rule_deletes c sgid tenant svc)"
  by (rule delete_rules_runs)

text \<open>
  Two Services whose names hold no separator never own each other's rules: the
  description of a rule starts with the prefix of its own Service and of no other.
\<close>

theorem rule_owner_unique:
  assumes "CHR ''/'' \<notin> set t" "CHR ''/'' \<notin> set (s_ns svc)" "CHR '':'' \<notin> set (s_name svc)"
    and "CHR ''/'' \<notin> set t'" "CHR ''/'' \<notin> set (s_ns svc')" "CHR '':'' \<notin> set (s_name svc')"
    and "CHR ''/'' \<notin> set (s_name svc)" "CHR ''/'' \<notin> set (s_name svc')"
  shows "has_prefix (rule_description t svc k) (rule_description_prefix t' svc') \<longleftrightarrow>
     t = t' \<and> s_ns svc = s_ns svc' \<and> s_name svc = s_name svc'"
  using assms by (rule rule_description_owner)

theorem rule_owner_unique_witness:
  "\<not> has_prefix (rule_description ''t1'' sim_service \<lparr>rk_port = 30080, rk_proto = ''tcp'', rk_cidr = ''0.0.0.0/0''\<rparr>)
     (rule_description_prefix ''t1'' (sim_service\<lparr>s_name := ''we''\<rparr>))"
  by (subst rule_owner_unique) (simp_all add: sim_service_def)

section \<open>Load balancers and floating IPs\<close>

text \<open>
  C20: a pass over listeners, pools and members is reads followed by at most one mutation, its
  last call, and asks to be called again exactly when it made one or the balancer was not active.
\<close>

theorem sync_is_single_step:
  "every_run (sync_listeners_and_members E c b svc ips subnet) (sync_run b)"
  by (rule sync_runs)

text \<open>
  C21: deleting the load balancer of a Service reports it gone only when the listing by its
  name shows none; it removes the floating IP of the VIP port first, deletes only the listed
  balancer, and does not repeat a delete in progress.
\<close>

theorem delete_lb_safe:
  "every_run (delete_lb E c tenant svc) (delete_lb_run c (service_lb_name tenant (s_ns svc) (s_name svc)))"
  by (rule delete_lb_runs)

text \<open>
  C22: ensuring the load balancer of a Service creates at most one, of the Service's name, on
  a non-empty network and only when the listing by that name shows none. It answers the listed
  balancer, as pending unless it is ACTIVE, but an error when it is in ERROR; so an error without a
  create means that, a failed listing or an empty network. The balancer it creates is answered as
  pending whatever status the create reports, and judged by the next listing.
\<close>

theorem ensure_lb_safe:
  "every_run (ensure_lb E c tenant svc net prov)
     (ensure_lb_run c (service_lb_name tenant (s_ns svc) (s_name svc)))"
  by (rule ensure_lb_runs)

text \<open>
  At most one floating IP is created for a VIP port, and only when a listing of that port
  shows none; the address answered is the listed or the created one's.
\<close>

theorem ensure_floating_ip_safe:
  "every_run (ensure_floating_ip E c port net sub desc) (fip_run c port net sub desc)"
  by (rule ensure_floating_ip_runs)

text \<open>
  C23: the check for drift of a pool's members is exact when no two members share an address:
  it holds precisely when the members are not the worker addresses on the NodePort and subnet.
\<close>

theorem member_drift_exact:
  assumes "distinct (map mb_addr ms)"
  shows "member_drift ms nodeport ips subnet \<longleftrightarrow> \<not> members_in_place ms nodeport ips subnet"
  using assms by (rule drift_exact)

theorem member_drift_exact_witness:
  "member_drift [\<lparr>mb_addr = ''10.0.0.11'', mb_port = 30081, mb_subnet = ''sub4''\<rparr>] 30080 [''10.0.0.11''] ''sub4'' \<longleftrightarrow>
     \<not> members_in_place [\<lparr>mb_addr = ''10.0.0.11'', mb_port = 30081, mb_subnet = ''sub4''\<rparr>] 30080 [''10.0.0.11''] ''sub4''"
  by (rule member_drift_exact) simp

section \<open>Worker ports\<close>

text \<open>
  C24: taking the project's default security group off the worker ports updates only listed
  ports, removes no other group, and never leaves a port without a group.
\<close>

theorem detach_default_sg_safe:
  "every_run (detach_default_sg E c ips net) (\<lambda>evs r. just (detach_just c) [] evs)"
  by (rule keepsD [OF detach_default_sg_keeps])

text \<open>
  Attaching the cluster security group keeps every group a port had and adds one it had
  not, on listed ports only.
\<close>

theorem attach_sg_safe:
  "every_run (ensure_sg_attached E c sgid ips net) (\<lambda>evs r. just (attach_just c sgid) [] evs)"
  by (rule keepsD [OF ensure_sg_attached_keeps])

section \<open>Configuration\<close>

text \<open>
  C25: resolving a tenant's configuration only reads; an enabled configuration has a worker
  network and at least one allowed CIDR, all canonical, and comes from an object that asks for it; an error
  counts as NotFound only when the object or the credentials Secret was not found.
\<close>

theorem resolve_config_ok: "every_run (resolve E L tenant) (resolve_run tenant)"
  by (rule resolve_runs)

text \<open>
  C26: canonicalising an allowed CIDR again changes nothing, so a rule's stored form always matches the
  configured one; two CIDRs get the same form just when they are the same masked prefix; and
  the colon the security group code looks for tells the family of the address.
\<close>

theorem cidrs_canonical:
  assumes "canon_cidr s = Some c" "canon_cidr t = Some d" "parse_prefix s = Some (ip, n)"
  shows "canon_cidr c = Some c \<and> (c = d \<longleftrightarrow> masked_prefix s = masked_prefix t) \<and>
    ether_type_for c = (case ip of V4 _ \<Rightarrow> ''IPv4'' | V6 _ \<Rightarrow> ''IPv6'')"
  using canon_cidr_stable [OF assms(1)] canon_cidr_unique [OF assms(1,2)] canon_cidr_family [OF assms(1,3)]
  by (auto simp: ether_type_for_def str_contains_char split: ip_addr.splits)

theorem cidrs_canonical_witness:
  "canon_cidr ''10.1.2.3/8'' = Some ''10.0.0.0/8'' \<and> canon_cidr ''10.9.0.0/8'' = Some ''10.0.0.0/8'' \<and>
   canon_cidr ''10.0.0.0/8'' = Some ''10.0.0.0/8'' \<and>
   masked_prefix ''10.1.2.3/8'' = masked_prefix ''10.9.0.0/8'' \<and> ether_type_for ''10.0.0.0/8'' = ''IPv4''"
proof -
  have s: "canon_cidr ''10.1.2.3/8'' = Some ''10.0.0.0/8''" by code_simp
  have t: "canon_cidr ''10.9.0.0/8'' = Some ''10.0.0.0/8''" by code_simp
  have p: "parse_prefix ''10.1.2.3/8'' = Some (V4 [10, 1, 2, 3], 8)" by code_simp
  show ?thesis using cidrs_canonical [OF s t p] s t by simp
qed

text \<open>
  OpenStack clients are built from complete credentials only, with no call made otherwise.
\<close>

theorem clients_need_credentials:
  "every_run (new_clients E creds) (\<lambda>evs r.
     list_all (\<lambda>e. case e of Keystone _ \<Rightarrow> True | _ \<Rightarrow> False) evs \<and>
     (creds_complete creds \<or> evs = []) \<and>
     (case r of Inr c \<Rightarrow> creds_complete creds \<and> cl_creds c = creds | Inl _ \<Rightarrow> True))"
  by (rule every_run_mono [OF new_clients_runs]) blast

section \<open>Cluster sweeps and names\<close>

text \<open>
  The sweep of one cluster deletes only that cluster's load balancers, their floating IPs
  and its security group, and when it ends without an error every listed load balancer of the
  cluster has been deleted.
\<close>

theorem cluster_sweep_safe_and_complete:
  "every_run (sweep_cluster_resources E c cluster) (\<lambda>evs r.
     just (cluster_sweep_just c cluster) [] evs \<and> (case r of Inl _ \<Rightarrow> True | Inr _ \<Rightarrow> swept evs cluster))"
  by (rule every_run_mono [OF every_run_conj [OF yieldsD [OF yields_sweep_cluster] sweep_cluster_complete]])
     (auto split: sum.splits)

text \<open>
  C27: the names of load balancers and the tags of floating IPs are read back exactly: the
  parser accepts what the writer makes of a cluster, namespace and Service name, and nothing else.
\<close>

theorem service_tag_roundtrip:
  assumes "tag_ok t"
  shows "parse_service_from_tag s = Some t \<longleftrightarrow> s = lb_name_of t"
  using assms by (rule lb_tag.dec_Some_eq)

theorem service_tag_roundtrip_witness:
  "parse_service_from_tag ''cozystack:t1/default/web'' = Some (''t1'', ''default'', ''web'')"
  by (subst service_tag_roundtrip) (simp_all add: tag_ok_def lb_name_of_def service_lb_name_def managed_name_prefix_def)

section \<open>The edge router\<close>

text \<open>
  C28: the TLS parser reads no byte out of range, whatever bytes a client sends and however they
  are cut into segments: it answers a host name or an error, and never panics.
\<close>

theorem sni_parser_in_bounds:
  "extract_sni data \<noteq> Panic \<and> parse_client_hello body \<noteq> Panic \<and> parse_sni_extension ext \<noteq> Panic \<and> read_sni c \<noteq> Panic"
  by (simp add: extract_sni_total parse_client_hello_total parse_sni_extension_total read_sni_total)

text \<open>
  C29: a ClientHello written as RFC 8446 and RFC 6066 lay it out, in one record and with any
  session id, cipher suites, compression methods and other extensions, is read back to the first
  host name of its first SNI extension.
\<close>

theorem sni_roundtrip:
  assumes "hello_ok h" "length version = 2" "length len3 = 3"
    and "find (\<lambda>te. fst te = tls_extension_sni) (ch_extensions h) = Some (t, enc_sni names)"
    and "list_all (\<lambda>(t, n). length n < 65536) names"
    and "find (\<lambda>tn. fst tn = tls_sni_type_hostname) names = Some (t', host)"
  shows "extract_sni (enc_record version len3 (enc_body h)) = Val (go_string host)"
  by (rule extract_sni_host [OF assms])

definition sample_hello :: client_hello where
  "sample_hello = \<lparr>ch_head = replicate 34 7, ch_session_id = [1, 2], ch_cipher_suites = [0x13, 0x01],
     ch_compression = [0], ch_extensions = [(10, [0, 2, 0, 29]), (0, enc_sni [(0, [97, 46, 98])])]\<rparr>"

theorem sni_roundtrip_witness:
  "extract_sni (enc_record [3, 3] [0, 0, 63] (enc_body sample_hello)) = Val ''a.b''"
proof -
  have "hello_ok sample_hello"
    by (simp add: hello_ok_def sample_hello_def enc_body_def enc_exts_def enc_ext_def enc_sni_def enc_names_def enc_name_def)
  from sni_roundtrip [OF this, of "[3, 3]" "[0, 0, 63]" 0 "[(0, [97, 46, 98])]" 0 "[97, 46, 98]"]
  have "extract_sni (enc_record [3, 3] [0, 0, 63] (enc_body sample_hello)) = Val (go_string [97, 46, 98])"
    by (simp add: sample_hello_def tls_extension_sni_def tls_sni_type_hostname_def)
  moreover have "go_string [97, 46, 98] = ''a.b''" by code_simp
  ultimately show ?thesis by simp
qed

text \<open>
  C30: handling a connection depends on the bytes the client sends and not on their segments. The
  backend dialled is the router's route for the listener's label and the server name in those
  bytes; it receives the whole stream from the first byte, up to a failed write, and the client
  receives what the backend sends; both write sides are then closed and the client's connection
  always is. Without a server name, a route or a backend the connection is closed and no byte sent.
\<close>

theorem handle_proxies:
  "handle dial half room r label c =
     Val (proxied dial half room (backend r label) (stream_sni (pending_bytes c) (cn_error c)) (pending_bytes c))"
  by (rule handle_proxied)

text \<open>
  C31: whatever Services are added, updated and deleted, and in whatever order the router's maps
  are ranged over, a route leads to the backend that a Service alive under the events offers for
  that label and host: no route outlives its Service, its hostname, its label or its port.
\<close>

theorem routes_are_live:
  assumes "events_ok evs" and "backend (fold on_event evs (init_router ls)) l h = Some b"
  shows "\<exists>svc. live_services evs (svc_key svc) = Some svc \<and> offer (label_ports ls) svc l = Some (h, b)"
  by (rule routes_live [OF assms])

definition sample_listener :: edge_listener where
  "sample_listener = \<lparr>li_name = ''trustd'', li_addr = '':50001'', li_label = ''t'', li_target_port = ''''\<rparr>"

definition sample_service :: "string \<Rightarrow> edge_service" where
  "sample_service name = \<lparr>es_ns = ''n'', es_name = name, es_labels = [''t'' \<mapsto> ''true''],
     es_annotations = [annotation_hostname \<mapsto> ''h''], es_ports = [(''trustd'', 50001)]\<rparr>"

lemmas sample_simps =
  sample_listener_def sample_service_def init_router_def on_event_def upsert_def delete_svc_def register_def
  drop_entry_def prior_entries_def svc_key_def owner_prefix_def backend_of_def backend_def str_at_def
  target_port_name_def offer_def label_ports_def live_services_def live_step_def events_ok_def names_ok_def
  annotation_hostname_def has_prefix_def Let_def

theorem routes_are_live_witness:
  "\<exists>svc. live_services [([], [], Added (EdgeService (sample_service ''a'')))] (svc_key svc) = Some svc \<and>
     offer (label_ports [sample_listener]) svc ''t'' = Some (''h'', backend_of (sample_service ''a'') 50001)"
  by (rule routes_are_live) (simp_all add: sample_simps)

text \<open>
  C32: in every reachable state an update of a Service sets, under each configured label it asks
  for, the route of its host to its own backend, removes the routes it held and holds no longer,
  and changes no other route; a deletion removes the routes it holds. Routes that another Service
  has taken over are left to it. So the router refines an abstract table of offers.
\<close>

theorem router_refines_offers:
  "let r = fold on_event evs (init_router ls); ports = label_ports ls in
     (\<forall>l h. backend (upsert ns ms (EdgeService svc) r) l h = offered (offer ports svc l) h (released r svc l h)) \<and>
     (\<forall>k l. owns (upsert ns ms (EdgeService svc) r) k l =
        (if k = svc_key svc then map_option fst (offer ports svc l) else owns r k l)) \<and>
     (\<forall>l h. backend (delete_svc ns (EdgeService svc) r) l h = released r svc l h) \<and>
     (\<forall>k l. owns (delete_svc ns (EdgeService svc) r) k l = (if k = svc_key svc then None else owns r k l))"
  using upsert_laws [OF router_reachable_ok [of ls evs], of "EdgeService svc" svc]
    delete_laws [OF router_reachable_ok [of ls evs], of "EdgeService svc" svc]
  by (simp add: Let_def)

text \<open>
  C33: an update event for a set of live Services, as the informer's resync delivers, in any
  order, leaves a route for every label and host one of them offers.
\<close>

theorem resync_restores_routes:
  assumes "events_ok evs" and "\<forall>x \<in> set xs. live_services evs (svc_key (snd (snd x))) = Some (snd (snd x))"
    and "(ns, ms, svc) \<in> set xs" and "offer (label_ports ls) svc l = Some (h, b)"
  shows "backend (fold on_event (map (\<lambda>(ns, ms, s). (ns, ms, Updated (EdgeService s))) xs)
           (fold on_event evs (init_router ls))) l h \<noteq> None"
  by (rule resync_routes [OF assms])

theorem resync_restores_routes_witness:
  "backend (on_event ([], [], Updated (EdgeService (sample_service ''a'')))
     (fold on_event [([], [], Added (EdgeService (sample_service ''a''))),
        ([], [], Added (EdgeService (sample_service ''b''))), ([], [], Deleted (EdgeService (sample_service ''b'')))]
      (init_router [sample_listener]))) ''t'' ''h'' \<noteq> None"
  using resync_restores_routes [of "[([], [], Added (EdgeService (sample_service ''a''))),
        ([], [], Added (EdgeService (sample_service ''b''))), ([], [], Deleted (EdgeService (sample_service ''b'')))]"
      "[([], [], sample_service ''a'')]" "[]" "[]" "sample_service ''a''" "[sample_listener]" "''t''" "''h''"
      "backend_of (sample_service ''a'') 50001"]
  by (simp add: sample_simps)

text \<open>
  C34: the resync is needed. Whenever, after any events and in any iteration order, two different
  live Services offer the same label and host and the second holds the route, the deletion of the
  second leaves the label and host without a route, although the first is alive and offers it;
  the first one's next update event brings its route back.
\<close>

theorem shadowed_route_lost:
  assumes "events_ok evs" "svc_key a \<noteq> svc_key b"
    and "live_services evs (svc_key a) = Some a" "offer (label_ports ls) a l = Some (h, x)"
    and "live_services evs (svc_key b) = Some b" "offer (label_ports ls) b l = Some (h, y)"
    and "backend (fold on_event evs (init_router ls)) l h = Some y"
    and "gone = evs @ [(ns, ms, Deleted (EdgeService b))]"
  shows "live_services gone (svc_key a) = Some a \<and> backend (fold on_event gone (init_router ls)) l h = None \<and>
    backend (fold on_event (gone @ [(ns', ms', Updated (EdgeService a))]) (init_router ls)) l h = Some x"
  using assms by (rule shadow_lost)

definition sample_gone :: "(nat list \<times> nat list \<times> edge_event) list" where
  "sample_gone = [([], [], Added (EdgeService (sample_service ''a''))), ([], [], Added (EdgeService (sample_service ''b'')))] @
     [([], [], Deleted (EdgeService (sample_service ''b'')))]"

theorem shadowed_route_lost_witness:
  "live_services sample_gone (svc_key (sample_service ''a'')) = Some (sample_service ''a'') \<and>
   backend (fold on_event sample_gone (init_router [sample_listener])) ''t'' ''h'' = None \<and>
   backend (fold on_event (sample_gone @ [([], [], Updated (EdgeService (sample_service ''a'')))])
     (init_router [sample_listener])) ''t'' ''h'' = Some (backend_of (sample_service ''a'') 50001)"
  by (rule shadowed_route_lost [where b = "sample_service ''b''" and y = "backend_of (sample_service ''b'') 50001",
        OF _ _ _ _ _ _ _ sample_gone_def])
     (simp_all add: sample_simps)

text \<open>
  C35: a pass over the node addresses reads the nodes and then the Service, and patches the Service
  at most once. The patch, read as JSON, sets spec.externalIPs and nothing else, to exactly the
  internal, external and annotated addresses of the nodes, each once and sorted, or to null when
  there are none. A LoadBalancer Service is left alone, and so is one that has these addresses
  already, in any order, as long as there is one; a Service without addresses is patched in every
  pass when the nodes have none.
\<close>

theorem external_ips_follow_nodes:
  "every_run (sync_external_ips E ns name) (ip_run ns name)"
  by (rule sync_external_ips_runs)

text \<open>
  C36: whenever node events arrive and however long a pass takes, two passes begin at least the
  debounce interval apart, and an event that arrived after the latest pass began is still in the
  trigger slot or covered by a timer that runs out one interval after the latest pass ended.
\<close>

theorem syncs_are_debounced:
  assumes "sync_reachable s"
  shows "spaced sync_debounce_interval (sy_syncs s) \<and>
    (\<not> sy_dirty s \<or> sy_trigger s \<or> sy_phase s = Waiting (sy_last s + sync_debounce_interval))"
  by (rule sync_debounced [OF assms])

lemma sample_sync_reachable:
  "sync_reachable (begin_sync ((sync_start 0)\<lparr>sy_phase := Waiting 30, sy_now := 30, sy_dirty := True\<rparr>))"
proof -
  let ?s = "sync_start 0"
  have 1: "sync_reachable (?s\<lparr>sy_phase := Idle, sy_last := sy_now ?s\<rparr>)"
    by (rule sync_reach_step [OF sync_reach_start sync_done]) (simp add: sync_start_def)
  from sync_reach_step [OF 1 node_event]
  have 2: "sync_reachable (?s\<lparr>sy_phase := Idle, sy_trigger := True, sy_dirty := True\<rparr>)"
    by (simp add: sync_start_def)
  from sync_reach_step [OF 2 sync_wait]
  have 3: "sync_reachable (?s\<lparr>sy_phase := Waiting 30, sy_dirty := True\<rparr>)"
    by (simp add: sync_start_def sync_debounce_interval_def)
  from sync_reach_step [OF 3 time_passes [of 30]]
  have 4: "sync_reachable (?s\<lparr>sy_phase := Waiting 30, sy_now := 30, sy_dirty := True\<rparr>)"
    by (simp add: sync_start_def)
  show ?thesis
    by (rule sync_reach_step [OF 4 timer_fires [of _ 30]]) simp_all
qed

theorem syncs_are_debounced_witness: "spaced 30 [30, 0 :: int]"
  using syncs_are_debounced [OF sample_sync_reachable]
  by (simp add: begin_sync_def sync_start_def sync_debounce_interval_def)

text \<open>
  The listener flag reads back what its format says, a name, a port in range, a label and an
  optional target port, and appends that listener.
\<close>

theorem listener_flag_roundtrip:
  assumes "CHR '':'' \<notin> set name" "CHR '':'' \<notin> set label" "name \<noteq> ''''" "label \<noteq> ''''" "0 < p" "p \<le> 65535"
  shows "listener_set ls (listener_spec name p label target) =
    Inr (ls @ [\<lparr>li_name = name, li_addr = '':'' @ itoa p, li_label = label,
      li_target_port = (case target of None \<Rightarrow> '''' | Some t \<Rightarrow> t)\<rparr>])"
  by (rule listener_set_spec [OF assms])

theorem listener_flag_roundtrip_witness:
  "listener_set [] (listener_spec ''trustd'' 50001 ''t'' None) =
     Inr [\<lparr>li_name = ''trustd'', li_addr = '':'' @ itoa 50001, li_label = ''t'', li_target_port = ''''\<rparr>]"
  using listener_flag_roundtrip [of "''trustd''" "''t''" 50001 "[]" None] by simp

section \<open>The programs beside the clusters\<close>

text \<open>
  C37: the signing call signs a certificate only for a request that parses and whose signature
  verifies, over the request's own subject, names, addresses and key, with the bundle's CA, for a
  server and not a CA, valid from a minute before one reading of the clock to 365 days after the
  next (server_cert_for states each field); it answers that certificate with the CA's, and an
  error in every other case.
\<close>

theorem certificate_signs_valid_requests:
  "every_run (certificate E C l pem) (certificate_run C l pem)"
  by (rule certificate_runs)

text \<open>
  C38: ensuring the bootstrap token reads its Secret first and creates it at most once, only when
  the API server answers that it is absent. The Secret is the one Kubernetes expects of the token
  id.secret: named after the id, of the bootstrap type in kube-system, with that id, that secret and
  the two usages (secret_of_token). The run ends without an error exactly when the Secret
  exists or was created.
\<close>

theorem bootstrap_token_ensured:
  "every_run (ensure_token E token) (token_run token)"
  by (rule ensure_token_runs)


text \<open>
  C40: the apiserver proxy starts exactly when its upstream has a host and a port, its key pair
  loads, its CA file holds a certificate and it can listen. On every connection it then accepts, it
  dials the upstream only after the client's handshake. Whatever listens there, bytes go in either
  direction only when the peer's certificate is for the upstream's host and leads to a CA of the
  file and its TLS version is 1.2 at least; then both streams are forwarded whole, up to a failed
  write, each followed by the close of its write side. A peer like that which agrees on a protocol
  is talked to, and the client is closed in the end.
\<close>

theorem tls_proxy_forwards:
  "proxy_run net upstream cert_ok pem certs listen_ok conns (run_proxy net upstream cert_ok pem certs listen_ok conns)"
  by (rule run_proxy_runs)

text \<open>
  The two TLS sessions of a proxied connection negotiate their application protocols apart:
  a client of HTTP/1.1 and an upstream of HTTP/2 leave the proxy copying bytes between sessions
  of different protocols, while a client and an upstream that both speak HTTP/2 agree on it.
\<close>

theorem alpn_may_disagree:
  "negotiate next_protos [''http/1.1''] = Inr ''http/1.1'' \<and>
   negotiate [''h2'', ''http/1.1''] next_protos = Inr ''h2'' \<and>
   negotiate next_protos (''h2'' # client) = Inr ''h2'' \<and> negotiate (''h2'' # upstream) next_protos = Inr ''h2''"
  by (simp add: negotiate_def next_protos_def)

end
